(* ===== verification/Prelude.thy ===== *)
theory Prelude
  imports Main "HOL-Library.Word"
begin

text \<open>
  Shared vocabulary of the development: the fixed-width integer types of the C++ code, the
  operations of \<^verbatim>\<open>std::vector\<close> and of index loops that several components use, the generic
  notions of reachable state and inductive invariant, and the list and word lemmas the component
  proofs rest on. The collections \<open>loop_simps\<close> and \<open>vec_simps\<close> gather the facts that component
  proofs hand to the simplifier.
\<close>

unbundle bit_operations_syntax

section \<open>Machine integers\<close>

type_synonym u8 = "8 word"
type_synonym u16 = "16 word"
type_synonym u32 = "32 word"
type_synonym u64 = "64 word"

named_theorems vec_simps \<open>vectors and their element-wise loops\<close>
named_theorems loop_simps \<open>index loops\<close>

section \<open>Vectors\<close>

text \<open>\<^verbatim>\<open>std::vector<T>::resize(k)\<close>: cut, or pad with value-initialised elements.\<close>

definition resize :: "nat \<Rightarrow> 'a::zero list \<Rightarrow> 'a list" where
  "resize k xs = take k xs @ replicate (k - length xs) 0"

text \<open>The loop \<^verbatim>\<open>for (i = 0; i < n; ++i) dst[base + i] = src(i)\<close>.\<close>

definition copy_loop :: "(nat \<Rightarrow> 'a) \<Rightarrow> nat \<Rightarrow> nat \<Rightarrow> 'a list \<Rightarrow> 'a list" where
  "copy_loop src base n dst = fold (\<lambda>i d. d[base + i := src i]) [0..<n] dst"

lemma length_resize [simp]: "length (resize k xs) = k"
  by (simp add: resize_def)

lemma resize_grow [vec_simps]: "length xs \<le> k \<Longrightarrow> resize k xs = xs @ replicate (k - length xs) 0"
  by (simp add: resize_def)

lemma nth_resize [vec_simps]:
  "i < length xs \<Longrightarrow> i < k \<Longrightarrow> resize k xs ! i = xs ! i"
  by (simp add: resize_def nth_append)

lemma copy_loop_0 [simp]: "copy_loop src base 0 dst = dst"
  by (simp add: copy_loop_def)

lemma copy_loop_Suc:
  "copy_loop src base (Suc n) dst = (copy_loop src base n dst)[base + n := src n]"
  by (simp add: copy_loop_def)

lemma length_copy_loop [simp]: "length (copy_loop src base n dst) = length dst"
  by (induction n) (simp_all add: copy_loop_Suc)

lemma nth_copy_loop [vec_simps]:
  assumes "base + n \<le> length dst" "k < length dst"
  shows "copy_loop src base n dst ! k =
    (if base \<le> k \<and> k < base + n then src (k - base) else dst ! k)"
  using assms(1)
proof (induction n)
  case 0
  then show ?case by auto
next
  case (Suc n)
  then show ?case
    using assms(2) by (auto simp: copy_loop_Suc nth_list_update)
qed

section \<open>Decimal text\<close>

text \<open>\<^verbatim>\<open>std::to_string\<close> on unsigned integers.\<close>

fun to_string :: "nat \<Rightarrow> string" where
  "to_string n =
     (if n < 10 then [char_of (48 + n)] else to_string (n div 10) @ [char_of (48 + n mod 10)])"

declare to_string.simps [simp del]

section \<open>Reachable states and inductive invariants\<close>

inductive reach :: "('s \<Rightarrow> bool) \<Rightarrow> ('s \<Rightarrow> 's \<Rightarrow> bool) \<Rightarrow> 's \<Rightarrow> bool"
  for init :: "'s \<Rightarrow> bool" and step :: "'s \<Rightarrow> 's \<Rightarrow> bool" where
  reach_init: "init s \<Longrightarrow> reach init step s"
| reach_step: "reach init step s \<Longrightarrow> step s t \<Longrightarrow> reach init step t"

text \<open>
  The interface between a state machine and its safety theorems: a machine that provides an
  inductive invariant gets it in every reachable state and along every run.
\<close>

locale inductive_invariant =
  fixes init :: "'s \<Rightarrow> bool"
    and step :: "'s \<Rightarrow> 's \<Rightarrow> bool"
    and inv :: "'s \<Rightarrow> bool"
  assumes inv_init: "init s \<Longrightarrow> inv s"
    and inv_step: "inv s \<Longrightarrow> step s t \<Longrightarrow> inv t"
begin

lemma reach_inv: "reach init step s \<Longrightarrow> inv s"
  by (induction rule: reach.induct) (auto intro: inv_init inv_step)

lemma steps_inv: "step\<^sup>*\<^sup>* s t \<Longrightarrow> inv s \<Longrightarrow> inv t"
  by (induction rule: rtranclp_induct) (auto intro: inv_step)

end

section \<open>Lists\<close>

lemma sum_list_update_nat:
  fixes f :: "'a \<Rightarrow> nat"
  assumes "k < length xs"
  shows "sum_list (map f (xs[k := x])) + f (xs ! k) = sum_list (map f xs) + f x"
proof -
  have "xs = take k xs @ xs ! k # drop (Suc k) xs"
    using assms by (simp add: id_take_nth_drop)
  then have "sum_list (map f xs) =
      sum_list (map f (take k xs)) + f (xs ! k) + sum_list (map f (drop (Suc k) xs))"
    by (metis (no_types, lifting) add.assoc list.simps(9) map_append sum_list.Cons sum_list_append)
  then show ?thesis
    using assms by (simp add: upd_conv_take_nth_drop)
qed

lemma sum_list_le_const:
  fixes f :: "'a \<Rightarrow> nat"
  assumes "\<And>x. x \<in> set xs \<Longrightarrow> f x \<le> b"
  shows "sum_list (map f xs) \<le> length xs * b"
  using assms by (induction xs) (auto simp: add_mono)

lemma nth_update_iff: "k < length xs \<Longrightarrow> xs[i := y] ! k = (if i = k then y else xs ! k)"
  by (cases "i = k") auto

lemma take_Suc_update:
  "n < length xs \<Longrightarrow> take (Suc n) (xs[n := v]) = take n xs @ [v]"
  by (simp add: take_Suc_conv_app_nth)

end
