(* ===== verification/PipelineTypes.thy ===== *)
theory PipelineTypes
  imports Prelude
begin

text \<open>
  The error codes, job statuses and result type shared by the whole library:
  \<^verbatim>\<open>include/sub0pipeline/error.hpp\<close>, the enum of \<^verbatim>\<open>include/sub0pipeline/job.hpp\<close>, the hard-error
  policy of \<^verbatim>\<open>include/sub0pipeline/config.hpp\<close> and \<^verbatim>\<open>statusOf\<close> of \<^verbatim>\<open>src/sub0pipeline.cpp\<close>.
\<close>

datatype PipelineError =
    kTimeout | kJobFailed | kCyclicDependency | kUnknownJob | kNotArmed
  | kNotOnDemand | kCancelled | kBusy | kDeadlineUnavailable | kUnavailable

text \<open>The constructor \<open>kCancelledStatus\<close> is \<^verbatim>\<open>JobStatus::kCancelled\<close>.\<close>

datatype JobStatus =
    kPending | kReady | kRunning | kDone | kFailed
  | kSkipped | kTimedOut | kCancelledStatus | kAwaiting

text \<open>\<^verbatim>\<open>std::expected<T, PipelineError>\<close>: \<open>Inl\<close> holds the error.\<close>

type_synonym 'a expected = "PipelineError + 'a"

text \<open>
  What a call does instead of returning: \<open>HardError\<close> is the exception that
  \<^verbatim>\<open>SUB0PIPELINE_THROW\<close> raises, \<open>OutOfRange\<close> is an index outside a vector, for which the C++ code
  has no defined behaviour.
\<close>

datatype cpp_error = HardError string | OutOfRange

type_synonym 'a cpp = "cpp_error + 'a"

definition statusOf :: "unit expected \<Rightarrow> JobStatus" where
  "statusOf result =
     (case result of
        Inr _ \<Rightarrow> kDone
      | Inl e \<Rightarrow>
          (case e of
             kCancelled \<Rightarrow> kCancelledStatus
           | kTimeout \<Rightarrow> kTimedOut
           | _ \<Rightarrow> kFailed))"

text \<open>A job has finished its run once it holds one of these statuses.\<close>

definition terminal :: "JobStatus \<Rightarrow> bool" where
  "terminal s \<longleftrightarrow> s \<in> {kDone, kFailed, kSkipped, kTimedOut, kCancelledStatus}"

lemma statusOf_cases [simp]:
  "statusOf (Inr u) = kDone"
  "statusOf (Inl kCancelled) = kCancelledStatus"
  "statusOf (Inl kTimeout) = kTimedOut"
  "e \<noteq> kCancelled \<Longrightarrow> e \<noteq> kTimeout \<Longrightarrow> statusOf (Inl e) = kFailed"
  by (auto simp: statusOf_def split: PipelineError.split)

lemma terminal_simps [simp]:
  "terminal kDone" "terminal kFailed" "terminal kSkipped" "terminal kTimedOut"
  "terminal kCancelledStatus" "\<not> terminal kPending" "\<not> terminal kReady" "\<not> terminal kRunning"
  "\<not> terminal kAwaiting"
  by (simp_all add: terminal_def)

lemma terminal_statusOf [simp]: "terminal (statusOf r)"
  by (auto simp: statusOf_def split: sum.split PipelineError.split)

lemma statusOf_eq_iff [simp]:
  "statusOf r = kDone \<longleftrightarrow> r = Inr ()"
  "statusOf r \<noteq> kSkipped" "statusOf r \<noteq> kPending" "statusOf r \<noteq> kReady" "statusOf r \<noteq> kRunning"
  "statusOf r \<noteq> kAwaiting"
  "statusOf r = kCancelledStatus \<longleftrightarrow> r = Inl kCancelled"
  by (auto simp: statusOf_def split: sum.split PipelineError.split)

end
