(* ===== verification/Bytes.thy ===== *)
theory Bytes
  imports PipelineTypes
begin

text \<open>
  Bytes on the wire: the little-endian integers that \<^verbatim>\<open>src/remote/wire.cpp\<close>, \<^verbatim>\<open>stream_strategy.cpp\<close> and
  \<^verbatim>\<open>shared_memory.cpp\<close> write and read with the same two loops, and the bytes of a \<^verbatim>\<open>std::string\<close>.
\<close>

type_synonym bytes = "u8 list"

text \<open>\<^verbatim>\<open>for (i = 0; i < n; ++i) out.push_back((v >> (8 * i)) & 0xFF)\<close>\<close>

definition little :: "u64 \<Rightarrow> nat \<Rightarrow> bytes" where
  "little v n = map (\<lambda>i. ucast (drop_bit (8 * i) v AND 0xFF)) [0..<n]"

text \<open>\<^verbatim>\<open>for (i = 0; i < n; ++i) v |= uint64_t(in[i]) << (8 * i)\<close>\<close>

definition unlittle :: "bytes \<Rightarrow> u64" where
  "unlittle bs = fold (\<lambda>i v. v OR push_bit (8 * i) (ucast (bs ! i))) [0..<length bs] 0"

definition byte_of_char :: "char \<Rightarrow> u8" where
  "byte_of_char c = word_of_nat (of_char c)"

definition char_of_byte :: "u8 \<Rightarrow> char" where
  "char_of_byte b = char_of (unat b)"

lemma length_little [simp]: "length (little v n) = n"
  by (simp add: little_def)

lemma char_byte [simp]: "char_of_byte (byte_of_char c) = c"
  by (simp add: char_of_byte_def byte_of_char_def unat_of_nat)

lemma map_char_byte [simp]: "map char_of_byte (map byte_of_char s) = s"
  by (simp add: comp_def)

lemma bit_fold_or:
  "bit (fold (\<lambda>i v. v OR f i) is a) k \<longleftrightarrow> bit a k \<or> (\<exists>i\<in>set is. bit (f i :: u64) k)"
  by (induction "is" arbitrary: a) (auto simp: bit_or_iff)

lemma low_byte: "v AND 0xFF = take_bit 8 v" for v :: u64
  by (simp add: take_bit_eq_mask mask_eq_exp_minus_1)

lemma unlittle_little:
  assumes "n \<le> 8"
  shows "unlittle (little v n) = take_bit (8 * n) v"
proof (rule bit_word_eqI)
  fix k assume k: "k < LENGTH(64)"
  have "bit (unlittle (little v n)) k \<longleftrightarrow>
      (\<exists>i<n. 8 * i \<le> k \<and> bit (ucast (drop_bit (8 * i) v AND 0xFF :: u64) :: u8) (k - 8 * i))"
    using k by (auto simp: unlittle_def bit_fold_or little_def bit_push_bit_iff bit_unsigned_iff)
  also have "\<dots> \<longleftrightarrow> (\<exists>i<n. 8 * i \<le> k \<and> k < 8 * i + 8 \<and> bit v k)"
    unfolding low_byte by (intro ex_cong1) (auto simp: bit_unsigned_iff bit_take_bit_iff bit_drop_bit_eq)
  also have "\<dots> \<longleftrightarrow> bit (take_bit (8 * n) v) k"
  proof -
    have "\<exists>i<n. 8 * i \<le> k \<and> k < 8 * i + 8" if "k < 8 * n"
      using that by (intro exI [of _ "k div 8"]) auto
    then have "(\<exists>i<n. 8 * i \<le> k \<and> k < 8 * i + 8) \<longleftrightarrow> k < 8 * n" by auto
    then show ?thesis by (auto simp: bit_take_bit_iff)
  qed
  finally show "bit (unlittle (little v n)) k = bit (take_bit (8 * n) v) k" .
qed


lemma little_u16 [simp]: "ucast (unlittle (little (ucast v) 2)) = v" for v :: u16
  by (simp add: unlittle_little) (auto intro!: bit_word_eqI simp: bit_unsigned_iff bit_take_bit_iff)

lemma little_u32 [simp]: "ucast (unlittle (little (ucast v) 4)) = v" for v :: u32
  by (simp add: unlittle_little) (auto intro!: bit_word_eqI simp: bit_unsigned_iff bit_take_bit_iff)

lemma little_u64 [simp]: "unlittle (little v 8) = v" for v :: u64
  by (simp add: unlittle_little) (auto intro!: bit_word_eqI simp: bit_unsigned_iff bit_take_bit_iff)

lemma little_u8 [simp]: "ucast (unlittle (little (ucast v) 1)) = v" "little (ucast v) 1 = [v]" for v :: u8
proof -
  show "ucast (unlittle (little (ucast v) 1)) = v"
    by (simp add: unlittle_little) (auto intro!: bit_word_eqI simp: bit_unsigned_iff bit_take_bit_iff)
  show "little (ucast v) 1 = [v]"
    by (auto simp: little_def low_byte intro!: bit_word_eqI simp: bit_unsigned_iff bit_take_bit_iff)
qed

end
