(* ===== verification/Wire.thy ===== *)
theory Wire
  imports Bytes
begin

text \<open>
  The frames of the remote protocol: \<^verbatim>\<open>include/sub0pipeline/remote/wire.hpp\<close>, \<^verbatim>\<open>payload.hpp\<close>,
  \<^verbatim>\<open>subgraph.hpp\<close>, \<^verbatim>\<open>registry.hpp\<close> (\<^verbatim>\<open>JobKindId\<close>) and \<^verbatim>\<open>src/remote/wire.cpp\<close>. A \<^verbatim>\<open>Writer\<close> is the byte
  vector it fills, a \<^verbatim>\<open>Reader\<close> the record below; every encoder and decoder of the file is a
  definition. Enumerations that a decoder takes from the wire unchecked stay the bytes they are.
\<close>

section \<open>Payloads and sub-graphs\<close>

datatype PayloadKind = kNonePayload | kInline | kHandle | kReference

definition kind_code :: "PayloadKind \<Rightarrow> u8" where
  "kind_code k = (case k of kNonePayload \<Rightarrow> 0 | kInline \<Rightarrow> 1 | kHandle \<Rightarrow> 2 | kReference \<Rightarrow> 3)"

definition kMaxHandleBytes :: nat where "kMaxHandleBytes = 64"

text \<open>\<open>pl_owner\<close> names the shared owner of a view; the bytes of a view are those of its storage.\<close>

record Payload =
  pl_kind :: PayloadKind
  pl_own :: bytes
  pl_view :: bytes
  pl_owner :: "nat option"

definition Payload_new :: Payload where
  "Payload_new = \<lparr>pl_kind = kNonePayload, pl_own = [], pl_view = [], pl_owner = None\<rparr>"

definition inlineBytes :: "bytes \<Rightarrow> Payload" where
  "inlineBytes bs = \<lparr>pl_kind = kInline, pl_own = bs, pl_view = [], pl_owner = None\<rparr>"

definition Payload_view :: "bytes \<Rightarrow> nat option \<Rightarrow> Payload" where
  "Payload_view bs own = \<lparr>pl_kind = kInline, pl_own = [], pl_view = bs, pl_owner = own\<rparr>"

definition Payload_handle :: "bytes \<Rightarrow> Payload" where
  "Payload_handle key = \<lparr>pl_kind = kHandle, pl_own = key, pl_view = [], pl_owner = None\<rparr>"

definition Payload_reference :: "bytes \<Rightarrow> Payload" where
  "Payload_reference r = \<lparr>pl_kind = kReference, pl_own = r, pl_view = [], pl_owner = None\<rparr>"

definition payload_bytes :: "Payload \<Rightarrow> bytes" where
  "payload_bytes p = (if pl_owner p \<noteq> None then pl_view p else pl_own p)"

definition payload_eq :: "Payload \<Rightarrow> Payload \<Rightarrow> bool" where
  "payload_eq a b \<longleftrightarrow> pl_kind a = pl_kind b \<and> payload_bytes a = payload_bytes b"

record JobKindId =
  jk_name :: string
  jk_version :: u32

record JobSpec =
  js_kind :: JobKindId
  js_input :: Payload
  js_exported :: bool

record SubGraphRequest =
  rq_jobs :: "JobSpec list"
  rq_edges :: "(u32 \<times> u32) list"

definition SubGraphRequest_new :: SubGraphRequest where
  "SubGraphRequest_new = \<lparr>rq_jobs = [], rq_edges = []\<rparr>"

definition request_add :: "JobKindId \<Rightarrow> Payload \<Rightarrow> bool \<Rightarrow> SubGraphRequest \<Rightarrow> u32 \<times> SubGraphRequest" where
  "request_add kind input exported req =
     (let jobs = rq_jobs req @ [\<lparr>js_kind = kind, js_input = input, js_exported = exported\<rparr>]
      in (word_of_nat (length jobs - 1), req\<lparr>rq_jobs := jobs\<rparr>))"

definition request_edge :: "u32 \<Rightarrow> u32 \<Rightarrow> SubGraphRequest \<Rightarrow> bool \<times> SubGraphRequest" where
  "request_edge from to req =
     (if length (rq_jobs req) \<le> unat from \<or> length (rq_jobs req) \<le> unat to \<or> from = to then (False, req)
      else (True, req\<lparr>rq_edges := rq_edges req @ [(from, to)]\<rparr>))"

definition exportOutput :: "u32 \<Rightarrow> SubGraphRequest \<Rightarrow> SubGraphRequest" where
  "exportOutput job req =
     (if unat job < length (rq_jobs req)
      then req\<lparr>rq_jobs := (rq_jobs req)[unat job := (rq_jobs req ! unat job)\<lparr>js_exported := True\<rparr>]\<rparr> else req)"

text \<open>Status and error of a result are \<^verbatim>\<open>uint8_t\<close> enumerations; a decoder may leave any byte in them.\<close>

definition status_code :: "JobStatus \<Rightarrow> u8" where
  "status_code st = (case st of kPending \<Rightarrow> 0 | kReady \<Rightarrow> 1 | kRunning \<Rightarrow> 2 | kDone \<Rightarrow> 3 | kFailed \<Rightarrow> 4
     | kSkipped \<Rightarrow> 5 | kTimedOut \<Rightarrow> 6 | kCancelledStatus \<Rightarrow> 7 | kAwaiting \<Rightarrow> 8)"

definition error_code :: "PipelineError \<Rightarrow> u8" where
  "error_code e = (case e of kTimeout \<Rightarrow> 0 | kJobFailed \<Rightarrow> 1 | kCyclicDependency \<Rightarrow> 2 | kUnknownJob \<Rightarrow> 3
     | kNotArmed \<Rightarrow> 4 | kNotOnDemand \<Rightarrow> 5 | kCancelled \<Rightarrow> 6 | kBusy \<Rightarrow> 7 | kDeadlineUnavailable \<Rightarrow> 8
     | kUnavailable \<Rightarrow> 9)"

record JobResult =
  jr_status :: u8
  jr_error :: u8
  jr_message :: string
  jr_output :: Payload

definition JobResult_new :: JobResult where
  "JobResult_new = \<lparr>jr_status = status_code kPending, jr_error = error_code kJobFailed, jr_message = [],
     jr_output = Payload_new\<rparr>"

type_synonym SubGraphReply = "JobResult list"

definition is_failure :: "JobResult \<Rightarrow> bool" where
  "is_failure r \<longleftrightarrow> jr_status r = status_code kFailed \<or> jr_status r = status_code kCancelledStatus
     \<or> jr_status r = status_code kTimedOut"

definition firstFailure :: "SubGraphReply \<Rightarrow> nat option" where
  "firstFailure results =
     (case filter (\<lambda>i. is_failure (results ! i)) [0..<length results] of [] \<Rightarrow> None | i # _ \<Rightarrow> Some i)"

section \<open>Frames\<close>

definition kProtocolMajor :: u16 where "kProtocolMajor = 1"
definition kProtocolMinor :: u16 where "kProtocolMinor = 1"
definition kProtocolMagic :: u32 where "kProtocolMagic = 0x4C503053"
definition kMaxJobs :: nat where "kMaxJobs = 65536"
definition kHeaderBytes :: nat where "kHeaderBytes = 5"

datatype FrameType = kHello | kHelloAck | kHelloReject | kRequest | kReply | kCancel | kPayload

definition frame_code :: "FrameType \<Rightarrow> u8" where
  "frame_code t = (case t of kHello \<Rightarrow> 1 | kHelloAck \<Rightarrow> 2 | kHelloReject \<Rightarrow> 3 | kRequest \<Rightarrow> 4 | kReply \<Rightarrow> 5
     | kCancel \<Rightarrow> 6 | kPayload \<Rightarrow> 7)"

definition all_frame_types :: "FrameType list" where
  "all_frame_types = [kHello, kHelloAck, kHelloReject, kRequest, kReply, kCancel, kPayload]"

record StrategyOffer =
  so_name :: string
  so_setup :: bytes

record Hello =
  he_major :: u16
  he_minor :: u16
  he_fingerprint :: u64
  he_maxInFlight :: u32
  he_maxInlineBytes :: u32
  he_strategies :: "StrategyOffer list"

definition Hello_new :: Hello where
  "Hello_new = \<lparr>he_major = kProtocolMajor, he_minor = kProtocolMinor, he_fingerprint = 0, he_maxInFlight = 0,
     he_maxInlineBytes = 0, he_strategies = []\<rparr>"

datatype RejectReason = kVersion | kFingerprint

definition reason_code :: "RejectReason \<Rightarrow> u8" where
  "reason_code r = (case r of kVersion \<Rightarrow> 1 | kFingerprint \<Rightarrow> 2)"

record HelloReject =
  rj_reason :: u8
  rj_detail :: string

section \<open>Writing\<close>

definition Writer_new :: "FrameType \<Rightarrow> bytes" where
  "Writer_new type = (replicate kHeaderBytes 0)[4 := frame_code type]"

definition w_u8 :: "u8 \<Rightarrow> bytes \<Rightarrow> bytes" where "w_u8 v out = out @ [v]"
definition w_u16 :: "u16 \<Rightarrow> bytes \<Rightarrow> bytes" where "w_u16 v out = out @ little (ucast v) 2"
definition w_u32 :: "u32 \<Rightarrow> bytes \<Rightarrow> bytes" where "w_u32 v out = out @ little (ucast v) 4"
definition w_u64 :: "u64 \<Rightarrow> bytes \<Rightarrow> bytes" where "w_u64 v out = out @ little v 8"

definition w_string :: "string \<Rightarrow> bytes \<Rightarrow> bytes" where
  "w_string s out = fold (\<lambda>c out. out @ [byte_of_char c]) s (w_u16 (word_of_nat (length s)) out)"

definition w_blob :: "bytes \<Rightarrow> bytes \<Rightarrow> bytes" where
  "w_blob b out = w_u32 (word_of_nat (length b)) out @ b"

definition w_payload :: "Payload \<Rightarrow> bytes \<Rightarrow> bytes" where
  "w_payload p out = w_blob (payload_bytes p) (w_u8 (kind_code (pl_kind p)) out)"

definition finish :: "bytes \<Rightarrow> bytes" where
  "finish out = copy_loop (\<lambda>i. little (ucast (word_of_nat (length out - kHeaderBytes) :: u32)) 4 ! i) 0 4 out"

section \<open>Reading\<close>

record Reader =
  rd_body :: bytes
  rd_pos :: nat
  rd_ok :: bool

definition Reader_new :: "bytes \<Rightarrow> Reader" where
  "Reader_new body = \<lparr>rd_body = body, rd_pos = 0, rd_ok = True\<rparr>"

definition remaining :: "Reader \<Rightarrow> nat" where
  "remaining r = (if rd_ok r then length (rd_body r) - rd_pos r else 0)"

definition rd_take :: "nat \<Rightarrow> Reader \<Rightarrow> bool \<times> Reader" where
  "rd_take n r =
     (if \<not> rd_ok r \<or> length (rd_body r) - rd_pos r < n then (False, r\<lparr>rd_ok := False\<rparr>)
      else (True, r\<lparr>rd_pos := rd_pos r + n\<rparr>))"

text \<open>The bytes just taken: \<^verbatim>\<open>body_[pos_ - n .. pos_)\<close>.\<close>

definition taken :: "nat \<Rightarrow> Reader \<Rightarrow> bytes" where
  "taken n r = take n (drop (rd_pos r - n) (rd_body r))"

definition rd_little :: "nat \<Rightarrow> Reader \<Rightarrow> u64 \<times> Reader" where
  "rd_little n r = (case rd_take n r of (fine, r1) \<Rightarrow> if fine then (unlittle (taken n r1), r1) else (0, r1))"

definition rd_u8 :: "Reader \<Rightarrow> u8 \<times> Reader" where "rd_u8 r = map_prod ucast id (rd_little 1 r)"
definition rd_u16 :: "Reader \<Rightarrow> u16 \<times> Reader" where "rd_u16 r = map_prod ucast id (rd_little 2 r)"
definition rd_u32 :: "Reader \<Rightarrow> u32 \<times> Reader" where "rd_u32 r = map_prod ucast id (rd_little 4 r)"
definition rd_u64 :: "Reader \<Rightarrow> u64 \<times> Reader" where "rd_u64 r = rd_little 8 r"

definition rd_string :: "Reader \<Rightarrow> string \<times> Reader" where
  "rd_string r =
     (case rd_u16 r of (n, r1) \<Rightarrow>
        case rd_take (unat n) r1 of (fine, r2) \<Rightarrow>
          if fine then (map char_of_byte (taken (unat n) r2), r2) else ([], r2))"

definition rd_blob :: "Reader \<Rightarrow> bytes \<times> Reader" where
  "rd_blob r =
     (case rd_u32 r of (n, r1) \<Rightarrow>
        case rd_take (unat n) r1 of (fine, r2) \<Rightarrow>
          if fine then (taken (unat n) r2, r2) else ([], r2))"

definition rd_payload :: "Reader \<Rightarrow> Payload option \<times> Reader" where
  "rd_payload r =
     (case rd_u8 r of (kind, r1) \<Rightarrow>
        case rd_blob r1 of (data, r2) \<Rightarrow>
          (if \<not> rd_ok r2 then None
           else if kind = kind_code kNonePayload then (if data = [] then Some Payload_new else None)
           else if kind = kind_code kInline then Some (inlineBytes data)
           else if kind = kind_code kHandle
                then (if length data > kMaxHandleBytes then None else Some (Payload_handle data))
           else if kind = kind_code kReference then Some (Payload_reference data)
           else None, r2))"


section \<open>Encoders\<close>

definition fits :: "Payload \<Rightarrow> bool" where
  "fits p \<longleftrightarrow> (if pl_kind p = kHandle then length (payload_bytes p) \<le> kMaxHandleBytes
     else length (payload_bytes p) \<le> 2 ^ 32 - 1)"

definition w_offer :: "StrategyOffer \<Rightarrow> bytes \<Rightarrow> bytes" where
  "w_offer so w = w_blob (so_setup so) (w_string (take 65535 (so_name so)) w)"

definition encodeHello :: "FrameType \<Rightarrow> Hello \<Rightarrow> bytes" where
  "encodeHello type hello =
     (let w = w_u32 (he_maxInlineBytes hello) (w_u32 (he_maxInFlight hello) (w_u64 (he_fingerprint hello)
                (w_u16 (he_minor hello) (w_u16 (he_major hello) (w_u32 kProtocolMagic (Writer_new type))))))
      in finish (if type = kHello
                 then let cnt = min (length (he_strategies hello)) 255
                      in fold (\<lambda>i. w_offer (he_strategies hello ! i)) [0..<cnt] (w_u8 (word_of_nat cnt) w)
                 else case he_strategies hello of
                        [] \<Rightarrow> w_blob [] (w_string [] w)
                      | so # _ \<Rightarrow> w_offer so w))"

definition encodeReject :: "HelloReject \<Rightarrow> bytes" where
  "encodeReject reject = finish (w_string (take 65535 (rj_detail reject)) (w_u8 (rj_reason reject) (Writer_new kHelloReject)))"

text \<open>The input that travels for job \<open>i\<close>: the override if there is one.\<close>

definition input_of :: "SubGraphRequest \<Rightarrow> Payload option list \<Rightarrow> nat \<Rightarrow> Payload" where
  "input_of req overrides i =
     (case if overrides \<noteq> [] then overrides ! i else None of Some p \<Rightarrow> p | None \<Rightarrow> js_input (rq_jobs req ! i))"

fun encode_jobs :: "SubGraphRequest \<Rightarrow> Payload option list \<Rightarrow> nat list \<Rightarrow> bytes \<Rightarrow> bytes option" where
  "encode_jobs req overrides [] w = Some w"
| "encode_jobs req overrides (i # is) w =
     (let job = rq_jobs req ! i; input = input_of req overrides i
      in if length (jk_name (js_kind job)) > 65535 \<or> \<not> fits input then None
         else encode_jobs req overrides is
                (w_payload input (w_u8 (if js_exported job then 1 else 0)
                  (w_u32 (jk_version (js_kind job)) (w_string (jk_name (js_kind job)) w)))))"

definition encodeRequest :: "u64 \<Rightarrow> SubGraphRequest \<Rightarrow> Payload option list \<Rightarrow> bytes option" where
  "encodeRequest i req overrides =
     (if length (rq_jobs req) > kMaxJobs then None
      else if overrides \<noteq> [] \<and> length overrides \<noteq> length (rq_jobs req) then None
      else case encode_jobs req overrides [0..<length (rq_jobs req)]
                  (w_u32 (word_of_nat (length (rq_jobs req))) (w_u64 i (Writer_new kRequest))) of
             None \<Rightarrow> None
           | Some w \<Rightarrow> Some (finish (fold (\<lambda>(from, to) w. w_u32 to (w_u32 from w)) (rq_edges req)
                         (w_u32 (word_of_nat (length (rq_edges req))) w))))"

definition output_of :: "SubGraphReply \<Rightarrow> Payload option list \<Rightarrow> nat \<Rightarrow> Payload" where
  "output_of reply overrides i =
     (case if i < length overrides then overrides ! i else None of Some p \<Rightarrow> p | None \<Rightarrow> jr_output (reply ! i))"

definition w_result :: "SubGraphReply \<Rightarrow> Payload option list \<Rightarrow> nat \<Rightarrow> bytes \<Rightarrow> bytes" where
  "w_result reply overrides i w =
     w_payload (output_of reply overrides i) (w_string (take 65535 (jr_message (reply ! i)))
       (w_u8 (jr_error (reply ! i)) (w_u8 (jr_status (reply ! i)) w)))"

definition encodeReply :: "u64 \<Rightarrow> SubGraphReply \<Rightarrow> Payload option list \<Rightarrow> bytes" where
  "encodeReply i reply overrides =
     finish (fold (w_result reply overrides) [0..<length reply]
       (w_u32 (word_of_nat (length reply)) (w_u64 i (Writer_new kReply))))"

definition payloadFrameHeader :: "u32 \<Rightarrow> bytes" where
  "payloadFrameHeader bodyBytes =
     (copy_loop (\<lambda>i. little (ucast bodyBytes) 4 ! i) 0 4 (replicate 5 0))[4 := frame_code kPayload]"

definition encodeCancel :: "u64 \<Rightarrow> bytes" where
  "encodeCancel i = finish (w_u64 i (Writer_new kCancel))"

section \<open>Decoders\<close>

text \<open>A frame length above \<open>2\<^sup>3\<^sup>2\<close> never equals the 32-bit length field.\<close>

definition frameType :: "bytes \<Rightarrow> FrameType option" where
  "frameType frame =
     (if length frame < kHeaderBytes then None
      else let body = unlittle (take 4 frame) in
        if unat body \<noteq> length frame - kHeaderBytes then None
        else find (\<lambda>t. frame_code t = frame ! 4) all_frame_types)"

definition bodyOf :: "bytes \<Rightarrow> FrameType \<Rightarrow> bytes option" where
  "bodyOf frame type = (if frameType frame \<noteq> Some type then None else Some (drop kHeaderBytes frame))"

definition rd_offer :: "Reader \<Rightarrow> StrategyOffer \<times> Reader" where
  "rd_offer r =
     (case rd_string r of (name, r1) \<Rightarrow>
        case rd_blob r1 of (setup, r2) \<Rightarrow> (\<lparr>so_name = name, so_setup = setup\<rparr>, r2))"

fun rd_many :: "(Reader \<Rightarrow> 'a \<times> Reader) \<Rightarrow> nat \<Rightarrow> Reader \<Rightarrow> 'a list \<times> Reader" where
  "rd_many rd 0 r = ([], r)"
| "rd_many rd (Suc n) r =
     (case rd r of (x, r1) \<Rightarrow> case rd_many rd n r1 of (xs, r2) \<Rightarrow> (x # xs, r2))"

text \<open>The strategies of a hello, and whether the reader is still good.\<close>

definition rd_strategies :: "FrameType \<Rightarrow> Reader \<Rightarrow> StrategyOffer list \<times> Reader" where
  "rd_strategies type r =
     (if type = kHello then (case rd_u8 r of (cnt, r1) \<Rightarrow> rd_many rd_offer (unat cnt) r1)
      else (case rd_offer r of (chosen, r1) \<Rightarrow> (if so_name chosen \<noteq> [] then [chosen] else [], r1)))"

definition decodeHello :: "bytes \<Rightarrow> Hello option" where
  "decodeHello frame =
     (case frameType frame of
        None \<Rightarrow> None
      | Some type \<Rightarrow>
          if type \<noteq> kHello \<and> type \<noteq> kHelloAck then None
          else case rd_u32 (Reader_new (drop kHeaderBytes frame)) of (magic, r0) \<Rightarrow>
            if magic \<noteq> kProtocolMagic then None
            else case rd_u16 r0 of (major, r1) \<Rightarrow> case rd_u16 r1 of (minor, r2) \<Rightarrow>
              case rd_u64 r2 of (fingerprint, r3) \<Rightarrow> case rd_u32 r3 of (inFlight, r4) \<Rightarrow>
              case rd_u32 r4 of (maxInline, r5) \<Rightarrow>
                let hello = \<lparr>he_major = major, he_minor = minor, he_fingerprint = fingerprint,
                      he_maxInFlight = inFlight, he_maxInlineBytes = maxInline, he_strategies = []\<rparr>
                in if \<not> rd_ok r5 then None
                   else if minor \<ge> 1 \<and> remaining r5 > 0
                   then (case rd_strategies type r5 of (strategies, r6) \<Rightarrow>
                           if rd_ok r6 then Some (hello\<lparr>he_strategies := strategies\<rparr>) else None)
                   else Some hello)"

definition decodeReject :: "bytes \<Rightarrow> HelloReject option" where
  "decodeReject frame =
     (case bodyOf frame kHelloReject of
        None \<Rightarrow> None
      | Some body \<Rightarrow>
          case rd_u8 (Reader_new body) of (reason, r1) \<Rightarrow> case rd_string r1 of (detail, r2) \<Rightarrow>
            if rd_ok r2 then Some \<lparr>rj_reason = reason, rj_detail = detail\<rparr> else None)"

fun decode_jobs :: "nat \<Rightarrow> Reader \<Rightarrow> SubGraphRequest \<Rightarrow> (SubGraphRequest \<times> Reader) option" where
  "decode_jobs 0 r req = Some (req, r)"
| "decode_jobs (Suc n) r req =
     (case rd_string r of (name, r1) \<Rightarrow> case rd_u32 r1 of (version, r2) \<Rightarrow>
      case rd_u8 r2 of (exported, r3) \<Rightarrow> case rd_payload r3 of (input, r4) \<Rightarrow>
        if \<not> rd_ok r4 \<or> input = None then None
        else decode_jobs n r4
               (snd (request_add \<lparr>jk_name = name, jk_version = version\<rparr> (the input) (exported \<noteq> 0) req)))"

fun decode_edges :: "nat \<Rightarrow> Reader \<Rightarrow> SubGraphRequest \<Rightarrow> (SubGraphRequest \<times> Reader) option" where
  "decode_edges 0 r req = Some (req, r)"
| "decode_edges (Suc n) r req =
     (case rd_u32 r of (from, r1) \<Rightarrow> case rd_u32 r1 of (to, r2) \<Rightarrow>
        if \<not> rd_ok r2 \<or> \<not> fst (request_edge from to req) then None
        else decode_edges n r2 (snd (request_edge from to req)))"

definition decodeRequest :: "bytes \<Rightarrow> (u64 \<times> SubGraphRequest) option" where
  "decodeRequest frame =
     (case bodyOf frame kRequest of
        None \<Rightarrow> None
      | Some body \<Rightarrow>
          case rd_u64 (Reader_new body) of (i, r1) \<Rightarrow> case rd_u32 r1 of (jobs, r2) \<Rightarrow>
            if \<not> rd_ok r2 \<or> unat jobs > kMaxJobs then None
            else (case decode_jobs (unat jobs) r2 SubGraphRequest_new of
                    None \<Rightarrow> None
                  | Some (req, r3) \<Rightarrow>
                      (case rd_u32 r3 of (edges, r4) \<Rightarrow>
                         if \<not> rd_ok r4 \<or> unat edges > remaining r4 div 8 then None
                         else (case decode_edges (unat edges) r4 req of
                                 None \<Rightarrow> None
                               | Some (req', r5) \<Rightarrow> if rd_ok r5 then Some (i, req') else None))))"

fun decode_results :: "nat \<Rightarrow> Reader \<Rightarrow> SubGraphReply option" where
  "decode_results 0 r = Some []"
| "decode_results (Suc n) r =
     (case rd_u8 r of (status, r1) \<Rightarrow> case rd_u8 r1 of (err, r2) \<Rightarrow>
      case rd_string r2 of (message, r3) \<Rightarrow> case rd_payload r3 of (out, r4) \<Rightarrow>
        if \<not> rd_ok r4 \<or> out = None then None
        else map_option (\<lambda>rs. \<lparr>jr_status = status, jr_error = err, jr_message = message, jr_output = the out\<rparr> # rs)
               (decode_results n r4))"

definition decodeReply :: "bytes \<Rightarrow> (u64 \<times> SubGraphReply) option" where
  "decodeReply frame =
     (case bodyOf frame kReply of
        None \<Rightarrow> None
      | Some body \<Rightarrow>
          case rd_u64 (Reader_new body) of (i, r1) \<Rightarrow> case rd_u32 r1 of (cnt, r2) \<Rightarrow>
            if \<not> rd_ok r2 \<or> unat cnt > kMaxJobs then None
            else map_option (Pair i) (decode_results (unat cnt) r2))"

definition decodeCancel :: "bytes \<Rightarrow> u64 option" where
  "decodeCancel frame =
     (case bodyOf frame kCancel of
        None \<Rightarrow> None
      | Some body \<Rightarrow> case rd_u64 (Reader_new body) of (i, r1) \<Rightarrow> if rd_ok r1 then Some i else None)"


section \<open>Codecs\<close>

text \<open>\<open>before r bs\<close>: the reader is good and \<open>bs\<close> is what it has not read yet.\<close>

definition before :: "Reader \<Rightarrow> bytes \<Rightarrow> bool" where
  "before r bs \<longleftrightarrow> rd_ok r \<and> rd_pos r \<le> length (rd_body r) \<and> drop (rd_pos r) (rd_body r) = bs"

text \<open>
  The contract between a field's encoding and its reader: the reader returns the value that was
  encoded and stops right behind it.
\<close>

locale codec =
  fixes ok :: "'a \<Rightarrow> bool" and enc :: "'a \<Rightarrow> bytes" and rd :: "Reader \<Rightarrow> 'a \<times> Reader"
  assumes rd_enc: "ok x \<Longrightarrow> before r (enc x @ bs) \<Longrightarrow> \<exists>r'. rd r = (x, r') \<and> before r' bs"
begin

lemma many:
  "list_all ok xs \<Longrightarrow> before r (concat (map enc xs) @ bs) \<Longrightarrow>
     \<exists>r'. rd_many rd (length xs) r = (xs, r') \<and> before r' bs"
proof (induction xs arbitrary: r)
  case (Cons x xs)
  then obtain r1 where "rd r = (x, r1)" "before r1 (concat (map enc xs) @ bs)"
    using rd_enc [of x r "concat (map enc xs) @ bs"] by auto
  then show ?case using Cons.IH [of r1] Cons.prems(1) by auto
qed simp

end

text \<open>Two fields, one after the other.\<close>

locale two_codecs = fst: codec ok1 enc1 rd1 + snd: codec ok2 enc2 rd2
  for ok1 :: "'a \<Rightarrow> bool" and enc1 rd1 and ok2 :: "'b \<Rightarrow> bool" and enc2 rd2

sublocale two_codecs \<subseteq> pair: codec "\<lambda>(x, y). ok1 x \<and> ok2 y" "\<lambda>(x, y). enc1 x @ enc2 y"
  "\<lambda>r. case rd1 r of (x, r1) \<Rightarrow> case rd2 r1 of (y, r2) \<Rightarrow> ((x, y), r2)"
proof
  fix x :: "'a \<times> 'b" and r bs
  assume a: "case x of (x, y) \<Rightarrow> ok1 x \<and> ok2 y" "before r ((case x of (x, y) \<Rightarrow> enc1 x @ enc2 y) @ bs)"
  obtain u v where x: "x = (u, v)" by fastforce
  obtain r1 where r1: "rd1 r = (u, r1)" "before r1 (enc2 v @ bs)"
    using fst.rd_enc [of u r "enc2 v @ bs"] a by (auto simp: x)
  obtain r2 where "rd2 r1 = (v, r2)" "before r2 bs"
    using snd.rd_enc [of v r1 bs] r1(2) a(1) by (auto simp: x)
  then show "\<exists>r'. (case rd1 r of (x, r1) \<Rightarrow> case rd2 r1 of (y, r2) \<Rightarrow> ((x, y), r2)) = (x, r') \<and> before r' bs"
    by (simp add: r1 x)
qed

lemma rd_take_before:
  assumes "before r (xs @ bs)" "length xs = n"
  shows "\<exists>r'. rd_take n r = (True, r') \<and> taken n r' = xs \<and> before r' bs"
proof -
  have d: "drop (rd_pos r) (rd_body r) = xs @ bs" "rd_ok r" "rd_pos r \<le> length (rd_body r)"
    using assms(1) by (simp_all add: before_def)
  then have "length (rd_body r) - rd_pos r = n + length bs" using assms(2) by (metis length_append length_drop)
  moreover have "drop (rd_pos r + n) (rd_body r) = bs"
    using d(1) assms(2) by (metis add.commute append_eq_conv_conj drop_drop)
  ultimately show ?thesis
    using d assms(2) by (auto simp: rd_take_def taken_def before_def)
qed

lemma rd_little_before:
  assumes "before r (little v n @ bs)" "n \<le> 8"
  shows "\<exists>r'. rd_little n r = (take_bit (8 * n) v, r') \<and> before r' bs"
  using rd_take_before [OF assms(1) length_little] unlittle_little [OF assms(2), of v] by (auto simp: rd_little_def)

abbreviation enc_u16 :: "u16 \<Rightarrow> bytes" where "enc_u16 v \<equiv> little (ucast v) 2"
abbreviation enc_u32 :: "u32 \<Rightarrow> bytes" where "enc_u32 v \<equiv> little (ucast v) 4"
abbreviation enc_u64 :: "u64 \<Rightarrow> bytes" where "enc_u64 v \<equiv> little v 8"

definition enc_string :: "string \<Rightarrow> bytes" where
  "enc_string s = enc_u16 (word_of_nat (length s)) @ map byte_of_char s"

definition enc_blob :: "bytes \<Rightarrow> bytes" where
  "enc_blob b = enc_u32 (word_of_nat (length b)) @ b"

definition enc_payload :: "Payload \<Rightarrow> bytes" where
  "enc_payload p = kind_code (pl_kind p) # enc_blob (payload_bytes p)"

interpretation u8c: codec "\<lambda>_. True" "\<lambda>v. [v]" rd_u8
proof
  fix x :: u8 and r bs
  assume "before r ([x] @ bs)"
  then have "before r (little (ucast x) 1 @ bs)" by (simp only: little_u8(2))
  from rd_little_before [OF this] show "\<exists>r'. rd_u8 r = (x, r') \<and> before r' bs"
    using little_u8(1) [of x] by (auto simp: rd_u8_def unlittle_little)
qed

interpretation u16c: codec "\<lambda>_. True" enc_u16 rd_u16
proof
  fix x :: u16 and r bs
  assume "before r (enc_u16 x @ bs)"
  from rd_little_before [OF this] show "\<exists>r'. rd_u16 r = (x, r') \<and> before r' bs"
    using little_u16 [of x] by (auto simp: rd_u16_def unlittle_little)
qed

interpretation u32c: codec "\<lambda>_. True" enc_u32 rd_u32
proof
  fix x :: u32 and r bs
  assume "before r (enc_u32 x @ bs)"
  from rd_little_before [OF this] show "\<exists>r'. rd_u32 r = (x, r') \<and> before r' bs"
    using little_u32 [of x] by (auto simp: rd_u32_def unlittle_little)
qed

interpretation u64c: codec "\<lambda>_. True" enc_u64 rd_u64
proof
  fix x :: u64 and r bs
  assume "before r (enc_u64 x @ bs)"
  moreover have "take_bit 64 x = x" using unlittle_little [of 8 x] by simp
  ultimately show "\<exists>r'. rd_u64 r = (x, r') \<and> before r' bs"
    using rd_little_before [of r x 8 bs] by (auto simp: rd_u64_def)
qed

interpretation stringc: codec "\<lambda>s. length s \<le> 65535" enc_string rd_string
proof
  fix x :: string and r bs
  assume x: "length x \<le> 65535" and "before r (enc_string x @ bs)"
  then have "before r (enc_u16 (word_of_nat (length x)) @ map byte_of_char x @ bs)" by (simp add: enc_string_def)
  from u16c.rd_enc [OF TrueI this] obtain r1 where
    r1: "rd_u16 r = (word_of_nat (length x), r1)" "before r1 (map byte_of_char x @ bs)" by blast
  have n: "unat (word_of_nat (length x) :: u16) = length x" using x by (simp add: unat_of_nat)
  from rd_take_before [OF r1(2), of "length x"] show "\<exists>r'. rd_string r = (x, r') \<and> before r' bs"
    by (auto simp: rd_string_def r1(1) n comp_def)
qed

interpretation blobc: codec "\<lambda>b. length b < 2 ^ 32" enc_blob rd_blob
proof
  fix x :: bytes and r bs
  assume x: "length x < 2 ^ 32" and "before r (enc_blob x @ bs)"
  then have "before r (enc_u32 (word_of_nat (length x)) @ x @ bs)" by (simp add: enc_blob_def)
  from u32c.rd_enc [OF TrueI this] obtain r1 where
    r1: "rd_u32 r = (word_of_nat (length x), r1)" "before r1 (x @ bs)" by blast
  have n: "unat (word_of_nat (length x) :: u32) = length x" using x by (simp add: unat_of_nat)
  from rd_take_before [OF r1(2) refl] show "\<exists>r'. rd_blob r = (x, r') \<and> before r' bs"
    by (auto simp: rd_blob_def r1(1) n)
qed


text \<open>
  A payload that the format can carry, and the payload a reader makes of it: the same kind and bytes,
  owned by the payload itself.
\<close>

definition sendable :: "Payload \<Rightarrow> bool" where
  "sendable p \<longleftrightarrow> fits p \<and> (pl_kind p = kNonePayload \<longrightarrow> payload_bytes p = [])"

definition owned :: "Payload \<Rightarrow> Payload" where
  "owned p = \<lparr>pl_kind = pl_kind p, pl_own = payload_bytes p, pl_view = [], pl_owner = None\<rparr>"

lemma owned_simps [simp]:
  "pl_kind (owned p) = pl_kind p" "payload_bytes (owned p) = payload_bytes p" "enc_payload (owned p) = enc_payload p"
  "payload_eq (owned p) p" "owned (owned p) = owned p"
  by (simp_all add: owned_def payload_bytes_def enc_payload_def payload_eq_def)

lemma kind_code_eq [simp]: "kind_code a = kind_code b \<longleftrightarrow> a = b"
  by (cases a; cases b) (simp_all add: kind_code_def)

lemma sendable_length: "sendable p \<Longrightarrow> length (payload_bytes p) < 2 ^ 32"
  by (auto simp: sendable_def fits_def kMaxHandleBytes_def split: if_splits)

interpretation payloadc: codec "\<lambda>x. \<exists>p. x = Some (owned p) \<and> sendable p" "\<lambda>x. enc_payload (the x)" rd_payload
proof
  fix x r bs
  assume "\<exists>p. x = Some (owned p) \<and> sendable p" and b: "before r (enc_payload (the x) @ bs)"
  then obtain p where x: "x = Some (owned p)" and p: "sendable p" by blast
  from b have "before r ([kind_code (pl_kind p)] @ enc_blob (payload_bytes p) @ bs)" by (simp add: x) (simp add: enc_payload_def)
  from u8c.rd_enc [OF TrueI this] obtain r1 where
    r1: "rd_u8 r = (kind_code (pl_kind p), r1)" "before r1 (enc_blob (payload_bytes p) @ bs)" by blast
  from blobc.rd_enc [OF sendable_length [OF p] this(2)] obtain r2 where
    r2: "rd_blob r1 = (payload_bytes p, r2)" "before r2 bs" by blast
  moreover have "rd_ok r2" using r2(2) by (simp add: before_def)
  ultimately have "rd_payload r = (x, r2)"
    using p by (cases "pl_kind p") (auto simp: rd_payload_def r1(1) x owned_def sendable_def fits_def Payload_new_def
      inlineBytes_def Payload_handle_def Payload_reference_def)
  then show "\<exists>r'. rd_payload r = (x, r') \<and> before r' bs" using r2(2) by blast
qed

section \<open>Frames\<close>

lemma w_simps:
  "w_u8 v out = out @ [v]" "w_u16 v' out = out @ enc_u16 v'" "w_u32 a out = out @ enc_u32 a"
  "w_u64 b out = out @ enc_u64 b" "w_string s out = out @ enc_string s" "w_blob bs out = out @ enc_blob bs"
  "w_payload p out = out @ enc_payload p"
proof -
  have "fold (\<lambda>c out. out @ [byte_of_char c]) s w = w @ map byte_of_char s" for w
    by (induction s arbitrary: w) simp_all
  then show "w_u8 v out = out @ [v]" "w_u16 v' out = out @ enc_u16 v'" "w_u32 a out = out @ enc_u32 a"
    "w_u64 b out = out @ enc_u64 b" "w_string s out = out @ enc_string s" "w_blob bs out = out @ enc_blob bs"
    "w_payload p out = out @ enc_payload p"
    by (simp_all add: w_u8_def w_u16_def w_u32_def w_u64_def w_string_def w_blob_def w_payload_def
        enc_string_def enc_blob_def enc_payload_def)
qed

definition frame :: "FrameType \<Rightarrow> bytes \<Rightarrow> bytes" where
  "frame type body = enc_u32 (word_of_nat (length body)) @ frame_code type # body"

lemma finish_frame: "finish (Writer_new type @ body) = frame type body"
proof -
  let ?l = "enc_u32 (word_of_nat (length body))"
  have l: "length (Writer_new type) = 5" "Writer_new type ! 4 = frame_code type"
    by (simp_all add: Writer_new_def kHeaderBytes_def)
  have "finish (Writer_new type @ body) = copy_loop (\<lambda>i. ?l ! i) 0 4 (Writer_new type @ body)"
    by (simp add: finish_def kHeaderBytes_def Writer_new_def)
  also have "\<dots> = ?l @ frame_code type # body"
  proof (rule nth_equalityI)
    fix k assume k: "k < length (copy_loop (\<lambda>i. ?l ! i) 0 4 (Writer_new type @ body))"
    show "copy_loop (\<lambda>i. ?l ! i) 0 4 (Writer_new type @ body) ! k = (?l @ frame_code type # body) ! k"
      using k l by (cases "k < 4"; cases "k = 4") (auto simp: nth_copy_loop nth_append nth_Cons' l)
  qed (simp add: l)
  finally show ?thesis by (simp add: frame_def)
qed

lemma frame_code_eq [simp]: "frame_code a = frame_code b \<longleftrightarrow> a = b"
  by (cases a; cases b) (simp_all add: frame_code_def)

lemma find_frame_code: "find (\<lambda>t. t = type) all_frame_types = Some type"
  by (cases type) (simp_all add: all_frame_types_def)

lemma frame_header:
  assumes "length body < 2 ^ 32"
  shows "frameType (frame type body) = Some type" "drop kHeaderBytes (frame type body) = body"
    "bodyOf (frame type body) type = Some body"
proof -
  have "unlittle (enc_u32 (word_of_nat (length body))) = word_of_nat (length body)"
    using assms by (simp add: unlittle_little) (simp add: unsigned_of_nat take_bit_nat_eq_self take_bit_of_nat)
  moreover have "unat (word_of_nat (length body) :: u64) = length body"
    using assms by (simp add: unat_of_nat)
  ultimately show t: "frameType (frame type body) = Some type"
    by (simp add: frameType_def frame_def kHeaderBytes_def nth_append find_frame_code)
  show d: "drop kHeaderBytes (frame type body) = body" by (simp add: frame_def kHeaderBytes_def)
  show "bodyOf (frame type body) type = Some body" by (simp add: bodyOf_def t d)
qed

lemma before_new: "before (Reader_new body) body"
  by (simp add: before_def Reader_new_def)

lemma before_ok: "before r bs \<Longrightarrow> rd_ok r" "before r bs \<Longrightarrow> remaining r = length bs"
  by (auto simp: before_def remaining_def)


section \<open>Round trips\<close>

text \<open>What the class keeps true of a payload, and what \<^verbatim>\<open>SubGraphRequest::edge\<close> keeps true of a request.\<close>

definition payload_ok :: "Payload \<Rightarrow> bool" where
  "payload_ok p \<longleftrightarrow> (pl_kind p = kNonePayload \<longrightarrow> payload_bytes p = [])"

definition edge_ok :: "nat \<Rightarrow> u32 \<times> u32 \<Rightarrow> bool" where
  "edge_ok n = (\<lambda>(from, to). unat from < n \<and> unat to < n \<and> from \<noteq> to)"

definition request_ok :: "SubGraphRequest \<Rightarrow> bool" where
  "request_ok req \<longleftrightarrow> (\<forall>e\<in>set (rq_edges req). edge_ok (length (rq_jobs req)) e)
     \<and> (\<forall>job\<in>set (rq_jobs req). payload_ok (js_input job))"

definition sent_job :: "SubGraphRequest \<Rightarrow> Payload option list \<Rightarrow> nat \<Rightarrow> JobSpec" where
  "sent_job req overrides i = (rq_jobs req ! i)\<lparr>js_input := owned (input_of req overrides i)\<rparr>"

definition enc_job :: "JobSpec \<Rightarrow> bytes" where
  "enc_job job = enc_string (jk_name (js_kind job)) @ enc_u32 (jk_version (js_kind job))
     @ [if js_exported job then 1 else 0] @ enc_payload (js_input job)"

definition job_fits :: "JobSpec \<Rightarrow> bool" where
  "job_fits job \<longleftrightarrow> length (jk_name (js_kind job)) \<le> 65535 \<and> fits (js_input job)"

lemma fits_owned [simp]: "fits (owned p) = fits p" "sendable (owned p) = sendable p" "payload_ok (owned p) = payload_ok p"
  by (simp_all add: fits_def sendable_def payload_ok_def)

lemma encode_jobs_eq:
  "encode_jobs req overrides is w =
     (if list_all (job_fits \<circ> sent_job req overrides) is
      then Some (w @ concat (map (enc_job \<circ> sent_job req overrides) is)) else None)"
  by (induction "is" arbitrary: w) (auto simp: Let_def job_fits_def sent_job_def enc_job_def w_simps)

lemma job_eta:
  "\<lparr>js_kind = \<lparr>jk_name = jk_name (js_kind job), jk_version = jk_version (js_kind job)\<rparr>, js_input = p,
     js_exported = (if js_exported job then 1 else (0 :: u8)) \<noteq> 0\<rparr> = job\<lparr>js_input := p\<rparr>"
  "js_exported job \<Longrightarrow> \<lparr>js_kind = \<lparr>jk_name = jk_name (js_kind job), jk_version = jk_version (js_kind job)\<rparr>, js_input = p,
     js_exported = True\<rparr> = job\<lparr>js_input := p\<rparr>"
  "\<not> js_exported job \<Longrightarrow> \<lparr>js_kind = \<lparr>jk_name = jk_name (js_kind job), jk_version = jk_version (js_kind job)\<rparr>, js_input = p,
     js_exported = False\<rparr> = job\<lparr>js_input := p\<rparr>"
  by (cases job; cases "js_kind job"; simp)+

lemma decode_jobs_before:
  assumes "list_all (\<lambda>job. job_fits job \<and> payload_ok (js_input job)) jobs" "before r (concat (map enc_job jobs) @ bs)"
  shows "\<exists>r'. decode_jobs (length jobs) r req =
      Some (req\<lparr>rq_jobs := rq_jobs req @ map (\<lambda>job. job\<lparr>js_input := owned (js_input job)\<rparr>) jobs\<rparr>, r') \<and> before r' bs"
  using assms
proof (induction jobs arbitrary: r req)
  case (Cons job jobs)
  let ?rest = "concat (map enc_job jobs) @ bs"
  have ok: "length (jk_name (js_kind job)) \<le> 65535" "sendable (js_input job)"
    using Cons.prems(1) by (auto simp: job_fits_def sendable_def payload_ok_def)
  have "before r (enc_string (jk_name (js_kind job)) @ enc_u32 (jk_version (js_kind job))
      @ [if js_exported job then 1 else 0] @ enc_payload (js_input job) @ ?rest)"
    using Cons.prems(2) by (simp only: list.map concat.simps enc_job_def [of job] append_assoc)
  from stringc.rd_enc [OF ok(1) this] obtain r1 where r1: "rd_string r = (jk_name (js_kind job), r1)"
    "before r1 (enc_u32 (jk_version (js_kind job)) @ [if js_exported job then 1 else 0]
      @ enc_payload (js_input job) @ ?rest)" by blast
  from u32c.rd_enc [OF TrueI r1(2)] obtain r2 where r2: "rd_u32 r1 = (jk_version (js_kind job), r2)"
    "before r2 ([if js_exported job then 1 else 0] @ enc_payload (js_input job) @ ?rest)" by blast
  from u8c.rd_enc [OF TrueI r2(2)] obtain r3 where r3: "rd_u8 r2 = (if js_exported job then 1 else 0, r3)"
    "before r3 (enc_payload (js_input job) @ ?rest)" by blast
  then have "before r3 (enc_payload (the (Some (owned (js_input job)))) @ ?rest)" by simp
  from payloadc.rd_enc [OF _ this] ok(2) obtain r4 where r4: "rd_payload r3 = (Some (owned (js_input job)), r4)"
    "before r4 ?rest" by blast
  have "decode_jobs (length (job # jobs)) r req = decode_jobs (length jobs) r4
      (req\<lparr>rq_jobs := rq_jobs req @ [job\<lparr>js_input := owned (js_input job)\<rparr>]\<rparr>)"
    using before_ok(1) [OF r4(2)] by (simp add: r1 r2 r3 r4 request_add_def Let_def job_eta)
  moreover have "list_all (\<lambda>job. job_fits job \<and> payload_ok (js_input job)) jobs" using Cons.prems(1) by simp
  from Cons.IH [OF this r4(2), of "req\<lparr>rq_jobs := rq_jobs req @ [job\<lparr>js_input := owned (js_input job)\<rparr>]\<rparr>"]
  obtain r' where
    "decode_jobs (length jobs) r4 (req\<lparr>rq_jobs := rq_jobs req @ [job\<lparr>js_input := owned (js_input job)\<rparr>]\<rparr>) =
       Some (req\<lparr>rq_jobs := rq_jobs req @ map (\<lambda>job. job\<lparr>js_input := owned (js_input job)\<rparr>) (job # jobs)\<rparr>, r')"
    "before r' bs" by auto
  ultimately show ?case by auto
qed simp

abbreviation enc_edge :: "u32 \<times> u32 \<Rightarrow> bytes" where
  "enc_edge e \<equiv> (case e of (from, to) \<Rightarrow> enc_u32 from @ enc_u32 to)"

interpretation edgec: two_codecs "\<lambda>_. True" enc_u32 rd_u32 "\<lambda>_. True" enc_u32 rd_u32 ..

lemma decode_edges_before:
  assumes "list_all (edge_ok (length (rq_jobs req))) es" "before r (concat (map enc_edge es) @ bs)"
  shows "\<exists>r'. decode_edges (length es) r req = Some (req\<lparr>rq_edges := rq_edges req @ es\<rparr>, r') \<and> before r' bs"
  using assms
proof (induction es arbitrary: r req)
  case (Cons e es)
  obtain a b where e: "e = (a, b)" by fastforce
  have "before r (enc_edge (a, b) @ concat (map enc_edge es) @ bs)" using Cons.prems(2) by (simp add: e)
  then obtain r2 where r2: "(case rd_u32 r of (x, r1) \<Rightarrow> case rd_u32 r1 of (y, r2) \<Rightarrow> ((x, y), r2)) = ((a, b), r2)"
    "before r2 (concat (map enc_edge es) @ bs)"
    using edgec.pair.rd_enc [of "(a, b)"] by auto
  then obtain r1 where r1: "rd_u32 r = (a, r1)" "rd_u32 r1 = (b, r2)" by (auto split: prod.splits)
  have "request_edge a b req = (True, req\<lparr>rq_edges := rq_edges req @ [e]\<rparr>)"
    using Cons.prems(1) by (auto simp: request_edge_def edge_ok_def e)
  then show ?case
    using Cons.IH [of "req\<lparr>rq_edges := rq_edges req @ [e]\<rparr>" r2] Cons.prems(1) r2(2) before_ok(1) [OF r2(2)]
    by (auto simp: r1 e)
qed simp

lemma fold_edges: "fold (\<lambda>(from, to) w. w @ enc_u32 from @ enc_u32 to) es w = w @ concat (map enc_edge es)"
  by (induction es arbitrary: w) auto

lemma length_enc_edges: "length (concat (map enc_edge es)) = 8 * length es"
  by (induction es) auto

lemma fits_input:
  assumes "payload_ok (js_input (rq_jobs req ! i))" "\<forall>p. Some p \<in> set overrides \<longrightarrow> payload_ok p"
    "i < length (rq_jobs req)" "overrides = [] \<or> length overrides = length (rq_jobs req)"
  shows "payload_ok (input_of req overrides i)"
proof (cases "overrides \<noteq> [] \<and> overrides ! i \<noteq> None")
  case True
  then have "overrides ! i \<in> set overrides" using assms(3,4) by (intro nth_mem) simp
  then show ?thesis using True assms(2) by (auto simp: input_of_def)
qed (use assms(1) in \<open>auto simp: input_of_def\<close>)

lemma request_roundtrip_body:
  assumes "encodeRequest i req overrides = Some f" "length f < 2 ^ 32" "request_ok req"
    "\<forall>p. Some p \<in> set overrides \<longrightarrow> payload_ok p"
  shows "decodeRequest f = Some (i, req\<lparr>rq_jobs := map (sent_job req overrides) [0..<length (rq_jobs req)]\<rparr>)"
proof -
  let ?n = "length (rq_jobs req)" and ?jobs = "map (sent_job req overrides) [0..<length (rq_jobs req)]"
  let ?edges = "concat (map enc_edge (rq_edges req))"
  let ?tail = "enc_u32 (word_of_nat (length (rq_edges req))) @ ?edges"
  let ?body = "enc_u64 i @ enc_u32 (word_of_nat ?n) @ concat (map enc_job ?jobs) @ ?tail"
  have n: "?n \<le> kMaxJobs" and ov: "overrides = [] \<or> length overrides = ?n"
    and fit: "list_all (job_fits \<circ> sent_job req overrides) [0..<?n]"
    and f: "f = frame kRequest ?body"
    using assms(1)
    by (auto simp: encodeRequest_def encode_jobs_eq w_simps fold_edges finish_frame split: if_splits)
  define body where "body = ?body"
  have len: "length body < 2 ^ 32" using assms(2) by (simp add: f frame_def body_def)
  then have m: "length (rq_edges req) < 2 ^ 32" using length_enc_edges [of "rq_edges req"] by (simp add: body_def)
  have un: "unat (word_of_nat ?n :: u32) = ?n" "unat (word_of_nat (length (rq_edges req)) :: u32) = length (rq_edges req)"
    using n m by (simp_all add: unat_of_nat kMaxJobs_def)
  have jobs: "list_all (\<lambda>job. job_fits job \<and> payload_ok (js_input job)) ?jobs"
    using fit fits_input [OF _ assms(4) _ ov] assms(3)
    by (auto simp: list_all_iff request_ok_def sent_job_def)
  from u64c.rd_enc [OF TrueI before_new [of ?body]] obtain r1 where r1: "rd_u64 (Reader_new body) = (i, r1)"
    "before r1 (enc_u32 (word_of_nat ?n) @ concat (map enc_job ?jobs) @ ?tail)" unfolding body_def by blast
  from u32c.rd_enc [OF TrueI r1(2)] obtain r2 where r2: "rd_u32 r1 = (word_of_nat ?n, r2)"
    "before r2 (concat (map enc_job ?jobs) @ ?tail)" by blast
  let ?req = "SubGraphRequest_new\<lparr>rq_jobs := ?jobs\<rparr>"
  have own: "map (\<lambda>job. job\<lparr>js_input := owned (js_input job)\<rparr>) ?jobs = ?jobs" by (simp add: sent_job_def)
  from decode_jobs_before [OF jobs r2(2), of SubGraphRequest_new] obtain r3 where
    r3: "decode_jobs ?n r2 SubGraphRequest_new = Some (?req, r3)" "before r3 (?tail)"
    unfolding own by (auto simp: SubGraphRequest_new_def)
  from u32c.rd_enc [OF TrueI r3(2)] obtain r4 where
    r4: "rd_u32 r3 = (word_of_nat (length (rq_edges req)), r4)" "before r4 (?edges @ [])" by auto
  have "list_all (edge_ok (length (rq_jobs ?req))) (rq_edges req)"
    using assms(3) by (simp add: request_ok_def list_all_iff)
  from decode_edges_before [OF this r4(2)] obtain r5 where
    r5: "decode_edges (length (rq_edges req)) r4 ?req = Some (?req\<lparr>rq_edges := rq_edges req\<rparr>, r5)" "before r5 []"
    by (auto simp: SubGraphRequest_new_def)
  have rem: "remaining r4 div 8 = length (rq_edges req)" "rd_ok r4" "rd_ok r5" "rd_ok r2"
    using before_ok [OF r4(2)] before_ok [OF r5(2)] before_ok [OF r2(2)] length_enc_edges [of "rq_edges req"] by simp_all
  have "decodeRequest f = Some (i, ?req\<lparr>rq_edges := rq_edges req\<rparr>)"
    unfolding decodeRequest_def f body_def [symmetric] frame_header(3) [OF len]
    using n by (simp add: r1(1) r2(1) r3(1) r4(1) r5(1) un rem)
  moreover have "?req\<lparr>rq_edges := rq_edges req\<rparr> = req\<lparr>rq_jobs := ?jobs\<rparr>" by simp
  ultimately show ?thesis by simp
qed


definition sent_result :: "SubGraphReply \<Rightarrow> Payload option list \<Rightarrow> nat \<Rightarrow> JobResult" where
  "sent_result reply overrides i =
     (reply ! i)\<lparr>jr_message := take 65535 (jr_message (reply ! i)), jr_output := owned (output_of reply overrides i)\<rparr>"

definition enc_result :: "JobResult \<Rightarrow> bytes" where
  "enc_result r = [jr_status r] @ [jr_error r] @ enc_string (jr_message r) @ enc_payload (jr_output r)"

lemma fold_results:
  "fold (w_result reply overrides) is w = w @ concat (map (enc_result \<circ> sent_result reply overrides) is)"
  by (induction "is" arbitrary: w) (auto simp: w_result_def sent_result_def enc_result_def w_simps)

text \<open>A handle that is too long is the only payload that makes a well-formed reader give up.\<close>

lemma rd_payload_refuses:
  assumes "before r (enc_payload p @ bs)" "length (payload_bytes p) < 2 ^ 32" "payload_ok p" "\<not> sendable p"
  shows "\<exists>r'. rd_payload r = (None, r')"
proof -
  from assms(1) have "before r ([kind_code (pl_kind p)] @ enc_blob (payload_bytes p) @ bs)" by (simp add: enc_payload_def)
  from u8c.rd_enc [OF TrueI this] obtain r1 where
    r1: "rd_u8 r = (kind_code (pl_kind p), r1)" "before r1 (enc_blob (payload_bytes p) @ bs)" by blast
  from blobc.rd_enc [OF assms(2) this(2)] obtain r2 where r2: "rd_blob r1 = (payload_bytes p, r2)" by blast
  have "pl_kind p = kHandle" "length (payload_bytes p) > kMaxHandleBytes"
    using assms(2-4) by (auto simp: sendable_def payload_ok_def fits_def split: if_splits)
  then show ?thesis by (simp add: rd_payload_def r1(1) r2)
qed

lemma decode_results_before:
  assumes "before r (concat (map enc_result rs))"
    "list_all (\<lambda>res. length (jr_message res) \<le> 65535 \<and> length (payload_bytes (jr_output res)) < 2 ^ 32
       \<and> payload_ok (jr_output res) \<and> jr_output res = owned (jr_output res)) rs"
  shows "decode_results (length rs) r = (if list_all (\<lambda>res. sendable (jr_output res)) rs then Some rs else None)"
  using assms
proof (induction rs arbitrary: r)
  case (Cons res rs)
  have ok: "length (jr_message res) \<le> 65535" "length (payload_bytes (jr_output res)) < 2 ^ 32" "payload_ok (jr_output res)"
    "owned (jr_output res) = jr_output res"
    using Cons.prems(2) by simp_all
  have "before r ([jr_status res] @ [jr_error res] @ enc_string (jr_message res) @ enc_payload (jr_output res)
      @ concat (map enc_result rs))"
    using Cons.prems(1) by (simp add: enc_result_def [of res])
  from u8c.rd_enc [OF TrueI this] obtain r1 where r1: "rd_u8 r = (jr_status res, r1)"
    "before r1 ([jr_error res] @ enc_string (jr_message res) @ enc_payload (jr_output res) @ concat (map enc_result rs))"
    by blast
  from u8c.rd_enc [OF TrueI r1(2)] obtain r2 where r2: "rd_u8 r1 = (jr_error res, r2)"
    "before r2 (enc_string (jr_message res) @ enc_payload (jr_output res) @ concat (map enc_result rs))" by blast
  from stringc.rd_enc [OF ok(1) r2(2)] obtain r3 where r3: "rd_string r2 = (jr_message res, r3)"
    "before r3 (enc_payload (jr_output res) @ concat (map enc_result rs))" by blast
  show ?case
  proof (cases "sendable (jr_output res)")
    case True
    have "before r3 (enc_payload (the (Some (owned (jr_output res)))) @ concat (map enc_result rs))" using r3(2) by simp
    from payloadc.rd_enc [OF _ this] True obtain r4 where r4: "rd_payload r3 = (Some (jr_output res), r4)"
      "before r4 (concat (map enc_result rs))" unfolding ok(4) by (metis ok(4))
    show ?thesis
      using Cons.IH [OF r4(2)] Cons.prems(2) before_ok(1) [OF r4(2)] True by (simp add: r1 r2 r3 r4)
  next
    case False
    obtain r4 where "rd_payload r3 = (None, r4)" using rd_payload_refuses [OF r3(2) ok(2,3) False] by blast
    then show ?thesis using False by (simp add: r1 r2 r3)
  qed
qed simp

lemma length_concat_ge: "x \<in> set xs \<Longrightarrow> length (f x) \<le> length (concat (map f xs))"
  by (induction xs) auto

lemma reply_roundtrip_body:
  assumes "length (encodeReply i reply overrides) < 2 ^ 32" "length reply \<le> kMaxJobs"
    "\<forall>k<length reply. payload_ok (output_of reply overrides k)"
  shows "decodeReply (encodeReply i reply overrides) =
    (if \<forall>k<length reply. sendable (output_of reply overrides k)
     then Some (i, map (sent_result reply overrides) [0..<length reply]) else None)"
proof -
  let ?n = "length reply" and ?rs = "map (sent_result reply overrides) [0..<length reply]"
  define body where "body = enc_u64 i @ enc_u32 (word_of_nat ?n) @ concat (map enc_result ?rs)"
  have f: "encodeReply i reply overrides = frame kReply body"
    by (simp add: encodeReply_def fold_results w_simps finish_frame body_def)
  have len: "length body < 2 ^ 32" using assms(1) by (simp add: f frame_def)
  have un: "unat (word_of_nat ?n :: u32) = ?n" using assms(2) by (simp add: unat_of_nat kMaxJobs_def)
  from u64c.rd_enc [OF TrueI before_new [of body, unfolded body_def]] obtain r1 where
    r1: "rd_u64 (Reader_new body) = (i, r1)" "before r1 (enc_u32 (word_of_nat ?n) @ concat (map enc_result ?rs))"
    unfolding body_def by blast
  from u32c.rd_enc [OF TrueI r1(2)] obtain r2 where
    r2: "rd_u32 r1 = (word_of_nat ?n, r2)" "before r2 (concat (map enc_result ?rs))" by blast
  have "length (payload_bytes (output_of reply overrides k)) < 2 ^ 32" if "k < ?n" for k
  proof -
    have "length (enc_result (sent_result reply overrides k)) \<le> length (concat (map enc_result ?rs))"
      by (rule length_concat_ge) (use that in simp)
    moreover have "length (payload_bytes (output_of reply overrides k)) \<le> length (enc_result (sent_result reply overrides k))"
      by (simp add: enc_result_def sent_result_def enc_payload_def enc_blob_def)
    ultimately show ?thesis using len unfolding body_def by simp
  qed
  then have "list_all (\<lambda>res. length (jr_message res) \<le> 65535 \<and> length (payload_bytes (jr_output res)) < 2 ^ 32
       \<and> payload_ok (jr_output res) \<and> jr_output res = owned (jr_output res)) ?rs"
    using assms(3) by (simp add: list_all_iff sent_result_def)
  from decode_results_before [OF r2(2) this]
  have "decode_results ?n r2 = (if \<forall>k<?n. sendable (output_of reply overrides k) then Some ?rs else None)"
    by (simp add: list_all_iff sent_result_def)
  then show ?thesis
    unfolding decodeReply_def f frame_header(3) [OF len]
    using assms(2) before_ok(1) [OF r2(2)] by (simp add: r1(1) r2(1) un)
qed


definition cut_offer :: "StrategyOffer \<Rightarrow> StrategyOffer" where
  "cut_offer so = so\<lparr>so_name := take 65535 (so_name so)\<rparr>"

definition enc_offer :: "StrategyOffer \<Rightarrow> bytes" where
  "enc_offer so = enc_string (so_name so) @ enc_blob (so_setup so)"

interpretation offerc: codec "\<lambda>so. length (so_name so) \<le> 65535 \<and> length (so_setup so) < 2 ^ 32" enc_offer rd_offer
proof
  fix x r bs
  assume x: "length (so_name x) \<le> 65535 \<and> length (so_setup x) < 2 ^ 32" and "before r (enc_offer x @ bs)"
  then have "before r (enc_string (so_name x) @ enc_blob (so_setup x) @ bs)" by (simp add: enc_offer_def)
  from stringc.rd_enc [OF _ this] x obtain r1 where
    r1: "rd_string r = (so_name x, r1)" "before r1 (enc_blob (so_setup x) @ bs)" by blast
  from blobc.rd_enc [OF _ r1(2)] x obtain r2 where "rd_blob r1 = (so_setup x, r2)" "before r2 bs" by blast
  then show "\<exists>r'. rd_offer r = (x, r') \<and> before r' bs" by (simp add: rd_offer_def r1(1))
qed

text \<open>The strategies that arrive with a hello, and with a hello-ack.\<close>

definition arriving :: "FrameType \<Rightarrow> StrategyOffer list \<Rightarrow> StrategyOffer list" where
  "arriving type sos =
     (if type = kHello then map cut_offer (take 255 sos)
      else case sos of [] \<Rightarrow> [] | so # _ \<Rightarrow> if so_name so = [] then [] else [cut_offer so])"

definition enc_strategies :: "FrameType \<Rightarrow> StrategyOffer list \<Rightarrow> bytes" where
  "enc_strategies type sos =
     (if type = kHello then word_of_nat (min (length sos) 255) # concat (map (enc_offer \<circ> cut_offer) (take 255 sos))
      else case sos of [] \<Rightarrow> enc_string [] @ enc_blob [] | so # _ \<Rightarrow> enc_offer (cut_offer so))"

lemma fold_offers:
  assumes "n \<le> length sos"
  shows "fold (\<lambda>i. w_offer (sos ! i)) [0..<n] w = w @ concat (map (enc_offer \<circ> cut_offer) (take n sos))"
  using assms
  by (induction n) (auto simp: w_offer_def enc_offer_def cut_offer_def w_simps take_Suc_conv_app_nth)

lemma strategies_before:
  assumes "before r (enc_strategies type sos)" "length (enc_strategies type sos) < 2 ^ 32"
  shows "\<exists>r'. rd_strategies type r = (arriving type sos, r') \<and> rd_ok r'"
proof (cases "type = kHello")
  case True
  let ?n = "min (length sos) 255" and ?sos = "map cut_offer (take 255 sos)"
  have b: "before r ([word_of_nat ?n] @ concat (map enc_offer ?sos) @ [])" using assms(1) True by (simp add: enc_strategies_def)
  from u8c.rd_enc [OF TrueI b] obtain r1 where r1: "rd_u8 r = (word_of_nat ?n, r1)" "before r1 (concat (map enc_offer ?sos) @ [])"
    by blast
  have n: "unat (word_of_nat ?n :: u8) = length ?sos" by (simp add: unat_of_nat)
  have "length (so_setup so) < 2 ^ 32" if "so \<in> set ?sos" for so
  proof -
    have "length (so_setup so) \<le> length (enc_offer so)" by (simp add: enc_offer_def enc_blob_def)
    also have "\<dots> \<le> length (concat (map enc_offer ?sos))" by (rule length_concat_ge [OF that])
    finally show ?thesis using assms(2) True by (simp add: enc_strategies_def)
  qed
  then have "list_all (\<lambda>so. length (so_name so) \<le> 65535 \<and> length (so_setup so) < 2 ^ 32) ?sos"
    by (auto simp: list_all_iff cut_offer_def)
  from offerc.many [OF this r1(2)] obtain r' where "rd_many rd_offer (length ?sos) r1 = (?sos, r')" "before r' []" by blast
  then show ?thesis using True before_ok(1) by (auto simp: rd_strategies_def arriving_def r1(1) n)
next
  case False
  define so where "so = (case sos of [] \<Rightarrow> \<lparr>so_name = [], so_setup = []\<rparr> | so # _ \<Rightarrow> cut_offer so)"
  have e: "enc_strategies type sos = enc_offer so"
    using False by (simp add: enc_strategies_def so_def enc_offer_def split: list.splits)
  have l: "length (so_name so) \<le> 65535 \<and> length (so_setup so) < 2 ^ 32"
    using assms(2) unfolding e by (auto simp: so_def enc_offer_def enc_blob_def cut_offer_def split: list.splits)
  have "before r (enc_offer so @ [])" using assms(1) by (simp add: e)
  from offerc.rd_enc [OF l this] obtain r' where r': "rd_offer r = (so, r')" "before r' []" by blast
  have "arriving type sos = (if so_name so \<noteq> [] then [so] else [])"
    using False by (auto simp: arriving_def so_def cut_offer_def split: list.splits)
  then show ?thesis using False r' before_ok(1) by (auto simp: rd_strategies_def)
qed

lemma length_enc_string [simp]: "length (enc_string s) = length s + 2" "length (enc_blob b) = length b + 4"
  by (simp_all add: enc_string_def enc_blob_def)

lemma enc_nonempty [simp]: "enc_string s \<noteq> []" "enc_blob b \<noteq> []"
  by (metis length_enc_string(1) list.size(3) add_is_0 zero_neq_numeral)
     (metis length_enc_string(2) list.size(3) add_is_0 zero_neq_numeral)

lemma enc_strategies_nonempty: "0 < length (enc_strategies type sos)"
  by (simp add: enc_strategies_def enc_offer_def split: list.splits)

lemma hello_frame:
  assumes "type = kHello \<or> type = kHelloAck"
  shows "encodeHello type hello = frame type (enc_u32 kProtocolMagic @ enc_u16 (he_major hello) @ enc_u16 (he_minor hello)
     @ enc_u64 (he_fingerprint hello) @ enc_u32 (he_maxInFlight hello) @ enc_u32 (he_maxInlineBytes hello)
     @ enc_strategies type (he_strategies hello))"
  using assms fold_offers [of "min (length (he_strategies hello)) 255" "he_strategies hello"]
  by (auto simp: encodeHello_def Let_def w_simps enc_strategies_def finish_frame [symmetric]
      w_offer_def enc_offer_def cut_offer_def min_def split: list.splits if_splits)

lemma frameType_frame: "length (frame type body) < 2 ^ 32 \<Longrightarrow> frameType (frame type body) = Some type"
  by (intro frame_header(1)) (simp add: frame_def)

lemma frameType_hello:
  assumes "type = kHello \<or> type = kHelloAck" "length (encodeHello type hello) < 2 ^ 32"
  shows "frameType (encodeHello type hello) = Some type"
  using assms(2) unfolding hello_frame[OF assms(1)] by (rule frameType_frame)

lemma frameType_reply: "length (encodeReply i reply overrides) < 2 ^ 32 \<Longrightarrow> frameType (encodeReply i reply overrides) = Some kReply"
  by (simp add: encodeReply_def fold_results w_simps finish_frame frameType_frame)

lemma hello_roundtrip_body:
  assumes "type = kHello \<or> type = kHelloAck" "length (encodeHello type hello) < 2 ^ 32"
  shows "decodeHello (encodeHello type hello) =
    Some (hello\<lparr>he_strategies := if he_minor hello \<ge> 1 then arriving type (he_strategies hello) else []\<rparr>)"
proof -
  let ?s = "enc_strategies type (he_strategies hello)"
  let ?b5 = "enc_u32 (he_maxInlineBytes hello) @ ?s"
  let ?b4 = "enc_u32 (he_maxInFlight hello) @ ?b5"
  let ?b3 = "enc_u64 (he_fingerprint hello) @ ?b4"
  let ?b2 = "enc_u16 (he_minor hello) @ ?b3"
  let ?b1 = "enc_u16 (he_major hello) @ ?b2"
  define body where "body = enc_u32 kProtocolMagic @ ?b1"
  have f: "encodeHello type hello = frame type body"
    using hello_frame [OF assms(1)] by (simp add: body_def)
  have len: "length body < 2 ^ 32" using assms(2) by (simp add: f frame_def)
  from u32c.rd_enc [OF TrueI before_new [of body, unfolded body_def]] obtain r0 where
    r0: "rd_u32 (Reader_new body) = (kProtocolMagic, r0)" "before r0 ?b1" unfolding body_def by blast
  from u16c.rd_enc [OF TrueI r0(2)] obtain r1 where r1: "rd_u16 r0 = (he_major hello, r1)" "before r1 ?b2" by blast
  from u16c.rd_enc [OF TrueI r1(2)] obtain r2 where r2: "rd_u16 r1 = (he_minor hello, r2)" "before r2 ?b3" by blast
  from u64c.rd_enc [OF TrueI r2(2)] obtain r3 where r3: "rd_u64 r2 = (he_fingerprint hello, r3)" "before r3 ?b4" by blast
  from u32c.rd_enc [OF TrueI r3(2)] obtain r4 where r4: "rd_u32 r3 = (he_maxInFlight hello, r4)" "before r4 ?b5" by blast
  from u32c.rd_enc [OF TrueI r4(2)] obtain r5 where r5: "rd_u32 r4 = (he_maxInlineBytes hello, r5)" "before r5 ?s" by blast
  have "length ?s < 2 ^ 32" using len by (simp add: body_def)
  from strategies_before [OF r5(2) this] obtain r6 where
    r6: "rd_strategies type r5 = (arriving type (he_strategies hello), r6)" "rd_ok r6" by blast
  have "remaining r5 > 0"
    unfolding before_ok(2) [OF r5(2)] by (rule enc_strategies_nonempty)
  moreover have eta: "\<lparr>he_major = he_major hello, he_minor = he_minor hello, he_fingerprint = he_fingerprint hello,
      he_maxInFlight = he_maxInFlight hello, he_maxInlineBytes = he_maxInlineBytes hello, he_strategies = xs\<rparr>
      = hello\<lparr>he_strategies := xs\<rparr>" for xs
    by (cases hello) simp
  ultimately show ?thesis
    unfolding decodeHello_def f frame_header(1,2) [OF len]
    using assms(1) before_ok(1) [OF r5(2)] r6(2)
    by (auto simp: r0(1) r1(1) r2(1) r3(1) r4(1) r5(1) r6(1) Let_def)
qed


lemma cancel_roundtrip_body: "decodeCancel (encodeCancel i) = Some i"
proof -
  have f: "encodeCancel i = frame kCancel (enc_u64 i)" by (simp add: encodeCancel_def w_simps finish_frame)
  have len: "length (enc_u64 i) < 2 ^ 32" by simp
  have "before (Reader_new (enc_u64 i)) (enc_u64 i @ [])" using before_new [of "enc_u64 i"] by simp
  from u64c.rd_enc [OF TrueI this] obtain r1 where "rd_u64 (Reader_new (enc_u64 i)) = (i, r1)" "before r1 []" by blast
  then show ?thesis using before_ok(1) [of r1] unfolding decodeCancel_def f frame_header(3) [OF len] by simp
qed

lemma reject_roundtrip_body:
  "decodeReject (encodeReject reject) = Some (reject\<lparr>rj_detail := take 65535 (rj_detail reject)\<rparr>)"
proof -
  let ?d = "take 65535 (rj_detail reject)"
  define body where "body = [rj_reason reject] @ enc_string ?d @ []"
  have f: "encodeReject reject = frame kHelloReject body"
    by (simp add: encodeReject_def w_simps finish_frame body_def)
  have len: "length body < 2 ^ 32" by (simp add: body_def)
  from u8c.rd_enc [OF TrueI before_new [of body, unfolded body_def]] obtain r1 where
    r1: "rd_u8 (Reader_new body) = (rj_reason reject, r1)" "before r1 (enc_string ?d @ [])" unfolding body_def by blast
  have "length ?d \<le> 65535" by simp
  from stringc.rd_enc [OF this r1(2)] obtain r2 where "rd_string r1 = (?d, r2)" "before r2 []" by blast
  then show ?thesis
    using before_ok(1) [of r2] unfolding decodeReject_def f frame_header(3) [OF len] by (simp add: r1(1))
qed

section \<open>Untrusted frames\<close>

text \<open>What a decoder accepts is well formed whatever bytes arrive.\<close>

lemma length_taken: "length (taken (unat n) r) \<le> unat n"
  by (simp add: taken_def)

lemma rd_string_length: "rd_string r = (s, r') \<Longrightarrow> length s \<le> 65535"
proof -
  assume r: "rd_string r = (s, r')"
  obtain n r1 where n: "rd_u16 r = (n, r1)" by fastforce
  have "length s \<le> unat n"
    using r length_taken [of n] by (auto simp: rd_string_def n split: prod.splits if_splits)
  moreover have "unat n < 2 ^ LENGTH(16)" by (rule unsigned_less)
  ultimately show ?thesis by simp
qed

lemma rd_blob_length: "rd_blob r = (b, r') \<Longrightarrow> length b < 2 ^ 32"
proof -
  assume r: "rd_blob r = (b, r')"
  obtain n r1 where n: "rd_u32 r = (n, r1)" by fastforce
  have "length b \<le> unat n"
    using r length_taken [of n] by (auto simp: rd_blob_def n split: prod.splits if_splits)
  moreover have "unat n < 2 ^ LENGTH(32)" by (rule unsigned_less)
  ultimately show ?thesis by simp
qed

lemma rd_payload_sendable: "rd_payload r = (Some p, r') \<Longrightarrow> sendable p"
  using rd_blob_length
  by (fastforce simp: rd_payload_def sendable_def fits_def payload_bytes_def Payload_new_def inlineBytes_def
      Payload_handle_def Payload_reference_def kMaxHandleBytes_def split: prod.splits if_splits)

lemma decode_jobs_ok:
  assumes "decode_jobs n r req = Some (req', r')" "\<forall>job\<in>set (rq_jobs req). job_fits job \<and> payload_ok (js_input job)"
  shows "rq_edges req' = rq_edges req \<and> length (rq_jobs req') = length (rq_jobs req) + n
    \<and> (\<forall>job\<in>set (rq_jobs req'). job_fits job \<and> payload_ok (js_input job))"
  using assms
proof (induction n arbitrary: r req)
  case (Suc n)
  obtain name r1 where r1: "rd_string r = (name, r1)" by fastforce
  obtain version r2 where r2: "rd_u32 r1 = (version, r2)" by fastforce
  obtain ex r3 where r3: "rd_u8 r2 = (ex, r3)" by fastforce
  obtain p' r4 where r4: "rd_payload r3 = (p', r4)" by fastforce
  then obtain p where p': "p' = Some p" using Suc.prems(1) by (cases p') (simp_all add: r1 r2 r3)
  have go: "decode_jobs n r4 (snd (request_add \<lparr>jk_name = name, jk_version = version\<rparr> p (ex \<noteq> 0) req)) = Some (req', r')"
    using Suc.prems(1) by (simp add: r1 r2 r3 r4 p' split: if_splits)
  have "sendable p" "length name \<le> 65535" using rd_payload_sendable [OF r4 [unfolded p']] rd_string_length [OF r1] by simp_all
  then have new: "job_fits \<lparr>js_kind = \<lparr>jk_name = name, jk_version = version\<rparr>, js_input = p, js_exported = e\<rparr> \<and> payload_ok p" for e
    by (simp add: job_fits_def sendable_def payload_ok_def)
  let ?req = "snd (request_add \<lparr>jk_name = name, jk_version = version\<rparr> p (ex \<noteq> 0) req)"
  have req: "rq_jobs ?req = rq_jobs req @ [\<lparr>js_kind = \<lparr>jk_name = name, jk_version = version\<rparr>, js_input = p, js_exported = ex \<noteq> 0\<rparr>]"
    "rq_edges ?req = rq_edges req"
    by (simp_all add: request_add_def Let_def)
  have "\<forall>job\<in>set (rq_jobs ?req). job_fits job \<and> payload_ok (js_input job)"
    unfolding req(1) using Suc.prems(2) new by simp
  from Suc.IH [OF go this] show ?case unfolding req by simp
qed simp

lemma decode_edges_ok:
  assumes "decode_edges n r req = Some (req', r')" "\<forall>e\<in>set (rq_edges req). edge_ok (length (rq_jobs req)) e"
  shows "rq_jobs req' = rq_jobs req \<and> length (rq_edges req') = length (rq_edges req) + n
    \<and> (\<forall>e\<in>set (rq_edges req'). edge_ok (length (rq_jobs req)) e)"
  using assms
proof (induction n arbitrary: r req)
  case (Suc n)
  obtain a r1 where r1: "rd_u32 r = (a, r1)" by fastforce
  obtain b r2 where r2: "rd_u32 r1 = (b, r2)" by fastforce
  have go: "decode_edges n r2 (snd (request_edge a b req)) = Some (req', r')" "fst (request_edge a b req)"
    using Suc.prems(1) by (simp_all add: r1 r2 split: if_splits)
  then show ?case
    using Suc.IH [OF go(1)] Suc.prems(2) by (auto simp: request_edge_def edge_ok_def split: if_splits)
qed simp

lemma decodeRequest_ok:
  assumes "decodeRequest f = Some (i, req)"
  shows "request_ok req" "length (rq_jobs req) \<le> kMaxJobs" "\<forall>job\<in>set (rq_jobs req). job_fits job"
proof -
  from assms obtain n r2 q r3 m r4 r5 where
    d: "n \<le> kMaxJobs" "decode_jobs n r2 SubGraphRequest_new = Some (q, r3)" "decode_edges m r4 q = Some (req, r5)"
    by (auto simp: decodeRequest_def split: option.splits prod.splits if_splits) (metis not_le)
  have j: "rq_edges q = [] \<and> length (rq_jobs q) = n \<and> (\<forall>job\<in>set (rq_jobs q). job_fits job \<and> payload_ok (js_input job))"
    using decode_jobs_ok [OF d(2)] by (simp add: SubGraphRequest_new_def)
  then have "rq_jobs req = rq_jobs q \<and> (\<forall>e\<in>set (rq_edges req). edge_ok (length (rq_jobs q)) e)"
    using decode_edges_ok [OF d(3)] by simp
  then show "request_ok req" "length (rq_jobs req) \<le> kMaxJobs" "\<forall>job\<in>set (rq_jobs req). job_fits job"
    using j d(1) by (auto simp: request_ok_def)
qed


section \<open>Properties\<close>

definition example_request :: SubGraphRequest where
  "example_request =
     \<lparr>rq_jobs = [\<lparr>js_kind = \<lparr>jk_name = ''hash'', jk_version = 2\<rparr>, js_input = inlineBytes [1, 2, 3], js_exported = True\<rparr>,
                 \<lparr>js_kind = \<lparr>jk_name = ''sum'', jk_version = 1\<rparr>, js_input = Payload_new, js_exported = False\<rparr>],
      rq_edges = [(0, 1)]\<rparr>"

lemma example_request_ok: "request_ok example_request"
  by (simp add: request_ok_def example_request_def edge_ok_def payload_ok_def inlineBytes_def Payload_new_def payload_bytes_def)

lemma example_request_encodes: "\<exists>f. encodeRequest i example_request [] = Some f \<and> length f < 2 ^ 32"
proof -
  have "\<forall>i<2. job_fits (sent_job example_request [] i)"
    by (auto simp: less_2_cases_iff job_fits_def sent_job_def input_of_def example_request_def fits_def inlineBytes_def
        Payload_new_def payload_bytes_def owned_def)
  then have l: "list_all (job_fits \<circ> sent_job example_request []) [0..<length (rq_jobs example_request)]"
    by (simp add: list_all_iff example_request_def)
  show ?thesis
    using l unfolding encodeRequest_def encode_jobs_eq
    by (simp add: w_simps fold_edges finish_frame frame_def kMaxJobs_def)
       (simp add: example_request_def enc_job_def sent_job_def input_of_def enc_payload_def inlineBytes_def
         Payload_new_def payload_bytes_def owned_def)
qed





text \<open>
  C17. The handshake values arrive as they were sent, in both directions: version, fingerprint and limits
  always, and from minor version 1 on the offered strategies (the first 255, names cut to 65,535
  bytes) or the chosen one. Refusals and cancellations arrive too.
\<close>

theorem handshake_roundtrip:
  assumes "type = kHello \<or> type = kHelloAck" "length (encodeHello type hello) < 2 ^ 32"
  shows "decodeHello (encodeHello type hello) =
      Some (hello\<lparr>he_strategies := if he_minor hello \<ge> 1 then arriving type (he_strategies hello) else []\<rparr>)
    \<and> decodeReject (encodeReject reject) = Some (reject\<lparr>rj_detail := take 65535 (rj_detail reject)\<rparr>)
    \<and> decodeCancel (encodeCancel i) = Some i"
  using hello_roundtrip_body [OF assms] reject_roundtrip_body cancel_roundtrip_body by blast

theorem handshake_roundtrip_witness:
  "decodeHello (encodeHello kHello Hello_new) = Some Hello_new \<and> decodeCancel (encodeCancel 3) = Some 3"
proof -
  have "length (encodeHello kHello Hello_new) < 2 ^ 32"
    by (simp add: encodeHello_def Let_def w_simps finish_frame frame_def Hello_new_def)
  then show ?thesis
    using handshake_roundtrip [of kHello Hello_new] by (auto simp: arriving_def Hello_new_def kProtocolMinor_def)
qed

text \<open>
  C18. Whatever bytes a worker receives, a request it accepts is well formed: at most 65,536 jobs, every
  edge between two different jobs of the request, every name and payload within the limits of the
  format, so that the request could be encoded again.
\<close>

theorem accepted_requests_are_well_formed:
  assumes "decodeRequest f = Some (i, req)"
  shows "length (rq_jobs req) \<le> kMaxJobs \<and>
    (\<forall>(from, to)\<in>set (rq_edges req). unat from < length (rq_jobs req) \<and> unat to < length (rq_jobs req) \<and> from \<noteq> to) \<and>
    (\<exists>g. encodeRequest i req [] = Some g)"
proof -
  note ok = decodeRequest_ok [OF assms]
  have "list_all (job_fits \<circ> sent_job req []) [0..<length (rq_jobs req)]"
    using ok(3) by (auto simp: list_all_iff job_fits_def sent_job_def input_of_def)
  then have "\<exists>g. encodeRequest i req [] = Some g" using ok(2) by (simp add: encodeRequest_def encode_jobs_eq)
  then show ?thesis using ok(1,2) by (auto simp: request_ok_def edge_ok_def)
qed

theorem accepted_requests_are_well_formed_witness:
  "\<exists>f req. decodeRequest f = Some (7, req) \<and> length (rq_jobs req) \<le> kMaxJobs"
proof -
  obtain f where f: "encodeRequest 7 example_request [] = Some f" "length f < 2 ^ 32" using example_request_encodes by blast
  have "\<forall>p. Some p \<in> set [] \<longrightarrow> payload_ok p" by simp
  from request_roundtrip_body [OF f example_request_ok this] show ?thesis
    using accepted_requests_are_well_formed by blast
qed

end
