(* ===== verification/Registry.thy ===== *)
theory Registry
  imports Wire "HOL-Library.Multiset" "HOL-Library.List_Lexorder" "HOL-Library.Product_Lexorder"
begin

text \<open>
  The job kinds a worker can run: \<^verbatim>\<open>JobRegistry\<close> and \<^verbatim>\<open>registryFingerprint\<close>
  (\<^verbatim>\<open>include/sub0pipeline/remote/registry.hpp\<close>, \<^verbatim>\<open>src/remote/registry.cpp\<close>). The \<^verbatim>\<open>std::map\<close> is the list
  of its entries in key order.
\<close>

section \<open>Fingerprint\<close>

text \<open>The order of \<^verbatim>\<open>JobKindId\<close>: by name as a string of unsigned characters, then by version.\<close>

definition kind_key :: "JobKindId \<Rightarrow> nat list \<times> nat" where
  "kind_key k = (map of_char (jk_name k), unat (jk_version k))"

definition kFnvOffset :: u64 where "kFnvOffset = 0xCBF29CE484222325"
definition kFnvPrime :: u64 where "kFnvPrime = 0x00000100000001B3"

definition mix :: "u8 \<Rightarrow> u64 \<Rightarrow> u64" where
  "mix byte hash = (hash XOR ucast byte) * kFnvPrime"

definition mix_kind :: "JobKindId \<Rightarrow> u64 \<Rightarrow> u64" where
  "mix_kind kind hash =
     (let len = min (length (jk_name kind)) 65535; n = (word_of_nat len :: u16);
          h1 = mix (ucast (n AND 0xFF)) hash;
          h2 = mix (ucast (drop_bit 8 n)) h1;
          h3 = fold (\<lambda>i. mix (byte_of_char (jk_name kind ! i))) [0..<len] h2
      in fold (\<lambda>shift. mix (ucast (drop_bit shift (jk_version kind) AND 0xFF))) [0, 8, 16, 24] h3)"

definition registryFingerprint :: "JobKindId list \<Rightarrow> u64" where
  "registryFingerprint kinds = fold mix_kind (sort_key kind_key kinds) kFnvOffset"

section \<open>Registry\<close>

type_synonym 'f JobRegistry = "(JobKindId \<times> 'f) list"

text \<open>\<open>None\<close> is an empty \<^verbatim>\<open>std::function\<close>.\<close>

definition registry_add :: "JobKindId \<Rightarrow> 'f option \<Rightarrow> 'f JobRegistry \<Rightarrow> bool \<times> 'f JobRegistry" where
  "registry_add kind fn reg =
     (case fn of
        None \<Rightarrow> (False, reg)
      | Some f \<Rightarrow> if kind \<in> fst ` set reg then (False, reg) else (True, insort_key (kind_key \<circ> fst) (kind, f) reg))"

fun registry_find :: "string \<Rightarrow> u32 \<Rightarrow> 'f JobRegistry \<Rightarrow> 'f option" where
  "registry_find name version [] = None"
| "registry_find name version ((kind, f) # reg) =
     (if jk_version kind = version \<and> jk_name kind = name then Some f else registry_find name version reg)"

definition registry_kinds :: "'f JobRegistry \<Rightarrow> JobKindId list" where
  "registry_kinds reg = map fst reg"

definition registry_fingerprint :: "'f JobRegistry \<Rightarrow> u64" where
  "registry_fingerprint reg = registryFingerprint (registry_kinds reg)"

section \<open>The registry as a table\<close>

text \<open>
  What a worker relies on: a lookup finds what was registered first under a kind, and a second
  registration is refused and changes nothing.
\<close>

locale kind_table =
  fixes empty_table :: "'t" and add :: "'k \<Rightarrow> 'f option \<Rightarrow> 't \<Rightarrow> bool \<times> 't" and look :: "'k \<Rightarrow> 't \<Rightarrow> 'f option"
  assumes look_empty: "look k empty_table = None"
    and look_add: "look k' (snd (add k fn t)) = (if k' = k \<and> look k t = None then fn else look k' t)"
    and add_accepts: "fst (add k fn t) \<longleftrightarrow> fn \<noteq> None \<and> look k t = None"
begin

text \<open>Registering a list of functions in order.\<close>

definition register :: "('k \<times> 'f option) list \<Rightarrow> 't \<Rightarrow> 't" where
  "register = fold (\<lambda>(k, fn) t. snd (add k fn t))"

lemma look_register:
  "look k (register kfs t) =
     (case look k t of Some f \<Rightarrow> Some f
      | None \<Rightarrow> (case filter (\<lambda>(k', fn). k' = k \<and> fn \<noteq> None) kfs of [] \<Rightarrow> None | (_, fn) # _ \<Rightarrow> fn))"
proof (induction kfs arbitrary: t)
  case (Cons kf kfs)
  obtain k' fn where kf: "kf = (k', fn)" by fastforce
  show ?case
    using Cons.IH [of "snd (add k' fn t)"]
    by (auto simp: register_def kf look_add split: option.splits list.splits)
qed (simp add: register_def split: option.splits)

end

lemma kind_key_inj: "kind_key a = kind_key b \<Longrightarrow> a = b"
proof -
  assume "kind_key a = kind_key b"
  then have "map of_char (jk_name a) = (map of_char (jk_name b) :: nat list)" "jk_version a = jk_version b"
    by (auto simp: kind_key_def word_unat_eq_iff)
  moreover from this(1) have "jk_name a = jk_name b"
    using map_injective [of "of_char :: char \<Rightarrow> nat"] inj_of_char by blast
  ultimately show ?thesis by simp
qed

lemma find_insort:
  assumes "kind \<notin> fst ` set reg"
  shows "registry_find (jk_name k) (jk_version k) (insort_key (kind_key \<circ> fst) (kind, f) reg) =
    (if k = kind then Some f else registry_find (jk_name k) (jk_version k) reg)"
  using assms
proof (induction reg)
  case (Cons e reg)
  then show ?case by (cases e) (auto simp: JobKindId.equality)
qed (auto simp: JobKindId.equality)

lemma find_mem: "registry_find (jk_name k) (jk_version k) reg = None \<longleftrightarrow> k \<notin> fst ` set reg"
proof (induction reg)
  case (Cons e reg)
  then show ?case by (cases e) (auto simp: JobKindId.equality image_iff)
qed simp

interpretation registry: kind_table "[]" registry_add "\<lambda>k. registry_find (jk_name k) (jk_version k)"
proof
  fix k k' :: JobKindId and fn :: "'f option" and t :: "'f JobRegistry"
  show "registry_find (jk_name k) (jk_version k) [] = None" by simp
  show "registry_find (jk_name k') (jk_version k') (snd (registry_add k fn t)) =
      (if k' = k \<and> registry_find (jk_name k) (jk_version k) t = None then fn
       else registry_find (jk_name k') (jk_version k') t)"
    using find_mem [of k t] by (cases fn) (auto simp: registry_add_def find_insort find_mem)
  show "fst (registry_add k fn t) \<longleftrightarrow> fn \<noteq> None \<and> registry_find (jk_name k) (jk_version k) t = None"
    using find_mem [of k t] by (cases fn) (auto simp: registry_add_def)
qed

lemma sort_key_mset:
  assumes "mset xs = mset ys"
  shows "sort_key kind_key xs = sort_key kind_key ys"
  by (rule sort_key_inj_key_eq) (use assms kind_key_inj in \<open>auto simp: inj_on_def\<close>)


section \<open>Properties\<close>

lemma registry_sorted:
  assumes "sorted (map kind_key (registry_kinds reg))" "distinct (registry_kinds reg)"
  shows "sorted (map kind_key (registry_kinds (snd (registry_add k fn reg)))) \<and>
    distinct (registry_kinds (snd (registry_add k fn reg)))"
proof (cases "fn = None \<or> k \<in> fst ` set reg")
  case True
  then show ?thesis using assms by (auto simp: registry_add_def split: option.splits)
next
  case False
  then obtain f where f: "fn = Some f" "k \<notin> fst ` set reg" by auto
  have "sorted (map (kind_key \<circ> fst) (insort_key (kind_key \<circ> fst) (k, f) reg))"
    using assms(1) by (simp add: sorted_insort_key registry_kinds_def comp_def)
  moreover have "mset (map fst (insort_key (kind_key \<circ> fst) (k, f) reg)) = mset (k # map fst reg)"
    by simp
  then have "distinct (map fst (insort_key (kind_key \<circ> fst) (k, f) reg))"
    using assms(2) f(2) by (metis distinct.simps(2) image_set mset_eq_imp_distinct_iff registry_kinds_def)
  ultimately show ?thesis using f by (simp add: registry_add_def registry_kinds_def)
qed

text \<open>
  C22. A worker that registers functions in any order runs, for a kind named in a request, the first
  non-empty function registered under exactly that name and version, and reports the kind as unknown
  if there is none; its kinds are listed in order and without repetition.
\<close>

theorem registry_runs_first_registration:
  "registry_find (jk_name k) (jk_version k) (fold (\<lambda>(k, fn) t. snd (registry_add k fn t)) kfs []) =
     (case filter (\<lambda>(k', fn). k' = k \<and> fn \<noteq> None) kfs of [] \<Rightarrow> None | (_, fn) # _ \<Rightarrow> fn) \<and>
   sorted (map kind_key (registry_kinds (fold (\<lambda>(k, fn) t. snd (registry_add k fn t)) kfs []))) \<and>
   distinct (registry_kinds (fold (\<lambda>(k, fn) t. snd (registry_add k fn t)) kfs []))"
proof -
  have "sorted (map kind_key (registry_kinds r)) \<and> distinct (registry_kinds r) \<Longrightarrow>
      sorted (map kind_key (registry_kinds (fold (\<lambda>(k, fn) t. snd (registry_add k fn t)) kfs r))) \<and>
      distinct (registry_kinds (fold (\<lambda>(k, fn) t. snd (registry_add k fn t)) kfs r))" for r
  proof (induction kfs arbitrary: r)
    case (Cons kf kfs)
    then show ?case using registry_sorted [of r "fst kf" "snd kf"] by (cases kf) simp
  qed simp
  from this [of "[]"] show ?thesis
    using registry.look_register [of k kfs "[]"] by (simp add: registry.register_def registry_kinds_def)
qed

text \<open>
  C23. The fingerprint depends only on which kinds are registered: the order in which a coordinator
  lists the kinds it expects, or in which a worker registers them, does not matter.
\<close>

theorem fingerprint_ignores_order:
  assumes "mset kinds = mset (registry_kinds reg)"
  shows "registryFingerprint kinds = registry_fingerprint reg"
  using sort_key_mset [OF assms] by (simp add: registryFingerprint_def registry_fingerprint_def)

theorem fingerprint_ignores_order_witness:
  "registryFingerprint [\<lparr>jk_name = ''b'', jk_version = 1\<rparr>, \<lparr>jk_name = ''a'', jk_version = 2\<rparr>] =
   registry_fingerprint [(\<lparr>jk_name = ''a'', jk_version = 2\<rparr>, 0 :: nat), (\<lparr>jk_name = ''b'', jk_version = 1\<rparr>, 1)]"
  by (rule fingerprint_ignores_order) (simp add: registry_kinds_def)

end
