(* ===== verification/Framing.thy ===== *)
theory Framing
  imports Wire
begin

text \<open>
  Frames on a byte stream: \<^verbatim>\<open>FrameReader\<close> and the default \<^verbatim>\<open>sendParts\<close> of
  \<^verbatim>\<open>include/sub0pipeline/remote/transport.hpp\<close>, and the library's payload sender
  (\<^verbatim>\<open>src/remote/payload_sender.hpp\<close>).
\<close>

datatype TransportError = kClosed | kIoError | kProtocol

section \<open>Splitting a stream\<close>

record FrameReader =
  fr_maxBodyBytes :: u32
  fr_buffer :: bytes

definition FrameReader_new :: "u32 \<Rightarrow> FrameReader" where
  "FrameReader_new limit = \<lparr>fr_maxBodyBytes = limit, fr_buffer = []\<rparr>"

text \<open>The body length in a header: the loop fills a \<^verbatim>\<open>uint32_t\<close>.\<close>

definition body_length :: "bytes \<Rightarrow> u32" where
  "body_length bs = ucast (unlittle (take 4 bs))"

text \<open>The loop of \<^verbatim>\<open>feed\<close>: what it returns, the final offset, the frames handed to \<^verbatim>\<open>onFrame\<close>.\<close>

function feed_loop :: "u32 \<Rightarrow> bytes \<Rightarrow> nat \<Rightarrow> bool \<times> nat \<times> bytes list" where
  "feed_loop limit buf offset =
     (if offset \<le> length buf \<and> length buf - offset \<ge> kHeaderBytes
      then let body = body_length (drop offset buf);
               frameBytes = kHeaderBytes + unat body
           in if body > limit then (False, offset, [])
              else if length buf - offset < frameBytes then (True, offset, [])
              else (case feed_loop limit buf (offset + frameBytes) of
                      (fine, offset', frames) \<Rightarrow> (fine, offset', take frameBytes (drop offset buf) # frames))
      else (True, offset, []))"
  by pat_completeness auto
termination
  by (relation "measure (\<lambda>(limit, buf, offset). length buf - offset)") (auto simp: kHeaderBytes_def)

declare feed_loop.simps [simp del]

definition feed :: "bytes \<Rightarrow> FrameReader \<Rightarrow> bool \<times> bytes list \<times> FrameReader" where
  "feed bs r =
     (let buf = fr_buffer r @ bs
      in case feed_loop (fr_maxBodyBytes r) buf 0 of
           (fine, offset, frames) \<Rightarrow>
             (fine, frames, r\<lparr>fr_buffer := if fine then drop offset buf else buf\<rparr>))"

text \<open>A transport feeds what it reads, chunk by chunk, and closes on the first refusal.\<close>

fun feed_all :: "bytes list \<Rightarrow> FrameReader \<Rightarrow> bool \<times> bytes list \<times> FrameReader" where
  "feed_all [] r = (True, [], r)"
| "feed_all (c # cs) r =
     (case feed c r of
        (fine, frames, r1) \<Rightarrow>
          if fine then (case feed_all cs r1 of (fine', frames', r2) \<Rightarrow> (fine', frames @ frames', r2))
          else (False, frames, r1))"

section \<open>Sending\<close>

definition sendParts_default :: "bytes list \<Rightarrow> bytes" where
  "sendParts_default parts = fold (\<lambda>part fr. fr @ part) parts []"

definition kMaxParts :: nat where "kMaxParts = 8"

definition sendPayloadFrame :: "bytes list \<Rightarrow> TransportError + bytes list" where
  "sendPayloadFrame parts =
     (if length parts + 1 > kMaxParts then Inl kProtocol
      else let body = fold (\<lambda>part n. n + length part) parts 0
           in if body > 2 ^ 32 - 1 then Inl kProtocol
              else Inr (payloadFrameHeader (word_of_nat body) # parts))"

section \<open>The reader as a parser\<close>

text \<open>The reference: the frames at the start of a byte string, and what is left.\<close>

function parse :: "u32 \<Rightarrow> bytes \<Rightarrow> bool \<times> bytes list \<times> bytes" where
  "parse limit bs =
     (if length bs < kHeaderBytes then (True, [], bs)
      else if body_length bs > limit then (False, [], bs)
      else if length bs < kHeaderBytes + unat (body_length bs) then (True, [], bs)
      else (case parse limit (drop (kHeaderBytes + unat (body_length bs)) bs) of
              (fine, frames, rest) \<Rightarrow> (fine, take (kHeaderBytes + unat (body_length bs)) bs # frames, rest)))"
  by pat_completeness auto
termination
  by (relation "measure (\<lambda>(limit, bs). length bs)") (auto simp: kHeaderBytes_def)

declare parse.simps [simp del]

lemma feed_loop_parse:
  "offset \<le> length buf \<Longrightarrow>
   feed_loop limit buf offset =
     (case parse limit (drop offset buf) of (fine, frames, rest) \<Rightarrow> (fine, length buf - length rest, frames))
   \<and> (case parse limit (drop offset buf) of (fine, frames, rest) \<Rightarrow>
        length rest \<le> length buf \<and> drop (length buf - length rest) buf = rest)"
proof (induction limit buf offset rule: feed_loop.induct)
  case (1 limit buf offset)
  let ?bs = "drop offset buf"
  let ?fb = "kHeaderBytes + unat (body_length ?bs)"
  show ?case
  proof (cases "length ?bs < kHeaderBytes \<or> body_length ?bs > limit \<or> length ?bs < ?fb")
    case True
    then show ?thesis
      using "1.prems" by (subst feed_loop.simps, subst (1 2) parse.simps) (auto simp: Let_def)
  next
    case False
    then have next_ok: "offset + ?fb \<le> length buf" using "1.prems" by (auto simp: not_less le_diff_conv2)
    have IH: "feed_loop limit buf (offset + ?fb) =
        (case parse limit (drop (offset + ?fb) buf) of (fine, frames, rest) \<Rightarrow> (fine, length buf - length rest, frames))
      \<and> (case parse limit (drop (offset + ?fb) buf) of (fine, frames, rest) \<Rightarrow>
          length rest \<le> length buf \<and> drop (length buf - length rest) buf = rest)"
      using "1.IH" False "1.prems" next_ok by (simp add: Let_def not_less)
    obtain fine frames rest where p: "parse limit (drop (offset + ?fb) buf) = (fine, frames, rest)"
      using prod_cases3 by blast
    have "parse limit ?bs = (fine, take ?fb ?bs # frames, rest)"
      using False p by (subst parse.simps) (simp add: add.commute)
    moreover have "feed_loop limit buf offset = (fine, length buf - length rest, take ?fb ?bs # frames)"
      using False "1.prems" IH p by (subst feed_loop.simps) (simp add: Let_def)
    ultimately show ?thesis using IH p by simp
  qed
qed

lemma feed_parse:
  "feed bs r = (case parse (fr_maxBodyBytes r) (fr_buffer r @ bs) of
     (fine, frames, rest) \<Rightarrow> (fine, frames, r\<lparr>fr_buffer := if fine then rest else fr_buffer r @ bs\<rparr>))"
  using feed_loop_parse [of 0 "fr_buffer r @ bs" "fr_maxBodyBytes r"]
  by (auto simp: feed_def Let_def split: prod.splits)

lemma body_length_append: "kHeaderBytes \<le> length a \<Longrightarrow> body_length (a @ b) = body_length a"
  by (simp add: body_length_def kHeaderBytes_def)

lemma parse_append:
  "parse limit (a @ b) =
     (case parse limit a of
        (fine, frames, rest) \<Rightarrow>
          if fine then (case parse limit (rest @ b) of (fine', frames', rest') \<Rightarrow> (fine', frames @ frames', rest'))
          else (False, frames, rest @ b))"
proof (induction limit a rule: parse.induct)
  case (1 limit a)
  let ?fb = "kHeaderBytes + unat (body_length a)"
  consider "length a < kHeaderBytes" | "\<not> length a < kHeaderBytes" "body_length a > limit"
    | "\<not> length a < kHeaderBytes" "\<not> body_length a > limit" "length a < ?fb"
    | "\<not> length a < kHeaderBytes" "\<not> body_length a > limit" "\<not> length a < ?fb" by blast
  then show ?case
  proof cases
    case 1
    then show ?thesis by (subst (2) parse.simps) (simp split: prod.splits)
  next
    case 2
    then have "parse limit (a @ b) = (False, [], a @ b)" "parse limit a = (False, [], a)"
      by (subst parse.simps, simp add: body_length_append)+
    then show ?thesis by simp
  next
    case 3
    then have "parse limit a = (True, [], a)" by (subst parse.simps) simp
    then show ?thesis by (simp split: prod.splits)
  next
    case 4
    obtain fine frames rest where p: "parse limit (drop ?fb a) = (fine, frames, rest)" using prod_cases3 by blast
    have pa: "parse limit a = (fine, take ?fb a # frames, rest)" using 4 p by (subst parse.simps) simp
    have "parse limit (a @ b) = (case parse limit (drop ?fb a @ b) of
        (fine', frames', rest') \<Rightarrow> (fine', take ?fb a # frames', rest'))"
      using 4 by (subst parse.simps) (simp add: body_length_append)
    then show ?thesis
      unfolding pa using "1.IH" [OF 4] p by (cases fine) (auto split: prod.splits)
  qed
qed


section \<open>Properties\<close>

definition valid_frame :: "u32 \<Rightarrow> bytes \<Rightarrow> bool" where
  "valid_frame limit f \<longleftrightarrow> kHeaderBytes \<le> length f \<and> length f = kHeaderBytes + unat (body_length f) \<and> body_length f \<le> limit"

lemma parse_frames: "\<forall>f\<in>set fs. valid_frame limit f \<Longrightarrow> parse limit (concat fs) = (True, fs, [])"
proof (induction fs)
  case (Cons f fs)
  then have "parse limit f = (True, [f], [])"
    by (subst parse.simps, subst parse.simps) (simp add: valid_frame_def kHeaderBytes_def not_less)
  then show ?case using Cons parse_append [of limit f "concat fs"] by simp
qed (subst parse.simps, simp add: kHeaderBytes_def)

lemma frame_valid:
  assumes "length body \<le> unat limit"
  shows "valid_frame limit (frame type body)"
proof -
  have n: "length body < 2 ^ 32" using assms unsigned_less [of limit, where ?'a = nat] by simp
  have "body_length (frame type body) = word_of_nat (length body)"
    by (simp add: body_length_def frame_def)
  then show ?thesis
    using assms n by (simp add: valid_frame_def frame_def kHeaderBytes_def unat_of_nat word_le_nat_alt)
qed

lemma feed_all_parse:
  "fst (feed_all cs r) = fst (parse (fr_maxBodyBytes r) (fr_buffer r @ concat cs)) \<and>
   fst (snd (feed_all cs r)) = fst (snd (parse (fr_maxBodyBytes r) (fr_buffer r @ concat cs))) \<and>
   (fst (feed_all cs r) \<longrightarrow> fr_buffer (snd (snd (feed_all cs r))) = snd (snd (parse (fr_maxBodyBytes r) (fr_buffer r @ concat cs))))"
  if "parse (fr_maxBodyBytes r) (fr_buffer r) = (True, [], fr_buffer r)"
  using that
proof (induction cs arbitrary: r)
  case (Cons c cs)
  let ?l = "fr_maxBodyBytes r"
  obtain fine frames rest where p: "parse ?l (fr_buffer r @ c) = (fine, frames, rest)" using prod_cases3 by blast
  note f = feed_parse [of c r, unfolded p]
  note a = parse_append [of ?l "fr_buffer r @ c" "concat cs", unfolded p]
  have idem: "parse ?l rest = (True, [], rest)" if "fine"
    using parse_append [of ?l "fr_buffer r @ c" "[]"] p that by (auto split: prod.splits)
  show ?case
  proof (cases fine)
    case True
    then show ?thesis
      using Cons.IH [of "r\<lparr>fr_buffer := rest\<rparr>"] idem f a by (auto split: prod.splits)
  next
    case False
    then show ?thesis using f a by simp
  qed
qed simp

lemma feed_all_limit: "fr_maxBodyBytes (snd (snd (feed_all cs r))) = fr_maxBodyBytes r"
proof (induction cs arbitrary: r)
  case (Cons c cs)
  obtain fine frames r1 where f: "feed c r = (fine, frames, r1)" using prod_cases3 by blast
  then have "fr_maxBodyBytes r1 = fr_maxBodyBytes r" by (auto simp: feed_parse split: prod.splits)
  then show ?case using Cons.IH [of r1] by (simp add: f case_prod_beta)
qed simp

text \<open>
  C19. Whatever pieces a pipe or socket delivers a stream of frames in, the reader hands over exactly
  those frames, in order, with nothing left in its buffer; a frame is any encoded frame whose body is
  within the reader's limit.
\<close>

theorem frames_survive_any_chunking:
  assumes "\<forall>f\<in>set fs. \<exists>type body. f = frame type body \<and> length body \<le> unat limit" "concat cs = concat fs"
  shows "feed_all cs (FrameReader_new limit) = (True, fs, FrameReader_new limit)"
proof -
  let ?r = "FrameReader_new limit"
  have r: "fr_maxBodyBytes ?r = limit" "fr_buffer ?r = []" by (simp_all add: FrameReader_new_def)
  have "parse limit [] = (True, [], [])" by (subst parse.simps) (simp add: kHeaderBytes_def)
  moreover have "parse limit (concat fs) = (True, fs, [])"
    by (rule parse_frames) (use assms(1) in \<open>auto intro: frame_valid\<close>)
  moreover have "fr_maxBodyBytes (snd (snd (feed_all cs ?r))) = limit"
    using feed_all_limit [of cs ?r] r(1) by simp
  ultimately show ?thesis
    using feed_all_parse [of ?r cs] assms(2) unfolding r
    by (cases "feed_all cs ?r") (auto simp: FrameReader_new_def intro: FrameReader.equality)
qed

theorem frames_survive_any_chunking_witness:
  "feed_all [take 3 (encodeCancel 9), drop 3 (encodeCancel 9) @ encodeCancel 10] (FrameReader_new 100) =
    (True, [encodeCancel 9, encodeCancel 10], FrameReader_new 100)"
proof -
  have f: "\<exists>type body. encodeCancel i = frame type body \<and> length body \<le> unat (100 :: u32)" for i
    by (intro exI [of _ kCancel] exI [of _ "enc_u64 i"]) (simp add: encodeCancel_def w_simps finish_frame)
  show ?thesis by (rule frames_survive_any_chunking) (use f in auto)
qed

text \<open>
  Reading is independent of how the stream is cut even when it is not a stream of frames: feeding
  any chunks one by one hands over the same frames as feeding everything at once, and refuses the
  stream exactly when that does.
\<close>

theorem feeding_chunks_is_feeding_the_stream:
  "fst (feed_all cs (FrameReader_new limit)) = fst (feed (concat cs) (FrameReader_new limit)) \<and>
   fst (snd (feed_all cs (FrameReader_new limit))) = fst (snd (feed (concat cs) (FrameReader_new limit)))"
proof -
  let ?r = "FrameReader_new limit"
  have r: "fr_maxBodyBytes ?r = limit" "fr_buffer ?r = []" by (simp_all add: FrameReader_new_def)
  have "parse limit [] = (True, [], [])" by (subst parse.simps) (simp add: kHeaderBytes_def)
  then show ?thesis
    using feed_all_parse [of ?r cs] feed_parse [of "concat cs" ?r] unfolding r by (auto split: prod.splits)
qed

lemma payload_header: "payloadFrameHeader n = enc_u32 n @ [frame_code kPayload]"
  by (rule nth_equalityI) (auto simp: payloadFrameHeader_def nth_append nth_update_iff nth_copy_loop less_Suc_eq numeral_eq_Suc)

lemma payload_frame_body:
  "sendPayloadFrame parts =
     (if length parts > 7 \<or> length (concat parts) > 2 ^ 32 - 1 then Inl kProtocol
      else Inr (payloadFrameHeader (word_of_nat (length (concat parts))) # parts)) \<and>
   (\<forall>all. sendPayloadFrame parts = Inr all \<longrightarrow>
      sendParts_default all = frame kPayload (concat parts) \<and> bodyOf (sendParts_default all) kPayload = Some (concat parts))"
proof -
  have sz: "fold (\<lambda>part n. n + length part) ps n = n + length (concat ps)" for ps :: "bytes list" and n
    by (induction ps arbitrary: n) auto
  have cat: "fold (\<lambda>part fr. fr @ part) ps x = x @ concat ps" for ps :: "bytes list" and x
    by (induction ps arbitrary: x) auto
  have e: "sendPayloadFrame parts =
     (if length parts > 7 \<or> length (concat parts) > 2 ^ 32 - 1 then Inl kProtocol
      else Inr (payloadFrameHeader (word_of_nat (length (concat parts))) # parts))"
    using sz [of parts 0] by (simp add: sendPayloadFrame_def kMaxParts_def Let_def)
  have "sendParts_default all = frame kPayload (concat parts) \<and> bodyOf (sendParts_default all) kPayload = Some (concat parts)"
    if "sendPayloadFrame parts = Inr all" for all
  proof -
    have len: "length (concat parts) < 2 ^ 32" and all: "all = payloadFrameHeader (word_of_nat (length (concat parts))) # parts"
      using that e by (auto split: if_splits)
    have "sendParts_default all = frame kPayload (concat parts)"
      unfolding sendParts_default_def cat by (simp add: all payload_header frame_def)
    then show ?thesis using frame_header(3) [OF len] by simp
  qed
  then show ?thesis using e by blast
qed

text \<open>
  The payload sender either refuses a body that cannot be framed, with more than seven parts or of 4 GiB
  and more, or hands the transport parts that make up one frame of type \<open>kPayload\<close> with exactly that body.
\<close>

theorem payload_frames_carry_the_body:
  "sendPayloadFrame parts =
     (if length parts > 7 \<or> length (concat parts) > 2 ^ 32 - 1 then Inl kProtocol
      else Inr (payloadFrameHeader (word_of_nat (length (concat parts))) # parts)) \<and>
   (\<forall>all. sendPayloadFrame parts = Inr all \<longrightarrow>
      sendParts_default all = frame kPayload (concat parts) \<and> bodyOf (sendParts_default all) kPayload = Some (concat parts))"
  by (rule payload_frame_body)

theorem payload_frames_carry_the_body_witness:
  "sendParts_default (payloadFrameHeader 3 # [[1], [2, 3]]) = frame kPayload [1, 2, 3]"
  using payload_frames_carry_the_body [of "[[1], [2, 3]]"] by simp

end
