(* ===== verification/StreamStrategy.thy ===== *)
theory StreamStrategy
  imports Framing
begin

text \<open>
  The \<^verbatim>\<open>stream\<close> payload strategy (\<^verbatim>\<open>src/remote/stream_strategy.cpp\<close>): payloads cut into chunk frames on
  the connection's own transport. The transport is the parameter \<open>deliver\<close>, which says whether a payload
  frame was sent; storage comes from the heap uninitialised, so its first contents are the parameter
  \<open>junk\<close>.
\<close>

section \<open>Model\<close>

definition kChunk :: u8 where "kChunk = 1"
definition kChunkHeader :: nat where "kChunkHeader = 25"
definition kMaxChunk :: u32 where "kMaxChunk = 0xFFFFFFFF - 64"

definition encodeU32 :: "u32 \<Rightarrow> bytes" where "encodeU32 v = little (ucast v) 4"

definition decodeU32 :: "bytes \<Rightarrow> u32 option" where
  "decodeU32 bs = (if length bs \<noteq> 4 then None else Some (ucast (unlittle bs)))"

text \<open>\<^verbatim>\<open>getU64\<close> at an offset; the callers have checked the length.\<close>

definition getU64 :: "nat \<Rightarrow> bytes \<Rightarrow> u64" where "getU64 off bs = unlittle (take 8 (drop off bs))"

record Partial =
  pt_storage :: bytes
  pt_total :: u64
  pt_received :: u64

record Stream =
  st_chunkBytes :: u32
  st_attached :: bool
  st_nextStream :: u64
  st_partial :: "u64 \<Rightarrow> Partial option"
  st_complete :: "u64 \<Rightarrow> Payload option"

definition Stream_new :: "u32 \<Rightarrow> Stream" where
  "Stream_new chunkBytes =
     \<lparr>st_chunkBytes = max 1 (min chunkBytes kMaxChunk), st_attached = False, st_nextStream = 1,
      st_partial = Map.empty, st_complete = Map.empty\<rparr>"

definition stream_offer :: "Stream \<Rightarrow> bytes" where "stream_offer st = encodeU32 (st_chunkBytes st)"

definition stream_accept :: "bytes \<Rightarrow> Stream \<Rightarrow> bytes expected \<times> Stream" where
  "stream_accept offer st =
     (case decodeU32 offer of
        None \<Rightarrow> (Inl kJobFailed, st)
      | Some peer \<Rightarrow>
          if peer = 0 then (Inl kJobFailed, st)
          else let c = min (st_chunkBytes st) peer in (Inr (encodeU32 c), st\<lparr>st_chunkBytes := c\<rparr>))"

definition stream_complete :: "bytes \<Rightarrow> Stream \<Rightarrow> unit expected \<times> Stream" where
  "stream_complete accepted st =
     (case decodeU32 accepted of
        None \<Rightarrow> (Inl kJobFailed, st)
      | Some peer \<Rightarrow>
          if peer = 0 then (Inl kJobFailed, st)
          else (Inr (), st\<lparr>st_chunkBytes := min (st_chunkBytes st) peer\<rparr>))"

definition stream_attach :: "Stream \<Rightarrow> Stream" where "stream_attach st = st\<lparr>st_attached := True\<rparr>"

definition chunk_header :: "u64 \<Rightarrow> nat \<Rightarrow> nat \<Rightarrow> bytes" where
  "chunk_header stream tot off = [kChunk] @ little stream 8 @ little (word_of_nat tot) 8 @ little (word_of_nat off) 8"

text \<open>The sending loop: the parts of the frames sent and whether all were. \<open>None\<close> if it never ended.\<close>

partial_function (option) send_loop ::
  "(bytes list \<Rightarrow> bool) \<Rightarrow> u32 \<Rightarrow> bytes \<Rightarrow> u64 \<Rightarrow> nat \<Rightarrow> bytes list list \<Rightarrow> (bytes list list \<times> bool) option" where
  "send_loop deliver chunk bs stream off sent =
     (let len = min (unat chunk) (length bs - off);
          parts = [chunk_header stream (length bs) off, take len (drop off bs)]
      in if \<not> deliver parts then Some (sent, False)
         else if off + len < length bs then send_loop deliver chunk bs stream (off + len) (sent @ [parts])
         else Some (sent @ [parts], True))"

declare send_loop.simps [code]

definition stream_send ::
  "(bytes list \<Rightarrow> bool) \<Rightarrow> Payload \<Rightarrow> Stream \<Rightarrow> (bytes list list \<times> bytes expected \<times> Stream) option" where
  "stream_send deliver payload st =
     (let stream = st_nextStream st; st1 = st\<lparr>st_nextStream := stream + 1\<rparr>
      in case send_loop (\<lambda>parts. st_attached st \<and> deliver parts) (st_chunkBytes st) (payload_bytes payload) stream 0 [] of
           None \<Rightarrow> None
         | Some (sent, fine) \<Rightarrow> Some (sent, if fine then Inr (little stream 8) else Inl kUnavailable, st1))"

definition stream_receive :: "bytes \<Rightarrow> Stream \<Rightarrow> Payload expected \<times> Stream" where
  "stream_receive ref st =
     (if length ref \<noteq> 8 then (Inl kJobFailed, st)
      else case st_complete st (getU64 0 ref) of
             None \<Rightarrow> (Inl kJobFailed, st)
           | Some p \<Rightarrow> (Inr p, st\<lparr>st_complete := (st_complete st)(getU64 0 ref := None)\<rparr>))"

text \<open>
  A received payload frame: its body and the owner of its buffer, if it has one. The owner of a
  reassembled payload is its own storage, which goes by the stream's number here.
\<close>

definition stream_onPayloadFrame :: "(nat \<Rightarrow> u8) \<Rightarrow> bytes \<times> nat option \<Rightarrow> Stream \<Rightarrow> Stream" where
  "stream_onPayloadFrame junk = (\<lambda>(body, own) st.
     if length body < kChunkHeader \<or> body ! 0 \<noteq> kChunk then st
     else let stream = getU64 1 body; tot = getU64 9 body; off = getU64 17 body; chunk = drop kChunkHeader body
       in if off > tot \<or> length chunk > unat (tot - off) then st
          else if off = 0 \<and> length chunk = unat tot \<and> own \<noteq> None
          then st\<lparr>st_complete := (st_complete st)(stream \<mapsto> Payload_view chunk own)\<rparr>
          else let pt = (case st_partial st stream of
                           Some pt \<Rightarrow> pt
                         | None \<Rightarrow> \<lparr>pt_storage = map junk [0..<if tot = 0 then 1 else unat tot],
                                    pt_total = tot, pt_received = 0\<rparr>)
            in if pt_total pt \<noteq> tot then st
               else let pt1 = pt\<lparr>pt_storage := copy_loop (\<lambda>i. chunk ! i) (unat off) (length chunk) (pt_storage pt),
                                 pt_received := pt_received pt + word_of_nat (length chunk)\<rparr>
                 in if pt_received pt1 \<ge> pt_total pt1
                    then st\<lparr>st_complete := (st_complete st)(stream \<mapsto> Payload_view (take (unat tot) (pt_storage pt1)) (Some (unat stream))),
                            st_partial := (st_partial st)(stream := None)\<rparr>
                    else st\<lparr>st_partial := (st_partial st)(stream \<mapsto> pt1)\<rparr>)"

definition stream_onClosed :: "Stream \<Rightarrow> Stream" where
  "stream_onClosed st = st\<lparr>st_partial := Map.empty, st_complete := Map.empty\<rparr>"


section \<open>Chunks\<close>

text \<open>The bodies of the frames that carry \<open>bs\<close> from offset \<open>off\<close> on, in chunks of \<open>c\<close> bytes.\<close>

function chunk_bodies :: "nat \<Rightarrow> bytes \<Rightarrow> u64 \<Rightarrow> nat \<Rightarrow> bytes list" where
  "chunk_bodies c bs stream off =
     (chunk_header stream (length bs) off @ take (min c (length bs - off)) (drop off bs))
       # (if 0 < c \<and> off + c < length bs then chunk_bodies c bs stream (off + c) else [])"
  by pat_completeness auto
termination by (relation "measure (\<lambda>(c, bs, stream, off). length bs - off)") auto

declare chunk_bodies.simps [simp del]

lemma send_loop_chunks:
  assumes "0 < unat c" "\<And>parts. deliver parts"
  shows "\<exists>new. send_loop deliver c bs stream off sent = Some (sent @ new, True) \<and> map concat new = chunk_bodies (unat c) bs stream off"
proof (induction "length bs - off" arbitrary: off sent rule: less_induct)
  case less
  let ?len = "min (unat c) (length bs - off)"
  let ?parts = "[chunk_header stream (length bs) off, take ?len (drop off bs)]"
  show ?case
  proof (cases "off + unat c < length bs")
    case True
    then have len: "?len = unat c" by simp
    have "length bs - (off + unat c) < length bs - off" using assms(1) True by simp
    from less.hyps [OF this, of "sent @ [?parts]"] obtain new where
      new: "send_loop deliver c bs stream (off + unat c) (sent @ [?parts]) = Some ((sent @ [?parts]) @ new, True)"
      "map concat new = chunk_bodies (unat c) bs stream (off + unat c)" by auto
    have "send_loop deliver c bs stream off sent = Some (sent @ (?parts # new), True)"
      using new(1) True assms(2) by (subst send_loop.simps) (simp add: Let_def len)
    moreover have "map concat (?parts # new) = chunk_bodies (unat c) bs stream off"
      using new(2) True assms(1) by (subst chunk_bodies.simps) simp
    ultimately show ?thesis by blast
  next
    case False
    then have n: "(off + ?len < length bs) = False" by auto
    have "send_loop deliver c bs stream off sent = Some (sent @ [?parts], True)"
      by (subst send_loop.simps) (simp only: Let_def n assms(2) not_True_eq_False if_False)
    moreover have "map concat [?parts] = chunk_bodies (unat c) bs stream off"
      using False by (subst chunk_bodies.simps) simp
    ultimately show ?thesis by blast
  qed
qed

lemma chunk_fields:
  fixes stream :: u64 and bs :: bytes and off :: nat
  assumes "length bs < 2 ^ 64" "off \<le> length bs"
  defines "body d \<equiv> chunk_header stream (length bs) off @ d"
  shows "kChunkHeader \<le> length (body d)" "body d ! 0 = kChunk" "getU64 1 (body d) = stream"
    "getU64 9 (body d) = word_of_nat (length bs)" "getU64 17 (body d) = word_of_nat off" "drop kChunkHeader (body d) = d"
  by (simp_all add: body_def chunk_header_def kChunkHeader_def getU64_def)


definition for_stream :: "u64 \<Rightarrow> bytes \<times> nat option \<Rightarrow> bool" where
  "for_stream stream = (\<lambda>(body, own). kChunkHeader \<le> length body \<and> body ! 0 = kChunk \<and> getU64 1 body = stream)"

text \<open>What the strategy knows of one stream.\<close>

definition stream_view :: "u64 \<Rightarrow> Stream \<Rightarrow> Partial option \<times> Payload option" where
  "stream_view stream st = (st_partial st stream, st_complete st stream)"

lemma frame_other: "\<not> for_stream stream f \<Longrightarrow> stream_view stream (stream_onPayloadFrame junk f st) = stream_view stream st"
  by (cases f) (auto simp: stream_onPayloadFrame_def stream_view_def for_stream_def Let_def not_less)

lemma frame_same:
  "for_stream stream f \<Longrightarrow> stream_view stream st = stream_view stream st' \<Longrightarrow>
   stream_view stream (stream_onPayloadFrame junk f st) = stream_view stream (stream_onPayloadFrame junk f st')"
  by (cases f) (auto simp: stream_onPayloadFrame_def stream_view_def for_stream_def Let_def)

text \<open>Frames of other streams can be in between: only the stream's own frames matter to it.\<close>

lemma frames_view:
  assumes "stream_view stream st = stream_view stream st'"
  shows "stream_view stream (fold (stream_onPayloadFrame junk) fs st) =
    stream_view stream (fold (stream_onPayloadFrame junk) (filter (for_stream stream) fs) st')"
  using assms
proof (induction fs arbitrary: st st')
  case (Cons f fs)
  show ?case
  proof (cases "for_stream stream f")
    case True
    then show ?thesis using Cons.IH [OF frame_same [OF True Cons.prems]] by simp
  next
    case False
    then show ?thesis using Cons.IH [of "stream_onPayloadFrame junk f st" st'] Cons.prems frame_other by simp
  qed
qed simp

lemma stored_chunk:
  assumes "length store = max 1 (length bs)" "take off store = take off bs" "off + len \<le> length bs"
  shows "length (copy_loop (\<lambda>i. take len (drop off bs) ! i) off len store) = max 1 (length bs)"
    "take (off + len) (copy_loop (\<lambda>i. take len (drop off bs) ! i) off len store) = take (off + len) bs"
proof -
  show l: "length (copy_loop (\<lambda>i. take len (drop off bs) ! i) off len store) = max 1 (length bs)"
    using assms(1) by simp
  show "take (off + len) (copy_loop (\<lambda>i. take len (drop off bs) ! i) off len store) = take (off + len) bs"
  proof (rule nth_equalityI)
    fix k assume "k < length (take (off + len) (copy_loop (\<lambda>i. take len (drop off bs) ! i) off len store))"
    then have k: "k < off + len" "k < length store" using l assms by auto
    have "store ! k = bs ! k" if "k < off" using assms(2) that by (metis nth_take)
    then show "take (off + len) (copy_loop (\<lambda>i. take len (drop off bs) ! i) off len store) ! k = take (off + len) bs ! k"
      using k assms by (auto simp: nth_copy_loop)
  qed (use l assms in auto)
qed

text \<open>One chunk of a stream, seen by the receiver.\<close>

lemma chunk_step:
  fixes stream :: u64 and bs :: bytes and off len :: nat and own :: "nat option" and junk and st
  assumes "length bs < 2 ^ 64" "off + len \<le> length bs" "0 < off \<longrightarrow> 0 < len"
    "case st_partial st stream of None \<Rightarrow> off = 0
     | Some pt \<Rightarrow> length (pt_storage pt) = max 1 (length bs) \<and> take off (pt_storage pt) = take off bs
         \<and> pt_total pt = word_of_nat (length bs) \<and> pt_received pt = word_of_nat off"
  defines "st' \<equiv> stream_onPayloadFrame junk (chunk_header stream (length bs) off @ take len (drop off bs), own) st"
  shows "if off + len = length bs
    then (\<exists>p. st_complete st' stream = Some p \<and> pl_kind p = kInline \<and> payload_bytes p = bs)
         \<and> (off = 0 \<and> own \<noteq> None \<or> st_partial st' stream = None)
    else \<exists>pt. st_partial st' stream = Some pt \<and> length (pt_storage pt) = max 1 (length bs)
         \<and> take (off + len) (pt_storage pt) = take (off + len) bs
         \<and> pt_total pt = word_of_nat (length bs) \<and> pt_received pt = word_of_nat (off + len)"
proof -
  let ?N = "word_of_nat (length bs) :: u64"
  define d where "d = take len (drop off bs)"
  have off: "off \<le> length bs" using assms(2) by simp
  note F = chunk_fields [OF assms(1) off]
  have un: "unat ?N = length bs" "unat (word_of_nat off :: u64) = off" "unat (?N - word_of_nat off) = length bs - off"
    using assms(1,2) off by (simp_all add: unat_of_nat unat_sub word_le_nat_alt)
  have sum: "unat (word_of_nat off + word_of_nat len :: u64) = off + len"
    using assms(1,2) unfolding of_nat_add [symmetric] by (simp only: unat_of_nat) simp
  have dl: "length d = len" using assms(2) by (simp add: d_def)
  have ord: "\<not> (word_of_nat off :: u64) > ?N" "\<not> length d > unat (?N - word_of_nat off)"
    "(word_of_nat off :: u64) = 0 \<longleftrightarrow> off = 0" "?N = 0 \<longleftrightarrow> length bs = 0"
    "(word_of_nat off + word_of_nat len :: u64) \<ge> ?N \<longleftrightarrow> off + len = length bs"
    using assms(2) off un dl sum by (auto simp: word_less_nat_alt word_le_nat_alt word_unat_eq_iff)
  define pt where "pt = (case st_partial st stream of Some pt \<Rightarrow> pt
      | None \<Rightarrow> \<lparr>pt_storage = map junk [0..<if ?N = 0 then 1 else unat ?N], pt_total = ?N, pt_received = 0\<rparr>)"
  have pt: "length (pt_storage pt) = max 1 (length bs)" "take off (pt_storage pt) = take off bs"
    "pt_total pt = ?N" "pt_received pt = word_of_nat off"
    using assms(4) un ord by (auto simp: pt_def max_def Suc_le_eq split: option.splits)
  define pt1 where "pt1 = pt\<lparr>pt_storage := copy_loop (\<lambda>i. d ! i) off len (pt_storage pt),
      pt_received := word_of_nat off + word_of_nat len\<rparr>"
  note S = stored_chunk [OF pt(1,2) assms(2), folded d_def]
  have st': "st' = (if off = 0 \<and> len = length bs \<and> own \<noteq> None
      then st\<lparr>st_complete := (st_complete st)(stream \<mapsto> Payload_view d own)\<rparr>
      else if off + len = length bs
      then st\<lparr>st_complete := (st_complete st)(stream \<mapsto> Payload_view (take (length bs) (pt_storage pt1)) (Some (unat stream))),
              st_partial := (st_partial st)(stream := None)\<rparr>
      else st\<lparr>st_partial := (st_partial st)(stream \<mapsto> pt1)\<rparr>)"
    unfolding st'_def d_def [symmetric] stream_onPayloadFrame_def
    using F [of stream d] ord pt(3,4) dl un
    by (cases own) (simp_all add: Let_def pt_def [symmetric] pt1_def)
  have full: "take (length bs) (pt_storage pt1) = bs" if "off + len = length bs"
    using S(2) that by (simp add: pt1_def)
  have whole: "d = bs" if "off = 0" "len = length bs" using that by (simp add: d_def)
  show ?thesis
    using st' full whole S pt(3) assms(2)
    by (auto simp: Payload_view_def payload_bytes_def pt1_def)
qed


lemma chunks_complete:
  assumes "length bs < 2 ^ 64" "0 < c" "map fst fs = chunk_bodies c bs stream off"
    "off < length bs \<or> off = 0"
    "case st_partial st stream of None \<Rightarrow> off = 0
     | Some pt \<Rightarrow> 0 < off \<and> length (pt_storage pt) = max 1 (length bs) \<and> take off (pt_storage pt) = take off bs
         \<and> pt_total pt = word_of_nat (length bs) \<and> pt_received pt = word_of_nat off"
  shows "\<exists>p. st_complete (fold (stream_onPayloadFrame junk) fs st) stream = Some p \<and> pl_kind p = kInline \<and> payload_bytes p = bs"
  using assms(3-)
proof (induction "length bs - off" arbitrary: off fs st rule: less_induct)
  case less
  let ?len = "min c (length bs - off)"
  obtain f fs' where fs: "fs = f # fs'" using less.prems(1) by (cases fs) (auto simp: chunk_bodies.simps)
  obtain own where f: "f = (chunk_header stream (length bs) off @ take ?len (drop off bs), own)"
    using less.prems(1) unfolding fs by (subst (asm) chunk_bodies.simps) (cases f, auto)
  let ?st = "stream_onPayloadFrame junk f st"
  have le: "off + ?len \<le> length bs" "0 < off \<longrightarrow> 0 < ?len" using less.prems(2) assms(2) by auto
  have old: "case st_partial st stream of None \<Rightarrow> off = 0
     | Some pt \<Rightarrow> length (pt_storage pt) = max 1 (length bs) \<and> take off (pt_storage pt) = take off bs
         \<and> pt_total pt = word_of_nat (length bs) \<and> pt_received pt = word_of_nat off"
    using less.prems(3) by (auto split: option.splits)
  note step = chunk_step [OF assms(1) le old, of junk own, folded f]
  show ?case
  proof (cases "off + c < length bs")
    case True
    then have len: "?len = c" by simp
    have rest: "map fst fs' = chunk_bodies c bs stream (off + c)"
      using less.prems(1) True assms(2) unfolding fs by (subst (asm) chunk_bodies.simps) simp
    from step True obtain pt where "st_partial ?st stream = Some pt" "length (pt_storage pt) = max 1 (length bs)"
      "take (off + c) (pt_storage pt) = take (off + c) bs" "pt_total pt = word_of_nat (length bs)"
      "pt_received pt = word_of_nat (off + c)"
      unfolding len by auto
    then have "case st_partial ?st stream of None \<Rightarrow> off + c = 0
     | Some pt \<Rightarrow> 0 < off + c \<and> length (pt_storage pt) = max 1 (length bs) \<and> take (off + c) (pt_storage pt) = take (off + c) bs
         \<and> pt_total pt = word_of_nat (length bs) \<and> pt_received pt = word_of_nat (off + c)"
      using assms(2) by simp
    moreover have "length bs - (off + c) < length bs - off" using True assms(2) by simp
    ultimately show ?thesis using less.hyps [OF _ rest] True unfolding fs by simp
  next
    case False
    then have "fs' = []" using less.prems(1) unfolding fs by (subst (asm) chunk_bodies.simps) simp
    moreover have "off + ?len = length bs" using False le(1) by auto
    ultimately show ?thesis using step unfolding fs by auto
  qed
qed

lemma map_fst_filter_for_stream:
  "map fst fs = chunk_bodies c bs stream off \<Longrightarrow> length bs < 2 ^ 64 \<Longrightarrow> off \<le> length bs \<Longrightarrow> 0 < c \<Longrightarrow> \<forall>f\<in>set fs. for_stream stream f"
proof (induction "length bs - off" arbitrary: off fs rule: less_induct)
  case less
  obtain f fs' where fs: "fs = f # fs'" using less.prems(1) by (cases fs) (auto simp: chunk_bodies.simps)
  obtain d own where f: "f = (chunk_header stream (length bs) off @ d, own)"
    using less.prems(1) unfolding fs by (subst (asm) chunk_bodies.simps) (cases f, auto)
  have "for_stream stream f" using chunk_fields [OF less.prems(2,3), of stream d] by (simp add: for_stream_def f)
  moreover have "\<forall>f\<in>set fs'. for_stream stream f"
  proof (cases "off + c < length bs")
    case True
    then have "map fst fs' = chunk_bodies c bs stream (off + c)"
      using less.prems unfolding fs by (subst (asm) chunk_bodies.simps) simp
    then show ?thesis using less.hyps [of "off + c" fs'] less.prems True by simp
  next
    case False
    then show ?thesis using less.prems(1) unfolding fs by (subst (asm) chunk_bodies.simps) simp
  qed
  ultimately show ?case unfolding fs by simp
qed

section \<open>Properties\<close>

lemma stream_arrives:
  assumes "st_attached st" "0 < st_chunkBytes st" "length (payload_bytes payload) < 2 ^ 64"
    "st_partial peer (st_nextStream st) = None"
  shows "\<exists>sent ref st'. stream_send (\<lambda>_. True) payload st = Some (sent, Inr ref, st') \<and>
    (\<forall>fs. map fst (filter (for_stream (st_nextStream st)) fs) = map concat sent \<longrightarrow>
      (\<exists>p peer'. stream_receive ref (fold (stream_onPayloadFrame junk) fs peer) = (Inr p, peer')
        \<and> pl_kind p = kInline \<and> payload_bytes p = payload_bytes payload
        \<and> st_complete peer' (st_nextStream st) = None))"
proof -
  let ?s = "st_nextStream st" and ?bs = "payload_bytes payload" and ?c = "unat (st_chunkBytes st)"
  have c: "0 < ?c" using assms(2) by (simp add: word_less_nat_alt)
  from send_loop_chunks [OF c, of "\<lambda>parts. st_attached st \<and> True" ?bs ?s 0 "[]"] assms(1) obtain sent where
    sent: "send_loop (\<lambda>parts. st_attached st \<and> True) (st_chunkBytes st) ?bs ?s 0 [] = Some (sent, True)"
    "map concat sent = chunk_bodies ?c ?bs ?s 0" by auto
  have "\<exists>p peer'. stream_receive (little ?s 8) (fold (stream_onPayloadFrame junk) fs peer) = (Inr p, peer')
        \<and> pl_kind p = kInline \<and> payload_bytes p = ?bs \<and> st_complete peer' ?s = None"
    if fs: "map fst (filter (for_stream ?s) fs) = map concat sent" for fs
  proof -
    let ?st = "fold (stream_onPayloadFrame junk) fs peer"
    have "map fst (filter (for_stream ?s) fs) = chunk_bodies ?c ?bs ?s 0" using fs sent(2) by simp
    from chunks_complete [OF assms(3) c this, of peer junk] assms(4) obtain p where
      "st_complete (fold (stream_onPayloadFrame junk) (filter (for_stream ?s) fs) peer) ?s = Some p"
      "pl_kind p = kInline" "payload_bytes p = ?bs" by auto
    moreover have "stream_view ?s ?st = stream_view ?s (fold (stream_onPayloadFrame junk) (filter (for_stream ?s) fs) peer)"
      by (rule frames_view) simp
    ultimately show ?thesis by (simp add: stream_view_def stream_receive_def getU64_def)
  qed
  then show ?thesis using sent(1) by (simp add: stream_send_def Let_def)
qed

text \<open>
  C24. A payload sent over a working transport arrives intact, whatever its size: \<^verbatim>\<open>send\<close> returns a
  reference, and once the peer has processed the frames it sent, in order and mixed with any other
  frames of the connection, \<^verbatim>\<open>receive\<close> turns the reference into an inline payload of the same bytes and
  forgets it.
\<close>

theorem streamed_payload_arrives:
  assumes "st_attached st" "0 < st_chunkBytes st" "length (payload_bytes payload) < 2 ^ 64"
    "st_partial peer (st_nextStream st) = None"
  shows "\<exists>sent ref st'. stream_send (\<lambda>_. True) payload st = Some (sent, Inr ref, st') \<and>
    (\<forall>fs. map fst (filter (for_stream (st_nextStream st)) fs) = map concat sent \<longrightarrow>
      (\<exists>p peer'. stream_receive ref (fold (stream_onPayloadFrame junk) fs peer) = (Inr p, peer')
        \<and> pl_kind p = kInline \<and> payload_bytes p = payload_bytes payload
        \<and> st_complete peer' (st_nextStream st) = None))"
  using assms by (rule stream_arrives)

theorem streamed_payload_arrives_witness:
  "\<exists>sent ref st'. stream_send (\<lambda>_. True) (inlineBytes [1, 2, 3]) (stream_attach (Stream_new 2)) = Some (sent, Inr ref, st')"
proof -
  have "st_attached (stream_attach (Stream_new 2))" "0 < st_chunkBytes (stream_attach (Stream_new 2))"
    "length (payload_bytes (inlineBytes [1, 2, 3])) < 2 ^ 64"
    "st_partial (Stream_new 2) (st_nextStream (stream_attach (Stream_new 2))) = None"
    by (simp_all add: stream_attach_def Stream_new_def kMaxChunk_def inlineBytes_def payload_bytes_def max_def min_def)
  from streamed_payload_arrives [OF this] show ?thesis by blast
qed

lemma decode_encode_u32 [simp]: "decodeU32 (encodeU32 v) = Some v"
  by (simp add: decodeU32_def encodeU32_def)

lemma min_twice: "min a (min b a) = min b a" for a b :: "'a :: linorder"
  by (simp add: min_def)

text \<open>
  The handshake makes both sides use the same chunk size, at least one byte and no larger than
  either side's limit; a malformed or zero offer is refused and changes nothing.
\<close>

theorem stream_negotiation_agrees:
  fixes co wo :: u32
  shows "\<exists>answer worker coord. stream_accept (stream_offer (Stream_new co)) (Stream_new wo) = (Inr answer, worker) \<and>
      stream_complete answer (Stream_new co) = (Inr (), coord) \<and>
      st_chunkBytes coord = st_chunkBytes worker \<and>
      st_chunkBytes worker = min (max 1 (min co kMaxChunk)) (max 1 (min wo kMaxChunk)) \<and> 0 < st_chunkBytes worker"
proof -
  let ?c = "max 1 (min co kMaxChunk)" and ?w = "max 1 (min wo kMaxChunk)"
  have pos: "0 < ?c" "0 < ?w" by (simp_all add: less_max_iff_disj)
  then have ne: "?c \<noteq> 0" "min ?w ?c \<noteq> 0" by (auto simp: min_def)
  have a: "stream_accept (stream_offer (Stream_new co)) (Stream_new wo) =
      (Inr (encodeU32 (min ?w ?c)), (Stream_new wo)\<lparr>st_chunkBytes := min ?w ?c\<rparr>)"
    using ne(1) by (simp add: stream_accept_def stream_offer_def Stream_new_def Let_def)
  have b: "stream_complete (encodeU32 (min ?w ?c)) (Stream_new co) =
      (Inr (), (Stream_new co)\<lparr>st_chunkBytes := min ?c (min ?w ?c)\<rparr>)"
    using ne(2) by (simp add: stream_complete_def Stream_new_def)
  have m: "min ?c (min ?w ?c) = min ?w ?c" "min ?w ?c = min ?c ?w"
    by (rule min_twice) (rule min.commute)
  have "0 < min ?w ?c" using pos by simp
  then show ?thesis
    using a b [unfolded m(1)] m(2)
    by (intro exI [of _ "encodeU32 (min ?w ?c)"] exI [of _ "(Stream_new wo)\<lparr>st_chunkBytes := min ?w ?c\<rparr>"]
      exI [of _ "(Stream_new co)\<lparr>st_chunkBytes := min ?w ?c\<rparr>"]) simp
qed

text \<open>
  A repeated chunk counts twice: two copies of the first half of a payload complete it, and its second
  half is whatever the heap held.
\<close>

lemma repeated_chunk_completes_payload:
  "st_complete (fold (stream_onPayloadFrame junk)
      [(chunk_header 1 2 0 @ [7], None), (chunk_header 1 2 0 @ [7], None)] (Stream_new 1)) 1 =
    Some (Payload_view [7, junk 1] (Some 1))"
proof -
  have F: "kChunkHeader \<le> length (chunk_header 1 2 0 @ [7])" "(chunk_header 1 2 0 @ [7]) ! 0 = kChunk"
    "getU64 1 (chunk_header 1 2 0 @ [7]) = 1" "getU64 9 (chunk_header 1 2 0 @ [7]) = 2"
    "getU64 17 (chunk_header 1 2 0 @ [7]) = 0" "drop kChunkHeader (chunk_header 1 2 0 @ [7]) = [7]"
    by (simp_all add: chunk_header_def kChunkHeader_def getU64_def)
  have c: "copy_loop (\<lambda>i. [7] ! i) 0 1 [a, b] = [7, b]" for a b :: u8 by (simp add: copy_loop_def)
  have lt: "\<not> (2 :: u64) \<le> 1" by (simp add: word_le_nat_alt)
  have two: "[0..<2] = [0, 1]" by (simp add: numeral_2_eq_2)
  define st1 where "st1 = stream_onPayloadFrame junk (chunk_header 1 2 0 @ [7], None) (Stream_new 1)"
  have "st_partial st1 1 = Some \<lparr>pt_storage = [7, junk 1], pt_total = 2, pt_received = 1\<rparr>"
    unfolding st1_def stream_onPayloadFrame_def
    using F c [of "junk 0" "junk 1"] lt two by (simp add: Let_def Stream_new_def)
  then have "st_complete (stream_onPayloadFrame junk (chunk_header 1 2 0 @ [7], None) st1) 1 =
      Some (Payload_view [7, junk 1] (Some 1))"
    unfolding stream_onPayloadFrame_def using F c [of 7 "junk 1"] by (simp add: Let_def)
  then show ?thesis by (simp add: st1_def)
qed

end
