(* ===== verification/SharedMemory.thy ===== *)
theory SharedMemory
  imports StreamStrategy
begin

text \<open>
  The \<^verbatim>\<open>shm\<close> payload strategy (\<^verbatim>\<open>src/remote/shared_memory.cpp\<close>): payloads in a mapped region of which
  only this side allocates. Creating and opening a region is the operating system's and a parameter
  of the operations; so are the address of a payload's bytes and, for a received payload, what the
  peer's region holds. Sizes and offsets are natural numbers below \<open>2\<^sup>6\<^sup>4\<close>; where the code's arithmetic on
  \<^verbatim>\<open>std::size_t\<close> can wrap it is written out.
\<close>

section \<open>Setup messages\<close>

definition kAlignment :: nat where "kAlignment = 64"
definition kInRegion :: u8 where "kInRegion = 0"
definition kStreamed :: u8 where "kStreamed = 1"
definition kRelease :: u8 where "kRelease = 0x52"

definition encodeSetup :: "nat \<Rightarrow> string \<Rightarrow> bytes \<Rightarrow> bytes" where
  "encodeSetup sz name stream =
     (let len = (word_of_nat (min (length name) 65535) :: u16)
      in little (word_of_nat sz) 8 @ [ucast (len AND 0xFF), ucast (drop_bit 8 len)]
           @ map byte_of_char (take (unat len) name) @ stream)"

record Setup =
  su_size :: nat
  su_name :: string
  su_stream :: bytes

definition decodeSetup :: "bytes \<Rightarrow> Setup option" where
  "decodeSetup bs =
     (if length bs < 10 then None
      else let len = unat (bs ! 8) + 256 * unat (bs ! 9)
           in if length bs < 10 + len \<or> len = 0 then None
              else Some \<lparr>su_size = unat (getU64 0 bs), su_name = map char_of_byte (take len (drop 10 bs)),
                         su_stream = drop (10 + len) bs\<rparr>)"

section \<open>State\<close>

record Region =
  rg_base :: nat
  rg_size :: nat
  rg_name :: string

datatype Role = kUnknownRole | kCoordinator | kWorker

text \<open>\<open>bk_data\<close> is an address in this process.\<close>

record Block =
  bk_offset :: nat
  bk_size :: nat
  bk_data :: nat
  bk_localRefs :: u32
  bk_peerHolds :: u32

text \<open>
  The maps of the code are lists of pairs: \<open>sh_free\<close> in the order of its keys, \<open>sh_blocks\<close> in any order,
  which is the order in which \<^verbatim>\<open>onClosed\<close> visits it. \<open>sh_mem\<close> are the bytes of this side's region.
\<close>

record Shm =
  sh_regionBytes :: nat
  sh_role :: Role
  sh_own :: "Region option"
  sh_peer :: "Region option"
  sh_attached :: bool
  sh_closed :: bool
  sh_free :: "(nat \<times> nat) list"
  sh_inUse :: nat
  sh_blocks :: "(u64 \<times> Block) list"
  sh_byAddress :: "nat \<Rightarrow> u64 option"
  sh_scopes :: "u64 \<Rightarrow> u64 list option"
  sh_nextBlock :: u64
  sh_mem :: bytes
  sh_fallback :: Stream

definition Shm_new :: "nat \<Rightarrow> u32 \<Rightarrow> Shm" where
  "Shm_new regionBytes chunkBytes =
     \<lparr>sh_regionBytes = regionBytes, sh_role = kUnknownRole, sh_own = None, sh_peer = None, sh_attached = False,
      sh_closed = False, sh_free = [], sh_inUse = 0, sh_blocks = [], sh_byAddress = Map.empty, sh_scopes = Map.empty,
      sh_nextBlock = 1, sh_mem = [], sh_fallback = Stream_new chunkBytes\<rparr>"

section \<open>The allocator\<close>

text \<open>\<^verbatim>\<open>std::map::emplace\<close>: whether it inserted, and the map.\<close>

fun emplace :: "nat \<Rightarrow> nat \<Rightarrow> (nat \<times> nat) list \<Rightarrow> bool \<times> (nat \<times> nat) list" where
  "emplace k v [] = (True, [(k, v)])"
| "emplace k v ((o', s) # fr) =
     (if k < o' then (True, (k, v) # (o', s) # fr)
      else if k = o' then (False, (o', s) # fr)
      else (case emplace k v fr of (ins, fr') \<Rightarrow> (ins, (o', s) # fr')))"

definition map_erase :: "nat \<Rightarrow> (nat \<times> nat) list \<Rightarrow> (nat \<times> nat) list" where
  "map_erase k fr = filter (\<lambda>(o', s). o' \<noteq> k) fr"

text \<open>Joining the entry with key \<open>k\<close> to its successor, and to its predecessor.\<close>

fun merge_next :: "nat \<Rightarrow> (nat \<times> nat) list \<Rightarrow> (nat \<times> nat) list" where
  "merge_next k ((o1, s1) # (o2, s2) # fr) =
     (if o1 = k then (if o1 + s1 = o2 then (o1, s1 + s2) # fr else (o1, s1) # (o2, s2) # fr)
      else (o1, s1) # merge_next k ((o2, s2) # fr))"
| "merge_next k fr = fr"

fun merge_prev :: "nat \<Rightarrow> (nat \<times> nat) list \<Rightarrow> (nat \<times> nat) list" where
  "merge_prev k ((o1, s1) # (o2, s2) # fr) =
     (if o2 = k then (if o1 + s1 = o2 then (o1, s1 + s2) # fr else (o1, s1) # (o2, s2) # fr)
      else (o1, s1) # merge_prev k ((o2, s2) # fr))"
| "merge_prev k fr = fr"

definition initFree :: "Shm \<Rightarrow> Shm" where
  "initFree st =
     st\<lparr>sh_free := (case sh_own st of
                       Some rg \<Rightarrow> if rg_size rg \<ge> kAlignment then [(0, rg_size rg - rg_size rg mod kAlignment)] else []
                     | None \<Rightarrow> [])\<rparr>"

text \<open>\<^verbatim>\<open>(bytes + kAlignment - 1U) / kAlignment * kAlignment\<close> on \<^verbatim>\<open>std::size_t\<close>.\<close>

definition block_size :: "nat \<Rightarrow> nat" where
  "block_size bytes = max kAlignment ((bytes + kAlignment - 1) mod 2 ^ 64 div kAlignment * kAlignment)"

definition allocateBlock :: "nat \<Rightarrow> Shm \<Rightarrow> u64 \<times> Shm" where
  "allocateBlock bytes st =
     (case sh_own st of
        None \<Rightarrow> (0, st)
      | Some rg \<Rightarrow>
          let sz = block_size bytes
          in case find (\<lambda>(o', s). s \<ge> sz) (sh_free st) of
               None \<Rightarrow> (0, st)
             | Some (off, s) \<Rightarrow>
                 let fr = map_erase off (sh_free st);
                     fr' = (if s - sz \<noteq> 0 then snd (emplace (off + sz) (s - sz) fr) else fr);
                     i = sh_nextBlock st
                 in (i, st\<lparr>sh_free := fr', sh_inUse := sh_inUse st + sz, sh_nextBlock := i + 1,
                           sh_blocks := (if i \<in> fst ` set (sh_blocks st) then sh_blocks st
                             else sh_blocks st @ [(i, \<lparr>bk_offset = off, bk_size = sz, bk_data = rg_base rg + off,
                                                       bk_localRefs = 0, bk_peerHolds = 0\<rparr>)])\<rparr>))"

definition blocks_erase :: "u64 \<Rightarrow> (u64 \<times> Block) list \<Rightarrow> (u64 \<times> Block) list" where
  "blocks_erase i bl = filter (\<lambda>(k, b). k \<noteq> i) bl"

definition blocks_update :: "u64 \<Rightarrow> (Block \<Rightarrow> Block) \<Rightarrow> (u64 \<times> Block) list \<Rightarrow> (u64 \<times> Block) list" where
  "blocks_update i f bl = map (\<lambda>(k, b). (k, if k = i then f b else b)) bl"

definition releaseIfUnused :: "u64 \<Rightarrow> Shm \<Rightarrow> Shm" where
  "releaseIfUnused i st =
     (case map_of (sh_blocks st) i of
        None \<Rightarrow> st
      | Some b \<Rightarrow>
          if bk_localRefs b \<noteq> 0 \<or> bk_peerHolds b \<noteq> 0 then st
          else let st1 = st\<lparr>sh_blocks := blocks_erase i (sh_blocks st),
                            sh_byAddress := (sh_byAddress st)(bk_data b := None),
                            sh_inUse := sh_inUse st - bk_size b\<rparr>
            in case emplace (bk_offset b) (bk_size b) (sh_free st) of
                 (ins, fr) \<Rightarrow> st1\<lparr>sh_free := if ins then merge_prev (bk_offset b) (merge_next (bk_offset b) fr) else fr\<rparr>)"

definition dropLocal :: "u64 \<Rightarrow> Shm \<Rightarrow> Shm" where
  "dropLocal i st =
     (case map_of (sh_blocks st) i of
        None \<Rightarrow> st
      | Some b \<Rightarrow>
          if bk_localRefs b = 0 then st
          else releaseIfUnused i (st\<lparr>sh_blocks := blocks_update i (\<lambda>b. b\<lparr>bk_localRefs := bk_localRefs b - 1\<rparr>) (sh_blocks st)\<rparr>))"

definition dropPeerHold :: "u64 \<Rightarrow> Shm \<Rightarrow> Shm" where
  "dropPeerHold i st =
     (case map_of (sh_blocks st) i of
        None \<Rightarrow> st
      | Some b \<Rightarrow>
          if bk_peerHolds b = 0 then st
          else releaseIfUnused i (st\<lparr>sh_blocks := blocks_update i (\<lambda>b. b\<lparr>bk_peerHolds := bk_peerHolds b - 1\<rparr>) (sh_blocks st)\<rparr>))"

section \<open>The strategy\<close>

text \<open>\<open>created\<close> and \<open>opened\<close> are what \<^verbatim>\<open>SharedRegion::create\<close> and \<^verbatim>\<open>open\<close> return; a new region holds \<open>mem\<close>.\<close>

definition shm_offer :: "Region option \<Rightarrow> bytes \<Rightarrow> Shm \<Rightarrow> bytes \<times> Shm" where
  "shm_offer created mem st =
     (let st1 = st\<lparr>sh_role := kCoordinator, sh_own := created, sh_mem := mem\<rparr>
      in case created of
           None \<Rightarrow> ([], st1)
         | Some rg \<Rightarrow> (encodeSetup (rg_size rg) (rg_name rg) (stream_offer (sh_fallback st)), initFree st1))"

definition shm_accept :: "Region option \<Rightarrow> Region option \<Rightarrow> bytes \<Rightarrow> bytes \<Rightarrow> Shm \<Rightarrow> bytes expected \<times> Shm" where
  "shm_accept opened created mem offer st =
     (case decodeSetup offer of
        None \<Rightarrow> (Inl kUnavailable, st)
      | Some setup \<Rightarrow>
          (case opened of
             None \<Rightarrow> (Inl kUnavailable, st)
           | Some peer \<Rightarrow>
               (case stream_accept (su_stream setup) (sh_fallback st) of
                  (Inl e, fb) \<Rightarrow> (Inl e, st\<lparr>sh_fallback := fb\<rparr>)
                | (Inr stream, fb) \<Rightarrow>
                    let st1 = st\<lparr>sh_fallback := fb, sh_role := kWorker, sh_peer := Some peer, sh_own := created, sh_mem := mem\<rparr>
                    in case created of
                         None \<Rightarrow> (Inl kUnavailable, st1)
                       | Some rg \<Rightarrow> (Inr (encodeSetup (rg_size rg) (rg_name rg) stream), initFree st1))))"

definition shm_complete :: "Region option \<Rightarrow> bytes \<Rightarrow> Shm \<Rightarrow> unit expected \<times> Shm" where
  "shm_complete opened accepted st =
     (case decodeSetup accepted of
        None \<Rightarrow> (Inl kUnavailable, st)
      | Some setup \<Rightarrow>
          (case opened of
             None \<Rightarrow> (Inl kUnavailable, st)
           | Some peer \<Rightarrow>
               (case stream_complete (su_stream setup) (sh_fallback st) of
                  (Inl e, fb) \<Rightarrow> (Inl e, st\<lparr>sh_fallback := fb\<rparr>)
                | (Inr _, fb) \<Rightarrow> (Inr (), st\<lparr>sh_fallback := fb, sh_peer := Some peer\<rparr>))))"

definition shm_attach :: "Shm \<Rightarrow> Shm" where
  "shm_attach st = st\<lparr>sh_attached := True, sh_fallback := stream_attach (sh_fallback st)\<rparr>"

text \<open>
  \<^verbatim>\<open>send\<close>: \<open>addr\<close> is where the payload's bytes lie, \<open>deliver\<close> the transport of the fallback. The frames sent
  by the fallback, the reference, and the state; \<open>None\<close> if the fallback never returned or \<^verbatim>\<open>blocks.at(id)\<close>
  threw.
\<close>

definition shm_send ::
  "(bytes list \<Rightarrow> bool) \<Rightarrow> nat \<Rightarrow> Payload \<Rightarrow> u64 \<Rightarrow> Shm \<Rightarrow> (bytes list list \<times> bytes expected \<times> Shm) option" where
  "shm_send deliver addr payload scope st =
     (let bs = payload_bytes payload;
          (i, copy, st1) = (case sh_byAddress st addr of
                              Some i \<Rightarrow> (i, False, st)
                            | None \<Rightarrow> (case allocateBlock (length bs) st of (i, st1) \<Rightarrow> (i, True, st1)))
      in if i = 0
         then (case stream_send deliver payload (sh_fallback st1) of
                 None \<Rightarrow> None
               | Some (sent, r, fb) \<Rightarrow> Some (sent, map_sum id (\<lambda>ref. kStreamed # ref) r, st1\<lparr>sh_fallback := fb\<rparr>))
         else (case map_of (sh_blocks st1) i of
                 None \<Rightarrow> None
               | Some b \<Rightarrow>
                   let st2 = st1\<lparr>sh_blocks := blocks_update i (\<lambda>b. b\<lparr>bk_peerHolds := bk_peerHolds b + 1\<rparr>) (sh_blocks st1),
                                 sh_scopes := (if sh_role st1 = kCoordinator
                                   then (sh_scopes st1)(scope \<mapsto> (case sh_scopes st1 scope of Some l \<Rightarrow> l | None \<Rightarrow> []) @ [i])
                                   else sh_scopes st1),
                                 sh_mem := (if copy \<and> bs \<noteq> []
                                   then copy_loop (\<lambda>k. bs ! k) (bk_offset b) (length bs) (sh_mem st1) else sh_mem st1)\<rparr>
                   in Some ([], Inr ([kInRegion] @ little i 8 @ little (word_of_nat (bk_offset b)) 8
                              @ little (word_of_nat (length bs)) 8), st2)))"

text \<open>A lease on the peer's block: its id, and whether dropping the last view sends a release.\<close>

definition shm_receive :: "bytes \<Rightarrow> bytes \<Rightarrow> Shm \<Rightarrow> (Payload \<times> (u64 \<times> bool) option) expected \<times> Shm" where
  "shm_receive peerMem ref st =
     (if ref = [] then (Inl kJobFailed, st)
      else if ref ! 0 = kStreamed
      then (case stream_receive (drop 1 ref) (sh_fallback st) of
              (r, fb) \<Rightarrow> (map_sum id (\<lambda>p. (p, None)) r, st\<lparr>sh_fallback := fb\<rparr>))
      else if ref ! 0 \<noteq> kInRegion \<or> length ref \<noteq> 25 then (Inl kJobFailed, st)
      else let i = getU64 1 ref; off = unat (getU64 9 ref); sz = unat (getU64 17 ref)
        in case sh_peer st of
             None \<Rightarrow> (Inl kJobFailed, st)
           | Some rg \<Rightarrow>
               if off > rg_size rg \<or> sz > rg_size rg - off then (Inl kJobFailed, st)
               else (Inr (Payload_view (take sz (drop off peerMem)) (Some (unat i)), Some (i, sh_role st = kCoordinator)), st))"

text \<open>The destructor of the lease: the body of the payload frame it sends, if any.\<close>

definition drop_peer_lease :: "u64 \<times> bool \<Rightarrow> Shm \<Rightarrow> bytes option" where
  "drop_peer_lease l st =
     (if snd l \<and> \<not> sh_closed st \<and> sh_attached st then Some ([kRelease] @ little (fst l) 8) else None)"

definition shm_onPayloadFrame :: "(nat \<Rightarrow> u8) \<Rightarrow> bytes \<times> nat option \<Rightarrow> Shm \<Rightarrow> Shm" where
  "shm_onPayloadFrame junk fr st =
     (if length (fst fr) = 9 \<and> fst fr ! 0 = kRelease then dropPeerHold (getU64 1 (fst fr)) st
      else st\<lparr>sh_fallback := stream_onPayloadFrame junk fr (sh_fallback st)\<rparr>)"

definition shm_endScope :: "u64 \<Rightarrow> Shm \<Rightarrow> Shm" where
  "shm_endScope scope st =
     (case sh_scopes st scope of
        None \<Rightarrow> st
      | Some ids \<Rightarrow> let st1 = fold dropPeerHold ids st in st1\<lparr>sh_scopes := (sh_scopes st1)(scope := None)\<rparr>)"

text \<open>\<^verbatim>\<open>allocate\<close>: the id of the block and the address and size of the writable bytes.\<close>

definition shm_allocate :: "nat \<Rightarrow> Shm \<Rightarrow> (u64 \<times> nat \<times> nat) option \<times> Shm" where
  "shm_allocate bytes st =
     (if bytes = 0 \<or> sh_own st = None then (None, st)
      else case allocateBlock bytes st of
             (i, st1) \<Rightarrow>
               if i = 0 then (None, st1)
               else (case map_of (sh_blocks st1) i of
                       None \<Rightarrow> (None, st1)
                     | Some b \<Rightarrow>
                         (Some (i, bk_data b, bytes),
                          st1\<lparr>sh_blocks := blocks_update i (\<lambda>b. b\<lparr>bk_localRefs := 1\<rparr>) (sh_blocks st1),
                              sh_byAddress := (sh_byAddress st1)(bk_data b \<mapsto> i)\<rparr>)))"

definition shm_onClosed :: "Shm \<Rightarrow> Shm" where
  "shm_onClosed st =
     (let st1 = st\<lparr>sh_closed := True, sh_attached := False, sh_scopes := Map.empty,
                   sh_blocks := map (\<lambda>(i, b). (i, b\<lparr>bk_peerHolds := 0\<rparr>)) (sh_blocks st)\<rparr>;
          st2 = fold releaseIfUnused (map fst (sh_blocks st1)) st1
      in st2\<lparr>sh_fallback := stream_onClosed (sh_fallback st2)\<rparr>)"

definition shm_destroy :: "Shm \<Rightarrow> Shm" where "shm_destroy st = st\<lparr>sh_own := None\<rparr>"

definition bytesInUse :: "Shm \<Rightarrow> nat" where "bytesInUse st = sh_inUse st"

definition regionName :: "Shm \<Rightarrow> string" where
  "regionName st = (case sh_own st of Some rg \<Rightarrow> rg_name rg | None \<Rightarrow> [])"

end
