(* ===== verification/RegionAllocator.thy ===== *)
theory RegionAllocator
  imports SharedMemory
begin

text \<open>
  The allocator of the shared region (\<^verbatim>\<open>SharedMemoryStrategy::State\<close>): its free list is the complement of its
  blocks, sorted and coalesced, in every state that the operations of the strategy can reach.
\<close>

declare map_of_eq_Some_iff [simp del]

section \<open>Intervals\<close>

text \<open>How many of the intervals contain \<open>x\<close>.\<close>

definition cover :: "(nat \<times> nat) list \<Rightarrow> nat \<Rightarrow> nat" where
  "cover l x = (\<Sum>(o', s)\<leftarrow>l. of_bool (o' \<le> x \<and> x < o' + s))"

lemma cover_simps [simp]:
  "cover [] x = 0"
  "cover ((o', s) # l) x = of_bool (o' \<le> x \<and> x < o' + s) + cover l x"
  "cover (l @ l') x = cover l x + cover l' x"
  by (simp_all add: cover_def)

lemma cover_member:
  assumes "(o', s) \<in> set l" "o' \<le> x" "x < o' + s"
  shows "0 < cover l x"
  using assms by (induction l) auto

text \<open>Sorted, with a gap between any two intervals, and none of them empty.\<close>

definition coalesced :: "(nat \<times> nat) list \<Rightarrow> bool" where
  "coalesced fr \<longleftrightarrow> sorted_wrt (\<lambda>(o1, s1) (o2, s2). o1 + s1 < o2) fr \<and> (\<forall>(o', s) \<in> set fr. 0 < s)"

lemma coalesced_simps [simp]:
  "coalesced []"
  "coalesced ((o', s) # fr) \<longleftrightarrow> 0 < s \<and> (\<forall>(o2, s2) \<in> set fr. o' + s < o2) \<and> coalesced fr"
  by (auto simp: coalesced_def)

lemma coalesced_full:
  assumes "coalesced fr" "\<And>x. cover fr x = of_bool (x < cap)"
  shows "fr = (if cap = 0 then [] else [(0, cap)])"
proof (cases fr)
  case Nil
  then show ?thesis using assms(2)[of 0] by (auto split: if_splits)
next
  case (Cons e rest)
  obtain o1 s1 where e: "e = (o1, s1)" by (cases e)
  have pos: "0 < s1" and gap: "\<forall>(o2, s2) \<in> set rest. o1 + s1 < o2" and co: "coalesced rest"
    using assms(1) Cons e by auto
  have none: "cover rest x = 0" if "x \<le> o1 + s1" for x
    using gap that unfolding cover_def by (induction rest) auto
  have "o1 + s1 \<ge> cap"
    using assms(2)[of "o1 + s1"] none[of "o1 + s1"] Cons e by auto
  moreover have le: "x < cap" if "o1 \<le> x" "x < o1 + s1" for x
    using assms(2)[of x] that Cons e by (auto split: if_splits simp: of_bool_def)
  ultimately have cap: "cap = o1 + s1"
    using pos le[of "o1 + (s1 - 1)"] by linarith
  have "o1 = 0"
    using assms(2)[of 0] none[of 0] Cons e pos cap by (auto simp: of_bool_def split: if_splits)
  moreover have "rest = []"
  proof (rule ccontr)
    assume "rest \<noteq> []"
    then obtain o2 s2 where m: "(o2, s2) \<in> set rest" by (cases rest) auto
    moreover have "0 < s2" using co m by (auto simp: coalesced_def)
    ultimately have "0 < cover rest o2" by (intro cover_member) auto
    then show False using assms(2)[of o2] gap m Cons e cap by (auto simp: of_bool_def split: if_splits)
  qed
  ultimately show ?thesis using Cons e cap pos by simp
qed

section \<open>First fit\<close>

text \<open>What \<^verbatim>\<open>allocateBlock\<close> makes of the free list: the first interval that is big enough gives up its front.\<close>

fun take_first :: "nat \<Rightarrow> (nat \<times> nat) list \<Rightarrow> (nat \<times> nat) list" where
  "take_first sz [] = []"
| "take_first sz ((o', s) # fr) =
     (if s \<ge> sz then (if s = sz then fr else (o' + sz, s - sz) # fr) else (o', s) # take_first sz fr)"

lemma map_erase_other: "\<forall>(o2, s2) \<in> set fr. k < o2 \<Longrightarrow> map_erase k fr = fr"
  by (induction fr) (auto simp: map_erase_def)

lemma emplace_front: "\<forall>(o2, s2) \<in> set fr. k < o2 \<Longrightarrow> emplace k v fr = (True, (k, v) # fr)"
  by (cases fr) auto

lemma find_first_member: "find P l = Some x \<Longrightarrow> x \<in> set l \<and> P x"
  by (induction l) (auto split: if_splits)

lemma first_fit:
  assumes "coalesced fr" "0 < sz" "find (\<lambda>(o', s). s \<ge> sz) fr = Some (off, s)"
  shows "(if s - sz \<noteq> 0 then snd (emplace (off + sz) (s - sz) (map_erase off fr)) else map_erase off fr) = take_first sz fr"
  using assms
proof (induction fr)
  case (Cons e fr)
  obtain o1 s1 where e: "e = (o1, s1)" by (cases e)
  have gap: "\<forall>(o2, s2) \<in> set fr. o1 + s1 < o2" and co: "coalesced fr" and pos: "0 < s1"
    using Cons.prems(1) e by auto
  show ?case
  proof (cases "s1 \<ge> sz")
    case True
    then have eq: "off = o1" "s = s1" using Cons.prems(3) e by auto
    have "map_erase off (e # fr) = fr"
      using map_erase_other[of fr o1] gap eq e by (force simp: map_erase_def)
    moreover have "emplace (off + sz) (s - sz) fr = (True, (off + sz, s - sz) # fr)"
      using gap eq True by (intro emplace_front) auto
    ultimately show ?thesis using True e eq by (cases "s1 = sz") simp_all
  next
    case False
    then have f: "find (\<lambda>(o', s). s \<ge> sz) fr = Some (off, s)" using Cons.prems(3) e by simp
    have m: "(off, s) \<in> set fr" using find_first_member[OF f] by simp
    then have o: "o1 + s1 < off" using gap by auto
    then show ?thesis using Cons.IH[OF co Cons.prems(2) f] e False
      by (auto simp: map_erase_def split: prod.splits)
  qed
qed simp

lemma take_first_keys:
  assumes "(o', s) \<in> set (take_first sz fr)"
  obtains o1 s1 where "(o1, s1) \<in> set fr" "o1 \<le> o'" "o' + s = o1 + s1"
  using assms by (induction fr rule: take_first.induct) (auto split: if_splits, fastforce+)

lemma take_first_coalesced: "coalesced fr \<Longrightarrow> coalesced (take_first sz fr)"
proof (induction sz fr rule: take_first.induct)
  case (2 sz o' s fr)
  have "\<forall>(o2, s2) \<in> set (take_first sz fr). o' + s < o2" if "\<not> s \<ge> sz"
  proof clarify
    fix o2 s2
    assume "(o2, s2) \<in> set (take_first sz fr)"
    then obtain o1 s1 where "(o1, s1) \<in> set fr" "o1 \<le> o2" by (rule take_first_keys)
    then show "o' + s < o2" using "2.prems" by fastforce
  qed
  then show ?case using 2 by auto
qed simp

lemma take_first_cover:
  assumes "find (\<lambda>(o', s). s \<ge> sz) fr = Some (off, s)"
  shows "cover (take_first sz fr) x + of_bool (off \<le> x \<and> x < off + sz) = cover fr x"
  using assms by (induction sz fr rule: take_first.induct) (auto split: if_splits)

lemma take_first_sum:
  assumes "find (\<lambda>(o', s). s \<ge> sz) fr = Some (off, s)"
  shows "sum_list (map snd (take_first sz fr)) + sz = sum_list (map snd fr)"
  using assms by (induction sz fr rule: take_first.induct) (auto split: if_splits)

section \<open>Giving an interval back\<close>

lemma merge_skip:
  assumes "k \<notin> fst ` set fr"
  shows "merge_next k fr = fr" "merge_prev k (e # fr) = e # fr"
proof -
  show "merge_next k fr = fr" using assms by (induction k fr rule: merge_next.induct) auto
  show "merge_prev k (e # fr) = e # fr" using assms by (induction k "e # fr" arbitrary: e fr rule: merge_prev.induct) auto
qed

lemma of_bool_join:
  "of_bool (a \<le> x \<and> x < a + (b + c)) = (of_bool (a \<le> x \<and> x < a + b) + of_bool (a + b \<le> x \<and> x < a + b + c) :: nat)" for x :: nat
  by (auto simp: of_bool_def)

lemma merge_next_cover: "cover (merge_next k fr) x = cover fr x"
  by (induction k fr rule: merge_next.induct) (simp_all add: of_bool_join)

lemma merge_prev_cover: "cover (merge_prev k fr) x = cover fr x"
  by (induction k fr rule: merge_prev.induct) (simp_all add: of_bool_join)

lemma emplace_cover: "k \<notin> fst ` set fr \<Longrightarrow> cover (snd (emplace k v fr)) x = cover fr x + of_bool (k \<le> x \<and> x < k + v)"
  by (induction k v fr rule: emplace.induct) (auto split: prod.splits)

lemma emplace_ins: "k \<notin> fst ` set fr \<Longrightarrow> emplace k v fr = (True, snd (emplace k v fr))"
  by (induction k v fr rule: emplace.induct) (auto split: prod.splits)

lemma emplace_set: "k \<notin> fst ` set fr \<Longrightarrow> set (snd (emplace k v fr)) = insert (k, v) (set fr)"
  by (induction k v fr rule: emplace.induct) (auto split: prod.splits)

definition give :: "nat \<Rightarrow> nat \<Rightarrow> (nat \<times> nat) list \<Rightarrow> (nat \<times> nat) list" where
  "give k v fr = merge_prev k (merge_next k (snd (emplace k v fr)))"

lemma emplace_nonempty: "snd (emplace k v fr) \<noteq> []"
  by (induction k v fr rule: emplace.induct) (auto split: prod.splits)

lemma emplace_after: "\<not> k < o' \<Longrightarrow> k \<noteq> o' \<Longrightarrow> snd (emplace k v ((o', s) # fr)) = (o', s) # snd (emplace k v fr)"
  by (simp split: prod.splits)

lemma merge_next_nonempty: "fr \<noteq> [] \<Longrightarrow> merge_next k fr \<noteq> []"
  by (induction k fr rule: merge_next.induct) auto

lemma merge_next_keys: "o' \<in> set (map fst (merge_next k fr)) \<Longrightarrow> o' \<in> set (map fst fr)"
  by (induction k fr rule: merge_next.induct) (auto simp del: set_map split: if_splits)

lemma merge_next_hd: "fr \<noteq> [] \<Longrightarrow> fst (hd (merge_next k fr)) = fst (hd fr)"
  by (induction k fr rule: merge_next.induct) auto

lemma merge_prev_keys: "o' \<in> set (map fst (merge_prev k fr)) \<Longrightarrow> o' \<in> set (map fst fr)"
  by (induction k fr rule: merge_prev.induct) (auto simp del: set_map split: if_splits)

lemma give_keys:
  assumes "k \<notin> fst ` set fr" "(o', s) \<in> set (give k v fr)"
  shows "o' = k \<or> o' \<in> fst ` set fr"
proof -
  have "o' \<in> set (map fst (give k v fr))" using assms(2) by force
  then have "o' \<in> set (map fst (snd (emplace k v fr)))"
    unfolding give_def by (rule merge_next_keys [OF merge_prev_keys])
  then have "o' \<in> fst ` insert (k, v) (set fr)" by (simp add: emplace_set [OF assms(1)] del: image_insert)
  then show ?thesis by auto
qed

lemma give_coalesced:
  assumes "coalesced fr" "0 < v" "\<forall>(o', s) \<in> set fr. k + v \<le> o' \<or> o' + s \<le> k"
  shows "coalesced (give k v fr)"
  using assms
proof (induction fr)
  case Nil
  then show ?case by (simp add: give_def)
next
  case (Cons e fr)
  obtain o1 s1 where e: "e = (o1, s1)" by (cases e)
  have gap: "\<forall>(o2, s2) \<in> set fr. o1 + s1 < o2" and co: "coalesced fr" and pos: "0 < s1"
    using Cons.prems(1) e by auto
  have pos': "\<forall>(o2, s2) \<in> set fr. 0 < s2" using co by (simp add: coalesced_def)
  have apart: "\<forall>(o', s) \<in> set fr. k + v \<le> o' \<or> o' + s \<le> k" using Cons.prems(3) by simp
  have k: "k \<notin> fst ` set fr" using apart pos' \<open>0 < v\<close> by fastforce
  have ih: "coalesced (give k v fr)" using Cons.IH co \<open>0 < v\<close> apart by blast
  consider "k + v \<le> o1" | "o1 + s1 \<le> k" using Cons.prems(3) e by auto
  then show ?case
  proof cases
    case 1
    then have lt: "k < o1" using \<open>0 < v\<close> by simp
    have "give k v (e # fr) = (if k + v = o1 then (k, v + s1) # fr else (k, v) # e # fr)"
      using lt k by (auto simp: give_def e merge_skip)
    then show ?thesis using 1 gap co pos \<open>0 < v\<close> e by fastforce
  next
    case 2
    then have em: "snd (emplace k v (e # fr)) = e # snd (emplace k v fr)"
      using pos e by (simp add: emplace_after del: emplace.simps)
    show ?thesis
    proof (cases "\<forall>(o', s) \<in> set fr. k + v \<le> o'")
      case True
      then have front: "snd (emplace k v fr) = (k, v) # fr"
        using \<open>0 < v\<close> emplace_front[of fr k v] by fastforce
      show ?thesis
      proof (cases "fr \<noteq> [] \<and> fst (hd fr) = k + v")
        case True
        then obtain s3 fr3 where fr: "fr = (k + v, s3) # fr3" by (cases fr) auto
        have "k \<notin> fst ` set fr3" using k fr by simp
        then have "give k v (e # fr) = (if o1 + s1 = k then (o1, s1 + (v + s3)) # fr3 else e # (k, v + s3) # fr3)"
          unfolding give_def em front using 2 pos e fr by (auto simp: merge_skip)
        then show ?thesis using co fr 2 pos \<open>0 < v\<close> e gap by fastforce
      next
        case False
        have mn: "merge_next k ((k, v) # fr) = (k, v) # fr" using False by (cases fr) auto
        have "give k v (e # fr) = (if o1 + s1 = k then (o1, s1 + v) # fr else e # (k, v) # fr)"
          unfolding give_def em front using 2 pos e mn by simp
        moreover have "\<forall>(o', s) \<in> set fr. k + v < o'"
        proof (cases fr)
          case (Cons e3 fr3)
          then show ?thesis using False True co by (cases e3) fastforce
        qed simp
        ultimately show ?thesis using co 2 pos \<open>0 < v\<close> e gap by fastforce
      qed
    next
      case False
      then obtain o3 s3 fr3 where fr: "fr = (o3, s3) # fr3" by (cases fr) auto
      have lt: "o3 < k"
      proof (rule ccontr)
        assume "\<not> o3 < k"
        then have "k + v \<le> o3" using apart fr pos' by fastforce
        then show False using False co fr by fastforce
      qed
      have em3: "snd (emplace k v fr) = (o3, s3) # snd (emplace k v fr3)"
        using lt fr by (simp add: emplace_after del: emplace.simps)
      obtain Y s4 where mn: "merge_next k (snd (emplace k v fr)) = (o3, s4) # Y"
        using merge_next_hd[of "snd (emplace k v fr)" k] merge_next_nonempty[of "snd (emplace k v fr)" k] em3
        by (cases "merge_next k (snd (emplace k v fr))") auto
      have "merge_next k (e # snd (emplace k v fr)) = e # merge_next k (snd (emplace k v fr))"
        using 2 pos e em3 by simp
      then have g: "give k v (e # fr) = e # give k v fr"
        unfolding give_def em using lt mn e by simp
      have "o1 + s1 < o'" if m: "(o', s) \<in> set (give k v fr)" for o' s
      proof -
        have "o' = k \<or> o' \<in> fst ` set fr" by (rule give_keys [OF k m])
        moreover have "o1 + s1 < k" using lt gap fr by auto
        ultimately show ?thesis using gap by auto
      qed
      then show ?thesis using ih pos e g by auto
    qed
  qed
qed

lemma give_cover: "k \<notin> fst ` set fr \<Longrightarrow> cover (give k v fr) x = cover fr x + of_bool (k \<le> x \<and> x < k + v)"
  by (simp add: give_def merge_next_cover merge_prev_cover emplace_cover)

section \<open>Alignment\<close>

definition aligned :: "(nat \<times> nat) list \<Rightarrow> bool" where
  "aligned fr \<longleftrightarrow> (\<forall>(o', s) \<in> set fr. kAlignment dvd o' \<and> kAlignment dvd s)"

lemma aligned_simps [simp]:
  "aligned []"
  "aligned ((o', s) # fr) \<longleftrightarrow> kAlignment dvd o' \<and> kAlignment dvd s \<and> aligned fr"
  by (auto simp: aligned_def)

lemma take_first_aligned: "aligned fr \<Longrightarrow> kAlignment dvd sz \<Longrightarrow> aligned (take_first sz fr)"
  by (induction sz fr rule: take_first.induct) (auto intro: dvd_diff_nat)

lemma emplace_aligned: "aligned fr \<Longrightarrow> kAlignment dvd k \<Longrightarrow> kAlignment dvd v \<Longrightarrow> aligned (snd (emplace k v fr))"
  by (induction k v fr rule: emplace.induct) (auto split: prod.splits)

lemma merge_next_aligned: "aligned fr \<Longrightarrow> aligned (merge_next k fr)"
  by (induction k fr rule: merge_next.induct) auto

lemma merge_prev_aligned: "aligned fr \<Longrightarrow> aligned (merge_prev k fr)"
  by (induction k fr rule: merge_prev.induct) auto

lemma give_aligned: "aligned fr \<Longrightarrow> kAlignment dvd k \<Longrightarrow> kAlignment dvd v \<Longrightarrow> aligned (give k v fr)"
  by (simp add: give_def emplace_aligned merge_next_aligned merge_prev_aligned)

lemma block_size_props: "0 < block_size n" "kAlignment dvd block_size n"
  by (auto simp: block_size_def kAlignment_def max_def)

lemma block_size_enough:
  assumes "n < 2 ^ 63"
  shows "n \<le> block_size n"
proof -
  have "(n + 64 - 1) mod 2 ^ 64 = n + 63" using assms by simp
  then have "block_size n = max 64 ((n + 63) div 64 * 64)" by (simp add: block_size_def kAlignment_def)
  then show ?thesis by (simp add: max_def) linarith
qed

section \<open>Blocks\<close>

definition used :: "(u64 \<times> Block) list \<Rightarrow> (nat \<times> nat) list" where
  "used bl = map (\<lambda>(i, b). (bk_offset b, bk_size b)) bl"

lemma used_simps [simp]:
  "used [] = []" "used ((i, b) # bl) = (bk_offset b, bk_size b) # used bl" "used (bl @ bl') = used bl @ used bl'"
  by (simp_all add: used_def)

definition total_used :: "(u64 \<times> Block) list \<Rightarrow> nat" where
  "total_used bl = (\<Sum>(i, b)\<leftarrow>bl. bk_size b)"

lemma erase_absent: "i \<notin> fst ` set bl \<Longrightarrow> blocks_erase i bl = bl"
  by (induction bl) (auto simp: blocks_erase_def)

lemma erase_used:
  assumes "map_of bl i = Some b" "distinct (map fst bl)"
  shows "cover (used bl) x = cover (used (blocks_erase i bl)) x + of_bool (bk_offset b \<le> x \<and> x < bk_offset b + bk_size b)"
    and "total_used bl = total_used (blocks_erase i bl) + bk_size b"
  using assms
proof (induction bl)
  case (Cons e bl)
  obtain j c where e: "e = (j, c)" by (cases e)
  {
    case 1
    show ?case
    proof (cases "j = i")
      case True
      then have "blocks_erase i (e # bl) = bl" using erase_absent[of i bl] 1 e by (auto simp: blocks_erase_def)
      then show ?thesis using 1 e True by simp
    next
      case False
      then show ?thesis using Cons.IH(1) 1 e by (simp add: blocks_erase_def)
    qed
  next
    case 2
    show ?case
    proof (cases "j = i")
      case True
      then have "blocks_erase i (e # bl) = bl" using erase_absent[of i bl] 2 e by (auto simp: blocks_erase_def)
      then show ?thesis using 2 e True by (simp add: total_used_def)
    next
      case False
      then show ?thesis using Cons.IH(2) 2 e by (simp add: blocks_erase_def total_used_def)
    qed
  }
qed simp_all

lemma update_facts:
  "map fst (blocks_update i f bl) = map fst bl"
  "map_of (blocks_update i f bl) j = (if j = i then map_option f (map_of bl j) else map_of bl j)"
  by (induction bl) (auto simp: blocks_update_def)

lemma update_used:
  assumes "\<And>b. bk_offset (f b) = bk_offset b" "\<And>b. bk_size (f b) = bk_size b"
  shows "used (blocks_update i f bl) = used bl" "total_used (blocks_update i f bl) = total_used bl"
  using assms by (induction bl) (auto simp: blocks_update_def total_used_def)

lemma erase_facts:
  "set (blocks_erase i bl) \<subseteq> set bl"
  "distinct (map fst bl) \<Longrightarrow> distinct (map fst (blocks_erase i bl))"
  "map_of (blocks_erase i bl) j = (if j = i then None else map_of bl j)"
  by (induction bl) (auto simp: blocks_erase_def)

section \<open>Invariant\<close>

definition block_ok :: "Region \<Rightarrow> u64 \<Rightarrow> u64 \<times> Block \<Rightarrow> bool" where
  "block_ok rg next e \<longleftrightarrow> fst e \<noteq> 0 \<and> fst e < next \<and> 0 < bk_size (snd e) \<and> kAlignment dvd bk_size (snd e)
     \<and> kAlignment dvd bk_offset (snd e) \<and> bk_data (snd e) = rg_base rg + bk_offset (snd e)"

definition capacity :: "Region \<Rightarrow> nat" where
  "capacity rg = rg_size rg - rg_size rg mod kAlignment"

definition shm_inv :: "Region \<Rightarrow> Shm \<Rightarrow> bool" where
  "shm_inv rg st \<longleftrightarrow>
     coalesced (sh_free st) \<and> aligned (sh_free st)
     \<and> (\<forall>x. cover (sh_free st) x + cover (used (sh_blocks st)) x = of_bool (x < capacity rg))
     \<and> distinct (map fst (sh_blocks st)) \<and> (\<forall>e \<in> set (sh_blocks st). block_ok rg (sh_nextBlock st) e)
     \<and> sh_inUse st = total_used (sh_blocks st) \<and> sh_nextBlock st \<noteq> 0
     \<and> (\<forall>a i. sh_byAddress st a = Some i \<longrightarrow> (\<exists>b. map_of (sh_blocks st) i = Some b \<and> bk_data b = a))
     \<and> (sh_own st = None \<or> sh_own st = Some rg) \<and> length (sh_mem st) = rg_size rg \<and> rg_size rg < 2 ^ 64"

lemma shm_inv_parts:
  assumes "shm_inv rg st"
  shows "coalesced (sh_free st)" "aligned (sh_free st)"
    "cover (sh_free st) x + cover (used (sh_blocks st)) x = of_bool (x < capacity rg)"
    "distinct (map fst (sh_blocks st))" "e \<in> set (sh_blocks st) \<Longrightarrow> block_ok rg (sh_nextBlock st) e"
    "sh_inUse st = total_used (sh_blocks st)"
    "sh_byAddress st a = Some i \<Longrightarrow> \<exists>b. map_of (sh_blocks st) i = Some b \<and> bk_data b = a"
  using assms unfolding shm_inv_def by blast+

lemma block_ok_next: "block_ok rg next e \<Longrightarrow> next \<le> next' \<Longrightarrow> block_ok rg next' e"
  by (auto simp: block_ok_def)

lemma allocateBlock_cases:
  assumes "shm_inv rg st"
  obtains (full) "allocateBlock n st = (0, st)"
  | (fits) off s where "sh_own st = Some rg"
      "find (\<lambda>(o', s). s \<ge> block_size n) (sh_free st) = Some (off, s)"
      "allocateBlock n st = (sh_nextBlock st,
         st\<lparr>sh_free := take_first (block_size n) (sh_free st), sh_inUse := sh_inUse st + block_size n,
            sh_nextBlock := sh_nextBlock st + 1,
            sh_blocks := sh_blocks st @ [(sh_nextBlock st, \<lparr>bk_offset = off, bk_size = block_size n,
              bk_data = rg_base rg + off, bk_localRefs = 0, bk_peerHolds = 0\<rparr>)]\<rparr>)"
proof (cases "sh_own st = None \<or> find (\<lambda>(o', s). s \<ge> block_size n) (sh_free st) = None")
  case True
  then show ?thesis by (intro full) (auto simp: allocateBlock_def Let_def split: option.splits)
next
  case False
  then obtain off s where own: "sh_own st = Some rg" and f: "find (\<lambda>(o', s). s \<ge> block_size n) (sh_free st) = Some (off, s)"
    using assms by (auto simp: shm_inv_def)
  have co: "coalesced (sh_free st)" using assms by (simp add: shm_inv_def)
  have new: "sh_nextBlock st \<notin> fst ` set (sh_blocks st)"
    using assms by (auto simp: shm_inv_def block_ok_def)
  show ?thesis
    by (rule fits [OF own f])
       (simp add: allocateBlock_def own f Let_def new first_fit[OF co block_size_props(1) f, symmetric])
qed

lemma allocateBlock_inv:
  assumes inv: "shm_inv rg st" and fresh: "sh_nextBlock st + 1 \<noteq> 0"
  shows "shm_inv rg (snd (allocateBlock n st))"
  using inv
proof (cases rule: allocateBlock_cases[where n = n])
  case full
  then show ?thesis using inv by simp
next
  case (fits off s)
  define sz where "sz = block_size n"
  have sz: "0 < sz" "kAlignment dvd sz" by (simp_all add: sz_def block_size_props)
  note f = fits(2)[folded sz_def]
  have al: "aligned (sh_free st)" and co: "coalesced (sh_free st)" using inv by (simp_all add: shm_inv_def)
  have m: "(off, s) \<in> set (sh_free st)" using find_first_member[OF f] by simp
  have off: "kAlignment dvd off" using al m by (auto simp: aligned_def)
  have lt: "sh_nextBlock st < sh_nextBlock st + 1"
    using fresh unatSuc[of "sh_nextBlock st"] by (simp add: word_less_nat_alt add.commute)
  have old: "\<forall>e \<in> set (sh_blocks st). block_ok rg (sh_nextBlock st + 1) e"
    using inv lt by (auto simp: shm_inv_def intro: block_ok_next)
  have cov: "cover (take_first sz (sh_free st)) x + (cover (used (sh_blocks st)) x + of_bool (off \<le> x \<and> x < off + sz))
      = of_bool (x < capacity rg)" for x
  proof -
    have "cover (sh_free st) x + cover (used (sh_blocks st)) x = of_bool (x < capacity rg)"
      using inv unfolding shm_inv_def by blast
    then show ?thesis using take_first_cover[OF f, of x] by linarith
  qed
  have new: "block_ok rg (sh_nextBlock st + 1) (sh_nextBlock st, \<lparr>bk_offset = off, bk_size = sz,
      bk_data = rg_base rg + off, bk_localRefs = 0, bk_peerHolds = 0\<rparr>)"
    using inv lt sz off by (simp add: block_ok_def shm_inv_def)
  have by_addr: "\<forall>a i. sh_byAddress st a = Some i \<longrightarrow> (\<exists>b. map_of (sh_blocks st @ [e]) i = Some b \<and> bk_data b = a)" for e
    using shm_inv_parts(7)[OF inv] by (fastforce simp: map_add_find_right)
  have "sh_nextBlock st \<notin> fst ` set (sh_blocks st)"
    using inv by (auto simp: shm_inv_def block_ok_def)
  then show ?thesis
    using inv cov new old fresh by_addr take_first_coalesced[OF co] take_first_aligned[OF al sz(2)]
    unfolding fits(3) sz_def[symmetric]
    by (simp add: shm_inv_def total_used_def add.assoc del: map_of_append map_of_eq_Some_iff)
qed

lemma shm_inv_update:
  assumes "shm_inv rg st"
    and "\<And>b. bk_offset (f b) = bk_offset b" "\<And>b. bk_size (f b) = bk_size b" "\<And>b. bk_data (f b) = bk_data b"
  shows "shm_inv rg (st\<lparr>sh_blocks := blocks_update i f (sh_blocks st)\<rparr>)"
proof -
  have "block_ok rg (sh_nextBlock st) e" if m: "e \<in> set (blocks_update i f (sh_blocks st))" for e
  proof -
    obtain p where p: "p \<in> set (sh_blocks st)" "e = (\<lambda>(j, b). (j, if j = i then f b else b)) p"
      using m unfolding blocks_update_def set_map by blast
    have "block_ok rg (sh_nextBlock st) p" by (rule shm_inv_parts(5)[OF assms(1) p(1)])
    then show ?thesis using p(2) assms(2-4) by (cases p) (simp add: block_ok_def)
  qed
  moreover have "\<exists>b. map_of (blocks_update i f (sh_blocks st)) j = Some b \<and> bk_data b = a"
    if s: "sh_byAddress st a = Some j" for a j
  proof -
    have "\<forall>a i. sh_byAddress st a = Some i \<longrightarrow> (\<exists>b. map_of (sh_blocks st) i = Some b \<and> bk_data b = a)"
      using assms(1) by (simp add: shm_inv_def)
    then obtain b where "map_of (sh_blocks st) j = Some b" "bk_data b = a" using s by blast
    then show ?thesis using assms(4) by (cases "j = i") (auto simp: update_facts)
  qed
  ultimately show ?thesis
    using assms(1) update_used[OF assms(2,3)] by (simp add: shm_inv_def update_facts)
qed

lemma block_range:
  assumes "map_of bl i = Some b" "distinct (map fst bl)" "bk_offset b \<le> x" "x < bk_offset b + bk_size b"
  shows "0 < cover (used bl) x"
  using erase_used(1)[OF assms(1,2), of x] assms(3,4) by simp

lemma blocks_disjoint:
  assumes "shm_inv rg st" "map_of (sh_blocks st) i = Some b" "map_of (sh_blocks st) j = Some c" "i \<noteq> j"
    and x: "bk_offset b \<le> x" "x < bk_offset b + bk_size b"
  shows "\<not> (bk_offset c \<le> x \<and> x < bk_offset c + bk_size c)"
proof
  note parts = shm_inv_parts[OF assms(1)]
  assume "bk_offset c \<le> x \<and> x < bk_offset c + bk_size c"
  then have "0 < cover (used (blocks_erase i (sh_blocks st))) x"
    using block_range[of "blocks_erase i (sh_blocks st)" j c x] erase_facts(2,3) parts(4) assms(3,4) by metis
  then show False
    using erase_used(1)[OF assms(2) parts(4), of x] parts(3)[of x] x by (simp add: of_bool_def split: if_splits)
qed

lemma block_inside:
  assumes "shm_inv rg st" "map_of (sh_blocks st) i = Some b"
  shows "bk_offset b + bk_size b \<le> capacity rg" "0 < bk_size b"
proof -
  note parts = shm_inv_parts[OF assms(1)]
  show pos: "0 < bk_size b" using parts(5)[OF map_of_SomeD[OF assms(2)]] by (simp add: block_ok_def)
  have "0 < cover (used (sh_blocks st)) (bk_offset b + (bk_size b - 1))"
    using pos by (intro block_range[OF assms(2) parts(4)]) auto
  then have "bk_offset b + (bk_size b - 1) < capacity rg"
    using parts(3)[of "bk_offset b + (bk_size b - 1)"] by (simp add: of_bool_def split: if_splits)
  then show "bk_offset b + bk_size b \<le> capacity rg" using pos by linarith
qed

lemma releaseIfUnused_cases:
  assumes "shm_inv rg st"
  obtains (kept) "releaseIfUnused i st = st"
  | (freed) b where "map_of (sh_blocks st) i = Some b" "bk_localRefs b = 0" "bk_peerHolds b = 0"
      "releaseIfUnused i st = st\<lparr>sh_blocks := blocks_erase i (sh_blocks st),
         sh_byAddress := (sh_byAddress st)(bk_data b := None), sh_inUse := sh_inUse st - bk_size b,
         sh_free := give (bk_offset b) (bk_size b) (sh_free st)\<rparr>"
      "\<forall>(o', s) \<in> set (sh_free st). bk_offset b + bk_size b \<le> o' \<or> o' + s \<le> bk_offset b"
proof (cases "\<exists>b. map_of (sh_blocks st) i = Some b \<and> bk_localRefs b = 0 \<and> bk_peerHolds b = 0")
  case False
  then show ?thesis by (intro kept) (auto simp: releaseIfUnused_def split: option.splits)
next
  case True
  then obtain b where b: "map_of (sh_blocks st) i = Some b" "bk_localRefs b = 0" "bk_peerHolds b = 0" by blast
  note parts = shm_inv_parts[OF assms]
  have pos: "0 < bk_size b" using block_inside(2)[OF assms b(1)] .
  have free_pos: "0 < s" if "(o', s) \<in> set (sh_free st)" for o' s using parts(1) that by (auto simp: coalesced_def)
  have both: "\<not> (o' \<le> x \<and> x < o' + s \<and> bk_offset b \<le> x \<and> x < bk_offset b + bk_size b)"
    if "(o', s) \<in> set (sh_free st)" for o' s x
    using cover_member[OF that, of x] block_range[OF b(1) parts(4), of x] parts(3)[of x]
    by (auto simp: of_bool_def split: if_splits)
  have apart: "\<forall>(o', s) \<in> set (sh_free st). bk_offset b + bk_size b \<le> o' \<or> o' + s \<le> bk_offset b"
  proof clarify
    fix o' s
    assume m: "(o', s) \<in> set (sh_free st)" and n: "\<not> o' + s \<le> bk_offset b"
    show "bk_offset b + bk_size b \<le> o'"
      using both[OF m, of o'] both[OF m, of "bk_offset b"] free_pos[OF m] pos n by linarith
  qed
  have k: "bk_offset b \<notin> fst ` set (sh_free st)"
  proof
    assume "bk_offset b \<in> fst ` set (sh_free st)"
    then obtain s where m: "(bk_offset b, s) \<in> set (sh_free st)" by auto
    then show False using both[OF m, of "bk_offset b"] free_pos[OF m] pos by simp
  qed
  show ?thesis
    by (rule freed [OF b _ apart])
       (simp add: releaseIfUnused_def b Let_def give_def, subst emplace_ins[OF k], simp)
qed

lemma releaseIfUnused_inv:
  assumes inv: "shm_inv rg st"
  shows "shm_inv rg (releaseIfUnused i st)"
  using inv
proof (cases rule: releaseIfUnused_cases[where i = i])
  case kept
  then show ?thesis using inv by simp
next
  case (freed b)
  note parts = shm_inv_parts[OF inv]
  have ok: "block_ok rg (sh_nextBlock st) (i, b)" using parts(5) map_of_SomeD[OF freed(1)] by blast
  have pos: "0 < bk_size b" using ok by (simp add: block_ok_def)
  have k: "bk_offset b \<notin> fst ` set (sh_free st)"
  proof
    assume "bk_offset b \<in> fst ` set (sh_free st)"
    then obtain s where "(bk_offset b, s) \<in> set (sh_free st)" by auto
    then show False using freed(5) pos parts(1) by (fastforce simp: coalesced_def)
  qed
  have co: "coalesced (give (bk_offset b) (bk_size b) (sh_free st))"
    by (rule give_coalesced [OF parts(1) pos freed(5)])
  have al: "aligned (give (bk_offset b) (bk_size b) (sh_free st))"
    using ok by (intro give_aligned parts(2)) (simp_all add: block_ok_def)
  have cov: "cover (give (bk_offset b) (bk_size b) (sh_free st)) x + cover (used (blocks_erase i (sh_blocks st))) x
      = of_bool (x < capacity rg)" for x
    using parts(3)[of x] erase_used(1)[OF freed(1) parts(4), of x] give_cover[OF k, of "bk_size b" x] by linarith
  have addr: "\<exists>c. map_of (blocks_erase i (sh_blocks st)) j = Some c \<and> bk_data c = a"
    if "((sh_byAddress st)(bk_data b := None)) a = Some j" for a j
  proof -
    have ne: "a \<noteq> bk_data b" and s: "sh_byAddress st a = Some j" using that by (auto split: if_splits)
    obtain c where c: "map_of (sh_blocks st) j = Some c" "bk_data c = a" using parts(7)[OF s] by blast
    then have "j \<noteq> i" using ne freed(1) by auto
    then show ?thesis using c by (simp add: erase_facts)
  qed
  have blocks: "\<forall>e \<in> set (blocks_erase i (sh_blocks st)). block_ok rg (sh_nextBlock st) e"
    using parts(5) erase_facts(1)[of i "sh_blocks st"] by blast
  have "sh_inUse st - bk_size b = total_used (blocks_erase i (sh_blocks st))"
    using erase_used(2)[OF freed(1) parts(4)] parts(6) by simp
  moreover have "sh_nextBlock st \<noteq> 0 \<and> (sh_own st = None \<or> sh_own st = Some rg) \<and> length (sh_mem st) = rg_size rg \<and> rg_size rg < 2 ^ 64"
    using inv by (simp add: shm_inv_def)
  ultimately show ?thesis
    unfolding freed(4) shm_inv_def
    using co al cov addr blocks erase_facts(2)[OF parts(4)] by (simp del: fun_upd_apply)
qed

section \<open>Steps\<close>

text \<open>What happens to one side of a connection whose region is \<open>rg\<close>, in any order. \<open>fresh\<close> says that the
  64-bit block counter has not come to its end; \<open>in_place\<close> is the owner of an in-place buffer writing to it.\<close>

definition fresh :: "Shm \<Rightarrow> bool" where
  "fresh st \<longleftrightarrow> sh_nextBlock st + 1 \<noteq> 0"

definition write_block :: "Block \<Rightarrow> nat \<Rightarrow> bytes \<Rightarrow> Shm \<Rightarrow> Shm" where
  "write_block b off bs st = st\<lparr>sh_mem := copy_loop (\<lambda>k. bs ! k) (bk_offset b + off) (length bs) (sh_mem st)\<rparr>"

inductive shm_step :: "Shm \<Rightarrow> Shm \<Rightarrow> bool" where
  complete: "shm_step st (snd (shm_complete opened accepted st))"
| attach: "shm_step st (shm_attach st)"
| send: "fresh st \<Longrightarrow> length (payload_bytes p) < 2 ^ 63 \<Longrightarrow> shm_send deliver addr p scope st = Some (sent, r, st')
    \<Longrightarrow> shm_step st st'"
| receive: "shm_step st (snd (shm_receive peerMem ref st))"
| frame: "shm_step st (shm_onPayloadFrame junk fr st)"
| endScope: "shm_step st (shm_endScope scope st)"
| allocate: "fresh st \<Longrightarrow> shm_step st (snd (shm_allocate n st))"
| in_place: "map_of (sh_blocks st) i = Some b \<Longrightarrow> bk_localRefs b \<noteq> 0 \<Longrightarrow> off + length bs \<le> bk_size b
    \<Longrightarrow> shm_step st (write_block b off bs st)"
| dropLocal: "shm_step st (dropLocal i st)"
| closed: "shm_step st (shm_onClosed st)"
| destroy: "shm_step st (shm_destroy st)"

text \<open>After \<^verbatim>\<open>offer\<close> on the coordinator, or after an accepting \<^verbatim>\<open>accept\<close> on the worker.\<close>

inductive shm_init :: "Region \<Rightarrow> Shm \<Rightarrow> bool" for rg where
  offered: "length mem = rg_size rg \<Longrightarrow> rg_size rg < 2 ^ 64
    \<Longrightarrow> shm_init rg (snd (shm_offer (Some rg) mem (Shm_new n chunk)))"
| accepted: "length mem = rg_size rg \<Longrightarrow> rg_size rg < 2 ^ 64
    \<Longrightarrow> shm_accept opened (Some rg) mem offer (Shm_new n chunk) = (Inr answer, st) \<Longrightarrow> shm_init rg st"

lemma initial_inv:
  assumes "sh_own st = Some rg" "sh_blocks st = []" "sh_inUse st = 0" "sh_nextBlock st = 1" "sh_byAddress st = Map.empty"
    "length (sh_mem st) = rg_size rg" "rg_size rg < 2 ^ 64"
  shows "shm_inv rg (initFree st)"
proof -
  have "rg_size rg - rg_size rg mod kAlignment = 0 \<longleftrightarrow> rg_size rg < kAlignment"
    by (simp add: kAlignment_def) (metis div_eq_0_iff le_eq_less_or_eq minus_mod_eq_div_mult mod_less_eq_dividend mult_eq_0_iff diff_is_0_eq zero_neq_numeral)
  then show ?thesis
    using assms by (auto simp: shm_inv_def initFree_def total_used_def capacity_def minus_mod_eq_mult_div)
qed

lemma shm_inv_cong:
  assumes "shm_inv rg st" "sh_free st' = sh_free st" "sh_blocks st' = sh_blocks st" "sh_inUse st' = sh_inUse st"
    "sh_nextBlock st' = sh_nextBlock st" "sh_byAddress st' = sh_byAddress st" "length (sh_mem st') = length (sh_mem st)"
    "sh_own st' = sh_own st \<or> sh_own st' = None"
  shows "shm_inv rg st'"
  using assms unfolding shm_inv_def by auto

lemma dropPeerHold_inv: "shm_inv rg st \<Longrightarrow> shm_inv rg (dropPeerHold i st)"
  by (auto simp: dropPeerHold_def intro!: releaseIfUnused_inv shm_inv_update split: option.splits)

lemma dropLocal_inv: "shm_inv rg st \<Longrightarrow> shm_inv rg (dropLocal i st)"
  by (auto simp: dropLocal_def intro!: releaseIfUnused_inv shm_inv_update split: option.splits)

lemma fold_inv: "(\<And>i st. shm_inv rg st \<Longrightarrow> shm_inv rg (f i st)) \<Longrightarrow> shm_inv rg st \<Longrightarrow> shm_inv rg (fold f ids st)"
  by (induction ids arbitrary: st) auto

lemma shm_send_cases:
  assumes "shm_send deliver addr p scope st = Some (sent, r, st')" "shm_inv rg st"
  obtains (streamed) fb st1 where "st' = st1\<lparr>sh_fallback := fb\<rparr>" "st1 = st \<or> st1 = snd (allocateBlock (length (payload_bytes p)) st)"
      "\<And>ref. r = Inr ref \<Longrightarrow> hd ref = kStreamed"
  | (in_region) i b copy st1 where "map_of (sh_blocks st1) i = Some b" "i \<noteq> 0"
      "copy \<longrightarrow> allocateBlock (length (payload_bytes p)) st = (i, st1)"
      "\<not> copy \<longrightarrow> st1 = st \<and> sh_byAddress st addr = Some i"
      "sent = []" "r = Inr ([kInRegion] @ little i 8 @ little (word_of_nat (bk_offset b)) 8
         @ little (word_of_nat (length (payload_bytes p))) 8)"
      "\<exists>sc. st' = st1\<lparr>sh_blocks := blocks_update i (\<lambda>b. b\<lparr>bk_peerHolds := bk_peerHolds b + 1\<rparr>) (sh_blocks st1), sh_scopes := sc,
         sh_mem := (if copy \<and> payload_bytes p \<noteq> []
           then copy_loop (\<lambda>k. payload_bytes p ! k) (bk_offset b) (length (payload_bytes p)) (sh_mem st1) else sh_mem st1)\<rparr>"
proof -
  obtain i copy st1 where s: "(case sh_byAddress st addr of Some i \<Rightarrow> (i, False, st)
      | None \<Rightarrow> (case allocateBlock (length (payload_bytes p)) st of (i, st1) \<Rightarrow> (i, True, st1))) = (i, copy, st1)"
    by (cases "case sh_byAddress st addr of Some i \<Rightarrow> (i, False, st)
      | None \<Rightarrow> (case allocateBlock (length (payload_bytes p)) st of (i, st1) \<Rightarrow> (i, True, st1))")
  have c: "copy \<longrightarrow> allocateBlock (length (payload_bytes p)) st = (i, st1)"
      "\<not> copy \<longrightarrow> st1 = st \<and> sh_byAddress st addr = Some i"
    using s by (auto split: option.splits prod.splits)
  note eq = assms(1)[unfolded shm_send_def Let_def s prod.case]
  show ?thesis
  proof (cases "i = 0")
    case True
    with eq obtain r0 fb where f: "stream_send deliver p (sh_fallback st1) = Some (sent, r0, fb)"
        "r = map_sum id (\<lambda>ref. kStreamed # ref) r0" "st' = st1\<lparr>sh_fallback := fb\<rparr>"
      by (auto split: option.splits)
    show ?thesis
    proof (rule streamed [OF f(3)])
      show "st1 = st \<or> st1 = snd (allocateBlock (length (payload_bytes p)) st)" using c by (cases copy) auto
      show "hd ref = kStreamed" if "r = Inr ref" for ref using f(2) that by (cases r0) auto
    qed
  next
    case False
    with eq obtain b where b: "map_of (sh_blocks st1) i = Some b" by (auto split: option.splits)
    show ?thesis
      by (rule in_region [OF b False c]) (use eq False b in auto)
  qed
qed

lemma shm_inv_mem: "shm_inv rg st \<Longrightarrow> length m = length (sh_mem st) \<Longrightarrow> shm_inv rg (st\<lparr>sh_mem := m, sh_scopes := sc\<rparr>)"
  by (rule shm_inv_cong) auto

lemma shm_send_inv:
  assumes "shm_inv rg st" "fresh st" "shm_send deliver addr p scope st = Some (sent, r, st')"
  shows "shm_inv rg st'"
  using assms(3,1)
proof (cases rule: shm_send_cases)
  case (streamed fb st1)
  then have "shm_inv rg st1" using assms(1,2) allocateBlock_inv by (auto simp: fresh_def)
  then show ?thesis using streamed(1) by (auto intro: shm_inv_cong)
next
  case (in_region i b copy st1)
  have "shm_inv rg st1" using in_region(3,4) assms(1,2) allocateBlock_inv[of rg st "length (payload_bytes p)"]
    by (cases copy) (auto simp: fresh_def)
  then have "shm_inv rg (st1\<lparr>sh_blocks := blocks_update i (\<lambda>b. b\<lparr>bk_peerHolds := bk_peerHolds b + 1\<rparr>) (sh_blocks st1)\<rparr>)"
    by (rule shm_inv_update) simp_all
  then show ?thesis using in_region(7) by (elim shm_inv_cong exE) auto
qed

lemma shm_allocate_cases:
  assumes "shm_inv rg st"
  obtains (none) "fst (shm_allocate n st) = None" "snd (shm_allocate n st) = st \<or> snd (shm_allocate n st) = snd (allocateBlock n st)"
  | (block) i b st1 where "allocateBlock n st = (i, st1)" "map_of (sh_blocks st1) i = Some b" "i \<noteq> 0"
      "shm_allocate n st = (Some (i, bk_data b, n), st1\<lparr>sh_blocks := blocks_update i (\<lambda>b. b\<lparr>bk_localRefs := 1\<rparr>) (sh_blocks st1),
         sh_byAddress := (sh_byAddress st1)(bk_data b \<mapsto> i)\<rparr>)"
proof -
  obtain i st1 where a: "allocateBlock n st = (i, st1)" by (cases "allocateBlock n st")
  show ?thesis
  proof (cases "n = 0 \<or> sh_own st = None \<or> i = 0 \<or> map_of (sh_blocks st1) i = None")
    case True
    then show ?thesis by (intro none) (auto simp: shm_allocate_def a)
  next
    case False
    then obtain b where "map_of (sh_blocks st1) i = Some b" by auto
    then show ?thesis using False a by (intro block[of i st1 b]) (auto simp: shm_allocate_def)
  qed
qed

lemma shm_allocate_inv:
  assumes "shm_inv rg st" "fresh st"
  shows "shm_inv rg (snd (shm_allocate n st))"
  using assms(1)
proof (cases rule: shm_allocate_cases[where n = n])
  case none
  then show ?thesis using assms allocateBlock_inv by (auto simp: fresh_def)
next
  case (block i b st1)
  have "shm_inv rg st1" using allocateBlock_inv[of rg st n] assms block(1) by (simp add: fresh_def)
  then have u: "shm_inv rg (st1\<lparr>sh_blocks := blocks_update i (\<lambda>b. b\<lparr>bk_localRefs := 1\<rparr>) (sh_blocks st1)\<rparr>)"
    by (rule shm_inv_update) simp_all
  define bl where "bl = blocks_update i (\<lambda>b. b\<lparr>bk_localRefs := 1\<rparr>) (sh_blocks st1)"
  have "\<exists>c. map_of bl j = Some c \<and> bk_data c = a" if "((sh_byAddress st1)(bk_data b \<mapsto> i)) a = Some j" for a j
  proof (cases "a = bk_data b")
    case True
    then show ?thesis using that block(2) by (auto simp: bl_def update_facts)
  next
    case False
    then show ?thesis using that shm_inv_parts(7)[OF u, of a j] by (simp add: bl_def)
  qed
  then show ?thesis using u unfolding block(4) shm_inv_def bl_def[symmetric] by (simp del: fun_upd_apply)
qed

lemma peer_gone_inv:
  assumes "shm_inv rg st"
  shows "shm_inv rg (st\<lparr>sh_closed := True, sh_attached := False, sh_scopes := Map.empty,
     sh_blocks := map (\<lambda>(i, b). (i, b\<lparr>bk_peerHolds := 0\<rparr>)) (sh_blocks st)\<rparr>)"
proof -
  define st1 where "st1 = st\<lparr>sh_closed := True, sh_attached := False, sh_scopes := Map.empty,
                   sh_blocks := map (\<lambda>(i, b). (i, b\<lparr>bk_peerHolds := 0\<rparr>)) (sh_blocks st)\<rparr>"
  have m: "map_of (sh_blocks st1) i = map_option (\<lambda>b. b\<lparr>bk_peerHolds := 0\<rparr>) (map_of (sh_blocks st) i)" for i
    by (simp add: st1_def map_of_map)
  have f: "used (sh_blocks st1) = used (sh_blocks st)" "total_used (sh_blocks st1) = total_used (sh_blocks st)"
      "map fst (sh_blocks st1) = map fst (sh_blocks st)"
    by (simp_all add: st1_def used_def total_used_def case_prod_unfold comp_def)
  have "\<forall>e \<in> set (sh_blocks st1). block_ok rg (sh_nextBlock st) e"
    using shm_inv_parts(5)[OF assms] by (auto simp: st1_def block_ok_def)
  moreover have "\<exists>b. map_of (sh_blocks st1) i = Some b \<and> bk_data b = a" if "sh_byAddress st a = Some i" for a i
    using shm_inv_parts(7)[OF assms that] by (auto simp: m)
  moreover have s: "sh_free st1 = sh_free st" "sh_inUse st1 = sh_inUse st" "sh_nextBlock st1 = sh_nextBlock st"
      "sh_byAddress st1 = sh_byAddress st" "sh_own st1 = sh_own st" "sh_mem st1 = sh_mem st"
    by (simp_all add: st1_def)
  ultimately show ?thesis using assms unfolding shm_inv_def st1_def[symmetric] s f by blast
qed

lemma shm_onClosed_inv:
  assumes "shm_inv rg st"
  shows "shm_inv rg (shm_onClosed st)"
proof -
  have "shm_inv rg (fold releaseIfUnused ids (st\<lparr>sh_closed := True, sh_attached := False, sh_scopes := Map.empty,
     sh_blocks := map (\<lambda>(i, b). (i, b\<lparr>bk_peerHolds := 0\<rparr>)) (sh_blocks st)\<rparr>))" for ids
    by (intro fold_inv releaseIfUnused_inv peer_gone_inv assms)
  then show ?thesis unfolding shm_onClosed_def Let_def by (rule shm_inv_cong) auto
qed

lemma shm_step_inv: "shm_step st st' \<Longrightarrow> shm_inv rg st \<Longrightarrow> shm_inv rg st'"
proof (induction rule: shm_step.induct)
  case (complete st opened accepted)
  then show ?case by (elim shm_inv_cong) (auto simp: shm_complete_def split: option.splits sum.splits prod.splits)
next
  case (receive st peerMem ref)
  then show ?case by (elim shm_inv_cong) (auto simp: shm_receive_def Let_def split: option.splits sum.splits prod.splits)
next
  case (frame st junk fr)
  then show ?case by (auto simp: shm_onPayloadFrame_def intro: dropPeerHold_inv shm_inv_cong)
next
  case (endScope st scope)
  then show ?case
    by (auto simp: shm_endScope_def Let_def intro: shm_inv_cong[OF fold_inv[where f = dropPeerHold]] dropPeerHold_inv split: option.splits)
qed (auto intro: shm_send_inv shm_allocate_inv dropLocal_inv shm_onClosed_inv shm_inv_cong
       simp: shm_attach_def write_block_def shm_destroy_def)

lemma shm_init_inv: "shm_init rg st \<Longrightarrow> shm_inv rg st"
proof (induction rule: shm_init.induct)
  case (offered mem n chunk)
  then show ?case by (auto simp: shm_offer_def Shm_new_def intro: initial_inv)
next
  case (accepted mem opened offer n chunk answer st)
  then show ?case
    by (auto simp: shm_accept_def Shm_new_def Let_def intro!: initial_inv split: option.splits sum.splits prod.splits)
qed

interpretation shm: inductive_invariant "shm_init rg" shm_step "shm_inv rg" for rg
  by unfold_locales (auto intro: shm_init_inv shm_step_inv)

end
