(* ===== verification/RegionPayloads.thy ===== *)
theory RegionPayloads
  imports RegionAllocator
begin

text \<open>
  What the shared region promises its users: blocks that never overlap, payloads that stay as they were sent, and
  a region that is whole again when everything has been released.
\<close>

section \<open>What a block keeps\<close>

definition evolves :: "Shm \<Rightarrow> Shm \<Rightarrow> bool" where
  "evolves st st' \<longleftrightarrow> sh_nextBlock st \<le> sh_nextBlock st' \<and> sh_mem st' = sh_mem st
     \<and> (\<forall>i b'. i < sh_nextBlock st \<and> map_of (sh_blocks st') i = Some b' \<longrightarrow>
          (\<exists>b. map_of (sh_blocks st) i = Some b \<and> bk_offset b' = bk_offset b \<and> bk_size b' = bk_size b
             \<and> (bk_localRefs b = 0 \<longrightarrow> bk_localRefs b' = 0)))"

lemma evolves_same: "sh_nextBlock st' = sh_nextBlock st \<Longrightarrow> sh_mem st' = sh_mem st \<Longrightarrow> sh_blocks st' = sh_blocks st \<Longrightarrow> evolves st st'"
  by (auto simp: evolves_def)

lemma evolves_trans:
  assumes "evolves a b" "evolves b c"
  shows "evolves a c"
  unfolding evolves_def
proof (intro conjI allI impI)
  show "sh_nextBlock a \<le> sh_nextBlock c" "sh_mem c = sh_mem a" using assms unfolding evolves_def by auto
  fix i b'
  assume "i < sh_nextBlock a \<and> map_of (sh_blocks c) i = Some b'"
  then have i: "i < sh_nextBlock a" "i < sh_nextBlock b" and m: "map_of (sh_blocks c) i = Some b'"
    using assms(1) unfolding evolves_def by auto
  obtain b1 where b1: "map_of (sh_blocks b) i = Some b1" "bk_offset b' = bk_offset b1" "bk_size b' = bk_size b1"
      "bk_localRefs b1 = 0 \<longrightarrow> bk_localRefs b' = 0"
    using assms(2) i(2) m unfolding evolves_def by blast
  obtain b0 where "map_of (sh_blocks a) i = Some b0" "bk_offset b1 = bk_offset b0" "bk_size b1 = bk_size b0"
      "bk_localRefs b0 = 0 \<longrightarrow> bk_localRefs b1 = 0"
    using assms(1) i(1) b1(1) unfolding evolves_def by blast
  then show "\<exists>b0. map_of (sh_blocks a) i = Some b0 \<and> bk_offset b' = bk_offset b0 \<and> bk_size b' = bk_size b0
      \<and> (bk_localRefs b0 = 0 \<longrightarrow> bk_localRefs b' = 0)"
    using b1 by auto
qed

lemma evolves_update:
  assumes "\<And>b. bk_offset (f b) = bk_offset b" "\<And>b. bk_size (f b) = bk_size b" "\<And>b. bk_localRefs b = 0 \<Longrightarrow> bk_localRefs (f b) = 0 \<or> j \<ge> sh_nextBlock st"
  shows "evolves st (st\<lparr>sh_blocks := blocks_update j f (sh_blocks st)\<rparr>)"
  unfolding evolves_def
proof (intro conjI allI impI)
  fix i b'
  assume "i < sh_nextBlock st \<and> map_of (sh_blocks (st\<lparr>sh_blocks := blocks_update j f (sh_blocks st)\<rparr>)) i = Some b'"
  then have i: "i < sh_nextBlock st" and m: "(if i = j then map_option f (map_of (sh_blocks st) i) else map_of (sh_blocks st) i) = Some b'"
    by (simp_all add: update_facts)
  show "\<exists>b. map_of (sh_blocks st) i = Some b \<and> bk_offset b' = bk_offset b \<and> bk_size b' = bk_size b
      \<and> (bk_localRefs b = 0 \<longrightarrow> bk_localRefs b' = 0)"
  proof (cases "i = j")
    case True
    then obtain b where "map_of (sh_blocks st) i = Some b" "b' = f b" using m by auto
    then show ?thesis using assms i True by force
  next
    case False
    then show ?thesis using m by simp
  qed
qed simp_all

lemma evolves_release: "evolves st (releaseIfUnused i st)"
proof -
  have "map_of (sh_blocks (releaseIfUnused i st)) j = Some b \<Longrightarrow> map_of (sh_blocks st) j = Some b" for j b
    by (auto simp: releaseIfUnused_def Let_def erase_facts split: option.splits if_splits prod.splits)
  moreover have "sh_nextBlock (releaseIfUnused i st) = sh_nextBlock st" "sh_mem (releaseIfUnused i st) = sh_mem st"
    by (auto simp: releaseIfUnused_def Let_def split: option.splits prod.splits)
  ultimately show ?thesis unfolding evolves_def by auto
qed

lemma evolves_drops: "evolves st (dropPeerHold i st)" "evolves st (dropLocal i st)"
proof -
  have u: "evolves st (releaseIfUnused i (st\<lparr>sh_blocks := blocks_update i f (sh_blocks st)\<rparr>))"
    if "\<And>b. bk_offset (f b) = bk_offset b" "\<And>b. bk_size (f b) = bk_size b"
      "\<And>b. bk_localRefs b = 0 \<Longrightarrow> bk_localRefs (f b) = 0 \<or> i \<ge> sh_nextBlock st" for f
    using evolves_trans[OF evolves_update[OF that] evolves_release] .
  show "evolves st (dropPeerHold i st)"
    by (auto simp: dropPeerHold_def evolves_same intro!: u split: option.splits)
  have "evolves st (releaseIfUnused i (st\<lparr>sh_blocks := blocks_update i (\<lambda>b. b\<lparr>bk_localRefs := bk_localRefs b - 1\<rparr>) (sh_blocks st)\<rparr>))"
    if "map_of (sh_blocks st) i = Some b" "bk_localRefs b \<noteq> 0" for b
  proof -
    let ?st = "st\<lparr>sh_blocks := blocks_update i (\<lambda>b. b\<lparr>bk_localRefs := bk_localRefs b - 1\<rparr>) (sh_blocks st)\<rparr>"
    have "evolves st ?st"
      unfolding evolves_def
    proof (intro conjI allI impI)
      fix j b'
      assume "j < sh_nextBlock st \<and> map_of (sh_blocks ?st) j = Some b'"
      then show "\<exists>c. map_of (sh_blocks st) j = Some c \<and> bk_offset b' = bk_offset c \<and> bk_size b' = bk_size c
          \<and> (bk_localRefs c = 0 \<longrightarrow> bk_localRefs b' = 0)"
        using that by (cases "j = i") (auto simp: update_facts)
    qed simp_all
    then show ?thesis by (rule evolves_trans [OF _ evolves_release])
  qed
  then show "evolves st (dropLocal i st)"
    by (auto simp: dropLocal_def evolves_same split: option.splits)
qed

lemma evolves_fold: "(\<And>i st. evolves st (f i st)) \<Longrightarrow> evolves st (fold f ids st)"
proof (induction ids arbitrary: st)
  case (Cons i ids)
  then show ?case using evolves_trans[OF Cons.prems[of st i] Cons.IH[OF Cons.prems]] by simp
qed (simp add: evolves_same)

lemma evolves_allocateBlock:
  assumes inv: "shm_inv rg st" and fr: "fresh st"
  shows "evolves st (snd (allocateBlock n st))"
  using inv
proof (cases rule: allocateBlock_cases[where n = n])
  case full
  then show ?thesis by (simp add: evolves_same)
next
  case (fits off s)
  have lt: "sh_nextBlock st < sh_nextBlock st + 1"
    using fr unatSuc[of "sh_nextBlock st"] by (simp add: fresh_def word_less_nat_alt add.commute)
  have "map_of (sh_blocks st) i = Some b'" if "i < sh_nextBlock st" "map_of (sh_blocks st @ [(sh_nextBlock st, b)]) i = Some b'" for i b b'
    using that by (auto simp: map_add_Some_iff split: if_splits)
  then show ?thesis unfolding evolves_def fits(3) using lt by (auto simp del: map_of_append)
qed

text \<open>Every step but a copying send and a write in place.\<close>

lemma evolves_cong: "evolves a b \<Longrightarrow> sh_nextBlock c = sh_nextBlock b \<Longrightarrow> sh_mem c = sh_mem b \<Longrightarrow> sh_blocks c = sh_blocks b \<Longrightarrow> evolves a c"
  by (auto simp: evolves_def)

lemma allocateBlock_id:
  assumes "shm_inv rg st" "allocateBlock n st = (i, st1)" "i \<noteq> 0"
  obtains off where "i = sh_nextBlock st" "map_of (sh_blocks st1) i = Some \<lparr>bk_offset = off, bk_size = block_size n,
     bk_data = rg_base rg + off, bk_localRefs = 0, bk_peerHolds = 0\<rparr>"
  using assms(1)
proof (cases rule: allocateBlock_cases[where n = n])
  case full
  then show ?thesis using assms by simp
next
  case (fits off s)
  have "sh_nextBlock st \<notin> fst ` set (sh_blocks st)" using assms(1) by (auto simp: shm_inv_def block_ok_def)
  then have "map_of (sh_blocks st) (sh_nextBlock st) = None" by (simp add: map_of_eq_None_iff)
  then show ?thesis using that[of off] fits(3) assms(2) by (simp add: map_add_def)
qed

lemma evolves_allocate:
  assumes "shm_inv rg st" "fresh st"
  shows "evolves st (snd (shm_allocate n st))"
  using assms(1)
proof (cases rule: shm_allocate_cases[where n = n])
  case none
  then show ?thesis using evolves_allocateBlock[OF assms] by (auto simp: evolves_same)
next
  case (block i b st1)
  have e: "evolves st st1" using evolves_allocateBlock[OF assms, of n] block(1) by simp
  have i: "i = sh_nextBlock st" using allocateBlock_id[OF assms(1) block(1,3)] by blast
  show ?thesis
    unfolding evolves_def block(4) using e i
    by (auto simp: evolves_def update_facts)
qed

lemma evolves_closed: "evolves st (shm_onClosed st)"
proof -
  define st1 where "st1 = st\<lparr>sh_closed := True, sh_attached := False, sh_scopes := Map.empty,
                   sh_blocks := map (\<lambda>(i, b). (i, b\<lparr>bk_peerHolds := 0\<rparr>)) (sh_blocks st)\<rparr>"
  have "map_of (sh_blocks st1) i = map_option (\<lambda>b. b\<lparr>bk_peerHolds := 0\<rparr>) (map_of (sh_blocks st) i)" for i
    by (simp add: st1_def map_of_map)
  then have "evolves st st1" by (auto simp: evolves_def) (auto simp: st1_def)
  moreover have "evolves st1 (fold releaseIfUnused (map fst (sh_blocks st1)) st1)"
    by (intro evolves_fold evolves_release)
  ultimately have "evolves st (fold releaseIfUnused (map fst (sh_blocks st1)) st1)" by (rule evolves_trans)
  then show ?thesis unfolding shm_onClosed_def Let_def st1_def[symmetric] by (rule evolves_cong) auto
qed

lemma copy_elsewhere:
  assumes "d + n \<le> length m" "\<And>x. d \<le> x \<Longrightarrow> x < d + n \<Longrightarrow> \<not> (off \<le> x \<and> x < off + len)"
  shows "take len (drop off (copy_loop f d n m)) = take len (drop off m)"
proof (rule nth_equalityI)
  fix k
  assume k: "k < length (take len (drop off (copy_loop f d n m)))"
  then have "off + k < length m" "off \<le> length m" by auto
  then show "take len (drop off (copy_loop f d n m)) ! k = take len (drop off m) ! k"
    using assms(1) assms(2)[of "off + k"] k by (auto simp: nth_copy_loop)
qed simp

lemma copy_here:
  assumes "d + length bs \<le> length m"
  shows "take (length bs) (drop d (copy_loop (\<lambda>k. bs ! k) d (length bs) m)) = bs"
  using assms by (intro nth_equalityI) (auto simp: nth_copy_loop)

definition holds :: "Region \<Rightarrow> u64 \<Rightarrow> nat \<Rightarrow> bytes \<Rightarrow> Shm \<Rightarrow> bool" where
  "holds rg i off bs st \<longleftrightarrow> shm_inv rg st \<and> i < sh_nextBlock st
     \<and> (\<forall>b. map_of (sh_blocks st) i = Some b \<longrightarrow> bk_offset b = off \<and> length bs \<le> bk_size b \<and> bk_localRefs b = 0
          \<and> take (length bs) (drop off (sh_mem st)) = bs)"

lemma holds_evolves:
  assumes "holds rg i off bs st" "evolves st st'" "shm_inv rg st'"
  shows "holds rg i off bs st'"
  using assms unfolding holds_def evolves_def by fastforce

lemma in_memory:
  assumes "shm_inv rg st" "map_of (sh_blocks st) i = Some b"
  shows "bk_offset b + bk_size b \<le> length (sh_mem st)"
  using block_inside(1)[OF assms] assms(1) by (simp add: shm_inv_def capacity_def)

text \<open>A write inside one block leaves every other block as it was.\<close>

lemma holds_write:
  assumes h: "holds rg i off bs st" and j: "map_of (sh_blocks st) j = Some c" "i \<noteq> j" "d + length ds \<le> bk_size c"
  shows "holds rg i off bs (st\<lparr>sh_mem := copy_loop (\<lambda>k. ds ! k) (bk_offset c + d) (length ds) (sh_mem st)\<rparr>)" (is "holds _ _ _ _ ?st")
proof -
  have inv: "shm_inv rg st" using h by (simp add: holds_def)
  have fit: "bk_offset c + d + length ds \<le> length (sh_mem st)" using in_memory[OF inv j(1)] j(3) by simp
  have "take (length bs) (drop off (sh_mem ?st)) = bs" if "map_of (sh_blocks st) i = Some b" for b
  proof -
    have b: "bk_offset b = off" "length bs \<le> bk_size b" "take (length bs) (drop off (sh_mem st)) = bs"
      using h that by (auto simp: holds_def)
    have "take (length bs) (drop off (sh_mem ?st)) = take (length bs) (drop off (sh_mem st))"
      using blocks_disjoint[OF inv that j(1) j(2)] j(3) b(1,2) fit by (simp, intro copy_elsewhere) fastforce+
    then show ?thesis using b(3) by simp
  qed
  moreover have "shm_inv rg ?st" by (rule shm_inv_cong [OF inv]) auto
  ultimately show ?thesis using h by (simp add: holds_def)
qed

lemma holds_send:
  assumes h: "holds rg i off bs st" and fr: "fresh st" and len: "length (payload_bytes p) < 2 ^ 63"
    and s: "shm_send deliver addr p scope st = Some (sent, r, st')"
  shows "holds rg i off bs st'"
proof -
  have inv: "shm_inv rg st" using h by (simp add: holds_def)
  show ?thesis
    using s inv
  proof (cases rule: shm_send_cases)
    case (streamed fb st1)
    have "evolves st st1" using streamed(2) evolves_allocateBlock[OF inv fr] by (auto simp: evolves_same)
    then have "evolves st st'" using streamed(1) by (auto intro: evolves_cong)
    then show ?thesis by (rule holds_evolves [OF h _ shm_send_inv [OF inv fr s]])
  next
    case (in_region j b copy st1)
    define n where "n = length (payload_bytes p)"
    have inv1: "shm_inv rg st1" and ev: "evolves st st1"
      using in_region(3,4) inv fr allocateBlock_inv[of rg st n] evolves_allocateBlock[OF inv fr, of n]
      by (cases copy; auto simp: fresh_def n_def evolves_same)+
    obtain sc where st': "st' = st1\<lparr>sh_blocks := blocks_update j (\<lambda>b. b\<lparr>bk_peerHolds := bk_peerHolds b + 1\<rparr>) (sh_blocks st1),
        sh_scopes := sc, sh_mem := (if copy \<and> payload_bytes p \<noteq> []
           then copy_loop (\<lambda>k. payload_bytes p ! k) (bk_offset b) (length (payload_bytes p)) (sh_mem st1) else sh_mem st1)\<rparr>"
      using in_region(7) by blast
    have h1: "holds rg i off bs st1" by (rule holds_evolves [OF h ev inv1])
    define st2 where "st2 = (if copy then st1\<lparr>sh_mem := copy_loop (\<lambda>k. payload_bytes p ! k) (bk_offset b + 0)
        (length (payload_bytes p)) (sh_mem st1)\<rparr> else st1)"
    have h2: "holds rg i off bs st2"
    proof (cases copy)
      case True
      have a: "allocateBlock n st = (j, st1)" using in_region(3) True by (simp add: n_def)
      obtain o2 where j: "j = sh_nextBlock st" "bk_size b = block_size n"
        using allocateBlock_id[OF inv a in_region(2)] in_region(1) by (metis Block.select_convs(2) option.inject)
      have "i \<noteq> j" using h j(1) by (auto simp: holds_def)
      then have "holds rg i off bs (st1\<lparr>sh_mem := copy_loop (\<lambda>k. payload_bytes p ! k) (bk_offset b + 0)
          (length (payload_bytes p)) (sh_mem st1)\<rparr>)"
        using block_size_enough[OF len] j(2) by (intro holds_write[OF h1 in_region(1)]) (simp_all add: n_def)
      then show ?thesis using True by (simp add: st2_def)
    next
      case False
      then show ?thesis using h1 by (simp add: st2_def)
    qed
    have "evolves st2 (st2\<lparr>sh_blocks := blocks_update j (\<lambda>b. b\<lparr>bk_peerHolds := bk_peerHolds b + 1\<rparr>) (sh_blocks st2)\<rparr>)"
      by (rule evolves_update) simp_all
    then have "evolves st2 st'" by (rule evolves_cong) (auto simp: st' st2_def)
    then show ?thesis by (rule holds_evolves [OF h2 _ shm_send_inv [OF inv fr s]])
  qed
qed

lemma holds_step: "shm_step st st' \<Longrightarrow> holds rg i off bs st \<Longrightarrow> holds rg i off bs st'"
proof (induction rule: shm_step.induct)
  case (send st p deliver addr scope sent r st')
  then show ?case by (blast intro: holds_send)
next
  case (in_place st j c d ds)
  then have "i \<noteq> j" by (auto simp: holds_def)
  then show ?case using holds_write in_place by (simp add: write_block_def)
next
  case (allocate st n)
  then have "shm_inv rg st" by (simp add: holds_def)
  then show ?case using allocate by (blast intro: holds_evolves evolves_allocate shm_allocate_inv)
next
  case (complete st opened accepted)
  have "evolves st (snd (shm_complete opened accepted st))"
    by (rule evolves_same) (auto simp: shm_complete_def split: option.splits sum.splits prod.splits)
  then show ?case using complete shm_step.complete shm_step_inv by (meson holds_def holds_evolves)
next
  case (receive st peerMem ref)
  have "evolves st (snd (shm_receive peerMem ref st))"
    by (rule evolves_same) (auto simp: shm_receive_def Let_def split: option.splits sum.splits prod.splits)
  then show ?case using receive shm_step.receive shm_step_inv by (meson holds_def holds_evolves)
next
  case (frame st junk fr)
  have "evolves st (shm_onPayloadFrame junk fr st)"
    by (auto simp: shm_onPayloadFrame_def evolves_same evolves_drops)
  then show ?case using frame shm_step.frame shm_step_inv by (meson holds_def holds_evolves)
next
  case (endScope st scope)
  have "evolves st (shm_endScope scope st)"
  proof (cases "sh_scopes st scope")
    case (Some ids)
    have "evolves st (fold dropPeerHold ids st)" by (intro evolves_fold evolves_drops)
    then show ?thesis by (rule evolves_cong) (simp_all add: shm_endScope_def Some Let_def)
  qed (simp add: shm_endScope_def evolves_same)
  then show ?case using endScope shm_step.endScope shm_step_inv by (meson holds_def holds_evolves)
next
  case (attach st)
  have "evolves st (shm_attach st)" by (simp add: shm_attach_def evolves_same)
  then show ?case using attach shm_step.attach shm_step_inv by (meson holds_def holds_evolves)
next
  case (dropLocal st j)
  then show ?case using evolves_drops(2) shm_step.dropLocal shm_step_inv by (meson holds_def holds_evolves)
next
  case (closed st)
  then show ?case using evolves_closed shm_step.closed shm_step_inv by (meson holds_def holds_evolves)
next
  case (destroy st)
  have "evolves st (shm_destroy st)" by (simp add: shm_destroy_def evolves_same)
  then show ?case using destroy shm_step.destroy shm_step_inv by (meson holds_def holds_evolves)
qed

section \<open>Everything released\<close>

lemma release_all_blocks:
  assumes "shm_inv rg st" "\<forall>e \<in> set (sh_blocks st). bk_localRefs (snd e) = 0 \<and> bk_peerHolds (snd e) = 0"
  shows "sh_blocks (fold releaseIfUnused ids st) = filter (\<lambda>e. fst e \<notin> set ids) (sh_blocks st)"
  using assms
proof (induction ids arbitrary: st)
  case (Cons i ids)
  have e: "sh_blocks (releaseIfUnused i st) = filter (\<lambda>e. fst e \<noteq> i) (sh_blocks st)"
  proof (cases "map_of (sh_blocks st) i")
    case None
    then have "i \<notin> fst ` set (sh_blocks st)" by (simp add: map_of_eq_None_iff)
    then have "filter (\<lambda>e. fst e \<noteq> i) (sh_blocks st) = sh_blocks st" by (auto intro: filter_True)
    then show ?thesis using None by (simp add: releaseIfUnused_def)
  next
    case (Some b)
    then have "bk_localRefs b = 0 \<and> bk_peerHolds b = 0" using Cons.prems(2) map_of_SomeD[OF Some] by fastforce
    then show ?thesis using Some by (auto simp: releaseIfUnused_def blocks_erase_def Let_def case_prod_unfold split: prod.splits)
  qed
  then show ?case
    using Cons.IH[OF releaseIfUnused_inv[OF Cons.prems(1)], of i] Cons.prems(2) by (simp add: conj_commute)
qed (simp add: filter_True)

lemma blocks_apart:
  assumes inv: "shm_inv rg st" and b: "map_of (sh_blocks st) i = Some b" and c: "map_of (sh_blocks st) j = Some c" and ne: "i \<noteq> j"
  shows "bk_offset b + bk_size b \<le> bk_offset c \<or> bk_offset c + bk_size c \<le> bk_offset b"
  using blocks_disjoint[OF inv b c ne, of "bk_offset b"] blocks_disjoint[OF inv b c ne, of "bk_offset c"]
    block_inside(2)[OF inv b] block_inside(2)[OF inv c] by linarith

lemma block_placed:
  assumes inv: "shm_inv rg st" and b: "map_of (sh_blocks st) i = Some b"
  shows "kAlignment dvd bk_offset b \<and> bk_offset b + bk_size b \<le> rg_size rg"
  using block_inside(1)[OF inv b] shm_inv_parts(5)[OF inv map_of_SomeD[OF b]] by (simp add: block_ok_def capacity_def)

lemma shm_ref_fields:
  "getU64 1 (k # little a 8 @ little b 8 @ little c 8) = a"
  "getU64 9 (k # little a 8 @ little b 8 @ little c 8) = b"
  "getU64 17 (k # little a 8 @ little b 8 @ little c 8) = c"
  "length (k # little a 8 @ little b 8 @ little c 8) = 25"
  by (simp_all add: getU64_def)

text \<open>What a copying send leaves behind.\<close>

lemma copying_send:
  assumes inv: "shm_inv rg st" and fr: "fresh st" and len: "length (payload_bytes p) < 2 ^ 63"
    and s: "shm_send deliver addr p scope st = Some (sent, Inr ref, st')"
    and addr: "sh_byAddress st addr = None" and ref: "hd ref = kInRegion"
  obtains i off where "ref = kInRegion # little i 8 @ little (word_of_nat off) 8 @ little (word_of_nat (length (payload_bytes p))) 8"
    "holds rg i off (payload_bytes p) st'" "off + length (payload_bytes p) \<le> rg_size rg"
  using s inv
proof (cases rule: shm_send_cases)
  case (streamed fb st1)
  then show ?thesis using ref by (auto simp: kStreamed_def kInRegion_def)
next
  case (in_region i b copy st1)
  define n where "n = length (payload_bytes p)"
  have c: copy using in_region(4) addr by auto
  then have a: "allocateBlock n st = (i, st1)" using in_region(3) by (simp add: n_def)
  have inv1: "shm_inv rg st1" using allocateBlock_inv[of rg st n] inv fr a by (simp add: fresh_def)
  obtain o2 where i: "i = sh_nextBlock st" and b: "b = \<lparr>bk_offset = o2, bk_size = block_size n,
     bk_data = rg_base rg + o2, bk_localRefs = 0, bk_peerHolds = 0\<rparr>"
    using allocateBlock_id[OF inv a in_region(2)] in_region(1) by (metis option.inject)
  have fits: "bk_offset b + n \<le> length (sh_mem st1)"
    using in_memory[OF inv1 in_region(1)] block_size_enough[OF len] b by (simp add: n_def)
  have lt: "i < sh_nextBlock st1"
    using shm_inv_parts(5)[OF inv1 map_of_SomeD[OF in_region(1)]] by (simp add: block_ok_def)
  have "holds rg i o2 (payload_bytes p) st'"
    unfolding holds_def
  proof (intro conjI allI impI)
    show "shm_inv rg st'" by (rule shm_send_inv [OF inv fr s])
    show "i < sh_nextBlock st'" using in_region(7) lt by auto
    fix b'
    assume "map_of (sh_blocks st') i = Some b'"
    then have "b' = b\<lparr>bk_peerHolds := bk_peerHolds b + 1\<rparr>" using in_region(1,7) by (auto simp: update_facts)
    then show "bk_offset b' = o2" "length (payload_bytes p) \<le> bk_size b'" "bk_localRefs b' = 0"
      using block_size_enough[OF len] b by (simp_all add: n_def)
    show "take (length (payload_bytes p)) (drop o2 (sh_mem st')) = payload_bytes p"
      using copy_here[of o2 "payload_bytes p" "sh_mem st1"] in_region(7) fits b c by (auto simp: n_def)
  qed
  moreover have "length (sh_mem st1) = rg_size rg" using inv1 by (simp add: shm_inv_def)
  ultimately show ?thesis using that[of i o2] in_region(6) fits b by (simp add: n_def)
qed

section \<open>Properties\<close>

definition example_region :: Region where
  "example_region = \<lparr>rg_base = 4096, rg_size = 256, rg_name = ''r''\<rparr>"

definition example_shm :: Shm where
  "example_shm = snd (shm_offer (Some example_region) (replicate 256 0) (Shm_new 256 16))"

lemma example_shm_reach: "reach (shm_init example_region) shm_step example_shm"
  unfolding example_shm_def by (intro reach.intros shm_init.offered) (simp_all add: example_region_def)

text \<open>
  C26. The region's allocator. In every state one side of a connection can reach, whatever sends, receives,
  releases, in-place allocations and writes happened in whatever order, each allocated block is a
  64-byte-aligned piece of the region, no two blocks share a byte, and \<^verbatim>\<open>bytesInUse()\<close> is the sum of their
  sizes.
\<close>

theorem blocks_never_overlap:
  assumes "reach (shm_init rg) shm_step st"
  shows "(\<forall>i b. map_of (sh_blocks st) i = Some b \<longrightarrow> kAlignment dvd bk_offset b \<and> bk_offset b + bk_size b \<le> rg_size rg)
    \<and> (\<forall>i b j c. map_of (sh_blocks st) i = Some b \<and> map_of (sh_blocks st) j = Some c \<and> i \<noteq> j
         \<longrightarrow> bk_offset b + bk_size b \<le> bk_offset c \<or> bk_offset c + bk_size c \<le> bk_offset b)
    \<and> bytesInUse st = (\<Sum>(i, b)\<leftarrow>sh_blocks st. bk_size b)"
proof -
  have inv: "shm_inv rg st" by (rule shm.reach_inv [OF assms])
  have "\<forall>i b j c. map_of (sh_blocks st) i = Some b \<and> map_of (sh_blocks st) j = Some c \<and> i \<noteq> j
      \<longrightarrow> bk_offset b + bk_size b \<le> bk_offset c \<or> bk_offset c + bk_size c \<le> bk_offset b"
    using blocks_apart[OF inv] by blast
  then show ?thesis
    using block_placed[OF inv] shm_inv_parts(6)[OF inv] by (simp add: bytesInUse_def total_used_def)
qed

definition example_block :: "nat \<Rightarrow> nat \<Rightarrow> Block" where
  "example_block off sz = \<lparr>bk_offset = off, bk_size = sz, bk_data = 4096 + off, bk_localRefs = 1, bk_peerHolds = 0\<rparr>"

lemmas example_shm_defs = example_shm_def example_region_def shm_offer_def Shm_new_def initFree_def kAlignment_def
  Stream_new_def

lemma example_allocations:
  "shm_allocate 10 example_shm = (Some (1, 4096, 10), example_shm\<lparr>sh_free := [(64, 192)], sh_inUse := 64, sh_nextBlock := 2,
     sh_blocks := [(1, example_block 0 64)], sh_byAddress := [4096 \<mapsto> 1]\<rparr>)"
  "shm_allocate 100 (snd (shm_allocate 10 example_shm)) = (Some (2, 4160, 100), example_shm\<lparr>sh_free := [(192, 64)],
     sh_inUse := 192, sh_nextBlock := 3, sh_blocks := [(1, example_block 0 64), (2, example_block 64 128)],
     sh_byAddress := [4096 \<mapsto> 1, 4160 \<mapsto> 2]\<rparr>)"
  by (simp_all add: example_shm_defs shm_allocate_def allocateBlock_def block_size_def blocks_update_def map_erase_def
      example_block_def Let_def)

theorem blocks_never_overlap_witness:
  "reach (shm_init example_region) shm_step (snd (shm_allocate 100 (snd (shm_allocate 10 example_shm))))
   \<and> bytesInUse (snd (shm_allocate 100 (snd (shm_allocate 10 example_shm)))) = 192
   \<and> bk_offset (example_block 0 64) + bk_size (example_block 0 64) \<le> bk_offset (example_block 64 128)"
proof -
  let ?st = "snd (shm_allocate 100 (snd (shm_allocate 10 example_shm)))"
  have "fresh example_shm" "fresh (snd (shm_allocate 10 example_shm))"
    unfolding example_allocations(1) by (simp_all add: fresh_def example_shm_defs)
  then have r: "reach (shm_init example_region) shm_step ?st"
    by (blast intro: reach.intros example_shm_reach shm_step.allocate)
  have bl: "map_of (sh_blocks ?st) 1 = Some (example_block 0 64)" "map_of (sh_blocks ?st) 2 = Some (example_block 64 128)"
    unfolding example_allocations(2) by simp_all
  have "\<forall>i b j c. map_of (sh_blocks ?st) i = Some b \<and> map_of (sh_blocks ?st) j = Some c \<and> i \<noteq> j
      \<longrightarrow> bk_offset b + bk_size b \<le> bk_offset c \<or> bk_offset c + bk_size c \<le> bk_offset b"
    and u: "bytesInUse ?st = (\<Sum>(i, b)\<leftarrow>sh_blocks ?st. bk_size b)"
    using blocks_never_overlap[OF r] by blast+
  then have "bk_offset (example_block 0 64) + bk_size (example_block 0 64) \<le> bk_offset (example_block 64 128)
      \<or> bk_offset (example_block 64 128) + bk_size (example_block 64 128) \<le> bk_offset (example_block 0 64)"
    using bl by (elim allE [of _ 1] allE [of _ "example_block 0 64"] allE [of _ 2] allE [of _ "example_block 64 128"]) simp
  then show ?thesis using r u by (simp add: example_allocations(2)) (simp add: example_block_def)
qed

definition example_sent :: Shm where
  "example_sent = example_shm\<lparr>sh_free := [(64, 192)], sh_inUse := 64, sh_nextBlock := 2,
     sh_blocks := [(1, \<lparr>bk_offset = 0, bk_size = 64, bk_data = 4096, bk_localRefs = 0, bk_peerHolds = 1\<rparr>)],
     sh_scopes := [5 \<mapsto> [1]], sh_mem := copy_loop (\<lambda>k. [7, 8, 9] ! k) 0 3 (replicate 256 0)\<rparr>"

lemma example_send:
  "shm_send (\<lambda>_. False) 17 (inlineBytes [7, 8, 9]) 5 example_shm
   = Some ([], Inr (kInRegion # little 1 8 @ little 0 8 @ little 3 8), example_sent)"
  by (simp add: example_sent_def example_shm_defs shm_send_def allocateBlock_def block_size_def blocks_update_def
      map_erase_def payload_bytes_def inlineBytes_def Let_def numeral_3_eq_3)

lemma example_sent_step: "shm_step example_shm example_sent"
  by (rule shm_step.send [OF _ _ example_send])
     (simp_all add: fresh_def example_shm_defs payload_bytes_def inlineBytes_def)




text \<open>
  C28. Payloads in the region. The bytes of a payload that was copied into the region are what the peer's
  \<^verbatim>\<open>receive\<close> of its reference returns, as long as its block has not been released: no other send,
  allocation, in-place write or release, in any order, changes them.
\<close>

theorem sent_payload_stays_readable:
  assumes "reach (shm_init rg) shm_step st" "fresh st" "length (payload_bytes p) < 2 ^ 63" "sh_byAddress st addr = None"
    and "shm_send deliver addr p scope st = Some (sent, Inr ref, st1)" "hd ref = kInRegion"
    and "shm_step\<^sup>*\<^sup>* st1 st2" "map_of (sh_blocks st2) (getU64 1 ref) \<noteq> None"
    and "sh_peer peer = Some prg" "rg_size prg = rg_size rg"
  shows "\<exists>q lease. fst (shm_receive (sh_mem st2) ref peer) = Inr (q, lease) \<and> payload_bytes q = payload_bytes p"
proof -
  have inv: "shm_inv rg st" by (rule shm.reach_inv [OF assms(1)])
  obtain i off where ref: "ref = kInRegion # little i 8 @ little (word_of_nat off) 8 @ little (word_of_nat (length (payload_bytes p))) 8"
    and h: "holds rg i off (payload_bytes p) st1" and fit: "off + length (payload_bytes p) \<le> rg_size rg"
    using copying_send[OF inv assms(2,3,5,4,6)] by blast
  have lt: "off < 2 ^ 64" "length (payload_bytes p) < 2 ^ 64"
    using fit inv by (auto simp: shm_inv_def)
  have h2: "holds rg i off (payload_bytes p) st2"
    using assms(7) h by (induction rule: rtranclp_induct) (auto intro: holds_step)
  have id: "getU64 1 ref = i" "getU64 9 ref = word_of_nat off" "getU64 17 ref = word_of_nat (length (payload_bytes p))" "length ref = 25"
    unfolding ref by (simp_all only: shm_ref_fields)
  obtain b where b: "map_of (sh_blocks st2) i = Some b" using assms(8) id by auto
  then have m: "take (length (payload_bytes p)) (drop off (sh_mem st2)) = payload_bytes p" using h2 by (simp add: holds_def)
  have u: "unat (getU64 9 ref) = off" "unat (getU64 17 ref) = length (payload_bytes p)"
    using lt by (simp_all add: id unat_of_nat)
  define bs where "bs = payload_bytes p"
  have "ref \<noteq> []" "ref ! 0 = kInRegion" by (simp_all add: ref)
  then have "fst (shm_receive (sh_mem st2) ref peer) = Inr (Payload_view bs (Some (unat i)), Some (i, sh_role peer = kCoordinator))"
    using assms(9,10) fit m u id unfolding bs_def[symmetric]
    by (simp add: shm_receive_def kInRegion_def kStreamed_def Let_def)
  then show ?thesis by (simp add: bs_def payload_bytes_def Payload_view_def)
qed

theorem sent_payload_stays_readable_witness:
  "map_of (sh_blocks (snd (shm_allocate 10 example_sent))) 1 \<noteq> None
   \<and> (\<exists>q lease. fst (shm_receive (sh_mem (snd (shm_allocate 10 example_sent))) (kInRegion # little 1 8 @ little 0 8 @ little 3 8)
        ((Shm_new 64 16)\<lparr>sh_peer := Some example_region\<rparr>)) = Inr (q, lease) \<and> payload_bytes q = [7, 8, 9])"
proof -
  have f: "fresh example_shm" "fresh example_sent" by (simp_all add: fresh_def example_sent_def example_shm_defs)
  have later: "shm_step\<^sup>*\<^sup>* example_sent (snd (shm_allocate 10 example_sent))"
    by (blast intro: shm_step.allocate f)
  have kept: "map_of (sh_blocks (snd (shm_allocate 10 example_sent))) 1 \<noteq> None"
    by (simp add: example_sent_def example_shm_defs shm_allocate_def allocateBlock_def block_size_def blocks_update_def
        map_erase_def Let_def)
  have i: "getU64 1 (kInRegion # little 1 8 @ little 0 8 @ little 3 8) = 1" by (simp only: shm_ref_fields)
  have b: "payload_bytes (inlineBytes [7, 8, 9]) = [7, 8, 9]" by (simp add: payload_bytes_def inlineBytes_def)
  show ?thesis
    using sent_payload_stays_readable[OF example_shm_reach f(1) _ _ example_send _ later, where prg = example_region
        and peer = "(Shm_new 64 16)\<lparr>sh_peer := Some example_region\<rparr>"] kept
    unfolding i b by (simp add: example_shm_defs)
qed

text \<open>
  The size of a block wraps: a request within 63 bytes of \<open>2\<^sup>6\<^sup>4\<close> gets the smallest block.
\<close>

lemma block_size_wraps: "block_size (2 ^ 64 - 1) = 64"
  by (simp add: block_size_def kAlignment_def)

end
