(* ===== verification/Strategy.thy ===== *)
theory Strategy
  imports RegionPayloads
begin

text \<open>
  The interface of the payload strategies (\<^verbatim>\<open>include/sub0pipeline/remote/strategy.hpp\<close>) as the table of its virtual
  functions, the \<^verbatim>\<open>store\<close> strategy (\<^verbatim>\<open>src/remote/store_strategy.cpp\<close>), and the tables of the three strategies of
  the library. The channel and the worker host call a strategy only through such a table.
\<close>

section \<open>The interface\<close>

text \<open>
  \<open>ps_send\<close> takes the transport, which says whether it sent a payload frame, and gives the frames sent, the reference and
  the new state; \<open>None\<close> if it did not return. \<open>ps_allocate\<close> gives the address of the writable bytes.
\<close>

record 's StrategyOps =
  ps_name :: "'s \<Rightarrow> string"
  ps_offer :: "'s \<Rightarrow> bytes \<times> 's"
  ps_accept :: "bytes \<Rightarrow> 's \<Rightarrow> bytes expected \<times> 's"
  ps_complete :: "bytes \<Rightarrow> 's \<Rightarrow> unit expected \<times> 's"
  ps_attach :: "'s \<Rightarrow> 's"
  ps_send :: "(bytes list \<Rightarrow> bool) \<Rightarrow> Payload \<Rightarrow> u64 \<Rightarrow> 's \<Rightarrow> (bytes list list \<times> bytes expected \<times> 's) option"
  ps_receive :: "bytes \<Rightarrow> 's \<Rightarrow> Payload expected \<times> 's"
  ps_onPayloadFrame :: "bytes \<times> nat option \<Rightarrow> 's \<Rightarrow> 's"
  ps_endScope :: "u64 \<Rightarrow> 's \<Rightarrow> 's"
  ps_allocate :: "nat \<Rightarrow> 's \<Rightarrow> nat option \<times> 's"
  ps_onClosed :: "'s \<Rightarrow> 's"

text \<open>The defaults of \<^verbatim>\<open>endScope\<close> and \<^verbatim>\<open>allocate\<close>.\<close>

definition default_endScope :: "u64 \<Rightarrow> 's \<Rightarrow> 's" where "default_endScope scope st = st"
definition default_allocate :: "nat \<Rightarrow> 's \<Rightarrow> nat option \<times> 's" where "default_allocate n st = (None, st)"
definition default_onClosed :: "'s \<Rightarrow> 's" where "default_onClosed st = st"

section \<open>The store strategy\<close>

text \<open>The consumer's \<^verbatim>\<open>IPayloadStore\<close>: its \<^verbatim>\<open>get\<close> and \<^verbatim>\<open>put\<close> on the state it keeps, which both sides share.\<close>

record 'd PayloadStore =
  store_get :: "bytes \<Rightarrow> 'd \<Rightarrow> bytes expected"
  store_put :: "bytes \<Rightarrow> 'd \<Rightarrow> bytes expected \<times> 'd"

definition store_send :: "'d PayloadStore \<Rightarrow> Payload \<Rightarrow> 'd \<Rightarrow> bytes expected \<times> 'd" where
  "store_send S payload d =
     (case store_put S (payload_bytes payload) d of
        (Inr handle, d') \<Rightarrow> (if length handle > kMaxHandleBytes then Inl kJobFailed else Inr handle, d')
      | (Inl e, d') \<Rightarrow> (Inl e, d'))"

definition store_receive :: "'d PayloadStore \<Rightarrow> bytes \<Rightarrow> 'd \<Rightarrow> Payload expected" where
  "store_receive S ref d = (case store_get S ref d of Inl e \<Rightarrow> Inl e | Inr bs \<Rightarrow> Inr (inlineBytes bs))"

definition store_ops :: "'d PayloadStore \<Rightarrow> 'd StrategyOps" where
  "store_ops S =
     \<lparr>ps_name = (\<lambda>_. ''store''), ps_offer = (\<lambda>d. ([], d)), ps_accept = (\<lambda>_ d. (Inr [], d)),
      ps_complete = (\<lambda>_ d. (Inr (), d)), ps_attach = (\<lambda>d. d),
      ps_send = (\<lambda>_ p _ d. case store_send S p d of (r, d') \<Rightarrow> Some ([], r, d')),
      ps_receive = (\<lambda>ref d. (store_receive S ref d, d)), ps_onPayloadFrame = (\<lambda>_ d. d),
      ps_endScope = default_endScope, ps_allocate = default_allocate, ps_onClosed = default_onClosed\<rparr>"

section \<open>The other two\<close>

definition stream_ops :: "(nat \<Rightarrow> u8) \<Rightarrow> Stream StrategyOps" where
  "stream_ops junk =
     \<lparr>ps_name = (\<lambda>_. ''stream''), ps_offer = (\<lambda>st. (stream_offer st, st)), ps_accept = stream_accept,
      ps_complete = stream_complete, ps_attach = stream_attach, ps_send = (\<lambda>deliver p _. stream_send deliver p),
      ps_receive = stream_receive, ps_onPayloadFrame = stream_onPayloadFrame junk,
      ps_endScope = default_endScope, ps_allocate = default_allocate, ps_onClosed = stream_onClosed\<rparr>"

text \<open>
  What the operating system and the process give the shared-memory strategy: \<^verbatim>\<open>SharedRegion::create\<close> with the contents of the
  new region, \<^verbatim>\<open>SharedRegion::open\<close>, the address of a payload's bytes and the contents of the peer's region.
\<close>

record ShmEnv =
  se_create :: "nat \<Rightarrow> Region option \<times> bytes"
  se_open :: "string \<Rightarrow> nat \<Rightarrow> Region option"
  se_address :: "Payload \<Rightarrow> nat"
  se_peerMem :: bytes
  se_junk :: "nat \<Rightarrow> u8"

definition opened_by :: "ShmEnv \<Rightarrow> bytes \<Rightarrow> Region option" where
  "opened_by E bs = (case decodeSetup bs of None \<Rightarrow> None | Some setup \<Rightarrow> se_open E (su_name setup) (su_size setup))"

definition shm_ops :: "ShmEnv \<Rightarrow> Shm StrategyOps" where
  "shm_ops E =
     \<lparr>ps_name = (\<lambda>_. ''shm''),
      ps_offer = (\<lambda>st. case se_create E (sh_regionBytes st) of (rg, m) \<Rightarrow> shm_offer rg m st),
      ps_accept = (\<lambda>bs st. case se_create E (sh_regionBytes st) of (rg, m) \<Rightarrow> shm_accept (opened_by E bs) rg m bs st),
      ps_complete = (\<lambda>bs. shm_complete (opened_by E bs) bs), ps_attach = shm_attach,
      ps_send = (\<lambda>deliver p. shm_send deliver (se_address E p) p),
      ps_receive = (\<lambda>ref st. map_prod (map_sum id fst) id (shm_receive (se_peerMem E) ref st)),
      ps_onPayloadFrame = shm_onPayloadFrame (se_junk E), ps_endScope = shm_endScope,
      ps_allocate = (\<lambda>n st. map_prod (map_option (\<lambda>(i, a, k). a)) id (shm_allocate n st)),
      ps_onClosed = shm_onClosed\<rparr>"

text \<open>A connection whose strategies are those of the library.\<close>

datatype 'd LibraryStrategy = AnyStream Stream | AnyShm Shm | AnyStore 'd

definition lift_ops :: "('a \<Rightarrow> 'd LibraryStrategy) \<Rightarrow> 'a StrategyOps \<Rightarrow> 'a \<Rightarrow> 'd LibraryStrategy StrategyOps" where
  "lift_ops C I s =
     \<lparr>ps_name = (\<lambda>_. ps_name I s), ps_offer = (\<lambda>_. map_prod id C (ps_offer I s)),
      ps_accept = (\<lambda>bs _. map_prod id C (ps_accept I bs s)), ps_complete = (\<lambda>bs _. map_prod id C (ps_complete I bs s)),
      ps_attach = (\<lambda>_. C (ps_attach I s)),
      ps_send = (\<lambda>deliver p scope _. map_option (map_prod id (map_prod id C)) (ps_send I deliver p scope s)),
      ps_receive = (\<lambda>ref _. map_prod id C (ps_receive I ref s)),
      ps_onPayloadFrame = (\<lambda>fr _. C (ps_onPayloadFrame I fr s)), ps_endScope = (\<lambda>scope _. C (ps_endScope I scope s)),
      ps_allocate = (\<lambda>n _. map_prod id C (ps_allocate I n s)), ps_onClosed = (\<lambda>_. C (ps_onClosed I s))\<rparr>"

definition vtable :: "(nat \<Rightarrow> u8) \<Rightarrow> ShmEnv \<Rightarrow> 'd PayloadStore \<Rightarrow> 'd LibraryStrategy \<Rightarrow> 'd LibraryStrategy StrategyOps" where
  "vtable junk E S x =
     (case x of AnyStream s \<Rightarrow> lift_ops AnyStream (stream_ops junk) s
      | AnyShm s \<Rightarrow> lift_ops AnyShm (shm_ops E) s
      | AnyStore s \<Rightarrow> lift_ops AnyStore (store_ops S) s)"

definition library_ops :: "(nat \<Rightarrow> u8) \<Rightarrow> ShmEnv \<Rightarrow> 'd PayloadStore \<Rightarrow> 'd LibraryStrategy StrategyOps" where
  "library_ops junk E S =
     \<lparr>ps_name = (\<lambda>x. ps_name (vtable junk E S x) x), ps_offer = (\<lambda>x. ps_offer (vtable junk E S x) x),
      ps_accept = (\<lambda>bs x. ps_accept (vtable junk E S x) bs x), ps_complete = (\<lambda>bs x. ps_complete (vtable junk E S x) bs x),
      ps_attach = (\<lambda>x. ps_attach (vtable junk E S x) x),
      ps_send = (\<lambda>deliver p scope x. ps_send (vtable junk E S x) deliver p scope x),
      ps_receive = (\<lambda>ref x. ps_receive (vtable junk E S x) ref x),
      ps_onPayloadFrame = (\<lambda>fr x. ps_onPayloadFrame (vtable junk E S x) fr x),
      ps_endScope = (\<lambda>scope x. ps_endScope (vtable junk E S x) scope x),
      ps_allocate = (\<lambda>n x. ps_allocate (vtable junk E S x) n x), ps_onClosed = (\<lambda>x. ps_onClosed (vtable junk E S x) x)\<rparr>"

section \<open>What a strategy promises\<close>

text \<open>
  \<open>carries n a b xs\<close>: \<open>a\<close> can send \<open>n\<close> more payloads, and its peer \<open>b\<close> holds the bytes \<open>bs\<close> under the reference \<open>ref\<close> for each
  \<open>(ref, bs)\<close> of \<open>xs\<close>. A payload sent on a working transport is held by the peer once it has processed the frames of the send,
  and receiving its reference gives it back.
\<close>

locale payload_carrier =
  fixes I :: "'s StrategyOps" and carries :: "nat \<Rightarrow> 's \<Rightarrow> 's \<Rightarrow> (bytes \<times> bytes) list \<Rightarrow> bool" and small :: "Payload \<Rightarrow> bool"
  assumes send_carries: "carries (Suc n) a b xs \<Longrightarrow> small p \<Longrightarrow>
      \<exists>sent ref a'. ps_send I (\<lambda>_. True) p scope a = Some (sent, Inr ref, a')
        \<and> (\<forall>frs. map fst frs = map concat sent \<longrightarrow> carries n a' (fold (ps_onPayloadFrame I) frs b) (xs @ [(ref, payload_bytes p)]))"
    and receive_carries: "carries n a b ((ref, bs) # xs) \<Longrightarrow>
      \<exists>q b'. ps_receive I ref b = (Inr q, b') \<and> pl_kind q = kInline \<and> payload_bytes q = bs \<and> carries n a b' xs"

text \<open>The stream strategy keeps the promise.\<close>

definition stream_carries :: "nat \<Rightarrow> Stream \<Rightarrow> Stream \<Rightarrow> (bytes \<times> bytes) list \<Rightarrow> bool" where
  "stream_carries n a b xs \<longleftrightarrow> st_attached a \<and> 0 < st_chunkBytes a \<and> unat (st_nextStream a) + n < 2 ^ 64
     \<and> (\<forall>s \<ge> st_nextStream a. st_partial b s = None) \<and> distinct (map fst xs)
     \<and> (\<forall>(ref, bs) \<in> set xs. \<exists>s q. ref = little s 8 \<and> s < st_nextStream a \<and> st_complete b s = Some q
          \<and> pl_kind q = kInline \<and> payload_bytes q = bs)"

lemma little_inj: "little a 8 = little b 8 \<longleftrightarrow> a = b" for a b :: u64
  by (metis little_u64)

lemma stream_send_carries:
  assumes c: "stream_carries (Suc n) a b xs" and len: "length (payload_bytes p) < 2 ^ 64"
  shows "\<exists>sent ref a'. stream_send (\<lambda>_. True) p a = Some (sent, Inr ref, a')
        \<and> (\<forall>frs. map fst frs = map concat sent \<longrightarrow>
              stream_carries n a' (fold (stream_onPayloadFrame junk) frs b) (xs @ [(ref, payload_bytes p)]))"
proof -
  let ?s = "st_nextStream a"
  have at: "st_attached a" "0 < st_chunkBytes a" and nx: "unat ?s + Suc n < 2 ^ 64"
    and none: "\<forall>s \<ge> ?s. st_partial b s = None" using c by (auto simp: stream_carries_def)
  have c0: "0 < unat (st_chunkBytes a)" using at(2) by (simp add: word_less_nat_alt)
  obtain sent where sent: "send_loop (\<lambda>parts. st_attached a \<and> True) (st_chunkBytes a) (payload_bytes p) ?s 0 [] = Some (sent, True)"
    and bodies: "map concat sent = chunk_bodies (unat (st_chunkBytes a)) (payload_bytes p) ?s 0"
    using send_loop_chunks [OF c0, of "\<lambda>parts. st_attached a \<and> True" "payload_bytes p" ?s 0 "[]"] at(1) by auto
  have snd: "stream_send (\<lambda>_. True) p a = Some (sent, Inr (little ?s 8), a\<lparr>st_nextStream := ?s + 1\<rparr>)"
    using sent by (simp add: stream_send_def Let_def)
  have un: "unat (?s + 1) = Suc (unat ?s)" using nx by (simp add: unat_word_ariths)
  have lt: "?s < ?s + 1" by (simp add: word_less_nat_alt un)
  have "stream_carries n (a\<lparr>st_nextStream := ?s + 1\<rparr>) (fold (stream_onPayloadFrame junk) frs b) (xs @ [(little ?s 8, payload_bytes p)])"
    if frs: "map fst frs = map concat sent" for frs
  proof -
    let ?b = "fold (stream_onPayloadFrame junk) frs b"
    have fr: "map fst frs = chunk_bodies (unat (st_chunkBytes a)) (payload_bytes p) ?s 0" using frs bodies by simp
    have all: "\<forall>f \<in> set frs. for_stream ?s f" using map_fst_filter_for_stream[OF fr len] c0 by simp
    have other: "stream_view s ?b = stream_view s b" if "s \<noteq> ?s" for s
    proof -
      have "filter (for_stream s) frs = []" using all that by (auto simp: filter_empty_conv for_stream_def split: prod.splits)
      then show ?thesis using frames_view[of s b b junk frs] by simp
    qed
    obtain q where q: "st_complete ?b ?s = Some q" "pl_kind q = kInline" "payload_bytes q = payload_bytes p"
      using chunks_complete[OF len c0 fr, of b junk] none by auto
    have "st_partial ?b s = None" if "?s + 1 \<le> s" for s
    proof -
      have "?s < s" using lt that by simp
      then show ?thesis using other[of s] none by (auto simp: stream_view_def)
    qed
    moreover have old: "\<exists>s q. ref = little s 8 \<and> s < ?s + 1 \<and> st_complete ?b s = Some q \<and> pl_kind q = kInline \<and> payload_bytes q = bs"
      if m: "(ref, bs) \<in> set xs" for ref bs
    proof -
      obtain s q where s: "ref = little s 8" "s < ?s" "st_complete b s = Some q" "pl_kind q = kInline" "payload_bytes q = bs"
        using c m by (auto simp: stream_carries_def)
      then have "st_complete ?b s = Some q" using other[of s] by (auto simp: stream_view_def)
      moreover have "s < ?s + 1" using s(2) lt by (rule less_trans)
      ultimately show ?thesis using s by blast
    qed
    moreover have "little ?s 8 \<notin> set (map fst xs)"
    proof
      assume "little ?s 8 \<in> set (map fst xs)"
      then obtain bs where "(little ?s 8, bs) \<in> set xs" by auto
      then obtain s where "little ?s 8 = little s 8" "s < ?s" using c by (auto simp: stream_carries_def)
      then show False by (simp add: little_inj)
    qed
    moreover have "\<forall>(ref, bs) \<in> set (xs @ [(little ?s 8, payload_bytes p)]). \<exists>s q. ref = little s 8 \<and> s < ?s + 1
        \<and> st_complete ?b s = Some q \<and> pl_kind q = kInline \<and> payload_bytes q = bs"
    proof clarify
      fix ref bs
      assume "(ref, bs) \<in> set (xs @ [(little ?s 8, payload_bytes p)])"
      then consider "(ref, bs) \<in> set xs" | "ref = little ?s 8" "bs = payload_bytes p" by auto
      then show "\<exists>s q. ref = little s 8 \<and> s < ?s + 1 \<and> st_complete ?b s = Some q \<and> pl_kind q = kInline \<and> payload_bytes q = bs"
        using old q lt by cases blast+
    qed
    moreover have "distinct (map fst xs)" using c by (simp add: stream_carries_def)
    moreover have "unat (?s + 1) + n < 2 ^ 64" using nx un by simp
    ultimately show ?thesis using at unfolding stream_carries_def by simp
  qed
  then show ?thesis using snd by blast
qed

lemma stream_receive_carries:
  assumes c: "stream_carries n a b ((ref, bs) # xs)"
  shows "\<exists>q b'. stream_receive ref b = (Inr q, b') \<and> pl_kind q = kInline \<and> payload_bytes q = bs \<and> stream_carries n a b' xs"
proof -
  obtain s q where s: "ref = little s 8" "s < st_nextStream a" "st_complete b s = Some q" "pl_kind q = kInline" "payload_bytes q = bs"
    using c by (auto simp: stream_carries_def)
  let ?b = "b\<lparr>st_complete := (st_complete b)(s := None)\<rparr>"
  have r: "stream_receive ref b = (Inr q, ?b)" using s by (simp add: stream_receive_def getU64_def)
  have "\<exists>s' q. r = little s' 8 \<and> s' < st_nextStream a \<and> st_complete ?b s' = Some q \<and> pl_kind q = kInline \<and> payload_bytes q = bs'"
    if m: "(r, bs') \<in> set xs" for r bs'
  proof -
    obtain s' q' where s': "r = little s' 8" "s' < st_nextStream a" "st_complete b s' = Some q'" "pl_kind q' = kInline" "payload_bytes q' = bs'"
      using c m by (auto simp: stream_carries_def)
    have "r \<noteq> ref" using c m by (force simp: stream_carries_def)
    then have "s' \<noteq> s" using s(1) s'(1) by auto
    then show ?thesis using s' by auto
  qed
  then have "\<forall>(r, bs') \<in> set xs. \<exists>s' q. r = little s' 8 \<and> s' < st_nextStream a \<and> st_complete ?b s' = Some q
      \<and> pl_kind q = kInline \<and> payload_bytes q = bs'" by blast
  moreover have "st_partial ?b = st_partial b" by simp
  ultimately have "stream_carries n a ?b xs" using c unfolding stream_carries_def by auto
  then show ?thesis using r s by blast
qed

interpretation stream_carrier: payload_carrier "stream_ops junk" stream_carries "\<lambda>p. length (payload_bytes p) < 2 ^ 64" for junk
  by unfold_locales (auto simp: stream_ops_def intro: stream_send_carries stream_receive_carries)

end
