(* ===== verification/Channel.thy ===== *)
theory Channel
  imports Strategy
begin

text \<open>
  The coordinator's end of a connection: \<^verbatim>\<open>RemoteChannel\<close> (\<^verbatim>\<open>include/sub0pipeline/remote/channel.hpp\<close>,
  \<^verbatim>\<open>src/remote/channel.cpp\<close>). The members run on any number of threads. Each definition below is one section that runs
  without letting go of \<^verbatim>\<open>mtx_\<close>, or one call of a strategy, a completion or the transport; what the thread does next is
  the \<open>call\<close> it gives, and the step relation at the end interleaves the calls in every order.
\<close>

section \<open>State\<close>

datatype ConnectError = kVersionMismatch | kFingerprintMismatch | kTransportClosed | kConnectTimeout | kConnectProtocol

datatype ChannelState = kIdle | kHandshaking | kConnected | kStateClosed

text \<open>\<open>op_strategies\<close> are the results of calling the factories, \<open>None\<close> for an empty factory or a null result.\<close>

record 's ChannelOptions =
  op_expectedFingerprint :: u64
  op_maxInFlight :: u32
  op_queueCapacity :: u32
  op_maxInlineBytes :: u32
  op_strategies :: "'s option list"

text \<open>
  A \<^verbatim>\<open>Completion\<close> goes by the number of its job, a \<^verbatim>\<open>ReplyHandler\<close> is present or not. \<open>pe_cancel\<close> says whether the
  stop callback that forwards a cancel is registered.
\<close>

record Pending =
  pe_request :: SubGraphRequest
  pe_done :: nat
  pe_onReply :: bool
  pe_cancel :: bool

record Queued =
  qu_request :: SubGraphRequest
  qu_done :: nat
  qu_onReply :: bool

text \<open>\<open>ch_pending\<close> is the \<^verbatim>\<open>unordered_map\<close> as the list of its entries, in the order in which \<^verbatim>\<open>onClosed\<close> visits it.\<close>

record 's Channel =
  ch_options :: "'s ChannelOptions"
  ch_state :: ChannelState
  ch_started :: bool
  ch_closed :: bool
  ch_rejected :: "ConnectError option"
  ch_peer :: Hello
  ch_inFlightLimit :: u32
  ch_inlineLimit :: u32
  ch_nextId :: u64
  ch_pending :: "(u64 \<times> Pending) list"
  ch_candidates :: "'s list"
  ch_strategy :: "'s option"
  ch_sender :: bool
  ch_queued :: "Queued list"

definition Channel_new :: "'s ChannelOptions \<Rightarrow> 's Channel" where
  "Channel_new opts =
     \<lparr>ch_options = opts, ch_state = kIdle, ch_started = False, ch_closed = False, ch_rejected = None, ch_peer = Hello_new,
      ch_inFlightLimit = 0, ch_inlineLimit = 0, ch_nextId = 1, ch_pending = [], ch_candidates = [], ch_strategy = None,
      ch_sender = False, ch_queued = []\<rparr>"

text \<open>What the channel does to the world outside: jobs completed (an error is the byte of the \<^verbatim>\<open>PipelineError\<close>, since the code of a
  reply is passed on unchecked), reply handlers called, frames and payload frames sent, the transport
  started and closed, and what \<^verbatim>\<open>connect\<close> returned.\<close>

datatype effect =
  Finish nat "u8 + unit" string
| Handled nat SubGraphReply
| Sent bytes
| SentPayload "bytes list"
| TransportStarted
| Closing
| Connected "ConnectError + unit"

text \<open>The place a thread is at.\<close>

datatype call =
  Send SubGraphRequest nat bool
| Transfer u64 SubGraphRequest nat "Payload option list" u32
| Control u64 SubGraphRequest "Payload option list"
| Register u64
| FailPending u64 PipelineError string
| FailRest u64 nat PipelineError string "Queued option"
| Launch "Queued option"
| ReplyFound u64 SubGraphReply
| ReplyRest u64 Pending SubGraphReply "Queued option"
| ClosedRest "nat list"
| ClosedLast
| ConnectSend Hello
| ConnectWait

section \<open>Submitting\<close>

definition kindLabel :: "SubGraphRequest \<Rightarrow> nat \<Rightarrow> string" where
  "kindLabel request index =
     (if index \<ge> length (rq_jobs request) then ''job '' @ to_string index
      else let kind = js_kind (rq_jobs request ! index)
           in ''job '' @ to_string index @ '' ('' @ jk_name kind @ ''@'' @ to_string (unat (jk_version kind)) @ '')'')"

definition oversize :: "u32 \<Rightarrow> Payload \<Rightarrow> bool" where
  "oversize limit input \<longleftrightarrow> pl_kind input = kInline \<and> length (payload_bytes input) > unat limit"

text \<open>The lowest index of an inline input over the limit.\<close>

definition first_oversize :: "u32 \<Rightarrow> SubGraphRequest \<Rightarrow> nat option" where
  "first_oversize limit request = find (\<lambda>i. oversize limit (js_input (rq_jobs request ! i))) [0..<length (rq_jobs request)]"

text \<open>\<^verbatim>\<open>send\<close> up to the point where it lets go of the lock.\<close>

definition send_enter :: "SubGraphRequest \<Rightarrow> nat \<Rightarrow> bool \<Rightarrow> 's Channel \<Rightarrow> effect list \<times> call list \<times> 's Channel" where
  "send_enter request d onReply st =
     (if ch_state st \<noteq> kConnected
      then ([Finish d (Inl (error_code kUnavailable)) (if ch_state st = kStateClosed then ''worker connection closed'' else ''not connected'')], [], st)
      else case (if ch_strategy st = None then first_oversize (ch_inlineLimit st) request else None) of
             Some i \<Rightarrow> ([Finish d (Inl (error_code kJobFailed)) (kindLabel request i @ '': inline input exceeds the inline limit'')], [], st)
           | None \<Rightarrow>
               if length (ch_pending st) \<ge> unat (ch_inFlightLimit st)
               then if length (ch_queued st) < unat (op_queueCapacity (ch_options st))
                    then ([], [], st\<lparr>ch_queued := ch_queued st @ [\<lparr>qu_request = request, qu_done = d, qu_onReply = onReply\<rparr>]\<rparr>)
                    else ([Finish d (Inl (error_code kBusy)) ''remote channel at capacity''], [], st)
               else let i = ch_nextId st
                    in ([], [if ch_strategy st \<noteq> None
                             then Transfer i request 0 (replicate (length (rq_jobs request)) None) (ch_inlineLimit st)
                             else Control i request []],
                        st\<lparr>ch_nextId := i + 1,
                           ch_pending := ch_pending st
                             @ [(i, \<lparr>pe_request = request, pe_done = d, pe_onReply = onReply, pe_cancel = False\<rparr>)]\<rparr>))"

text \<open>
  One round of the loop over the inputs: a large inline input goes to the strategy, whose reference takes its place. \<open>None\<close> if the
  strategy did not return. A channel that has a strategy keeps it for good.
\<close>

definition transfer ::
  "'s StrategyOps \<Rightarrow> (bytes list \<Rightarrow> bool) \<Rightarrow> u64 \<Rightarrow> SubGraphRequest \<Rightarrow> nat \<Rightarrow> Payload option list \<Rightarrow> u32 \<Rightarrow> 's Channel
    \<Rightarrow> (effect list \<times> call list \<times> 's Channel) option" where
  "transfer I deliver i request k overrides limit st =
     (if k \<ge> length (rq_jobs request) then Some ([], [Control i request overrides], st)
      else let input = js_input (rq_jobs request ! k)
           in if \<not> oversize limit input then Some ([], [Transfer i request (Suc k) overrides limit], st)
              else case ch_strategy st of
                     None \<Rightarrow> None
                   | Some s \<Rightarrow>
                       (case ps_send I deliver input i s of
                          None \<Rightarrow> None
                        | Some (frames, Inl e, s') \<Rightarrow>
                            Some (map SentPayload frames, [FailPending i e (kindLabel request k @ '': payload transfer failed'')],
                                  st\<lparr>ch_strategy := Some s'\<rparr>)
                        | Some (frames, Inr ref, s') \<Rightarrow>
                            Some (map SentPayload frames,
                                  [Transfer i request (Suc k) (overrides[k := Some (Payload_reference ref)]) limit],
                                  st\<lparr>ch_strategy := Some s'\<rparr>)))"

text \<open>The control frame; \<open>ok\<close> says whether the transport sent it.\<close>

definition control :: "bool \<Rightarrow> u64 \<Rightarrow> SubGraphRequest \<Rightarrow> Payload option list \<Rightarrow> effect list \<times> call list" where
  "control ok i request overrides =
     (case encodeRequest i request overrides of
        None \<Rightarrow> ([], [FailPending i kJobFailed ''request does not fit the wire format''])
      | Some fr \<Rightarrow> if ok then ([Sent fr], [Register i]) else ([], [FailPending i kUnavailable ''worker connection lost'']))"

definition pending_update :: "u64 \<Rightarrow> (Pending \<Rightarrow> Pending) \<Rightarrow> (u64 \<times> Pending) list \<Rightarrow> (u64 \<times> Pending) list" where
  "pending_update i f l = map (\<lambda>(k, p). (k, if k = i then f p else p)) l"

definition pending_erase :: "u64 \<Rightarrow> (u64 \<times> Pending) list \<Rightarrow> (u64 \<times> Pending) list" where
  "pending_erase i l = filter (\<lambda>(k, p). k \<noteq> i) l"

text \<open>A stop that was requested before is forwarded while the callback is registered.\<close>

definition register_cancel :: "bool \<Rightarrow> bool \<Rightarrow> u64 \<Rightarrow> 's Channel \<Rightarrow> effect list \<times> 's Channel" where
  "register_cancel stopped ok i st =
     (if map_of (ch_pending st) i = None then ([], st)
      else (if stopped \<and> ok then [Sent (encodeCancel i)] else [],
            st\<lparr>ch_pending := pending_update i (\<lambda>p. p\<lparr>pe_cancel := True\<rparr>) (ch_pending st)\<rparr>))"

definition takeQueued :: "'s Channel \<Rightarrow> Queued option \<times> 's Channel" where
  "takeQueued st =
     (case ch_queued st of [] \<Rightarrow> (None, st) | q # qs \<Rightarrow> (Some q, st\<lparr>ch_queued := qs\<rparr>))"

definition failPending :: "u64 \<Rightarrow> PipelineError \<Rightarrow> string \<Rightarrow> 's Channel \<Rightarrow> call list \<times> 's Channel" where
  "failPending i e msg st =
     (case map_of (ch_pending st) i of
        None \<Rightarrow> ([], st)
      | Some p \<Rightarrow> (case takeQueued (st\<lparr>ch_pending := pending_erase i (ch_pending st)\<rparr>) of
                     (next, st') \<Rightarrow> ([FailRest i (pe_done p) e msg next], st')))"

definition end_scope :: "'s StrategyOps \<Rightarrow> u64 \<Rightarrow> 's Channel \<Rightarrow> 's Channel" where
  "end_scope I i st = st\<lparr>ch_strategy := map_option (ps_endScope I i) (ch_strategy st)\<rparr>"

definition failPending_rest ::
  "'s StrategyOps \<Rightarrow> u64 \<Rightarrow> nat \<Rightarrow> PipelineError \<Rightarrow> string \<Rightarrow> Queued option \<Rightarrow> 's Channel \<Rightarrow> effect list \<times> call list \<times> 's Channel" where
  "failPending_rest I i d e msg next st = ([Finish d (Inl (error_code e)) msg], [Launch next], end_scope I i st)"

text \<open>One round of \<^verbatim>\<open>launch\<close>; \<open>stopped\<close> says whether the job's stop token was stopped.\<close>

definition launch :: "bool \<Rightarrow> Queued option \<Rightarrow> 's Channel \<Rightarrow> effect list \<times> call list \<times> 's Channel" where
  "launch stopped next st =
     (case next of
        None \<Rightarrow> ([], [], st)
      | Some q \<Rightarrow>
          if \<not> stopped then ([], [Send (qu_request q) (qu_done q) (qu_onReply q)], st)
          else case takeQueued st of (next', st') \<Rightarrow> ([Finish (qu_done q) (Inr ()) []], [Launch next'], st'))"

section \<open>Replies\<close>

text \<open>\<^verbatim>\<open>sendCancel\<close>, run by a registered stop callback.\<close>

definition sendCancel :: "bool \<Rightarrow> u64 \<Rightarrow> effect list" where
  "sendCancel ok i = (if ok then [Sent (encodeCancel i)] else [])"

text \<open>The outputs that are references, in order.\<close>

fun resolve_outputs :: "'s StrategyOps \<Rightarrow> SubGraphReply \<Rightarrow> 's option \<Rightarrow> SubGraphReply \<times> 's option" where
  "resolve_outputs I [] s = ([], s)"
| "resolve_outputs I (r # rs) s =
     (if pl_kind (jr_output r) \<noteq> kReference
      then (case resolve_outputs I rs s of (rs', s') \<Rightarrow> (r # rs', s'))
      else case (case s of None \<Rightarrow> (Inl kJobFailed, None)
                 | Some s0 \<Rightarrow> (case ps_receive I (payload_bytes (jr_output r)) s0 of (x, s1) \<Rightarrow> (x, Some s1))) of
             (x, s1) \<Rightarrow>
               (case resolve_outputs I rs s1 of
                  (rs', s') \<Rightarrow>
                    ((case x of Inr p \<Rightarrow> r\<lparr>jr_output := p\<rparr>
                      | Inl e \<Rightarrow> r\<lparr>jr_output := Payload_new, jr_status := status_code kFailed, jr_error := error_code e,
                                    jr_message := ''output payload unavailable''\<rparr>) # rs', s')))"

definition handleReply :: "'s StrategyOps \<Rightarrow> bytes \<Rightarrow> 's Channel \<Rightarrow> effect list \<times> call list \<times> 's Channel" where
  "handleReply I fr st =
     (case decodeReply fr of
        None \<Rightarrow> ([Closing], [], st)
      | Some (i, reply) \<Rightarrow>
          (case resolve_outputs I reply (ch_strategy st) of
             (reply', s') \<Rightarrow> ([], [ReplyFound i reply'], st\<lparr>ch_strategy := s'\<rparr>)))"

definition reply_found :: "u64 \<Rightarrow> SubGraphReply \<Rightarrow> 's Channel \<Rightarrow> call list \<times> 's Channel" where
  "reply_found i reply st =
     (case map_of (ch_pending st) i of
        None \<Rightarrow> ([], st)
      | Some p \<Rightarrow> (case takeQueued (st\<lparr>ch_pending := pending_erase i (ch_pending st)\<rparr>) of
                     (next, st') \<Rightarrow> ([ReplyRest i p reply next], st')))"

text \<open>What becomes of the job.\<close>

definition reply_outcome :: "SubGraphRequest \<Rightarrow> SubGraphReply \<Rightarrow> (u8 + unit) \<times> string" where
  "reply_outcome request reply =
     (case firstFailure reply of
        Some k \<Rightarrow>
          let r = reply ! k;
              e = (if jr_status r = status_code kCancelledStatus then error_code kCancelled
                   else if jr_status r = status_code kTimedOut then error_code kTimeout
                   else jr_error r)
          in (Inl e, kindLabel request k @ '' failed'' @ (if jr_message r \<noteq> [] then '': '' @ jr_message r else []))
      | None \<Rightarrow>
          if length reply \<noteq> length (rq_jobs request) then (Inl (error_code kJobFailed), ''reply does not match the request'')
          else (Inr (), []))"

definition reply_rest ::
  "'s StrategyOps \<Rightarrow> bool \<Rightarrow> u64 \<Rightarrow> Pending \<Rightarrow> SubGraphReply \<Rightarrow> Queued option \<Rightarrow> 's Channel \<Rightarrow> effect list \<times> call list \<times> 's Channel" where
  "reply_rest I stopped i p reply next st =
     (if stopped then [Finish (pe_done p) (Inr ()) []]
      else (if pe_onReply p then [Handled (pe_done p) reply] else [])
           @ [case_prod (Finish (pe_done p)) (reply_outcome (pe_request p) reply)],
      [Launch next], end_scope I i st)"

section \<open>Handshake\<close>

text \<open>\<^verbatim>\<open>connect\<close> up to the start of the transport: the candidates in order, the first of each name.\<close>

fun offer_all :: "'s StrategyOps \<Rightarrow> 's option list \<Rightarrow> 's list \<Rightarrow> StrategyOffer list \<Rightarrow> 's list \<times> StrategyOffer list" where
  "offer_all I [] cands offers = (cands, offers)"
| "offer_all I (None # fs) cands offers = offer_all I fs cands offers"
| "offer_all I (Some c # fs) cands offers =
     (if \<exists>c' \<in> set cands. ps_name I c' = ps_name I c then offer_all I fs cands offers
      else case ps_offer I c of
             (setup, c') \<Rightarrow> offer_all I fs (cands @ [c']) (offers @ [\<lparr>so_name = ps_name I c, so_setup = setup\<rparr>]))"

text \<open>\<open>stream\<close> is what \<^verbatim>\<open>streamStrategy()\<close> makes, the strategy offered last.\<close>

definition connect :: "'s StrategyOps \<Rightarrow> 's \<Rightarrow> 's Channel \<Rightarrow> effect list \<times> call list \<times> 's Channel" where
  "connect I stream st =
     (if ch_state st \<noteq> kIdle then ([Connected (Inl kConnectProtocol)], [], st)
      else let opts = ch_options st
           in case offer_all I (op_strategies opts @ [Some stream]) (ch_candidates st) [] of
                (cands, offers) \<Rightarrow>
                  ([], [ConnectSend (Hello_new\<lparr>he_fingerprint := op_expectedFingerprint opts, he_maxInFlight := op_maxInFlight opts,
                                               he_maxInlineBytes := op_maxInlineBytes opts, he_strategies := offers\<rparr>)],
                   st\<lparr>ch_state := kHandshaking, ch_started := True, ch_candidates := cands\<rparr>))"

definition connect_send :: "bool \<Rightarrow> Hello \<Rightarrow> effect list \<times> call list" where
  "connect_send ok hello = (TransportStarted # (if ok then [Sent (encodeHello kHello hello)] else []), [ConnectWait])"

text \<open>The end of the wait. While the handshake is going on only the timeout ends it.\<close>

definition connect_wait :: "'s Channel \<Rightarrow> effect list \<times> 's Channel" where
  "connect_wait st =
     (if ch_state st = kConnected then ([Connected (Inr ())], st)
      else if ch_state st = kHandshaking then ([Closing, Connected (Inl kConnectTimeout)], st\<lparr>ch_state := kStateClosed\<rparr>)
      else ([Connected (Inl (case ch_rejected st of Some e \<Rightarrow> e | None \<Rightarrow> kTransportClosed))], st))"

fun select_candidate :: "'s StrategyOps \<Rightarrow> StrategyOffer \<Rightarrow> 's list \<Rightarrow> 's option" where
  "select_candidate I chosen [] = None"
| "select_candidate I chosen (c # cs) =
     (if ps_name I c \<noteq> so_name chosen then select_candidate I chosen cs
      else case ps_complete I (so_setup chosen) c of
             (Inl e, c') \<Rightarrow> None
           | (Inr _, c') \<Rightarrow> Some (ps_attach I c'))"

definition selectStrategy :: "'s StrategyOps \<Rightarrow> Hello \<Rightarrow> 's Channel \<Rightarrow> bool \<times> 's Channel" where
  "selectStrategy I ack st =
     (let st1 = st\<lparr>ch_candidates := []\<rparr>
      in case he_strategies ack of
           [] \<Rightarrow> (True, st1)
         | chosen # _ \<Rightarrow>
             (case select_candidate I chosen (ch_candidates st) of
                None \<Rightarrow> (False, st1)
              | Some s \<Rightarrow> (True, st1\<lparr>ch_sender := True, ch_strategy := Some s\<rparr>)))"

text \<open>A hello-ack during the handshake: the new state, and whether it is connected.\<close>

definition accept_ack :: "'s StrategyOps \<Rightarrow> Hello \<Rightarrow> 's Channel \<Rightarrow> bool \<times> 's Channel" where
  "accept_ack I hello st =
     (let st1 = st\<lparr>ch_peer := hello\<rparr>
      in if he_major hello \<noteq> kProtocolMajor then (False, st1\<lparr>ch_rejected := Some kVersionMismatch\<rparr>)
         else if he_fingerprint hello \<noteq> op_expectedFingerprint (ch_options st)
         then (False, st1\<lparr>ch_rejected := Some kFingerprintMismatch\<rparr>)
         else case selectStrategy I hello st1 of
                (True, st2) \<Rightarrow>
                  (True, st2\<lparr>ch_inFlightLimit := min (op_maxInFlight (ch_options st)) (he_maxInFlight hello),
                             ch_inlineLimit := min (op_maxInlineBytes (ch_options st)) (he_maxInlineBytes hello),
                             ch_state := kConnected\<rparr>)
              | (False, st2) \<Rightarrow> (False, st2\<lparr>ch_rejected := Some kConnectProtocol\<rparr>))"

definition rejection :: "bytes \<Rightarrow> ConnectError" where
  "rejection fr =
     (case decodeReject fr of
        Some reject \<Rightarrow> if rj_reason reject = reason_code kFingerprint then kFingerprintMismatch else kVersionMismatch
      | None \<Rightarrow> kConnectProtocol)"

definition end_connection :: "'s Channel \<Rightarrow> effect list \<times> 's Channel" where
  "end_connection st =
     ([Closing], if ch_state st = kHandshaking then st\<lparr>ch_state := kStateClosed\<rparr> else st)"

definition handshake_frame :: "'s StrategyOps \<Rightarrow> bytes \<Rightarrow> 's Channel \<Rightarrow> effect list \<times> 's Channel" where
  "handshake_frame I fr st =
     (if ch_state st = kHandshaking \<and> frameType fr = Some kHelloAck
      then (case decodeHello fr of
              None \<Rightarrow> end_connection st
            | Some hello \<Rightarrow>
                (case accept_ack I hello st of
                   (True, st') \<Rightarrow> ([], st')
                 | (False, st') \<Rightarrow> end_connection st'))
      else if ch_state st = kHandshaking \<and> frameType fr = Some kHelloReject
      then end_connection (st\<lparr>ch_rejected := Some (rejection fr)\<rparr>)
      else if ch_state st = kHandshaking then end_connection (st\<lparr>ch_rejected := Some kConnectProtocol\<rparr>)
      else end_connection st)"

definition onFrameBuffer ::
  "'s StrategyOps \<Rightarrow> nat option \<Rightarrow> bytes \<Rightarrow> 's Channel \<Rightarrow> effect list \<times> call list \<times> 's Channel" where
  "onFrameBuffer I own fr st =
     (if frameType fr = Some kReply then handleReply I fr st
      else case (if frameType fr = Some kPayload then ch_strategy st else None) of
             Some s \<Rightarrow> ([], [], st\<lparr>ch_strategy := Some (ps_onPayloadFrame I (drop kHeaderBytes fr, own) s)\<rparr>)
           | None \<Rightarrow> (case handshake_frame I fr st of (es, st') \<Rightarrow> (es, [], st')))"

section \<open>Closing\<close>

definition onClosed :: "'s Channel \<Rightarrow> call list \<times> 's Channel" where
  "onClosed st =
     ([ClosedRest (map (pe_done \<circ> snd) (ch_pending st) @ map qu_done (ch_queued st))],
      st\<lparr>ch_rejected := (if ch_state st = kHandshaking \<and> ch_rejected st = None then Some kTransportClosed else ch_rejected st),
         ch_state := kStateClosed, ch_pending := [], ch_queued := []\<rparr>)"

definition onClosed_rest :: "'s StrategyOps \<Rightarrow> nat list \<Rightarrow> 's Channel \<Rightarrow> effect list \<times> call list \<times> 's Channel" where
  "onClosed_rest I ds st =
     (map (\<lambda>d. Finish d (Inl (error_code kUnavailable)) ''worker connection lost'') ds, [ClosedLast],
      st\<lparr>ch_strategy := map_option (ps_onClosed I) (ch_strategy st)\<rparr>)"

definition onClosed_last :: "'s Channel \<Rightarrow> 's Channel" where
  "onClosed_last st = st\<lparr>ch_closed := True\<rparr>"

section \<open>Queries\<close>

definition freeCapacity :: "'s Channel \<Rightarrow> u32" where
  "freeCapacity st =
     (if ch_state st \<noteq> kConnected then 0
      else let inFlight = word_of_nat (length (ch_pending st)); queued = word_of_nat (length (ch_queued st))
           in (if ch_inFlightLimit st > inFlight then ch_inFlightLimit st - inFlight else 0)
              + (if op_queueCapacity (ch_options st) > queued then op_queueCapacity (ch_options st) - queued else 0))"

definition channel_peer :: "'s Channel \<Rightarrow> Hello" where "channel_peer st = ch_peer st"

text \<open>The address of the strategy's buffer; \<open>None\<close> stands for ordinary memory.\<close>

definition allocatePayload :: "'s StrategyOps \<Rightarrow> nat \<Rightarrow> 's Channel \<Rightarrow> nat option \<times> 's Channel" where
  "allocatePayload I n st =
     (case (if ch_state st = kConnected then ch_strategy st else None) of
        None \<Rightarrow> (None, st)
      | Some s \<Rightarrow> (case ps_allocate I n s of (a, s') \<Rightarrow> (a, st\<lparr>ch_strategy := Some s'\<rparr>)))"

definition payloadStrategy :: "'s StrategyOps \<Rightarrow> 's Channel \<Rightarrow> string" where
  "payloadStrategy I st =
     (case ch_strategy st of
        Some s \<Rightarrow> if ch_state st \<noteq> kHandshaking then ps_name I s else []
      | None \<Rightarrow> [])"

section \<open>Interleaving\<close>

text \<open>
  The channel with the threads inside its members and what it has done to the world so far. \<open>w_submitted\<close> are the jobs handed
  to \<^verbatim>\<open>submit\<close>, or started by the deferred body of \<^verbatim>\<open>emplace\<close>, which is the same call.
\<close>

record 's world =
  w_channel :: "'s Channel"
  w_calls :: "call list"
  w_effects :: "effect list"
  w_submitted :: "nat list"

text \<open>What one thread does next. The transport's answers and the stop tokens are free.\<close>

fun run_call ::
  "'s StrategyOps \<Rightarrow> (bytes list \<Rightarrow> bool) \<Rightarrow> bool \<Rightarrow> bool \<Rightarrow> call \<Rightarrow> 's Channel \<Rightarrow> (effect list \<times> call list \<times> 's Channel) option" where
  "run_call I deliver ok stopped (Send request d onReply) st = Some (send_enter request d onReply st)"
| "run_call I deliver ok stopped (Transfer i request k overrides limit) st = transfer I deliver i request k overrides limit st"
| "run_call I deliver ok stopped (Control i request overrides) st =
     (case control ok i request overrides of (es, cs) \<Rightarrow> Some (es, cs, st))"
| "run_call I deliver ok stopped (Register i) st = (case register_cancel stopped ok i st of (es, st') \<Rightarrow> Some (es, [], st'))"
| "run_call I deliver ok stopped (FailPending i e msg) st = (case failPending i e msg st of (cs, st') \<Rightarrow> Some ([], cs, st'))"
| "run_call I deliver ok stopped (FailRest i d e msg next) st = Some (failPending_rest I i d e msg next st)"
| "run_call I deliver ok stopped (Launch next) st = Some (launch stopped next st)"
| "run_call I deliver ok stopped (ReplyFound i reply) st = (case reply_found i reply st of (cs, st') \<Rightarrow> Some ([], cs, st'))"
| "run_call I deliver ok stopped (ReplyRest i p reply next) st = Some (reply_rest I stopped i p reply next st)"
| "run_call I deliver ok stopped (ClosedRest ds) st = Some (onClosed_rest I ds st)"
| "run_call I deliver ok stopped ClosedLast st = Some ([], [], onClosed_last st)"
| "run_call I deliver ok stopped (ConnectSend hello) st = (case connect_send ok hello of (es, cs) \<Rightarrow> Some (es, cs, st))"
| "run_call I deliver ok stopped ConnectWait st = (case connect_wait st of (es, st') \<Rightarrow> Some (es, [], st'))"

definition proceed :: "'s world \<Rightarrow> effect list \<times> call list \<times> 's Channel \<Rightarrow> call list \<Rightarrow> 's world" where
  "proceed w r others =
     (case r of (es, cs, st) \<Rightarrow> w\<lparr>w_channel := st, w_calls := others @ cs, w_effects := w_effects w @ es\<rparr>)"

text \<open>\<open>ids_left\<close>: the 64-bit request counter has not come to its end.\<close>

definition ids_left :: "'s Channel \<Rightarrow> bool" where
  "ids_left st \<longleftrightarrow> ch_nextId st + 1 \<noteq> 0"

inductive channel_step :: "'s StrategyOps \<Rightarrow> 's world \<Rightarrow> 's world \<Rightarrow> bool" for I where
  submit: "channel_step I w (w\<lparr>w_calls := w_calls w @ [Send request d onReply], w_submitted := w_submitted w @ [d]\<rparr>)"
| thread: "w_calls w = cs1 @ c # cs2 \<Longrightarrow> ids_left (w_channel w) \<Longrightarrow>
    run_call I deliver ok stopped c (w_channel w) = Some r \<Longrightarrow> channel_step I w (proceed w r (cs1 @ cs2))"
| frame: "channel_step I w (proceed w (onFrameBuffer I own fr (w_channel w)) (w_calls w))"
| closed: "onClosed (w_channel w) = (cs, st) \<Longrightarrow> channel_step I w (proceed w ([], cs, st) (w_calls w))"
| cancel: "channel_step I w (w\<lparr>w_effects := w_effects w @ sendCancel ok i\<rparr>)"
| connecting: "channel_step I w (proceed w (connect I stream (w_channel w)) (w_calls w))"
| allocating: "channel_step I w (w\<lparr>w_channel := snd (allocatePayload I n (w_channel w))\<rparr>)"

definition world_new :: "'s ChannelOptions \<Rightarrow> 's world" where
  "world_new opts = \<lparr>w_channel = Channel_new opts, w_calls = [], w_effects = [], w_submitted = []\<rparr>"

end
