(* ===== verification/ChannelInv.thy ===== *)
theory ChannelInv
  imports Channel "HOL-Library.Multiset"
begin

text \<open>
  What the channel keeps in every interleaving of its callers, the transport's thread and the stop callbacks: each job it was given
  is in exactly one place until it is finished, and the limits on requests in flight and in the queue hold.
\<close>

section \<open>Where a job is\<close>

fun call_next :: "call \<Rightarrow> Queued option" where
  "call_next (FailRest i d e msg nx) = nx"
| "call_next (Launch nx) = nx"
| "call_next (ReplyRest i p reply nx) = nx"
| "call_next _ = None"

definition next_jobs :: "Queued option \<Rightarrow> nat list" where
  "next_jobs nx = (case nx of None \<Rightarrow> [] | Some q \<Rightarrow> [qu_done q])"

fun call_jobs :: "call \<Rightarrow> nat list" where
  "call_jobs (Send request d onReply) = [d]"
| "call_jobs (FailRest i d e msg nx) = d # next_jobs nx"
| "call_jobs (Launch nx) = next_jobs nx"
| "call_jobs (ReplyRest i p reply nx) = pe_done p # next_jobs nx"
| "call_jobs (ClosedRest ds) = ds"
| "call_jobs _ = []"

fun finished :: "effect list \<Rightarrow> nat list" where
  "finished [] = []"
| "finished (Finish d r msg # es) = d # finished es"
| "finished (_ # es) = finished es"

definition jobs_in :: "call list \<Rightarrow> nat multiset" where
  "jobs_in cs = mset (concat (map call_jobs cs))"

definition chan_jobs :: "'s Channel \<Rightarrow> nat multiset" where
  "chan_jobs st = mset (map (pe_done \<circ> snd) (ch_pending st)) + mset (map qu_done (ch_queued st))"

lemma finished_append [simp]: "finished (es @ es') = finished es @ finished es'"
  by (induction es rule: finished.induct) auto

lemma jobs_in_simps [simp]: "jobs_in [] = {#}" "jobs_in (c # cs) = mset (call_jobs c) + jobs_in cs" "jobs_in (cs @ cs') = jobs_in cs + jobs_in cs'"
  by (simp_all add: jobs_in_def)

section \<open>Room and order\<close>

text \<open>A request that \<^verbatim>\<open>send\<close> would not refuse for the size of an inline input.\<close>

definition passes :: "'s Channel \<Rightarrow> SubGraphRequest \<Rightarrow> bool" where
  "passes st request \<longleftrightarrow> ch_strategy st \<noteq> None \<or> first_oversize (ch_inlineLimit st) request = None"

text \<open>A thread on its way to take a free place in flight.\<close>

definition carrier :: "'s Channel \<Rightarrow> call \<Rightarrow> bool" where
  "carrier st c = (case c of Send request d onReply \<Rightarrow> passes st request | _ \<Rightarrow> call_next c \<noteq> None)"

definition carrying :: "'s Channel \<Rightarrow> call list \<Rightarrow> nat" where
  "carrying st cs = length (filter (carrier st) cs)"

definition stall_free :: "'s Channel \<Rightarrow> nat \<Rightarrow> bool" where
  "stall_free st n \<longleftrightarrow> (ch_state st = kConnected \<and> ch_queued st \<noteq> [] \<longrightarrow> unat (ch_inFlightLimit st) \<le> length (ch_pending st) + n)"

definition nexts_ok :: "'s Channel \<Rightarrow> call list \<Rightarrow> bool" where
  "nexts_ok st cs \<longleftrightarrow> (ch_state st \<noteq> kStateClosed \<longrightarrow>
     (\<forall>c \<in> set cs. \<forall>q. call_next c = Some q \<longrightarrow> ch_state st = kConnected \<and> passes st (qu_request q)))"

definition good :: "'s Channel \<Rightarrow> bool" where
  "good st \<longleftrightarrow> distinct (map fst (ch_pending st)) \<and> (\<forall>e \<in> set (ch_pending st). fst e < ch_nextId st)
     \<and> (ch_state st \<noteq> kConnected \<longrightarrow> ch_pending st = [] \<and> ch_queued st = [])
     \<and> length (ch_pending st) \<le> unat (ch_inFlightLimit st)
     \<and> length (ch_queued st) \<le> unat (op_queueCapacity (ch_options st))
     \<and> (\<forall>q \<in> set (ch_queued st). passes st (qu_request q))"

definition same_terms :: "'s Channel \<Rightarrow> 's Channel \<Rightarrow> bool" where
  "same_terms st st' \<longleftrightarrow> ch_state st' = kStateClosed
     \<or> ch_state st' = ch_state st \<and> (ch_strategy st' = None \<longleftrightarrow> ch_strategy st = None) \<and> ch_inlineLimit st' = ch_inlineLimit st
     \<or> ch_state st \<in> {kIdle, kHandshaking} \<and> ch_queued st' = []"

text \<open>What every section keeps, of the calls \<open>c\<close> it runs and those it leaves.\<close>

definition moves :: "call list \<Rightarrow> 's Channel \<Rightarrow> effect list \<times> call list \<times> 's Channel \<Rightarrow> bool" where
  "moves c st r \<longleftrightarrow> (case r of (es, cs, st') \<Rightarrow>
     good st' \<and> same_terms st st'
     \<and> jobs_in c + chan_jobs st = mset (finished es) + jobs_in cs + chan_jobs st'
     \<and> nexts_ok st' cs
     \<and> (\<forall>n. stall_free st (n + carrying st c) \<longrightarrow> stall_free st' (n + carrying st' cs)))"

lemma carrying_simps [simp]: "carrying st [] = 0" "carrying st (c # cs) = of_bool (carrier st c) + carrying st cs"
  "carrying st (cs @ cs') = carrying st cs + carrying st cs'"
  by (simp_all add: carrying_def)

lemma nexts_ok_simps [simp]: "nexts_ok st []" "nexts_ok st (cs @ cs') \<longleftrightarrow> nexts_ok st cs \<and> nexts_ok st cs'"
  "nexts_ok st (c # cs) \<longleftrightarrow> (ch_state st \<noteq> kStateClosed \<longrightarrow>
     (\<forall>q. call_next c = Some q \<longrightarrow> ch_state st = kConnected \<and> passes st (qu_request q))) \<and> nexts_ok st cs"
  by (auto simp: nexts_ok_def)

lemma nexts_ok_same:
  assumes "same_terms st st'" "nexts_ok st cs"
  shows "nexts_ok st' cs"
  using assms unfolding same_terms_def nexts_ok_def passes_def by auto

lemma carrying_same:
  assumes "ch_strategy st' = None \<longleftrightarrow> ch_strategy st = None" "ch_inlineLimit st' = ch_inlineLimit st"
  shows "carrying st' cs = carrying st cs"
proof -
  have "carrier st' = carrier st" using assms by (auto simp: carrier_def passes_def split: call.splits)
  then show ?thesis by (simp add: carrying_def)
qed

text \<open>Sections that touch neither the requests nor the terms.\<close>

lemma moves_frame:
  assumes "good st" "ch_pending st' = ch_pending st" "ch_queued st' = ch_queued st" "ch_state st' = ch_state st"
    "ch_nextId st' = ch_nextId st" "ch_options st' = ch_options st" "ch_inFlightLimit st' = ch_inFlightLimit st"
    "ch_inlineLimit st' = ch_inlineLimit st" "ch_strategy st' = None \<longleftrightarrow> ch_strategy st = None"
    and "jobs_in c = mset (finished es) + jobs_in cs" "nexts_ok st' cs" "carrying st c \<le> carrying st' cs"
  shows "moves c st (es, cs, st')"
proof -
  have p: "passes st' = passes st" using assms(8,9) by (auto simp: passes_def fun_eq_iff)
  have "good st'" using assms(1-8) p by (simp add: good_def)
  moreover have "same_terms st st'" using assms(4,8,9) by (simp add: same_terms_def)
  moreover have "chan_jobs st' = chan_jobs st" using assms(2,3) by (simp add: chan_jobs_def)
  moreover have "stall_free st' (n + carrying st' cs)" if "stall_free st (n + carrying st c)" for n
    using that assms(2,3,4,7,12) by (auto simp: stall_free_def)
  ultimately show ?thesis using assms(10,11) by (simp add: moves_def)
qed

section \<open>Every section\<close>

lemma good_pending_new:
  assumes "good st" shows "ch_nextId st \<notin> fst ` set (ch_pending st)"
  using assms by (auto simp: good_def)

lemma send_enter_moves:
  assumes g: "good st" and ids: "ids_left st"
  shows "moves [Send request d onReply] st (send_enter request d onReply st)"
proof (cases "ch_state st = kConnected")
  case False
  have "moves [Send request d onReply] st ([Finish d e m], [], st)" for e m
    using False g by (auto simp: moves_def same_terms_def stall_free_def good_def)
  then show ?thesis using False by (simp add: send_enter_def)
next
  case conn: True
  define big where "big = (if ch_strategy st = None then first_oversize (ch_inlineLimit st) request else None)"
  have pass: "passes st request \<longleftrightarrow> big = None" by (auto simp: passes_def big_def)
  show ?thesis
  proof (cases big)
    case (Some i)
    then have np: "\<not> passes st request" using pass by simp
    have "moves [Send request d onReply] st ([Finish d e m], [], st)" for e m
      by (rule moves_frame[OF g]) (simp_all add: np carrier_def)
    then show ?thesis using Some conn by (simp add: send_enter_def big_def)
  next
    case None
    then have p: "passes st request" using pass by simp
    show ?thesis
    proof (cases "length (ch_pending st) \<ge> unat (ch_inFlightLimit st)")
      case full: True
      show ?thesis
      proof (cases "length (ch_queued st) < unat (op_queueCapacity (ch_options st))")
        case True
        define q where "q = \<lparr>qu_request = request, qu_done = d, qu_onReply = onReply\<rparr>"
        have "moves [Send request d onReply] st ([], [], st\<lparr>ch_queued := ch_queued st @ [q]\<rparr>)"
          using g True full conn p
          by (auto simp: moves_def good_def same_terms_def chan_jobs_def stall_free_def passes_def q_def)
        then show ?thesis using None conn full True by (simp add: send_enter_def big_def q_def)
      next
        case False
        have "moves [Send request d onReply] st ([Finish d e m], [], st)" for e m
          using g conn full by (auto simp: moves_def same_terms_def stall_free_def)
        then show ?thesis using None conn full False by (simp add: send_enter_def big_def)
      qed
    next
      case False
      define e where "e = (ch_nextId st, \<lparr>pe_request = request, pe_done = d, pe_onReply = onReply, pe_cancel = False\<rparr>)"
      define c' where "c' = (if ch_strategy st \<noteq> None
         then Transfer (ch_nextId st) request 0 (replicate (length (rq_jobs request)) None) (ch_inlineLimit st)
         else Control (ch_nextId st) request [])"
      have un: "ch_nextId st < ch_nextId st + 1"
        using ids unatSuc[of "ch_nextId st"] by (simp add: ids_left_def word_less_nat_alt add.commute)
      have older: "\<forall>x \<in> set (ch_pending st). fst x < ch_nextId st + 1"
        using g un by (auto simp: good_def intro: less_trans)
      have c: "call_next c' = None" "call_jobs c' = []" by (auto simp: c'_def)
      have "moves [Send request d onReply] st ([], [c'], st\<lparr>ch_nextId := ch_nextId st + 1, ch_pending := ch_pending st @ [e]\<rparr>)"
        using g conn False p older un c good_pending_new[OF g]
        by (auto simp: moves_def good_def same_terms_def chan_jobs_def stall_free_def passes_def carrier_def e_def)
      then show ?thesis using None conn False by (simp add: send_enter_def big_def e_def c'_def Let_def)
    qed
  qed
qed

lemma finished_payloads [simp]: "finished (map SentPayload fs) = []"
  by (induction fs) auto

lemma finished_lost [simp]: "finished (map (\<lambda>d. Finish d r msg) ds) = ds"
  by (induction ds) auto

lemma transfer_moves:
  assumes "good st" "transfer I deliver i request k overrides limit st = Some r"
  shows "moves [Transfer i request k overrides limit] st r"
  using assms unfolding transfer_def
  by (auto simp: Let_def carrier_def split: if_splits option.splits sum.splits prod.splits intro!: moves_frame)

lemma control_moves:
  assumes "good st"
  shows "moves [Control i request overrides] st (case control ok i request overrides of (es, cs) \<Rightarrow> (es, cs, st))"
  using assms by (auto simp: control_def carrier_def split: option.splits intro!: moves_frame)

lemma pending_update_facts:
  "map fst (pending_update i f l) = map fst l" "length (pending_update i f l) = length l"
  "(\<And>p. pe_done (f p) = pe_done p) \<Longrightarrow>
     image_mset (pe_done \<circ> snd) (mset (pending_update i f l)) = image_mset (pe_done \<circ> snd) (mset l)"
  "fst ` set (pending_update i f l) = fst ` set l"
  by (induction l) (auto simp: pending_update_def)

lemma register_moves:
  assumes g: "good st"
  shows "moves [Register i] st (case register_cancel stopped ok i st of (es, st') \<Rightarrow> (es, [], st'))"
proof -
  let ?st = "st\<lparr>ch_pending := pending_update i (\<lambda>p. p\<lparr>pe_cancel := True\<rparr>) (ch_pending st)\<rparr>"
  have ids: "\<forall>e \<in> set (pending_update i (\<lambda>p. p\<lparr>pe_cancel := True\<rparr>) (ch_pending st)). fst e < ch_nextId st"
    using g pending_update_facts(4)[of i "\<lambda>p. p\<lparr>pe_cancel := True\<rparr>" "ch_pending st"] by (metis (no_types, lifting) good_def image_iff)
  have "good ?st"
    using g ids by (auto simp: good_def pending_update_facts passes_def) (auto simp: pending_update_def)
  then have "moves [Register i] st (es, [], ?st)" if "finished es = []" for es
    using that g by (auto simp: moves_def same_terms_def chan_jobs_def pending_update_facts stall_free_def carrier_def)
  moreover have "moves [Register i] st ([], [], st)" by (rule moves_frame[OF g]) (simp_all add: carrier_def)
  ultimately show ?thesis by (simp add: register_cancel_def)
qed

text \<open>A request that leaves the table makes room for the first in the queue.\<close>

lemma pending_erase_facts:
  assumes "map_of l i = Some p" "distinct (map fst l)"
  shows "mset (map (pe_done \<circ> snd) l) = add_mset (pe_done p) (mset (map (pe_done \<circ> snd) (pending_erase i l)))"
    and "length l = Suc (length (pending_erase i l))"
    and "distinct (map fst (pending_erase i l))" "set (pending_erase i l) \<subseteq> set l"
proof -
  have "mset (map (pe_done \<circ> snd) l) = add_mset (pe_done p) (mset (map (pe_done \<circ> snd) (pending_erase i l)))
      \<and> length l = Suc (length (pending_erase i l))"
    using assms
  proof (induction l)
    case (Cons e l)
    have "pending_erase i l = l" if "i \<notin> fst ` set l"
      using that by (induction l) (auto simp: pending_erase_def)
    then show ?case using Cons by (cases "fst e = i") (auto simp: pending_erase_def split: prod.splits)
  qed simp
  then show "mset (map (pe_done \<circ> snd) l) = add_mset (pe_done p) (mset (map (pe_done \<circ> snd) (pending_erase i l)))"
    "length l = Suc (length (pending_erase i l))" by simp_all
  show "distinct (map fst (pending_erase i l))" using assms(2) by (simp add: pending_erase_def distinct_map_filter)
  show "set (pending_erase i l) \<subseteq> set l" by (auto simp: pending_erase_def)
qed

lemma release_moves:
  assumes g: "good st" and p: "map_of (ch_pending st) i = Some p"
    and q: "takeQueued (st\<lparr>ch_pending := pending_erase i (ch_pending st)\<rparr>) = (nx, st')"
    and c: "call_jobs c = []" "\<not> carrier st c" "call_jobs c' = pe_done p # next_jobs nx" "call_next c' = nx"
      "\<And>r d h. c' \<noteq> Send r d h"
  shows "moves [c] st ([], [c'], st')"
proof -
  note f = pending_erase_facts[OF p]
  have d: "distinct (map fst (ch_pending st))" using g by (simp add: good_def)
  have conn: "ch_state st = kConnected" using g p by (auto simp: good_def)
  have cc: "carrier st'' c' \<longleftrightarrow> nx \<noteq> None" for st'' :: "'a Channel" using c(4,5) by (cases c') (auto simp: carrier_def)
  have st': "st' = st\<lparr>ch_pending := pending_erase i (ch_pending st), ch_queued := drop 1 (ch_queued st)\<rparr>"
    and nx: "nx = (case ch_queued st of [] \<Rightarrow> None | x # _ \<Rightarrow> Some x)"
    using q by (cases "ch_queued st"; auto simp: takeQueued_def)+
  have pass: "passes st' = passes st" by (auto simp: st' passes_def fun_eq_iff)
  have "good st'"
    using g f[OF d] pass unfolding good_def st' by (auto simp: conn dest: in_set_dropD)
  moreover have "same_terms st st'" by (simp add: same_terms_def st')
  moreover have "chan_jobs st = mset (pe_done p # next_jobs nx) + chan_jobs st'"
    using f(1)[OF d] by (cases "ch_queued st") (simp_all add: chan_jobs_def st' nx next_jobs_def)
  moreover have "nexts_ok st' [c']"
    using g c(4) pass nx conn by (auto simp: st' good_def split: list.splits)
  moreover have "stall_free st' (n + carrying st' [c'])" if "stall_free st (n + carrying st [c])" for n
    using that f(2)[OF d] c(2) cc nx by (cases "ch_queued st") (auto simp: stall_free_def st')
  ultimately show ?thesis using c(1,3) by (simp add: moves_def)
qed

lemma failPending_moves:
  assumes g: "good st"
  shows "moves [FailPending i e msg] st (case failPending i e msg st of (cs, st') \<Rightarrow> ([], cs, st'))"
proof (cases "map_of (ch_pending st) i")
  case None
  then show ?thesis by (auto simp: failPending_def carrier_def intro!: moves_frame[OF g])
next
  case (Some p)
  then show ?thesis by (auto simp: failPending_def carrier_def split: prod.splits intro!: release_moves[OF g Some])
qed

lemma reply_found_moves:
  assumes g: "good st"
  shows "moves [ReplyFound i reply] st (case reply_found i reply st of (cs, st') \<Rightarrow> ([], cs, st'))"
proof (cases "map_of (ch_pending st) i")
  case None
  then show ?thesis by (auto simp: reply_found_def carrier_def intro!: moves_frame[OF g])
next
  case (Some p)
  then show ?thesis by (auto simp: reply_found_def carrier_def split: prod.splits intro!: release_moves[OF g Some])
qed

lemma nexts_keep: "nexts_ok st [c] \<Longrightarrow> call_next c = nx \<Longrightarrow> ch_state st' = ch_state st \<Longrightarrow> passes st' = passes st \<Longrightarrow> nexts_ok st' [Launch nx]"
  by auto

lemma end_scope_frame: "ch_pending (end_scope I i st) = ch_pending st" "ch_queued (end_scope I i st) = ch_queued st"
  "ch_state (end_scope I i st) = ch_state st" "ch_nextId (end_scope I i st) = ch_nextId st" "ch_options (end_scope I i st) = ch_options st"
  "ch_inFlightLimit (end_scope I i st) = ch_inFlightLimit st" "ch_inlineLimit (end_scope I i st) = ch_inlineLimit st"
  "ch_strategy (end_scope I i st) = None \<longleftrightarrow> ch_strategy st = None" "passes (end_scope I i st) = passes st"
  by (auto simp: end_scope_def passes_def fun_eq_iff)

lemma failPending_rest_moves:
  assumes g: "good st" and nx: "nexts_ok st [FailRest i d e msg nx]"
  shows "moves [FailRest i d e msg nx] st (failPending_rest I i d e msg nx st)"
  unfolding failPending_rest_def
  by (rule moves_frame[OF g]) (use nx in \<open>auto simp: end_scope_frame carrier_def\<close>)

lemma reply_rest_moves:
  assumes g: "good st" and nx: "nexts_ok st [ReplyRest i p reply nx]"
  shows "moves [ReplyRest i p reply nx] st (reply_rest I stopped i p reply nx st)"
  unfolding reply_rest_def
  by (rule moves_frame[OF g]) (use nx in \<open>auto simp: end_scope_frame carrier_def case_prod_unfold\<close>)

lemma launch_moves:
  assumes g: "good st" and nx: "nexts_ok st [Launch nx]"
  shows "moves [Launch nx] st (launch stopped nx st)"
proof (cases nx)
  case None
  then show ?thesis by (auto simp: launch_def next_jobs_def carrier_def intro!: moves_frame[OF g])
next
  case (Some q)
  show ?thesis
  proof (cases stopped)
    case False
    have "moves [Launch nx] st ([], [Send (qu_request q) (qu_done q) (qu_onReply q)], st)"
    proof (cases "ch_state st = kStateClosed")
      case True
      then show ?thesis using g Some by (simp add: moves_def same_terms_def stall_free_def next_jobs_def)
    next
      case False
      then have "passes st (qu_request q)" using nx Some by simp
      then show ?thesis using Some by (intro moves_frame[OF g]) (auto simp: carrier_def next_jobs_def)
    qed
    then show ?thesis using False Some by (simp add: launch_def)
  next
    case True
    define st' where "st' = st\<lparr>ch_queued := drop 1 (ch_queued st)\<rparr>"
    define nx' where "nx' = (case ch_queued st of [] \<Rightarrow> None | x # _ \<Rightarrow> Some x)"
    have tq: "takeQueued st = (nx', st')" by (cases "ch_queued st") (simp_all add: takeQueued_def st'_def nx'_def)
    have pass: "passes st' = passes st" by (auto simp: st'_def passes_def fun_eq_iff)
    have "good st'" using g pass unfolding good_def by (auto simp: st'_def dest: in_set_dropD)
    moreover have "same_terms st st'" by (simp add: same_terms_def st'_def)
    moreover have "chan_jobs st = mset (next_jobs nx') + chan_jobs st'"
      by (cases "ch_queued st") (simp_all add: chan_jobs_def st'_def nx'_def next_jobs_def)
    moreover have "nexts_ok st' [Launch nx']"
      using g pass by (auto simp: st'_def nx'_def good_def split: list.splits)
    moreover have "stall_free st' (n + carrying st' [Launch nx'])" if "stall_free st (n + carrying st [Launch nx])" for n
      using that Some by (cases "ch_queued st") (auto simp: stall_free_def st'_def carrier_def nx'_def)
    ultimately have "moves [Launch nx] st ([Finish (qu_done q) (Inr ()) []], [Launch nx'], st')"
      using Some by (simp add: moves_def next_jobs_def)
    then show ?thesis using True Some tq by (simp add: launch_def)
  qed
qed

lemma handleReply_moves:
  assumes g: "good st"
  shows "moves [] st (handleReply I fr st)"
proof -
  have s: "snd (resolve_outputs I rs s) = None \<longleftrightarrow> s = None" for rs s
  proof (induction rs arbitrary: s)
    case (Cons r rs)
    show ?case
      using Cons.IH[of s] Cons.IH[of "Some (snd (ps_receive I (payload_bytes (jr_output r)) (the s)))"]
      by (cases s) (simp_all add: case_prod_unfold)
  qed simp
  show ?thesis
  proof (cases "decodeReply fr")
    case None
    then show ?thesis by (auto simp: handleReply_def intro!: moves_frame[OF g])
  next
    case (Some x)
    obtain i reply where x: "x = (i, reply)" by (cases x)
    obtain reply' s' where r: "resolve_outputs I reply (ch_strategy st) = (reply', s')" by (cases "resolve_outputs I reply (ch_strategy st)")
    have "s' = None \<longleftrightarrow> ch_strategy st = None" using s[of reply "ch_strategy st"] r by simp
    then show ?thesis using Some x r by (auto simp: handleReply_def intro!: moves_frame[OF g])
  qed
qed

lemma good_closed: "ch_pending st' = [] \<Longrightarrow> ch_queued st' = [] \<Longrightarrow> good st'"
  by (simp add: good_def)

lemma handshake_moves:
  assumes g: "good st" and h: "ch_state st \<in> {kIdle, kHandshaking}" and p: "ch_pending st' = []" "ch_queued st' = []"
    and "finished es = []" "jobs_in cs = {#}" "nexts_ok st' cs"
  shows "moves [] st (es, cs, st')"
proof -
  have "ch_pending st = []" "ch_queued st = []" using g h by (auto simp: good_def)
  then show ?thesis using assms good_closed[OF p] by (simp add: moves_def same_terms_def chan_jobs_def stall_free_def)
qed

lemma select_frame: "selectStrategy I ack st = (b, st') \<Longrightarrow> ch_pending st' = ch_pending st \<and> ch_queued st' = ch_queued st"
  by (auto simp: selectStrategy_def Let_def split: list.splits option.splits)

lemma accept_frame: "accept_ack I hello st = (b, st') \<Longrightarrow> ch_pending st' = ch_pending st \<and> ch_queued st' = ch_queued st"
  using select_frame by (fastforce simp: accept_ack_def Let_def split: if_splits prod.splits bool.splits)

lemma handshake_frame_moves:
  assumes g: "good st"
  shows "moves [] st (case handshake_frame I fr st of (es, st') \<Rightarrow> (es, [], st'))"
proof (cases "ch_state st = kHandshaking")
  case False
  then show ?thesis by (auto simp: handshake_frame_def end_connection_def intro!: moves_frame[OF g])
next
  case True
  then have e: "ch_pending st = []" "ch_queued st = []" using g by (auto simp: good_def)
  obtain es st' where r: "handshake_frame I fr st = (es, st')" by (cases "handshake_frame I fr st")
  have "ch_pending st' = [] \<and> ch_queued st' = [] \<and> finished es = []"
    using r e True accept_frame[of I _ st]
    by (fastforce simp: handshake_frame_def end_connection_def split: if_splits option.splits prod.splits bool.splits)
  then show ?thesis using r True by (simp add: handshake_moves[OF g])
qed

lemma onFrameBuffer_moves:
  assumes g: "good st"
  shows "moves [] st (onFrameBuffer I own fr st)"
  using handleReply_moves[OF g] handshake_frame_moves[OF g]
  by (auto simp: onFrameBuffer_def split: option.splits if_splits prod.splits intro!: moves_frame[OF g])

lemma connect_moves:
  assumes g: "good st"
  shows "moves [] st (connect I stream st)"
proof (cases "ch_state st = kIdle")
  case True
  then have e: "ch_pending st = []" "ch_queued st = []" using g by (auto simp: good_def)
  show ?thesis using True e by (auto simp: connect_def Let_def split: prod.splits intro!: handshake_moves[OF g])
next
  case False
  then show ?thesis by (auto simp: connect_def intro!: moves_frame[OF g])
qed

lemma connect_wait_moves:
  assumes g: "good st"
  shows "moves [ConnectWait] st (case connect_wait st of (es, st') \<Rightarrow> (es, [], st'))"
proof (cases "ch_state st = kHandshaking")
  case True
  then have e: "ch_pending st = []" "ch_queued st = []" using g by (auto simp: good_def)
  then have "moves [] st ([Closing, Connected (Inl kConnectTimeout)], [], st\<lparr>ch_state := kStateClosed\<rparr>)"
    using True by (intro handshake_moves[OF g]) simp_all
  then show ?thesis using True by (simp add: connect_wait_def moves_def carrier_def)
next
  case False
  then show ?thesis by (auto simp: connect_wait_def carrier_def intro!: moves_frame[OF g])
qed

lemma onClosed_moves: "moves [] st (case onClosed st of (cs, st') \<Rightarrow> ([], cs, st'))"
  by (simp add: onClosed_def moves_def same_terms_def good_def chan_jobs_def stall_free_def)

lemma onClosed_rest_moves:
  assumes "good st"
  shows "moves [ClosedRest ds] st (onClosed_rest I ds st)" "moves [ClosedLast] st ([], [], onClosed_last st)"
  unfolding onClosed_rest_def onClosed_last_def
  by (rule moves_frame[OF assms]; simp add: carrier_def)+

lemma run_call_moves:
  assumes g: "good st" and ids: "ids_left st" and nx: "nexts_ok st [c]"
    and r: "run_call I deliver ok stopped c st = Some r"
  shows "moves [c] st r"
proof (cases c)
  case (Send request d onReply)
  then show ?thesis using send_enter_moves[OF g ids] r by auto
next
  case (Transfer i request k overrides limit)
  then show ?thesis using transfer_moves[OF g] r by auto
next
  case (Control i request overrides)
  then show ?thesis using control_moves[OF g, of i request overrides ok] r by (auto split: prod.splits)
next
  case (Register i)
  then show ?thesis using register_moves[OF g, of i stopped ok] r by (auto split: prod.splits)
next
  case (FailPending i e msg)
  then show ?thesis using failPending_moves[OF g, of i e msg] r by (auto split: prod.splits)
next
  case (FailRest i d e msg q)
  then show ?thesis using failPending_rest_moves[OF g] nx r by auto
next
  case (Launch q)
  then show ?thesis using launch_moves[OF g] nx r by auto
next
  case (ReplyFound i reply)
  then show ?thesis using reply_found_moves[OF g, of i reply] r by (auto split: prod.splits)
next
  case (ReplyRest i p reply q)
  then show ?thesis using reply_rest_moves[OF g] nx r by auto
next
  case (ClosedRest ds)
  then show ?thesis using onClosed_rest_moves(1)[OF g] r by auto
next
  case ClosedLast
  then show ?thesis using onClosed_rest_moves(2)[OF g] r by auto
next
  case (ConnectSend hello)
  then show ?thesis using r by (auto simp: connect_send_def carrier_def intro!: moves_frame[OF g])
next
  case ConnectWait
  then show ?thesis using connect_wait_moves[OF g] r by (auto split: prod.splits)
qed

section \<open>Every run\<close>

definition channel_inv :: "'s world \<Rightarrow> bool" where
  "channel_inv w \<longleftrightarrow> good (w_channel w) \<and> nexts_ok (w_channel w) (w_calls w)
     \<and> stall_free (w_channel w) (carrying (w_channel w) (w_calls w))
     \<and> mset (w_submitted w) = mset (finished (w_effects w)) + jobs_in (w_calls w) + chan_jobs (w_channel w)"

lemma proceed_inv:
  assumes inv: "channel_inv w" and calls: "jobs_in (w_calls w) = jobs_in c + jobs_in others"
      "nexts_ok (w_channel w) others" "carrying (w_channel w) (w_calls w) = carrying (w_channel w) c + carrying (w_channel w) others"
    and m: "moves c (w_channel w) r"
  shows "channel_inv (proceed w r others)"
proof -
  obtain es cs st' where r: "r = (es, cs, st')" by (cases r)
  let ?st = "w_channel w"
  have mv: "good st'" "same_terms ?st st'" "jobs_in c + chan_jobs ?st = mset (finished es) + jobs_in cs + chan_jobs st'"
      "nexts_ok st' cs" "\<And>n. stall_free ?st (n + carrying ?st c) \<Longrightarrow> stall_free st' (n + carrying st' cs)"
    using m r by (auto simp: moves_def)
  have nx: "nexts_ok st' (others @ cs)" using nexts_ok_same[OF mv(2) calls(2)] mv(4) by simp
  have sf: "stall_free st' (carrying st' others + carrying st' cs)"
  proof (cases "ch_state st' = kConnected \<and> ch_queued st' \<noteq> []")
    case True
    then have t: "(ch_strategy st' = None \<longleftrightarrow> ch_strategy ?st = None) \<and> ch_inlineLimit st' = ch_inlineLimit ?st"
      using mv(2) by (auto simp: same_terms_def)
    have "stall_free ?st (carrying ?st others + carrying ?st c)"
      using inv calls(3) by (simp add: channel_inv_def add.commute)
    then have "stall_free st' (carrying ?st others + carrying st' cs)" by (rule mv(5))
    then show ?thesis using carrying_same[of st' ?st others] t by simp
  qed (auto simp: stall_free_def)
  have "mset (w_submitted w) = mset (finished (w_effects w)) + (jobs_in c + jobs_in others) + chan_jobs ?st"
    using inv calls(1) by (simp add: channel_inv_def)
  also have "\<dots> = mset (finished (w_effects w)) + (jobs_in c + chan_jobs ?st) + jobs_in others" by simp
  also have "\<dots> = mset (finished (w_effects w @ es)) + jobs_in (others @ cs) + chan_jobs st'" by (simp add: mv(3))
  finally have "mset (w_submitted w) = mset (finished (w_effects w @ es)) + jobs_in (others @ cs) + chan_jobs st'" .
  then show ?thesis using mv(1) nx sf by (simp add: channel_inv_def proceed_def r)
qed

lemma finished_cancel: "finished (sendCancel ok i) = []"
  by (simp add: sendCancel_def)

lemma channel_step_inv: "channel_step I w w' \<Longrightarrow> channel_inv w \<Longrightarrow> channel_inv w'"
proof (induction rule: channel_step.induct)
  case (submit w request d onReply)
  then show ?case by (auto simp: channel_inv_def stall_free_def)
next
  case (thread w cs1 c cs2 deliver ok stopped r)
  have g: "good (w_channel w)" "nexts_ok (w_channel w) [c]" "nexts_ok (w_channel w) (cs1 @ cs2)"
    using thread by (auto simp: channel_inv_def)
  show ?case
    by (rule proceed_inv[OF thread.prems _ g(3) _ run_call_moves[OF g(1) thread.hyps(2) g(2) thread.hyps(3)]])
       (simp_all add: thread.hyps(1))
next
  case (frame w own fr)
  then show ?case by (intro proceed_inv[where c = "[]"] onFrameBuffer_moves) (auto simp: channel_inv_def)
next
  case (closed w cs st)
  then show ?case using onClosed_moves[of "w_channel w"] by (intro proceed_inv[where c = "[]"]) (auto simp: channel_inv_def)
next
  case (cancel w ok i)
  then show ?case by (simp add: channel_inv_def finished_cancel)
next
  case (connecting w stream)
  then show ?case by (intro proceed_inv[where c = "[]"] connect_moves) (auto simp: channel_inv_def)
next
  case (allocating w n)
  have "moves [] (w_channel w) ([], [], snd (allocatePayload I n (w_channel w)))"
    using allocating by (intro moves_frame) (auto simp: allocatePayload_def channel_inv_def split: option.splits prod.splits if_splits)
  then have "channel_inv (proceed w ([], [], snd (allocatePayload I n (w_channel w))) (w_calls w))"
    using allocating by (intro proceed_inv[where c = "[]"]) (auto simp: channel_inv_def)
  then show ?case by (simp add: proceed_def)
qed

lemma world_new_inv: "channel_inv (world_new opts)"
  by (simp add: channel_inv_def world_new_def Channel_new_def good_def stall_free_def chan_jobs_def)

interpretation channel: inductive_invariant "\<lambda>w. w = world_new opts" "channel_step I" channel_inv for opts I
  by unfold_locales (auto intro: world_new_inv channel_step_inv)

end
