(* ===== verification/ChannelProperties.thy ===== *)
theory ChannelProperties
  imports ChannelInv
begin

text \<open>
  The promises of \<^verbatim>\<open>RemoteChannel\<close> to its callers: one completion per job, back-pressure within the limits, an exact
  \<^verbatim>\<open>freeCapacity()\<close>; and two places where the code does less than it says.
\<close>

section \<open>Properties\<close>

text \<open>Running the \<open>k\<close>-th thread, for the examples.\<close>

definition run_thread :: "'s StrategyOps \<Rightarrow> bool \<Rightarrow> nat \<Rightarrow> 's world \<Rightarrow> 's world" where
  "run_thread I stopped k w =
     (case run_call I (\<lambda>_. True) True stopped (w_calls w ! k) (w_channel w) of
        None \<Rightarrow> w
      | Some r \<Rightarrow> proceed w r (take k (w_calls w) @ drop (Suc k) (w_calls w)))"

definition submit_job :: "SubGraphRequest \<Rightarrow> nat \<Rightarrow> 's world \<Rightarrow> 's world" where
  "submit_job request d w = w\<lparr>w_calls := w_calls w @ [Send request d False], w_submitted := w_submitted w @ [d]\<rparr>"

abbreviation channel_reach :: "'s ChannelOptions \<Rightarrow> 's StrategyOps \<Rightarrow> 's world \<Rightarrow> bool" where
  "channel_reach opts I \<equiv> reach (\<lambda>w. w = world_new opts) (channel_step I)"

lemma reach_run_thread:
  assumes "channel_reach opts I w" "k < length (w_calls w)" "ids_left (w_channel w)"
  shows "channel_reach opts I (run_thread I stopped k w)"
proof (cases "run_call I (\<lambda>_. True) True stopped (w_calls w ! k) (w_channel w)")
  case None
  then show ?thesis using assms(1) by (simp add: run_thread_def)
next
  case (Some r)
  have "w_calls w = take k (w_calls w) @ w_calls w ! k # drop (Suc k) (w_calls w)" by (rule id_take_nth_drop [OF assms(2)])
  then show ?thesis using reach_step[OF assms(1) channel_step.thread[OF _ assms(3) Some]] Some by (simp add: run_thread_def)
qed

lemma reach_submit: "channel_reach opts I w \<Longrightarrow> channel_reach opts I (submit_job request d w)"
  unfolding submit_job_def by (blast intro: reach_step channel_step.submit)

lemma reach_frame: "channel_reach opts I w \<Longrightarrow> channel_reach opts I (proceed w (onFrameBuffer I own fr (w_channel w)) (w_calls w))"
  by (blast intro: reach_step channel_step.frame)

lemma reach_connect: "channel_reach opts I w \<Longrightarrow> channel_reach opts I (proceed w (connect I stream (w_channel w)) (w_calls w))"
  by (blast intro: reach_step channel_step.connecting)

text \<open>A worker that admits one request and knows no strategies, and a channel with a queue of one.\<close>

definition example_options :: "Stream ChannelOptions" where
  "example_options = \<lparr>op_expectedFingerprint = 0, op_maxInFlight = 1, op_queueCapacity = 1, op_maxInlineBytes = 16, op_strategies = []\<rparr>"

definition example_ops :: "Stream StrategyOps" where "example_ops = stream_ops (\<lambda>_. 0)"

definition example_ack :: bytes where
  "example_ack = encodeHello kHelloAck (Hello_new\<lparr>he_maxInFlight := 1, he_maxInlineBytes := 16\<rparr>)"

definition example_connected :: "Stream world" where
  "example_connected =
     (let w0 = world_new example_options;
          w1 = run_thread example_ops False 0 (proceed w0 (connect example_ops (Stream_new 16) (w_channel w0)) (w_calls w0))
      in run_thread example_ops False 0 (proceed w1 (onFrameBuffer example_ops None example_ack (w_channel w1)) (w_calls w1)))"

definition one_job :: SubGraphRequest where
  "one_job = \<lparr>rq_jobs = [\<lparr>js_kind = \<lparr>jk_name = ''k'', jk_version = 1\<rparr>, js_input = Payload_new, js_exported = False\<rparr>], rq_edges = []\<rparr>"

text \<open>One request in flight, one in the queue.\<close>

definition example_full :: "Stream world" where
  "example_full =
     run_thread example_ops False 0 (submit_job one_job 2
       (run_thread example_ops False 0 (run_thread example_ops False 0 (run_thread example_ops False 0 (submit_job one_job 1 example_connected)))))"

lemma example_ack_facts:
  "frameType example_ack = Some kHelloAck" "decodeHello example_ack = Some (Hello_new\<lparr>he_maxInFlight := 1, he_maxInlineBytes := 16\<rparr>)"
proof -
  have l: "length example_ack < 2 ^ 32"
    by (simp add: example_ack_def hello_frame frame_def enc_strategies_def enc_string_def enc_blob_def Hello_new_def)
  show "frameType example_ack = Some kHelloAck" using l unfolding example_ack_def by (intro frameType_hello) simp_all
  show "decodeHello example_ack = Some (Hello_new\<lparr>he_maxInFlight := 1, he_maxInlineBytes := 16\<rparr>)"
    using l hello_roundtrip_body[of kHelloAck "Hello_new\<lparr>he_maxInFlight := 1, he_maxInlineBytes := 16\<rparr>"]
    unfolding example_ack_def by (simp add: arriving_def Hello_new_def kProtocolMinor_def)
qed

definition example_channel :: "Stream Channel" where
  "example_channel = (Channel_new example_options)\<lparr>ch_state := kConnected, ch_started := True,
     ch_peer := Hello_new\<lparr>he_maxInFlight := 1, he_maxInlineBytes := 16\<rparr>, ch_inFlightLimit := 1, ch_inlineLimit := 16\<rparr>"

lemmas run_defs = run_thread_def proceed_def send_enter_def first_oversize_def oversize_def control_def register_cancel_def
  pending_update_def submit_job_def Let_def

lemma example_connected_eq:
  "w_channel example_connected = example_channel" "w_calls example_connected = []" "w_submitted example_connected = []"
  "finished (w_effects example_connected) = []"
  unfolding example_connected_def
  by (simp_all add: world_new_def example_options_def example_ops_def connect_def stream_ops_def Channel_new_def run_defs connect_send_def
      onFrameBuffer_def handshake_frame_def example_ack_facts accept_ack_def selectStrategy_def connect_wait_def example_channel_def
      Hello_new_def)

lemma example_connected_reach: "channel_reach example_options example_ops example_connected"
proof -
  let ?w0 = "world_new example_options"
  let ?c = "proceed ?w0 (connect example_ops (Stream_new 16) (w_channel ?w0)) (w_calls ?w0)"
  let ?d = "run_thread example_ops False 0 ?c"
  have "channel_reach example_options example_ops ?c" by (intro reach_connect reach_init) simp
  moreover have "0 < length (w_calls ?c)" "ids_left (w_channel ?c)"
    by (simp_all add: world_new_def example_options_def example_ops_def connect_def stream_ops_def Channel_new_def proceed_def ids_left_def)
  ultimately have "channel_reach example_options example_ops ?d" by (rule reach_run_thread)
  then have "channel_reach example_options example_ops (proceed ?d (onFrameBuffer example_ops None example_ack (w_channel ?d)) (w_calls ?d))"
    by (rule reach_frame)
  then show ?thesis unfolding example_connected_def Let_def
    by (rule reach_run_thread)
       (simp_all add: world_new_def example_options_def example_ops_def connect_def stream_ops_def Channel_new_def run_defs connect_send_def
         onFrameBuffer_def handshake_frame_def example_ack_facts accept_ack_def selectStrategy_def Hello_new_def ids_left_def)
qed

definition pending_job :: "nat \<Rightarrow> Pending" where
  "pending_job d = \<lparr>pe_request = one_job, pe_done = d, pe_onReply = False, pe_cancel = True\<rparr>"

definition queued_job :: "nat \<Rightarrow> Queued" where
  "queued_job d = \<lparr>qu_request = one_job, qu_done = d, qu_onReply = False\<rparr>"

lemma one_job_encodes: "\<exists>f. encodeRequest i one_job [] = Some f"
  by (simp add: encodeRequest_def one_job_def kMaxJobs_def input_of_def fits_def Payload_new_def payload_bytes_def)

lemma one_job_small: "\<not> oversize limit (js_input (rq_jobs one_job ! 0))" "length (rq_jobs one_job) = 1"
  by (simp_all add: oversize_def one_job_def Payload_new_def)

lemma example_full_eq:
  "w_channel example_full = example_channel\<lparr>ch_nextId := 2, ch_pending := [(1, pending_job 1)], ch_queued := [queued_job 2]\<rparr>"
  "w_calls example_full = []" "w_submitted example_full = [1, 2]" "finished (w_effects example_full) = []"
proof -
  obtain f where f: "encodeRequest 1 one_job [] = Some f" using one_job_encodes by blast
  have 1: "\<exists>w. run_thread example_ops False 0 (run_thread example_ops False 0 (run_thread example_ops False 0 (submit_job one_job 1 example_connected))) = w
    \<and> w_channel w = example_channel\<lparr>ch_nextId := 2, ch_pending := [(1, pending_job 1)]\<rparr> \<and> w_calls w = [] \<and> w_submitted w = [1]
    \<and> finished (w_effects w) = []"
    by (simp add: run_thread_def submit_job_def proceed_def send_enter_def first_oversize_def example_connected_eq example_channel_def
        Channel_new_def example_options_def one_job_small control_def f register_cancel_def pending_update_def pending_job_def Let_def)
  then obtain w where w: "run_thread example_ops False 0 (run_thread example_ops False 0 (run_thread example_ops False 0 (submit_job one_job 1 example_connected))) = w"
    "w_channel w = example_channel\<lparr>ch_nextId := 2, ch_pending := [(1, pending_job 1)]\<rparr>" "w_calls w = []" "w_submitted w = [1]"
    "finished (w_effects w) = []" by blast
  show "w_channel example_full = example_channel\<lparr>ch_nextId := 2, ch_pending := [(1, pending_job 1)], ch_queued := [queued_job 2]\<rparr>"
    "w_calls example_full = []" "w_submitted example_full = [1, 2]" "finished (w_effects example_full) = []"
    unfolding example_full_def w(1)
    by (simp_all add: w run_thread_def submit_job_def proceed_def send_enter_def first_oversize_def example_channel_def
        Channel_new_def example_options_def one_job_small queued_job_def)
qed

lemma example_full_reach: "channel_reach example_options example_ops example_full"
proof -
  obtain f where f: "encodeRequest 1 one_job [] = Some f" using one_job_encodes by blast
  note defs = run_thread_def submit_job_def proceed_def send_enter_def first_oversize_def example_connected_eq example_channel_def
        Channel_new_def example_options_def one_job_small control_def f register_cancel_def pending_update_def Let_def ids_left_def
  show ?thesis
    unfolding example_full_def
    by (intro reach_run_thread reach_submit example_connected_reach) (simp_all add: defs)
qed

text \<open>
  C29. Every job handed to the channel is completed, and completed once. In every interleaving of submitters, replies, payload
  transfers, failures, cancellations and the loss of the connection, no job is completed twice, none is completed that was not
  submitted, and when the connection is down and every call has returned all of them have been completed.
\<close>

theorem each_job_is_completed_once:
  assumes "channel_reach opts I w"
  shows "mset (finished (w_effects w)) \<subseteq># mset (w_submitted w)
    \<and> (ch_state (w_channel w) \<noteq> kConnected \<and> w_calls w = [] \<longrightarrow> mset (finished (w_effects w)) = mset (w_submitted w))"
proof -
  have inv: "channel_inv w" by (rule channel.reach_inv [OF assms])
  then have m: "mset (w_submitted w) = mset (finished (w_effects w)) + (jobs_in (w_calls w) + chan_jobs (w_channel w))"
    by (simp add: channel_inv_def add.assoc)
  have "chan_jobs (w_channel w) = {#}" if "ch_state (w_channel w) \<noteq> kConnected"
    using inv that by (simp add: channel_inv_def good_def chan_jobs_def)
  then show ?thesis using m by (simp add: mset_subset_eq_add_left)
qed

theorem each_job_is_completed_once_witness:
  "channel_reach example_options example_ops (run_thread example_ops False 0 (submit_job one_job 7 (world_new example_options)))
   \<and> mset (finished (w_effects (run_thread example_ops False 0 (submit_job one_job 7 (world_new example_options))))) = {#7#}"
proof -
  let ?w = "run_thread example_ops False 0 (submit_job one_job 7 (world_new example_options))"
  have f: "w_calls ?w = []" "ch_state (w_channel ?w) = kIdle" "w_submitted ?w = [7]" 
    by (simp_all add: run_thread_def submit_job_def world_new_def Channel_new_def send_enter_def proceed_def)
  have r: "channel_reach example_options example_ops ?w"
    by (intro reach_run_thread reach_submit reach_init)
       (simp_all add: submit_job_def world_new_def Channel_new_def ids_left_def)
  then show ?thesis using each_job_is_completed_once[OF r] f by simp
qed



lemma free_capacity_value:
  assumes p: "length (ch_pending st) \<le> unat (ch_inFlightLimit st)" "length (ch_queued st) \<le> unat (op_queueCapacity (ch_options st))"
    and conn: "ch_state st = kConnected"
    and fit: "unat (ch_inFlightLimit st) + unat (op_queueCapacity (ch_options st)) < 2 ^ 32"
  shows "unat (freeCapacity st) = (unat (ch_inFlightLimit st) - length (ch_pending st))
    + (unat (op_queueCapacity (ch_options st)) - length (ch_queued st))"
proof -
  have room: "unat (if a > word_of_nat k then a - word_of_nat k else 0) = unat a - k" if "k \<le> unat a" for a :: u32 and k
  proof -
    have lt: "unat a < 2 ^ LENGTH(32)" by (rule unsigned_less)
    have k: "unat (word_of_nat k :: u32) = k" using that lt by (simp add: unat_of_nat)
    then have "unat (a - word_of_nat k) = unat a - k" using that by (intro trans[OF unat_sub]) (simp_all add: word_le_nat_alt)
    then show ?thesis using k that by (auto simp: word_less_nat_alt)
  qed
  define x where "x = (if ch_inFlightLimit st > word_of_nat (length (ch_pending st))
    then ch_inFlightLimit st - word_of_nat (length (ch_pending st)) else 0)"
  define y where "y = (if op_queueCapacity (ch_options st) > word_of_nat (length (ch_queued st))
    then op_queueCapacity (ch_options st) - word_of_nat (length (ch_queued st)) else 0)"
  have "unat x = unat (ch_inFlightLimit st) - length (ch_pending st)" "unat y = unat (op_queueCapacity (ch_options st)) - length (ch_queued st)"
    unfolding x_def y_def by (rule room[OF p(1)], rule room[OF p(2)])
  moreover have "freeCapacity st = x + y" using conn by (simp add: freeCapacity_def x_def y_def)
  ultimately show ?thesis using fit by (simp add: unat_word_ariths)
qed



section \<open>An accepted request that is refused after all\<close>

text \<open>
  A request leaves the queue before it takes the place that was freed. If other submissions take the place and the queue slot in
  between, the request that was waiting is completed with \<^verbatim>\<open>kBusy\<close>, although it was accepted.
\<close>

definition done_reply :: SubGraphReply where
  "done_reply = [JobResult_new\<lparr>jr_status := status_code kDone\<rparr>]"

lemma done_reply_frame:
  "frameType (encodeReply 1 done_reply []) = Some kReply" "decodeReply (encodeReply 1 done_reply []) = Some (1, done_reply)"
proof -
  have l: "length (encodeReply 1 done_reply []) < 2 ^ 32"
    by (simp add: encodeReply_def fold_results w_simps finish_frame frame_def done_reply_def w_result_def enc_result_def sent_result_def output_of_def
        JobResult_new_def Payload_new_def enc_string_def enc_payload_def enc_blob_def payload_bytes_def owned_def)
  show "frameType (encodeReply 1 done_reply []) = Some kReply" by (rule frameType_reply [OF l])
  show "decodeReply (encodeReply 1 done_reply []) = Some (1, done_reply)"
    using reply_roundtrip_body[OF l]
    by (simp add: done_reply_def kMaxJobs_def payload_ok_def output_of_def JobResult_new_def Payload_new_def sendable_def payload_bytes_def
        sent_result_def owned_def fits_def)
qed


lemma waiting_request_can_be_refused:
  "\<exists>w. channel_reach example_options example_ops w
     \<and> Finish 2 (Inl (error_code kBusy)) ''remote channel at capacity'' \<in> set (w_effects w)"
proof -
  let ?st = example_channel
  note chan = example_channel_def Channel_new_def example_options_def
  note run = run_thread_def submit_job_def proceed_def send_enter_def first_oversize_def one_job_small Let_def
  define w0 where "w0 = proceed example_full (onFrameBuffer example_ops None (encodeReply 1 done_reply []) (w_channel example_full)) (w_calls example_full)"
  have r0: "channel_reach example_options example_ops w0" unfolding w0_def by (rule reach_frame [OF example_full_reach])
  have s0: "w_channel w0 = ?st\<lparr>ch_nextId := 2, ch_pending := [(1, pending_job 1)], ch_queued := [queued_job 2]\<rparr>" "w_calls w0 = [ReplyFound 1 done_reply]"
    by (simp_all add: w0_def proceed_def onFrameBuffer_def handleReply_def done_reply_frame example_full_eq chan)
       (simp_all add: done_reply_def JobResult_new_def Payload_new_def)
  define w1 where "w1 = run_thread example_ops False 0 w0"
  have r1: "channel_reach example_options example_ops w1"
    unfolding w1_def by (rule reach_run_thread [OF r0]) (simp_all add: s0 ids_left_def)
  have s1: "w_channel w1 = ?st\<lparr>ch_nextId := 2\<rparr>" "w_calls w1 = [ReplyRest 1 (pending_job 1) done_reply (Some (queued_job 2))]"
    by (simp_all add: w1_def run_thread_def proceed_def s0 reply_found_def takeQueued_def pending_erase_def chan)
  define w2 where "w2 = run_thread example_ops False 1 (submit_job one_job 3 w1)"
  have r2: "channel_reach example_options example_ops w2"
    unfolding w2_def by (rule reach_run_thread [OF reach_submit [OF r1]]) (simp_all add: submit_job_def s1 ids_left_def)
  have s2: "w_channel w2 = ?st\<lparr>ch_nextId := 3, ch_pending := [(2, (pending_job 3)\<lparr>pe_cancel := False\<rparr>)]\<rparr>"
      "w_calls w2 = [ReplyRest 1 (pending_job 1) done_reply (Some (queued_job 2)), Control 2 one_job []]"
    by (simp_all add: w2_def run s1 chan pending_job_def)
  define w3 where "w3 = run_thread example_ops False 2 (submit_job one_job 4 w2)"
  have r3: "channel_reach example_options example_ops w3"
    unfolding w3_def by (rule reach_run_thread [OF reach_submit [OF r2]]) (simp_all add: submit_job_def s2 ids_left_def)
  have s3: "w_channel w3 = ?st\<lparr>ch_nextId := 3, ch_pending := [(2, (pending_job 3)\<lparr>pe_cancel := False\<rparr>)], ch_queued := [queued_job 4]\<rparr>"
      "w_calls w3 = [ReplyRest 1 (pending_job 1) done_reply (Some (queued_job 2)), Control 2 one_job []]"
    by (simp_all add: w3_def run s2 chan queued_job_def)
  define w4 where "w4 = run_thread example_ops False 0 w3"
  have r4: "channel_reach example_options example_ops w4"
    unfolding w4_def by (rule reach_run_thread [OF r3]) (simp_all add: s3 ids_left_def)
  have s4: "w_channel w4 = w_channel w3" "w_calls w4 = [Control 2 one_job [], Launch (Some (queued_job 2))]"
    by (simp_all add: w4_def run_thread_def proceed_def s3 reply_rest_def end_scope_def chan)
  define w5 where "w5 = run_thread example_ops False 1 w4"
  have r5: "channel_reach example_options example_ops w5"
    unfolding w5_def by (rule reach_run_thread [OF r4]) (simp_all add: s4 s3 ids_left_def)
  have s5: "w_channel w5 = w_channel w3" "w_calls w5 = [Control 2 one_job [], Send one_job 2 False]"
    by (simp_all add: w5_def run_thread_def proceed_def s4 launch_def queued_job_def)
  define w6 where "w6 = run_thread example_ops False 1 w5"
  have r6: "channel_reach example_options example_ops w6"
    unfolding w6_def by (rule reach_run_thread [OF r5]) (simp_all add: s5 s3 ids_left_def)
  have "Finish 2 (Inl (error_code kBusy)) ''remote channel at capacity'' \<in> set (w_effects w6)"
    by (simp add: w6_def run s5 s3 chan)
  then show ?thesis using r6 by blast
qed

text \<open>A hello-ack that does not decode leaves no reason behind: \<^verbatim>\<open>connect\<close> reports a closed transport.\<close>

lemma malformed_ack_reported_as_closed:
  assumes "ch_state st = kHandshaking" "ch_rejected st = None" "frameType fr = Some kHelloAck" "decodeHello fr = None"
  shows "fst (connect_wait (snd (handshake_frame I fr st))) = [Connected (Inl kTransportClosed)]"
  using assms by (simp add: handshake_frame_def end_connection_def connect_wait_def)

end
