(* ===== verification/Schedule.thy ===== *)
theory Schedule
  imports PipelineTypes "HOL-Library.Multiset"
begin

text \<open>
  Threaded execution of one run: \<^verbatim>\<open>DispatchContext\<close> of \<^verbatim>\<open>Pipeline::runImpl\<close> in
  \<^verbatim>\<open>src/sub0pipeline.cpp\<close> with any number of executor threads. A \<open>task\<close> is the point a thread has
  reached inside the context's functions; one step runs one thread up to its next access to shared
  state (an atomic of a node, \<^verbatim>\<open>completedCount_\<close>, the state under \<^verbatim>\<open>fatalMtx\<close> or \<^verbatim>\<open>skipMutex\<close>, an
  observer call). What the job bodies return and whether the executor accepts a submission are
  choices of the environment. The theorems hold for every interleaving.
\<close>

section \<open>Model\<close>

text \<open>
  The immutable graph of a run. \<open>dg_preds\<close> is \<^verbatim>\<open>predecessorCount_\<close>; \<open>dag_ok\<close> states what the builder
  API and \<^verbatim>\<open>validate\<close> establish before a run starts.
\<close>

record dag =
  dg_n :: nat
  dg_succs :: "nat \<Rightarrow> nat list"
  dg_preds :: "nat \<Rightarrow> u32"
  dg_optional :: "nat \<Rightarrow> bool"
  dg_deferred :: "nat \<Rightarrow> bool"
  dg_onDemand :: "nat \<Rightarrow> bool"

definition edges :: "dag \<Rightarrow> (nat \<times> nat) set" where
  "edges g = {(i, j). i < dg_n g \<and> j \<in> set (dg_succs g i)}"

definition dag_ok :: "dag \<Rightarrow> bool" where
  "dag_ok g \<longleftrightarrow> dg_n g \<le> 65536
     \<and> (\<forall>i<dg_n g. set (dg_succs g i) \<subseteq> {..<dg_n g})
     \<and> (\<forall>j<dg_n g. unat (dg_preds g j) = (\<Sum>i<dg_n g. count_list (dg_succs g i) j))
     \<and> acyclic (edges g)"

text \<open>The observer calls a run makes, in order. \<open>Finished\<close> carries the completed count that
  \<^verbatim>\<open>progress\<close> is computed from.\<close>

datatype event =
    Started nat
  | Awaited nat
  | Finished nat JobStatus u32
  | Failure nat PipelineError string
  | Dependencies nat "nat list"

definition notifyDependencies :: "dag \<Rightarrow> nat \<Rightarrow> event list" where
  "notifyDependencies g i = (if dg_succs g i = [] then [] else [Dependencies i (dg_succs g i)])"

text \<open>
  Shared state of the run: the nodes' atomics, the counters, \<^verbatim>\<open>hasFatalFailure\<close> with \<^verbatim>\<open>fatalError\<close> and
  the job whose name went to \<^verbatim>\<open>failedJobName_\<close>, and the skip queue with its lock.
\<close>

record sched =
  sc_status :: "nat \<Rightarrow> JobStatus"
  sc_unmet :: "nat \<Rightarrow> u32"
  sc_completed :: u32
  sc_fatal :: "(nat \<times> PipelineError) option"
  sc_skipped :: "nat list"
  sc_skipRead :: nat
  sc_draining :: bool
  sc_locked :: bool
  sc_trace :: "event list"

text \<open>
  Program points. \<open>Root_loop\<close> is the run thread submitting roots; \<open>Dispatch\<close>, \<open>Claim\<close> and \<open>Body\<close> are
  \<^verbatim>\<open>dispatchJob\<close> before the failure check, before the claim and inside the job; \<open>Stored\<close>, \<open>Record\<close>,
  \<open>Release\<close>, \<open>Decrement\<close>, \<open>Make_ready\<close> and \<open>Submit\<close> are \<^verbatim>\<open>finishJob\<close>; \<open>Submission_failed\<close>,
  \<open>Submission_record\<close> and \<open>Submission_report\<close> are \<^verbatim>\<open>submissionFailed\<close>; \<open>Skip_all\<close> is a loop of
  \<^verbatim>\<open>skipNode\<close> calls, \<open>Skip_node\<close> one call that continues with the given task, and \<open>Drain\<close>, \<open>Enqueue\<close>,
  \<open>Report_skip\<close>, \<open>Relock\<close> are the loop of the call that drains the skip queue.
\<close>

datatype task =
    Root_loop "nat list"
  | Dispatch nat
  | Claim nat
  | Body nat
  | Stored nat "unit expected" string
  | Record nat PipelineError string
  | Release nat "nat list"
  | Decrement nat nat "nat list"
  | Make_ready nat nat "nat list"
  | Submit nat nat "nat list"
  | Submission_failed nat
  | Submission_record nat bool
  | Submission_report nat
  | Skip_all "nat list"
  | Skip_node nat task
  | Drain task
  | Enqueue nat "nat list" task
  | Report_skip nat u32 task
  | Relock task

definition set_status :: "nat \<Rightarrow> JobStatus \<Rightarrow> sched \<Rightarrow> sched" where
  "set_status i st s = s\<lparr>sc_status := (sc_status s)(i := st)\<rparr>"

definition emit :: "event list \<Rightarrow> sched \<Rightarrow> sched" where
  "emit es s = s\<lparr>sc_trace := sc_trace s @ es\<rparr>"

definition record_first :: "nat \<Rightarrow> PipelineError \<Rightarrow> sched \<Rightarrow> sched" where
  "record_first i e s = (if sc_fatal s = None then s\<lparr>sc_fatal := Some (i, e)\<rparr> else s)"

definition claim_skip :: "nat \<Rightarrow> sched \<Rightarrow> sched" where
  "claim_skip i s =
     (if sc_status s i \<in> {kPending, kReady}
      then (set_status i kSkipped s)\<lparr>sc_skipped := sc_skipped s @ [i]\<rparr> else s)"

definition fetch_sub :: "nat \<Rightarrow> sched \<Rightarrow> sched" where
  "fetch_sub j s = s\<lparr>sc_unmet := (sc_unmet s)(j := sc_unmet s j - 1)\<rparr>"

definition report_finish :: "dag \<Rightarrow> nat \<Rightarrow> JobStatus \<Rightarrow> sched \<Rightarrow> sched" where
  "report_finish g i st s =
     emit (Finished i st (sc_completed s + 1) # notifyDependencies g i)
       (s\<lparr>sc_completed := sc_completed s + 1\<rparr>)"

definition report_submission :: "dag \<Rightarrow> nat \<Rightarrow> sched \<Rightarrow> sched" where
  "report_submission g i s =
     emit (Finished i kFailed (sc_completed s + 1) # Failure i kJobFailed [] # notifyDependencies g i)
       (s\<lparr>sc_completed := sc_completed s + 1\<rparr>)"

text \<open>A result that stops the run: any failure of a required job, and every cancellation.\<close>

definition fatal_result :: "dag \<Rightarrow> nat \<Rightarrow> unit expected \<Rightarrow> bool" where
  "fatal_result g i r \<longleftrightarrow> r \<noteq> Inr () \<and> (\<not> dg_optional g i \<or> r = Inl kCancelled)"

text \<open>
  One step of one thread: the shared state afterwards and the tasks that replace the thread's task.
  A job body returns any result, a deferred job may be reported as awaiting first, and the executor
  accepts or rejects each submission; everything else is determined by the state.
\<close>

inductive exec_task :: "dag \<Rightarrow> sched \<Rightarrow> task \<Rightarrow> sched \<Rightarrow> task list \<Rightarrow> bool" for g where
  root_end: "exec_task g s (Root_loop []) s []"
| root_skip: "sc_fatal s \<noteq> None \<Longrightarrow>
    exec_task g s (Root_loop (i # is)) s [Skip_node i (Root_loop is)]"
| root_accept: "sc_fatal s = None \<Longrightarrow>
    exec_task g s (Root_loop (i # is)) s [Dispatch i, Root_loop is]"
| root_reject: "sc_fatal s = None \<Longrightarrow>
    exec_task g s (Root_loop (i # is)) s [Submission_failed i]"
| dispatch_skip: "sc_fatal s \<noteq> None \<Longrightarrow> exec_task g s (Dispatch i) s [Skip_node i (Skip_all [])]"
| dispatch_go: "sc_fatal s = None \<Longrightarrow> exec_task g s (Dispatch i) s [Claim i]"
| claim: "sc_status s i = kReady \<Longrightarrow>
    exec_task g s (Claim i) (emit [Started i] (set_status i kRunning s)) [Body i]"
| claim_lost: "sc_status s i \<noteq> kReady \<Longrightarrow> exec_task g s (Claim i) s []"
| await: "dg_deferred g i \<Longrightarrow> sc_status s i = kRunning \<Longrightarrow>
    exec_task g s (Body i) (emit [Awaited i] (set_status i kAwaiting s)) [Body i]"
| body_return: "exec_task g s (Body i) (set_status i (statusOf r) s) [Stored i r text]"
| stored_fatal: "fatal_result g i (Inl e) \<Longrightarrow>
    exec_task g s (Stored i (Inl e) text) (report_finish g i (statusOf (Inl e)) s) [Record i e text]"
| stored_pass: "\<not> fatal_result g i r \<Longrightarrow>
    exec_task g s (Stored i r text) (report_finish g i (statusOf r) s) [Release i (dg_succs g i)]"
| record_error: "exec_task g s (Record i e text) (record_first i e (emit [Failure i e text] s))
    [Skip_all (dg_succs g i)]"
| release_end: "exec_task g s (Release i []) s []"
| release_skip: "sc_fatal s \<noteq> None \<Longrightarrow>
    exec_task g s (Release i (j # js)) s [Skip_node j (Release i js)]"
| release_go: "sc_fatal s = None \<Longrightarrow> exec_task g s (Release i (j # js)) s [Decrement i j js]"
| decrement_last: "sc_unmet s j - 1 = 0 \<Longrightarrow>
    exec_task g s (Decrement i j js) (fetch_sub j s) [Make_ready i j js]"
| decrement: "sc_unmet s j - 1 \<noteq> 0 \<Longrightarrow>
    exec_task g s (Decrement i j js) (fetch_sub j s) [Release i js]"
| make_ready: "sc_status s j = kPending \<Longrightarrow>
    exec_task g s (Make_ready i j js) (set_status j kReady s) [Submit i j js]"
| make_ready_lost: "sc_status s j \<noteq> kPending \<Longrightarrow>
    exec_task g s (Make_ready i j js) s [Release i js]"
| submit_accept: "exec_task g s (Submit i j js) s [Dispatch j, Release i js]"
| submit_reject: "exec_task g s (Submit i j js) s [Submission_failed j]"
| submission_failed: "sc_status s i = kReady \<Longrightarrow>
    exec_task g s (Submission_failed i) (set_status i kFailed s) [Submission_record i True]"
| submission_lost: "sc_status s i \<noteq> kReady \<Longrightarrow>
    exec_task g s (Submission_failed i) s [Submission_record i False]"
| submission_record: "exec_task g s (Submission_record i failed) (record_first i kJobFailed s)
    (if failed then [Submission_report i] else [Skip_all [0..<dg_n g]])"
| submission_report: "exec_task g s (Submission_report i) (report_submission g i s)
    [Skip_all [0..<dg_n g]]"
| skip_end: "exec_task g s (Skip_all []) s []"
| skip_next: "exec_task g s (Skip_all (j # js)) s [Skip_node j (Skip_all js)]"
| skip_join: "\<not> sc_locked s \<Longrightarrow> sc_draining s \<Longrightarrow>
    exec_task g s (Skip_node i k) (claim_skip i s) [k]"
| skip_drain: "\<not> sc_locked s \<Longrightarrow> \<not> sc_draining s \<Longrightarrow>
    exec_task g s (Skip_node i k) ((claim_skip i s)\<lparr>sc_draining := True, sc_locked := True\<rparr>) [Drain k]"
| drain_next: "sc_skipRead s < length (sc_skipped s) \<Longrightarrow> idx = sc_skipped s ! sc_skipRead s \<Longrightarrow>
    exec_task g s (Drain k) (s\<lparr>sc_skipRead := sc_skipRead s + 1\<rparr>) [Enqueue idx (dg_succs g idx) k]"
| drain_end: "\<not> sc_skipRead s < length (sc_skipped s) \<Longrightarrow>
    exec_task g s (Drain k) (s\<lparr>sc_draining := False, sc_locked := False\<rparr>) [k]"
| enqueue: "exec_task g s (Enqueue i (j # js) k) (claim_skip j s) [Enqueue i js k]"
| enqueue_end: "exec_task g s (Enqueue i [] k)
    (s\<lparr>sc_completed := sc_completed s + 1, sc_locked := False\<rparr>) [Report_skip i (sc_completed s + 1) k]"
| report_skip: "exec_task g s (Report_skip i done k)
    (emit (Finished i kSkipped done # notifyDependencies g i) s) [Relock k]"
| relock: "\<not> sc_locked s \<Longrightarrow> exec_task g s (Relock k) (s\<lparr>sc_locked := True\<rparr>) [Drain k]"

type_synonym state = "sched \<times> task multiset"

inductive step :: "dag \<Rightarrow> state \<Rightarrow> state \<Rightarrow> bool" for g where
  step: "exec_task g s t s' ts \<Longrightarrow> step g (s, add_mset t M) (s', mset ts + M)"

definition roots :: "dag \<Rightarrow> nat list" where
  "roots g = filter (\<lambda>i. dg_preds g i = 0 \<and> \<not> dg_onDemand g i) [0..<dg_n g]"

definition initial :: "dag \<Rightarrow> sched" where
  "initial g =
     \<lparr>sc_status = (\<lambda>i. if dg_preds g i = 0 \<and> \<not> dg_onDemand g i then kReady else kPending),
      sc_unmet = dg_preds g, sc_completed = 0, sc_fatal = None, sc_skipped = [], sc_skipRead = 0,
      sc_draining = False, sc_locked = False, sc_trace = []\<rparr>"

text \<open>A run starts with the run thread at its root loop and is over when no thread is left in it.\<close>

definition start :: "dag \<Rightarrow> state \<Rightarrow> bool" where
  "start g x \<longleftrightarrow> x = (initial g, {#Root_loop (roots g)#})"

definition run_result :: "sched \<Rightarrow> unit expected" where
  "run_result s = (case sc_fatal s of None \<Rightarrow> Inr () | Some (_, e) \<Rightarrow> Inl e)"

section \<open>What the tasks still owe\<close>

text \<open>
  The invariant is stated with a few readings of the task multiset: who runs a job's body, who holds
  the skip lock, which finish is not reported yet, which decrements and skips are outstanding.
\<close>

definition total :: "(task \<Rightarrow> nat) \<Rightarrow> task multiset \<Rightarrow> nat" where
  "total f M = (\<Sum>t\<in>#M. f t)"

lemma total_simps [simp]:
  "total f {#} = 0" "total f (add_mset t M) = f t + total f M" "total f (A + B) = total f A + total f B"
  by (simp_all add: total_def)

lemma total_pos: "total f M > 0 \<longleftrightarrow> (\<exists>t\<in>#M. f t > 0)"
  by (induction M) auto

named_theorems sched_defs \<open>state updates of the scheduler\<close>
declare set_status_def [sched_defs] emit_def [sched_defs] record_first_def [sched_defs]
  claim_skip_def [sched_defs] fetch_sub_def [sched_defs] report_finish_def [sched_defs]
  report_submission_def [sched_defs]

fun in_range :: "nat \<Rightarrow> task \<Rightarrow> bool" where
  "in_range n (Root_loop is) \<longleftrightarrow> set is \<subseteq> {..<n}"
| "in_range n (Dispatch i) \<longleftrightarrow> i < n"
| "in_range n (Claim i) \<longleftrightarrow> i < n"
| "in_range n (Body i) \<longleftrightarrow> i < n"
| "in_range n (Stored i r text) \<longleftrightarrow> i < n"
| "in_range n (Record i e text) \<longleftrightarrow> i < n"
| "in_range n (Release i js) \<longleftrightarrow> i < n \<and> set js \<subseteq> {..<n}"
| "in_range n (Decrement i j js) \<longleftrightarrow> i < n \<and> j < n \<and> set js \<subseteq> {..<n}"
| "in_range n (Make_ready i j js) \<longleftrightarrow> i < n \<and> j < n \<and> set js \<subseteq> {..<n}"
| "in_range n (Submit i j js) \<longleftrightarrow> i < n \<and> j < n \<and> set js \<subseteq> {..<n}"
| "in_range n (Submission_failed i) \<longleftrightarrow> i < n"
| "in_range n (Submission_record i failed) \<longleftrightarrow> i < n"
| "in_range n (Submission_report i) \<longleftrightarrow> i < n"
| "in_range n (Skip_all js) \<longleftrightarrow> set js \<subseteq> {..<n}"
| "in_range n (Skip_node j k) \<longleftrightarrow> j < n \<and> in_range n k"
| "in_range n (Drain k) \<longleftrightarrow> in_range n k"
| "in_range n (Enqueue i js k) \<longleftrightarrow> i < n \<and> set js \<subseteq> {..<n} \<and> in_range n k"
| "in_range n (Report_skip i d k) \<longleftrightarrow> i < n \<and> in_range n k"
| "in_range n (Relock k) \<longleftrightarrow> in_range n k"

text \<open>Continuations of a skip are loops: \<open>simple\<close> tasks, which hold no body and no lock.\<close>

fun simple :: "task \<Rightarrow> bool" where
  "simple (Root_loop is) = True"
| "simple (Release i js) = True"
| "simple (Skip_all js) = True"
| "simple _ = False"

fun nested :: "task \<Rightarrow> bool" where
  "nested (Skip_node j k) = simple k"
| "nested (Drain k) = simple k"
| "nested (Enqueue i js k) = simple k"
| "nested (Report_skip i d k) = simple k"
| "nested (Relock k) = simple k"
| "nested _ = True"

fun body :: "nat \<Rightarrow> task \<Rightarrow> nat" where
  "body i (Body i') = of_bool (i = i')"
| "body i _ = 0"

fun drainer :: "task \<Rightarrow> nat" where
  "drainer (Drain k) = 1"
| "drainer (Enqueue i js k) = 1"
| "drainer (Report_skip i d k) = 1"
| "drainer (Relock k) = 1"
| "drainer _ = 0"

fun holder :: "task \<Rightarrow> nat" where
  "holder (Drain k) = 1"
| "holder (Enqueue i js k) = 1"
| "holder _ = 0"

fun unreported :: "nat \<Rightarrow> task \<Rightarrow> nat" where
  "unreported i (Stored i' r text) = of_bool (i = i')"
| "unreported i (Submission_record i' failed) = of_bool (i = i' \<and> failed)"
| "unreported i (Submission_report i') = of_bool (i = i')"
| "unreported i (Enqueue i' js k) = of_bool (i = i')"
| "unreported i (Report_skip i' d k) = of_bool (i = i')"
| "unreported i _ = 0"

fun counted :: "task \<Rightarrow> nat" where
  "counted (Report_skip i d k) = 1"
| "counted _ = 0"

fun finishes :: "event \<Rightarrow> bool" where
  "finishes (Finished i st d) = True"
| "finishes _ = False"

fun finish_of :: "nat \<Rightarrow> event \<Rightarrow> bool" where
  "finish_of i (Finished i' st d) \<longleftrightarrow> i = i'"
| "finish_of i _ \<longleftrightarrow> False"

definition finish_count :: "event list \<Rightarrow> nat \<Rightarrow> nat" where
  "finish_count tr i = length (filter (finish_of i) tr)"

lemma finish_count_simps [simp]:
  "finish_count [] i = 0"
  "finish_count (tr @ tr') i = finish_count tr i + finish_count tr' i"
  "finish_count (e # tr) i = of_bool (finish_of i e) + finish_count tr i"
  "finish_count (notifyDependencies g k) i = 0"
  by (simp_all add: finish_count_def notifyDependencies_def)

lemma finishes_notify [simp]: "filter finishes (notifyDependencies g k) = []"
  by (simp add: notifyDependencies_def)

lemma notify_mem [simp]:
  "Started i \<notin> set (notifyDependencies g k)" "Finished i st d \<notin> set (notifyDependencies g k)"
  "Awaited i \<notin> set (notifyDependencies g k)" "Failure i e text \<notin> set (notifyDependencies g k)"
  by (simp_all add: notifyDependencies_def)

section \<open>The invariant, clause by clause\<close>

definition inv_range :: "dag \<Rightarrow> state \<Rightarrow> bool" where
  "inv_range g = (\<lambda>(s, M). (\<forall>t\<in>#M. in_range (dg_n g) t \<and> nested t)
     \<and> set (sc_skipped s) \<subseteq> {..<dg_n g} \<and> sc_skipRead s \<le> length (sc_skipped s))"

definition inv_body :: "nat \<Rightarrow> state \<Rightarrow> bool" where
  "inv_body i = (\<lambda>(s, M). total (body i) M = of_bool (sc_status s i = kRunning \<or> sc_status s i = kAwaiting))"

definition inv_lock :: "state \<Rightarrow> bool" where
  "inv_lock = (\<lambda>(s, M). total drainer M = of_bool (sc_draining s)
     \<and> total holder M = of_bool (sc_locked s)
     \<and> (sc_skipRead s < length (sc_skipped s) \<longrightarrow> sc_draining s))"

definition inv_report :: "nat \<Rightarrow> state \<Rightarrow> bool" where
  "inv_report i = (\<lambda>(s, M). of_bool (terminal (sc_status s i)) =
     finish_count (sc_trace s) i + total (unreported i) M
     + count_list (drop (sc_skipRead s) (sc_skipped s)) i)"

lemma dag_ok_succs: "dag_ok g \<Longrightarrow> i < dg_n g \<Longrightarrow> j \<in> set (dg_succs g i) \<Longrightarrow> j < dg_n g"
  by (auto simp: dag_ok_def)

lemma simple_zero [simp]:
  assumes "simple t"
  shows "body i t = 0" "drainer t = 0" "holder t = 0" "unreported i t = 0" "counted t = 0" "nested t"
  using assms by (cases t; simp)+

lemma nth_lessThan: "set xs \<subseteq> {..<n} \<Longrightarrow> k < length xs \<Longrightarrow> xs ! k < n" for n :: nat
  using nth_mem by blast

lemma step_range:
  assumes "exec_task g s t s' ts" "dag_ok g" "inv_range g (s, add_mset t M)"
  shows "inv_range g (s', mset ts + M)"
  using assms(1,3) dag_ok_succs [OF assms(2)]
  by cases (auto simp: inv_range_def sched_defs nth_lessThan dest: nth_lessThan)

lemma step_body:
  assumes "exec_task g s t s' ts" "inv_range g (s, add_mset t M)" "inv_body x (s, add_mset t M)"
  shows "inv_body x (s', mset ts + M)"
  using assms
  by cases (auto simp: inv_body_def inv_range_def sched_defs of_bool_def split: if_splits)

lemma step_lock:
  assumes "exec_task g s t s' ts" "inv_range g (s, add_mset t M)" "inv_lock (s, add_mset t M)"
  shows "inv_lock (s', mset ts + M)"
  using assms
  by cases (auto simp: inv_lock_def inv_range_def sched_defs of_bool_def split: if_splits)

lemma count_list_drop_next:
  "k < length xs \<Longrightarrow> count_list (drop k xs) i = of_bool (xs ! k = i) + count_list (drop (Suc k) xs) i"
  by (simp flip: Cons_nth_drop_Suc)

lemma body_running:
  "inv_body i (s, add_mset (Body i) M) \<Longrightarrow> sc_status s i = kRunning \<or> sc_status s i = kAwaiting"
  by (auto simp: inv_body_def of_bool_def split: if_splits)

lemma step_report:
  assumes "exec_task g s t s' ts" "inv_range g (s, add_mset t M)" "inv_body x (s, add_mset t M)"
    "inv_report x (s, add_mset t M)"
  shows "inv_report x (s', mset ts + M)"
  using assms(1)
proof cases
  case (body_return i r m)
  then show ?thesis
    using assms(3,4) body_running [of x s M] by (auto simp: inv_report_def sched_defs)
qed (use assms(2-4) in \<open>auto simp: inv_report_def inv_range_def sched_defs count_list_drop_next
       of_bool_def split: if_splits\<close>)

definition inv_count :: "state \<Rightarrow> bool" where
  "inv_count = (\<lambda>(s, M). sc_completed s =
     word_of_nat (length (filter finishes (sc_trace s)) + total counted M))"

lemma step_count:
  assumes "exec_task g s t s' ts" "inv_range g (s, add_mset t M)" "inv_count (s, add_mset t M)"
  shows "inv_count (s', mset ts + M)"
  using assms
  by cases (auto simp: inv_count_def inv_range_def sched_defs)

text \<open>A finished job's status lets its successors go on exactly when its result was not fatal.\<close>

definition pass :: "dag \<Rightarrow> nat \<Rightarrow> JobStatus \<Rightarrow> bool" where
  "pass g i st \<longleftrightarrow> st = kDone \<or> dg_optional g i \<and> (st = kFailed \<or> st = kTimedOut)"

lemma pass_statusOf: "pass g i (statusOf r) \<longleftrightarrow> \<not> fatal_result g i r"
  by (auto simp: pass_def fatal_result_def statusOf_def split: sum.splits PipelineError.splits)

lemma pass_simps [simp]: "pass g i kDone" "\<not> pass g i kSkipped" "\<not> pass g i kCancelledStatus"
  by (simp_all add: pass_def)

lemma terminal_stable:
  assumes "exec_task g s t s' ts" "inv_body x (s, add_mset t M)" "terminal (sc_status s x)"
  shows "sc_status s' x = sc_status s x"
  using assms(1)
  by cases (use assms(2,3) body_running [of x s M] in \<open>auto simp: sched_defs\<close>)

lemma fatal_stable: "exec_task g s t s' ts \<Longrightarrow> sc_fatal s = Some x \<Longrightarrow> sc_fatal s' = Some x"
  by (induction rule: exec_task.induct) (auto simp: sched_defs)

definition inv_fin :: "nat \<Rightarrow> state \<Rightarrow> bool" where
  "inv_fin i = (\<lambda>(s, M). \<forall>st d. Finished i st d \<in> set (sc_trace s) \<longrightarrow> sc_status s i = st \<and> terminal st)"

text \<open>What each program point knows about the status of its job and about the run's failure.\<close>

fun task_fact :: "sched \<Rightarrow> task \<Rightarrow> bool" where
  "task_fact s (Stored i r m) \<longleftrightarrow> sc_status s i = statusOf r"
| "task_fact s (Record i e m) \<longleftrightarrow> sc_status s i = statusOf (Inl e)"
| "task_fact s (Submission_record i failed) \<longleftrightarrow>
     (if failed then sc_status s i = kFailed else sc_fatal s \<noteq> None)"
| "task_fact s (Submission_report i) \<longleftrightarrow> sc_status s i = kFailed \<and> sc_fatal s \<noteq> None"
| "task_fact s (Skip_all js) \<longleftrightarrow> sc_fatal s \<noteq> None"
| "task_fact s (Skip_node j k) \<longleftrightarrow> sc_fatal s \<noteq> None"
| "task_fact s (Drain k) \<longleftrightarrow> sc_fatal s \<noteq> None"
| "task_fact s (Enqueue i js k) \<longleftrightarrow> sc_status s i = kSkipped \<and> sc_fatal s \<noteq> None"
| "task_fact s (Report_skip i d k) \<longleftrightarrow> sc_status s i = kSkipped \<and> sc_fatal s \<noteq> None"
| "task_fact s (Relock k) \<longleftrightarrow> sc_fatal s \<noteq> None"
| "task_fact s _ \<longleftrightarrow> True"

definition inv_fact :: "state \<Rightarrow> bool" where
  "inv_fact = (\<lambda>(s, M). (\<forall>t\<in>#M. task_fact s t)
     \<and> (\<forall>i\<in>set (sc_skipped s). sc_status s i = kSkipped)
     \<and> (\<forall>i. sc_status s i = kSkipped \<longrightarrow> sc_fatal s \<noteq> None))"

text \<open>The task that will submit, dispatch or reject a ready job.\<close>

fun owner :: "nat \<Rightarrow> task \<Rightarrow> nat" where
  "owner j (Root_loop is) = count_list is j"
| "owner j (Dispatch i) = of_bool (i = j)"
| "owner j (Claim i) = of_bool (i = j)"
| "owner j (Submit i j' js) = of_bool (j' = j)"
| "owner j (Submission_failed i) = of_bool (i = j)"
| "owner j (Skip_node i k) = owner j k"
| "owner j (Drain k) = owner j k"
| "owner j (Enqueue i js k) = owner j k"
| "owner j (Report_skip i d k) = owner j k"
| "owner j (Relock k) = owner j k"
| "owner j _ = 0"

definition inv_owner :: "nat \<Rightarrow> state \<Rightarrow> bool" where
  "inv_owner j = (\<lambda>(s, M). sc_fatal s = None \<longrightarrow> total (owner j) M \<le> of_bool (sc_status s j = kReady))"

fun blame :: "dag \<Rightarrow> nat \<Rightarrow> task \<Rightarrow> nat" where
  "blame g i (Stored i' r m) = of_bool (i = i' \<and> fatal_result g i r)"
| "blame g i (Record i' e m) = of_bool (i = i')"
| "blame g i (Submission_record i' failed) = of_bool (i = i' \<and> failed)"
| "blame g i _ = 0"

text \<open>
  Failures and the recorded error: as long as nothing is recorded, every job that did not pass has a
  thread about to record it; once recorded, the error is the one the named job finished with.
\<close>

definition inv_fatal :: "dag \<Rightarrow> nat \<Rightarrow> state \<Rightarrow> bool" where
  "inv_fatal g x = (\<lambda>(s, M).
     (sc_fatal s = None \<longrightarrow> terminal (sc_status s x) \<longrightarrow> \<not> pass g x (sc_status s x) \<longrightarrow> total (blame g x) M > 0)
     \<and> (\<forall>e. sc_fatal s = Some (x, e) \<longrightarrow> x < dg_n g \<and> sc_status s x = statusOf (Inl e)))"

lemma step_fin:
  assumes "exec_task g s t s' ts" "inv_body x (s, add_mset t M)" "inv_fact (s, add_mset t M)"
    "inv_fin x (s, add_mset t M)"
  shows "inv_fin x (s', mset ts + M)"
proof -
  have old: "sc_status s' x = st \<and> terminal st" if "Finished x st d \<in> set (sc_trace s)" for st d
    using that assms(4) terminal_stable [OF assms(1,2)] by (auto simp: inv_fin_def)
  have "sc_status s' x = st \<and> terminal st"
    if "Finished x st d \<in> set (sc_trace s')" "Finished x st d \<notin> set (sc_trace s)" for st d
    using assms(1)
    by cases (use that assms(3) in \<open>auto simp: inv_fact_def sched_defs split: if_splits\<close>)
  with old show ?thesis unfolding inv_fin_def by blast
qed

lemma task_fact_stable:
  assumes "exec_task g s t s' ts" "\<And>x. inv_body x (s, add_mset t M)" "task_fact s t'"
  shows "task_fact s' t'"
proof -
  have "terminal (sc_status s x) \<Longrightarrow> sc_status s' x = sc_status s x" for x
    using terminal_stable assms(1,2) by blast
  moreover have "sc_fatal s \<noteq> None \<Longrightarrow> sc_fatal s' \<noteq> None"
    using fatal_stable [OF assms(1)] by auto
  ultimately show ?thesis
    using assms(3) by (cases t') (auto split: if_splits)
qed

lemma step_fact:
  assumes "exec_task g s t s' ts" "\<And>x. inv_body x (s, add_mset t M)" "\<And>x. inv_owner x (s, add_mset t M)"
    "inv_range g (s, add_mset t M)" "inv_fact (s, add_mset t M)"
  shows "inv_fact (s', mset ts + M)"
proof -
  have others: "\<forall>t\<in>#M. task_fact s' t"
    using assms(5) task_fact_stable [OF assms(1,2)] by (auto simp: inv_fact_def)
  have skipped: "\<forall>i\<in>set (sc_skipped s). sc_status s' i = kSkipped"
    using assms(5) terminal_stable [OF assms(1,2)] by (auto simp: inv_fact_def)
  from assms(1) show ?thesis
  proof cases
    case (submission_lost i)
    have "sc_fatal s \<noteq> None"
      using submission_lost assms(3) [of i] by (auto simp: inv_owner_def)
    then show ?thesis using submission_lost assms(5) by (auto simp: inv_fact_def)
  qed (use assms(4,5) others skipped in \<open>auto simp: inv_fact_def inv_range_def sched_defs
         elim: simple.elims split: if_splits\<close>)
qed

lemma step_owner:
  assumes "exec_task g s t s' ts" "inv_range g (s, add_mset t M)" "inv_fact (s, add_mset t M)"
    "inv_body x (s, add_mset t M)" "inv_owner x (s, add_mset t M)"
  shows "inv_owner x (s', mset ts + M)"
  using assms(1)
  by cases (use assms(2-5) body_running [of x s M] in
    \<open>auto simp: inv_owner_def inv_fact_def inv_range_def sched_defs of_bool_def split: if_splits\<close>)

lemma step_fatal:
  assumes "exec_task g s t s' ts" "inv_range g (s, add_mset t M)" "inv_fact (s, add_mset t M)"
    "inv_body x (s, add_mset t M)" "inv_fatal g x (s, add_mset t M)"
  shows "inv_fatal g x (s', mset ts + M)"
  using assms(1)
  by cases (use assms(2-5) body_running [of x s M] in
    \<open>auto simp: inv_fatal_def inv_fact_def inv_range_def sched_defs pass_statusOf split: if_splits\<close>)

subsection \<open>Dependencies\<close>

text \<open>A job has passed once its finish was reported with a status that lets successors go on.\<close>

definition passed :: "dag \<Rightarrow> event list \<Rightarrow> nat \<Rightarrow> bool" where
  "passed g tr i \<longleftrightarrow> (\<exists>st d. Finished i st d \<in> set tr \<and> pass g i st)"

definition passed_edges :: "dag \<Rightarrow> event list \<Rightarrow> nat \<Rightarrow> nat" where
  "passed_edges g tr j = (\<Sum>i<dg_n g. if passed g tr i then count_list (dg_succs g i) j else 0)"

fun pend :: "nat \<Rightarrow> task \<Rightarrow> nat" where
  "pend j (Release i js) = count_list js j"
| "pend j (Decrement i j' js) = count_list (j' # js) j"
| "pend j (Make_ready i j' js) = count_list js j"
| "pend j (Submit i j' js) = count_list js j"
| "pend j (Skip_node i k) = pend j k"
| "pend j (Drain k) = pend j k"
| "pend j (Enqueue i js k) = pend j k"
| "pend j (Report_skip i d k) = pend j k"
| "pend j (Relock k) = pend j k"
| "pend j _ = 0"

fun make :: "nat \<Rightarrow> task \<Rightarrow> nat" where
  "make j (Make_ready i j' js) = of_bool (j' = j)"
| "make j _ = 0"

text \<open>
  The dependency count of a job never falls below the number of edges whose source has not passed or
  whose decrement is still outstanding.
\<close>

definition inv_dep :: "dag \<Rightarrow> nat \<Rightarrow> state \<Rightarrow> bool" where
  "inv_dep g j = (\<lambda>(s, M).
     unat (dg_preds g j) + total (pend j) M \<le> unat (sc_unmet s j) + passed_edges g (sc_trace s) j)"

definition inv_unmet :: "nat \<Rightarrow> state \<Rightarrow> bool" where
  "inv_unmet j = (\<lambda>(s, M).
     sc_status s j \<noteq> kPending \<and> sc_status s j \<noteq> kSkipped \<or> total (make j) M > 0 \<longrightarrow> sc_unmet s j = 0)"

lemma passed_append: "passed g (tr @ tr') i \<longleftrightarrow> passed g tr i \<or> passed g tr' i"
  by (auto simp: passed_def)

lemma passed_simps [simp]:
  "\<not> passed g [] i" "\<not> passed g (notifyDependencies g' k) i"
  "passed g (Finished k st d # tr) i \<longleftrightarrow> i = k \<and> pass g i st \<or> passed g tr i"
  "passed g (Started k # tr) i \<longleftrightarrow> passed g tr i" "passed g (Awaited k # tr) i \<longleftrightarrow> passed g tr i"
  "passed g (Failure k e m # tr) i \<longleftrightarrow> passed g tr i"
  by (auto simp: passed_def)

lemma finish_count_0_not_passed: "finish_count tr i = 0 \<Longrightarrow> \<not> passed g tr i"
  by (auto simp: finish_count_def passed_def filter_empty_conv)

lemma passed_edges_mono: "passed_edges g tr j \<le> passed_edges g (tr @ tr') j"
  unfolding passed_edges_def by (rule sum_mono) (auto simp: passed_append)

lemma passed_edges_cong:
  "(\<And>i. passed g tr i \<longleftrightarrow> passed g tr' i) \<Longrightarrow> passed_edges g tr j = passed_edges g tr' j"
  by (simp add: passed_edges_def)

lemma passed_edges_le: "dag_ok g \<Longrightarrow> j < dg_n g \<Longrightarrow> passed_edges g tr j \<le> unat (dg_preds g j)"
  by (auto simp: passed_edges_def dag_ok_def intro!: sum_mono)

lemma passed_edges_finish:
  assumes "finish_count tr i = 0" "i < dg_n g" "\<And>x. \<not> passed g es x"
  shows "passed_edges g (tr @ Finished i st d # es) j =
    passed_edges g tr j + (if pass g i st then count_list (dg_succs g i) j else 0)"
proof -
  have "(if passed g (tr @ Finished i st d # es) x then count_list (dg_succs g x) j else 0) =
    (if passed g tr x then count_list (dg_succs g x) j else 0) +
    (if x = i then if pass g i st then count_list (dg_succs g i) j else 0 else 0)" for x
    using finish_count_0_not_passed [OF assms(1)] assms(3) by (auto simp: passed_append)
  then show ?thesis
    using assms(2) by (simp add: passed_edges_def sum.distrib)
qed

lemma passed_edges_same [simp]:
  "passed_edges g (tr @ [Started i]) j = passed_edges g tr j"
  "passed_edges g (tr @ [Awaited i]) j = passed_edges g tr j"
  "passed_edges g (tr @ [Failure i e m]) j = passed_edges g tr j"
  "passed_edges g (tr @ Finished i kSkipped d # notifyDependencies g' k) j = passed_edges g tr j"
  by (rule passed_edges_cong; simp add: passed_append)+

text \<open>A count of zero means that every predecessor has passed and no decrement is outstanding.\<close>

lemma unmet_zero_passed:
  assumes "dag_ok g" "j < dg_n g" "inv_dep g j (s, M)" "sc_unmet s j = 0"
  shows "total (pend j) M = 0 \<and> (\<forall>i<dg_n g. j \<in> set (dg_succs g i) \<longrightarrow> passed g (sc_trace s) i)"
proof -
  have le: "unat (dg_preds g j) + total (pend j) M \<le> passed_edges g (sc_trace s) j"
    using assms(3,4) by (simp add: inv_dep_def)
  have "passed g (sc_trace s) i" if i: "i < dg_n g" "j \<in> set (dg_succs g i)" for i
  proof (rule ccontr)
    assume "\<not> passed g (sc_trace s) i"
    moreover have "count_list (dg_succs g i) j > 0"
      using i(2) by (metis count_list_0_iff gr0I)
    ultimately have "passed_edges g (sc_trace s) j < (\<Sum>i<dg_n g. count_list (dg_succs g i) j)"
      unfolding passed_edges_def using i(1) by (intro sum_strict_mono_ex1) auto
    then show False using le assms(1,2) by (simp add: dag_ok_def)
  qed
  moreover have "total (pend j) M = 0"
    using le passed_edges_le [OF assms(1,2), of "sc_trace s"] by linarith
  ultimately show ?thesis by blast
qed

lemma decrement_positive:
  assumes "dag_ok g" "inv_range g (s, add_mset (Decrement i j js) M)"
    "inv_dep g j (s, add_mset (Decrement i j js) M)"
  shows "sc_unmet s j \<noteq> 0"
  using unmet_zero_passed [OF assms(1) _ assms(3)] assms(2) by (auto simp: inv_range_def)

lemma step_dep:
  assumes "exec_task g s t s' ts" "dag_ok g" "inv_range g (s, add_mset t M)"
    "\<And>x. inv_report x (s, add_mset t M)" "inv_dep g x (s, add_mset t M)"
  shows "inv_dep g x (s', mset ts + M)"
  using assms(1)
proof cases
  case (stored_pass i r m)
  then have "finish_count (sc_trace s) i = 0" "i < dg_n g"
    using assms(3) assms(4) [of i] by (auto simp: inv_report_def inv_range_def of_bool_def split: if_splits)
  then show ?thesis
    using stored_pass assms(5) by (simp add: inv_dep_def sched_defs passed_edges_finish pass_statusOf)
next
  case (stored_fatal i e m)
  then have "finish_count (sc_trace s) i = 0" "i < dg_n g"
    using assms(3) assms(4) [of i] by (auto simp: inv_report_def inv_range_def of_bool_def split: if_splits)
  then show ?thesis
    using stored_fatal assms(5) by (simp add: inv_dep_def sched_defs passed_edges_finish pass_statusOf)
next
  case (submission_report i)
  then show ?thesis
    using assms(5) passed_edges_mono [of g "sc_trace s" x
      "Finished i kFailed (sc_completed s + 1) # Failure i kJobFailed [] # notifyDependencies g i"]
    by (simp add: inv_dep_def sched_defs)
next
  case (decrement_last j i js)
  then show ?thesis
    using assms(2,3,5) decrement_positive [of g s i j js M]
    by (auto simp: inv_dep_def sched_defs unat_minus_one unat_gt_0)
next
  case (decrement j i js)
  then show ?thesis
    using assms(2,3,5) decrement_positive [of g s i j js M]
    by (auto simp: inv_dep_def sched_defs unat_minus_one unat_gt_0)
qed (use assms(5) in \<open>auto simp: inv_dep_def sched_defs split: if_splits\<close>)

lemma step_unmet:
  assumes "exec_task g s t s' ts" "dag_ok g" "inv_range g (s, add_mset t M)"
    "inv_body x (s, add_mset t M)" "inv_dep g x (s, add_mset t M)" "inv_unmet x (s, add_mset t M)"
  shows "inv_unmet x (s', mset ts + M)"
  using assms(1)
proof cases
  case (decrement_last j i js)
  then show ?thesis
    using assms(2,3,5,6) decrement_positive [of g s i j js M] by (auto simp: inv_unmet_def sched_defs)
next
  case (decrement j i js)
  then show ?thesis
    using assms(2,3,5,6) decrement_positive [of g s i j js M] by (auto simp: inv_unmet_def sched_defs)
next
  case (body_return i r m)
  then show ?thesis
    using assms(4,6) body_running [of x s M] by (auto simp: inv_unmet_def sched_defs)
qed (use assms(3,6) in \<open>auto simp: inv_unmet_def inv_range_def sched_defs elim: simple.elims split: if_splits\<close>)

text \<open>Every start is preceded by the passing finish of every predecessor; no job starts twice.\<close>

definition ordered :: "dag \<Rightarrow> event list \<Rightarrow> bool" where
  "ordered g tr \<longleftrightarrow> (\<forall>pre j post i. tr = pre @ Started j # post \<longrightarrow> i < dg_n g \<longrightarrow>
     j \<in> set (dg_succs g i) \<longrightarrow> passed g pre i)"

definition inv_order :: "dag \<Rightarrow> state \<Rightarrow> bool" where
  "inv_order g = (\<lambda>(s, M). ordered g (sc_trace s))"

definition inv_start :: "nat \<Rightarrow> state \<Rightarrow> bool" where
  "inv_start i = (\<lambda>(s, M). count_list (sc_trace s) (Started i) \<le> 1
     \<and> (Started i \<in> set (sc_trace s) \<longrightarrow> sc_status s i \<notin> {kPending, kReady, kSkipped}))"

lemma ordered_append:
  assumes "ordered g tr"
    "\<And>j i. Started j \<in> set es \<Longrightarrow> i < dg_n g \<Longrightarrow> j \<in> set (dg_succs g i) \<Longrightarrow> passed g tr i"
  shows "ordered g (tr @ es)"
  unfolding ordered_def
proof (intro allI impI)
  fix pre j post i
  assume eq: "tr @ es = pre @ Started j # post" and i: "i < dg_n g" "j \<in> set (dg_succs g i)"
  from eq consider us where "tr = pre @ us" "us @ es = Started j # post"
    | us where "pre = tr @ us" "es = us @ Started j # post"
    by (auto simp: append_eq_append_conv2)
  then show "passed g pre i"
  proof cases
    case (1 us)
    then show ?thesis
      using assms(1) assms(2) [of j i] i by (cases us) (auto simp: ordered_def passed_append)
  next
    case (2 us)
    then show ?thesis using assms(2) [of j i] i by (auto simp: passed_append)
  qed
qed

lemma ordered_no_start: "ordered g tr \<Longrightarrow> (\<And>j. Started j \<notin> set es) \<Longrightarrow> ordered g (tr @ es)"
  by (rule ordered_append) auto

lemma step_order:
  assumes "exec_task g s t s' ts" "dag_ok g" "inv_range g (s, add_mset t M)"
    "\<And>x. inv_dep g x (s, add_mset t M)" "\<And>x. inv_unmet x (s, add_mset t M)"
    "inv_order g (s, add_mset t M)"
  shows "inv_order g (s', mset ts + M)"
  using assms(1)
proof cases
  case (claim i)
  have "i < dg_n g" "sc_unmet s i = 0"
    using claim assms(3) assms(5) [of i] by (auto simp: inv_range_def inv_unmet_def)
  then have "passed g (sc_trace s) k" if "k < dg_n g" "i \<in> set (dg_succs g k)" for k
    using unmet_zero_passed [OF assms(2) _ assms(4)] that by blast
  then show ?thesis
    using claim assms(6) by (auto simp: inv_order_def sched_defs intro!: ordered_append)
qed (use assms(6) in \<open>auto simp: inv_order_def sched_defs intro!: ordered_no_start\<close>)

lemma step_start:
  assumes "exec_task g s t s' ts" "inv_body x (s, add_mset t M)" "inv_start x (s, add_mset t M)"
  shows "inv_start x (s', mset ts + M)"
  using assms(1)
  by cases (use assms(2,3) body_running [of x s M] in
    \<open>auto simp: inv_start_def sched_defs count_list_0_iff notifyDependencies_def split: if_splits\<close>)

subsection \<open>Nothing is forgotten\<close>

text \<open>The tasks that will call \<^verbatim>\<open>skipNode\<close> or \<^verbatim>\<open>enqueueSkip\<close> on a job.\<close>

fun owes :: "dag \<Rightarrow> nat \<Rightarrow> task \<Rightarrow> bool" where
  "owes g j (Stored i r m) \<longleftrightarrow> fatal_result g i r \<and> j \<in> set (dg_succs g i)"
| "owes g j (Record i e m) \<longleftrightarrow> j \<in> set (dg_succs g i)"
| "owes g j (Submission_failed i) \<longleftrightarrow> j < dg_n g"
| "owes g j (Submission_record i failed) \<longleftrightarrow> j < dg_n g"
| "owes g j (Submission_report i) \<longleftrightarrow> j < dg_n g"
| "owes g j (Skip_all js) \<longleftrightarrow> j \<in> set js"
| "owes g j (Skip_node i k) \<longleftrightarrow> j = i \<or> owes g j k"
| "owes g j (Drain k) \<longleftrightarrow> owes g j k"
| "owes g j (Enqueue i js k) \<longleftrightarrow> j \<in> set js \<or> owes g j k"
| "owes g j (Report_skip i d k) \<longleftrightarrow> owes g j k"
| "owes g j (Relock k) \<longleftrightarrow> owes g j k"
| "owes g j _ \<longleftrightarrow> False"

definition skip_owed :: "dag \<Rightarrow> nat \<Rightarrow> state \<Rightarrow> bool" where
  "skip_owed g j = (\<lambda>(s, M). (\<exists>t\<in>#M. owes g j t)
     \<or> (\<exists>i\<in>set (drop (sc_skipRead s) (sc_skipped s)). j \<in> set (dg_succs g i)))"

lemma set_drop_next:
  "k < length xs \<Longrightarrow> set (drop k xs) = insert (xs ! k) (set (drop (Suc k) xs))"
  by (simp flip: Cons_nth_drop_Suc)

lemma skip_owed_stable:
  assumes "exec_task g s t s' ts" "inv_range g (s, add_mset t M)" "skip_owed g x (s, add_mset t M)"
    "sc_status s' x = kPending \<or> sc_status s' x = kReady"
  shows "skip_owed g x (s', mset ts + M)"
  using assms(1)
  by cases (use assms(2-4) in
    \<open>auto simp: skip_owed_def inv_range_def sched_defs set_drop_next fatal_result_def split: if_splits\<close>)

text \<open>
  A pending job has either an exact dependency count or a skip on its way; a ready job has a thread
  that will dispatch, reject or skip it; a successor of a job that did not pass is skipped.
\<close>

definition inv_exact :: "dag \<Rightarrow> nat \<Rightarrow> state \<Rightarrow> bool" where
  "inv_exact g j = (\<lambda>(s, M). sc_status s j = kPending \<longrightarrow> skip_owed g j (s, M)
     \<or> unat (dg_preds g j) + total (pend j) M = unat (sc_unmet s j) + passed_edges g (sc_trace s) j)"

definition inv_zero :: "dag \<Rightarrow> nat \<Rightarrow> state \<Rightarrow> bool" where
  "inv_zero g j = (\<lambda>(s, M). sc_status s j = kPending \<longrightarrow> sc_unmet s j = 0 \<longrightarrow> dg_preds g j \<noteq> 0 \<longrightarrow>
     skip_owed g j (s, M) \<or> total (make j) M > 0)"

definition inv_ready :: "dag \<Rightarrow> nat \<Rightarrow> state \<Rightarrow> bool" where
  "inv_ready g j = (\<lambda>(s, M). sc_status s j = kReady \<longrightarrow> skip_owed g j (s, M) \<or> total (owner j) M > 0)"

definition inv_blocked :: "dag \<Rightarrow> nat \<Rightarrow> nat \<Rightarrow> state \<Rightarrow> bool" where
  "inv_blocked g i j = (\<lambda>(s, M). j \<in> set (dg_succs g i) \<longrightarrow> terminal (sc_status s i) \<longrightarrow>
     \<not> pass g i (sc_status s i) \<longrightarrow> sc_status s j = kPending \<longrightarrow> skip_owed g j (s, M))"

lemma step_ready:
  assumes "exec_task g s t s' ts" "inv_range g (s, add_mset t M)" "x < dg_n g"
    "inv_ready g x (s, add_mset t M)"
  shows "inv_ready g x (s', mset ts + M)"
proof (cases "skip_owed g x (s, add_mset t M) \<and> sc_status s' x = kReady")
  case True
  then show ?thesis
    using skip_owed_stable [OF assms(1,2)] by (simp add: inv_ready_def)
next
  case False
  from assms(1) show ?thesis
    by cases (use assms(3,4) False in
      \<open>auto simp: inv_ready_def skip_owed_def sched_defs split: if_splits\<close>)
qed

lemma Suc_unat_minus_one: "x \<noteq> 0 \<Longrightarrow> Suc (unat (x - 1)) = unat x" for x :: "'a::len word"
  by (simp add: unat_minus_one unat_gt_0)

lemma step_exact:
  assumes "exec_task g s t s' ts" "dag_ok g" "inv_range g (s, add_mset t M)" "x < dg_n g"
    "\<And>x. inv_report x (s, add_mset t M)" "inv_dep g x (s, add_mset t M)" "inv_exact g x (s, add_mset t M)"
  shows "inv_exact g x (s', mset ts + M)"
proof (cases "skip_owed g x (s, add_mset t M) \<and> sc_status s' x = kPending")
  case True
  then show ?thesis
    using skip_owed_stable [OF assms(1,3)] by (simp add: inv_exact_def)
next
  case False
  from assms(1) show ?thesis
  proof cases
    case (stored_pass i r m)
    then have "finish_count (sc_trace s) i = 0" "i < dg_n g"
      using assms(3) assms(5) [of i] by (auto simp: inv_report_def inv_range_def of_bool_def split: if_splits)
    then show ?thesis
      using stored_pass False assms(7)
      by (auto simp: inv_exact_def sched_defs passed_edges_finish pass_statusOf)
  next
    case (stored_fatal i e m)
    then have "finish_count (sc_trace s) i = 0" "i < dg_n g"
      using assms(3) assms(5) [of i] by (auto simp: inv_report_def inv_range_def of_bool_def split: if_splits)
    then show ?thesis
      using stored_fatal False assms(7)
      by (auto simp: inv_exact_def sched_defs passed_edges_finish pass_statusOf)
  next
    case (decrement_last j i js)
    then have "x = j \<Longrightarrow> Suc (unat (sc_unmet s j - 1)) = unat (sc_unmet s j)"
      using assms(2,3,6) decrement_positive [of g s i j js M] by (simp add: Suc_unat_minus_one)
    then show ?thesis
      using decrement_last False assms(7) by (auto simp: inv_exact_def sched_defs)
  next
    case (decrement j i js)
    then have "x = j \<Longrightarrow> Suc (unat (sc_unmet s j - 1)) = unat (sc_unmet s j)"
      using assms(2,3,6) decrement_positive [of g s i j js M] by (simp add: Suc_unat_minus_one)
    then show ?thesis
      using decrement False assms(7) by (auto simp: inv_exact_def sched_defs)
  qed (use False assms(4,7) in
      \<open>auto simp: inv_exact_def skip_owed_def sched_defs split: if_splits\<close>)
qed

lemma step_zero:
  assumes "exec_task g s t s' ts" "inv_range g (s, add_mset t M)" "x < dg_n g"
    "inv_zero g x (s, add_mset t M)"
  shows "inv_zero g x (s', mset ts + M)"
proof (cases "skip_owed g x (s, add_mset t M) \<and> sc_status s' x = kPending")
  case True
  then show ?thesis
    using skip_owed_stable [OF assms(1,2)] by (simp add: inv_zero_def)
next
  case False
  from assms(1) show ?thesis
    by cases (use assms(3,4) False in
      \<open>auto simp: inv_zero_def skip_owed_def sched_defs split: if_splits\<close>)
qed

lemma step_blocked:
  assumes "exec_task g s t s' ts" "inv_range g (s, add_mset t M)" "j < dg_n g"
    "inv_body i (s, add_mset t M)" "inv_blocked g i j (s, add_mset t M)"
  shows "inv_blocked g i j (s', mset ts + M)"
proof (cases "skip_owed g j (s, add_mset t M) \<and> sc_status s' j = kPending")
  case True
  then show ?thesis
    using skip_owed_stable [OF assms(1,2)] by (simp add: inv_blocked_def)
next
  case False
  from assms(1) show ?thesis
    by cases (use assms(2-5) False body_running [of i s M] in
      \<open>auto simp: inv_blocked_def skip_owed_def inv_range_def sched_defs pass_statusOf split: if_splits\<close>)
qed

section \<open>The invariant of a run\<close>

definition inv_root :: "dag \<Rightarrow> nat \<Rightarrow> state \<Rightarrow> bool" where
  "inv_root g j = (\<lambda>(s, M). sc_status s j = kPending \<longrightarrow> dg_preds g j = 0 \<longrightarrow> dg_onDemand g j)"

lemma step_root:
  assumes "exec_task g s t s' ts" "inv_root g x (s, add_mset t M)"
  shows "inv_root g x (s', mset ts + M)"
  using assms(1) by cases (use assms(2) in \<open>auto simp: inv_root_def sched_defs split: if_splits\<close>)

definition inv_out :: "dag \<Rightarrow> nat \<Rightarrow> state \<Rightarrow> bool" where
  "inv_out g j = (\<lambda>(s, M). terminal (sc_status s j) \<longrightarrow> j < dg_n g)"

lemma step_out:
  assumes "exec_task g s t s' ts" "inv_range g (s, add_mset t M)" "inv_out g x (s, add_mset t M)"
  shows "inv_out g x (s', mset ts + M)"
  using assms(1)
  by cases (use assms(2,3) in \<open>auto simp: inv_out_def inv_range_def sched_defs split: if_splits\<close>)

definition sched_inv :: "dag \<Rightarrow> state \<Rightarrow> bool" where
  "sched_inv g x \<longleftrightarrow> dag_ok g \<and> inv_range g x \<and> inv_lock x \<and> inv_count x \<and> inv_fact x \<and> inv_order g x
     \<and> (\<forall>i. inv_body i x) \<and> (\<forall>i. inv_report i x) \<and> (\<forall>i. inv_fin i x) \<and> (\<forall>i. inv_owner i x)
     \<and> (\<forall>i. inv_fatal g i x) \<and> (\<forall>i. inv_start i x) \<and> (\<forall>i. inv_unmet i x) \<and> (\<forall>i. inv_root g i x) \<and> (\<forall>i. inv_out g i x)
     \<and> (\<forall>i. inv_dep g i x) \<and> (\<forall>j<dg_n g. inv_exact g j x) \<and> (\<forall>j<dg_n g. inv_zero g j x)
     \<and> (\<forall>j<dg_n g. inv_ready g j x) \<and> (\<forall>i. \<forall>j<dg_n g. inv_blocked g i j x)"

lemma passed_edges_Nil [simp]: "passed_edges g [] j = 0"
  by (simp add: passed_edges_def)

lemma initial_ready [simp]:
  "sc_status (initial g) i = kReady \<longleftrightarrow> dg_preds g i = 0 \<and> \<not> dg_onDemand g i"
  "sc_status (initial g) i = kPending \<longleftrightarrow> \<not> (dg_preds g i = 0 \<and> \<not> dg_onDemand g i)"
  "\<not> terminal (sc_status (initial g) i)" "sc_status (initial g) i \<noteq> kRunning"
  "sc_status (initial g) i \<noteq> kAwaiting" "sc_status (initial g) i \<noteq> kSkipped"
  by (simp_all add: initial_def)

lemma initial_simps [simp]:
  "sc_unmet (initial g) = dg_preds g" "sc_completed (initial g) = 0" "sc_fatal (initial g) = None"
  "sc_skipped (initial g) = []" "sc_skipRead (initial g) = 0" "\<not> sc_draining (initial g)"
  "\<not> sc_locked (initial g)" "sc_trace (initial g) = []"
  by (simp_all add: initial_def)

lemma count_filter_upt: "count_list (filter P [0..<n]) j = of_bool (j < n \<and> P j)"
  by (induction n) auto

lemma start_inv: "dag_ok g \<Longrightarrow> start g x \<Longrightarrow> sched_inv g x"
  by (auto simp: sched_inv_def start_def inv_range_def inv_lock_def inv_count_def inv_fact_def
      inv_order_def ordered_def inv_body_def inv_report_def inv_fin_def inv_owner_def inv_fatal_def
      inv_start_def inv_unmet_def inv_root_def inv_dep_def inv_exact_def inv_zero_def inv_ready_def
      inv_blocked_def inv_out_def roots_def count_filter_upt)

lemma step_inv:
  assumes "sched_inv g x" "step g x y"
  shows "sched_inv g y"
proof -
  from assms(2) obtain s t s' ts M where x: "x = (s, add_mset t M)" and y: "y = (s', mset ts + M)"
    and e: "exec_task g s t s' ts"
    by (auto elim: step.cases)
  have I: "sched_inv g (s, add_mset t M)" using assms(1) x by simp
  show ?thesis
    using I unfolding y sched_inv_def
    by (auto intro: step_range [OF e] step_lock [OF e] step_count [OF e] step_fact [OF e]
      step_order [OF e] step_body [OF e] step_report [OF e] step_fin [OF e] step_owner [OF e]
      step_fatal [OF e] step_start [OF e] step_unmet [OF e] step_root [OF e] step_out [OF e] step_dep [OF e]
      step_exact [OF e] step_zero [OF e] step_ready [OF e] step_blocked [OF e])
qed

interpretation run: inductive_invariant "\<lambda>x. dag_ok g \<and> start g x" "step g" "sched_inv g" for g
  by unfold_locales (auto intro: start_inv step_inv)

section \<open>Every run ends\<close>

text \<open>
  Each step uses up some of the work that is left: \<open>weight\<close> is what a thread still has to do,
  \<open>node_work\<close> what a job that has not started may still cause, \<open>drain_work\<close> what a queued skip costs.
\<close>

definition drain_work :: "dag \<Rightarrow> nat \<Rightarrow> nat" where
  "drain_work g i = length (dg_succs g i) + 4"

definition submit_work :: "dag \<Rightarrow> nat \<Rightarrow> nat" where
  "submit_work g j = 13 + 4 * length (dg_succs g j) + 3 * dg_n g"

fun node_work :: "dag \<Rightarrow> nat \<Rightarrow> JobStatus \<Rightarrow> nat" where
  "node_work g i kPending = drain_work g i + submit_work g i + 1"
| "node_work g i kReady = drain_work g i"
| "node_work g i kRunning = 1"
| "node_work g i _ = 0"

fun weight :: "dag \<Rightarrow> task \<Rightarrow> nat" where
  "weight g (Root_loop is) = 1 + (\<Sum>i\<leftarrow>is. submit_work g i)"
| "weight g (Dispatch i) = 7 + 4 * length (dg_succs g i)"
| "weight g (Claim i) = 6 + 4 * length (dg_succs g i)"
| "weight g (Body i) = 4 + 4 * length (dg_succs g i)"
| "weight g (Stored i r m) = 3 + 4 * length (dg_succs g i)"
| "weight g (Record i e m) = 2 + 3 * length (dg_succs g i)"
| "weight g (Release i js) = 1 + 4 * length js"
| "weight g (Decrement i j js) = 4 + 4 * length js"
| "weight g (Make_ready i j js) = 3 + 4 * length js"
| "weight g (Submit i j js) = 2 + 4 * length js + submit_work g j"
| "weight g (Submission_failed i) = 3 * dg_n g + 5"
| "weight g (Submission_record i failed) = 3 * dg_n g + 4"
| "weight g (Submission_report i) = 3 * dg_n g + 3"
| "weight g (Skip_all js) = 1 + 3 * length js"
| "weight g (Skip_node j k) = weight g k + 2"
| "weight g (Drain k) = weight g k + 1"
| "weight g (Enqueue i js k) = weight g k + length js + 4"
| "weight g (Report_skip i d k) = weight g k + 3"
| "weight g (Relock k) = weight g k + 2"

definition nodes_work :: "dag \<Rightarrow> sched \<Rightarrow> nat" where
  "nodes_work g s = (\<Sum>i<dg_n g. node_work g i (sc_status s i))"

definition queue_work :: "dag \<Rightarrow> sched \<Rightarrow> nat" where
  "queue_work g s = (\<Sum>i\<leftarrow>drop (sc_skipRead s) (sc_skipped s). drain_work g i)"

definition work_left :: "dag \<Rightarrow> state \<Rightarrow> nat" where
  "work_left g = (\<lambda>(s, M). total (weight g) M + nodes_work g s + queue_work g s)"

lemma nodes_work_set_status:
  assumes "i < dg_n g"
  shows "nodes_work g (set_status i st s) + node_work g i (sc_status s i) =
    nodes_work g s + node_work g i st"
proof -
  have "(\<Sum>k<dg_n g. node_work g k (((sc_status s)(i := st)) k)) =
      node_work g i st + (\<Sum>k\<in>{..<dg_n g} - {i}. node_work g k (sc_status s k))"
    using assms by (simp add: sum.remove [of "{..<dg_n g}" i])
  moreover have "(\<Sum>k<dg_n g. node_work g k (sc_status s k)) =
      node_work g i (sc_status s i) + (\<Sum>k\<in>{..<dg_n g} - {i}. node_work g k (sc_status s k))"
    using assms by (simp add: sum.remove [of "{..<dg_n g}" i])
  ultimately show ?thesis by (simp add: nodes_work_def set_status_def)
qed

lemma work_simps [simp]:
  "nodes_work g (emit es s) = nodes_work g s" "queue_work g (emit es s) = queue_work g s"
  "nodes_work g (s\<lparr>sc_skipped := q\<rparr>) = nodes_work g s"
  "nodes_work g (s\<lparr>sc_completed := d\<rparr>) = nodes_work g s" "queue_work g (s\<lparr>sc_completed := d\<rparr>) = queue_work g s"
  "nodes_work g (s\<lparr>sc_locked := l\<rparr>) = nodes_work g s" "queue_work g (s\<lparr>sc_locked := l\<rparr>) = queue_work g s"
  "nodes_work g (s\<lparr>sc_draining := b\<rparr>) = nodes_work g s" "queue_work g (s\<lparr>sc_draining := b\<rparr>) = queue_work g s"
  "nodes_work g (s\<lparr>sc_skipRead := k\<rparr>) = nodes_work g s"
  "nodes_work g (s\<lparr>sc_unmet := u\<rparr>) = nodes_work g s" "queue_work g (s\<lparr>sc_unmet := u\<rparr>) = queue_work g s"
  "nodes_work g (record_first i e s) = nodes_work g s" "queue_work g (record_first i e s) = queue_work g s"
  "queue_work g (set_status i st s) = queue_work g s"
  by (simp_all add: nodes_work_def queue_work_def emit_def record_first_def set_status_def)

lemma node_work_terminal [simp]: "terminal st \<Longrightarrow> node_work g i st = 0"
  by (cases st) auto

lemma work_claim_skip:
  assumes "i < dg_n g" "sc_skipRead s \<le> length (sc_skipped s)"
  shows "nodes_work g (claim_skip i s) + queue_work g (claim_skip i s) \<le> nodes_work g s + queue_work g s"
  using assms nodes_work_set_status [of i g kSkipped s]
  by (auto simp: claim_skip_def queue_work_def set_status_def)

lemma queue_work_next:
  assumes "sc_skipRead s < length (sc_skipped s)"
  shows "queue_work g s = drain_work g (sc_skipped s ! sc_skipRead s) +
    queue_work g (s\<lparr>sc_skipRead := Suc (sc_skipRead s)\<rparr>)"
  using assms by (simp add: queue_work_def flip: Cons_nth_drop_Suc)

lemma step_uses_work:
  assumes "exec_task g s t s' ts" "inv_range g (s, add_mset t M)" "\<And>x. inv_body x (s, add_mset t M)"
  shows "work_left g (s', mset ts + M) < work_left g (s, add_mset t M)"
  using assms(1)
proof cases
  case (claim i)
  then show ?thesis
    using assms(2) nodes_work_set_status [of i g kRunning s] by (simp add: work_left_def inv_range_def)
next
  case (await i)
  then show ?thesis
    using assms(2) nodes_work_set_status [of i g kAwaiting s] by (simp add: work_left_def inv_range_def)
next
  case (body_return i r m)
  then show ?thesis
    using assms(2) nodes_work_set_status [of i g "statusOf r" s] by (simp add: work_left_def inv_range_def)
next
  case (make_ready j i js)
  then show ?thesis
    using assms(2) nodes_work_set_status [of j g kReady s] by (simp add: work_left_def inv_range_def)
next
  case (submission_failed i)
  then show ?thesis
    using assms(2) nodes_work_set_status [of i g kFailed s] by (simp add: work_left_def inv_range_def)
next
  case (skip_join i k)
  then show ?thesis
    using assms(2) work_claim_skip [of i g s] by (simp add: work_left_def inv_range_def)
next
  case (skip_drain i k)
  then show ?thesis
    using assms(2) work_claim_skip [of i g s] by (simp add: work_left_def inv_range_def)
next
  case (enqueue i j js k)
  then show ?thesis
    using assms(2) work_claim_skip [of j g s] by (simp add: work_left_def inv_range_def)
next
  case (drain_next idx k)
  then show ?thesis
    using queue_work_next [of s g] by (simp add: work_left_def drain_work_def)
qed (simp_all add: work_left_def submit_work_def report_finish_def report_submission_def fetch_sub_def)

lemma progress:
  assumes "sched_inv g (s, M)" "M \<noteq> {#}"
  shows "\<exists>y. step g (s, M) y"
proof -
  have stepI: "\<exists>y. step g (s, M) y" if t: "t \<in># M" "exec_task g s t s' ts" for t s' ts
    using step.step [OF t(2), of "M - {#t#}"] t(1) by auto
  have hold: "total holder M = of_bool (sc_locked s)"
    using assms(1) by (simp add: sched_inv_def inv_lock_def)
  have enabled: "\<exists>s' ts. exec_task g s t s' ts" if "\<not> sc_locked s \<or> holder t > 0" for t
  proof (cases t)
    case (Stored i r m)
    moreover have "\<exists>e. r = Inl e" if "fatal_result g i r"
      using that by (cases r) (auto simp: fatal_result_def)
    ultimately show ?thesis
      by (cases "fatal_result g i r") (auto intro: exec_task.intros)
  next
    case (Root_loop rs)
    then show ?thesis by (cases rs; cases "sc_fatal s = None") (force intro: exec_task.intros)+
  next
    case (Release i js)
    then show ?thesis by (cases js; cases "sc_fatal s = None") (force intro: exec_task.intros)+
  next
    case (Skip_all js)
    then show ?thesis by (cases js) (auto intro: exec_task.intros)
  next
    case (Enqueue i js k)
    then show ?thesis by (cases js) (auto intro: exec_task.intros)
  qed (use that in \<open>(simp; blast intro: exec_task.intros)\<close>)+
  show ?thesis
  proof (cases "sc_locked s")
    case True
    then obtain t where "t \<in># M" "holder t > 0"
      using hold total_pos [of holder M] by auto
    then show ?thesis using enabled stepI by blast
  next
    case False
    then show ?thesis using enabled stepI assms(2) by (meson multiset_nonemptyE)
  qed
qed

section \<open>What a run guarantees\<close>

lemma reach_sched_inv: "dag_ok g \<Longrightarrow> reach (start g) (step g) x \<Longrightarrow> sched_inv g x"
proof -
  assume "dag_ok g" "reach (start g) (step g) x"
  from this(2) have "reach (\<lambda>x. dag_ok g \<and> start g x) (step g) x"
    by (induction rule: reach.induct) (auto intro: reach.intros \<open>dag_ok g\<close>)
  then show ?thesis by (rule run.reach_inv)
qed

lemma sched_invD:
  assumes "sched_inv g x"
  shows "dag_ok g" "inv_range g x" "inv_lock x" "inv_count x" "inv_fact x" "inv_order g x"
    "inv_body i x" "inv_report i x" "inv_fin i x" "inv_owner i x" "inv_fatal g i x" "inv_start i x"
    "inv_unmet i x" "inv_root g i x" "inv_dep g i x"
    "j < dg_n g \<Longrightarrow> inv_exact g j x" "j < dg_n g \<Longrightarrow> inv_zero g j x" "j < dg_n g \<Longrightarrow> inv_ready g j x"
    "j < dg_n g \<Longrightarrow> inv_blocked g i j x" "inv_out g i x"
  using assms by (simp_all add: sched_inv_def)

text \<open>A job whose body runs, awaits its completion or succeeded was started.\<close>

definition inv_ran :: "nat \<Rightarrow> sched \<Rightarrow> bool" where
  "inv_ran i s \<longleftrightarrow> (sc_status s i \<in> {kRunning, kAwaiting, kDone} \<longrightarrow> Started i \<in> set (sc_trace s))"

lemma step_ran:
  assumes "exec_task g s t s' ts" "inv_body i (s, add_mset t M)" "inv_ran i s"
  shows "inv_ran i s'"
  using assms(1)
proof cases
  case (body_return k r m)
  then show ?thesis
    using assms(2,3) body_running [of i s M] by (auto simp: inv_ran_def sched_defs)
qed (use assms(2,3) in \<open>auto simp: inv_ran_def sched_defs split: if_splits\<close>)

lemma reach_ran:
  assumes "dag_ok g" "reach (start g) (step g) x"
  shows "inv_ran i (fst x)"
  using assms(2)
proof (induction rule: reach.induct)
  case (reach_init x)
  then show ?case by (auto simp: start_def inv_ran_def initial_def)
next
  case (reach_step x y)
  note inv = reach_sched_inv [OF assms(1) reach_step.hyps(1)]
  from reach_step.hyps(2) show ?case
  proof cases
    case (step s t s' ts M)
    then show ?thesis using step_ran [OF step(3)] sched_invD(7) [OF inv, of i] reach_step.IH by simp
  qed
qed

lemma inv_passed_status:
  assumes "sched_inv g (s, M)" "passed g (sc_trace s) i"
  shows "terminal (sc_status s i) \<and> pass g i (sc_status s i)"
  using sched_invD(9) [OF assms(1), of i] assms(2) by (auto simp: inv_fin_def passed_def)

text \<open>A job that left the pending state otherwise than by being skipped has only passed predecessors.\<close>

lemma started_preds_passed:
  assumes "sched_inv g (s, M)" "j < dg_n g" "sc_status s j \<noteq> kPending" "sc_status s j \<noteq> kSkipped"
    "(i, j) \<in> edges g"
  shows "passed g (sc_trace s) i"
proof -
  have "sc_unmet s j = 0"
    using sched_invD(13) [OF assms(1), of j] assms(3,4) by (simp add: inv_unmet_def)
  then show ?thesis
    using unmet_zero_passed [OF sched_invD(1) [OF assms(1)] assms(2) sched_invD(15) [OF assms(1)]] assms(5)
    by (auto simp: edges_def)
qed

lemma edges_range: "dag_ok g \<Longrightarrow> (i, j) \<in> edges g \<Longrightarrow> i < dg_n g \<and> j < dg_n g"
  by (auto simp: edges_def dest: dag_ok_succs)

lemma started_ancestors_passed:
  assumes "sched_inv g (s, M)" "(i, j) \<in> (edges g)\<^sup>+" "sc_status s j \<noteq> kPending" "sc_status s j \<noteq> kSkipped"
  shows "pass g i (sc_status s i)"
proof -
  have ok: "dag_ok g" using assms(1) by (simp add: sched_inv_def)
  have P: "terminal (sc_status s a) \<and> pass g a (sc_status s a)"
    if "(a, b) \<in> edges g" "sc_status s b \<noteq> kPending" "sc_status s b \<noteq> kSkipped" for a b
    using started_preds_passed [OF assms(1) _ that(2,3,1)] edges_range [OF ok that(1)]
      inv_passed_status [OF assms(1)] by blast
  show ?thesis
    using assms(2-4)
  proof (induction rule: converse_trancl_induct)
    case (base y)
    then show ?case using P by blast
  next
    case (step y z)
    then have "pass g z (sc_status s z)" by blast
    then have "sc_status s z \<noteq> kPending \<and> sc_status s z \<noteq> kSkipped" by (auto simp: pass_def)
    then show ?case using P step.hyps(1) by blast
  qed
qed

lemma end_reported:
  assumes "sched_inv g (s, {#})" "terminal (sc_status s i)"
  shows "\<exists>d. Finished i (sc_status s i) d \<in> set (sc_trace s)"
proof -
  have "sc_skipRead s \<ge> length (sc_skipped s)"
    using sched_invD(3) [OF assms(1)] by (auto simp: inv_lock_def)
  then have "finish_count (sc_trace s) i = 1"
    using sched_invD(8) [OF assms(1), of i] assms(2) by (simp add: inv_report_def)
  then have "filter (finish_of i) (sc_trace s) \<noteq> []" by (auto simp: finish_count_def)
  then obtain e where "e \<in> set (sc_trace s)" "finish_of i e" by (auto simp: filter_empty_conv)
  moreover from this(2) obtain st d where "e = Finished i st d" by (auto elim: finish_of.elims)
  ultimately show ?thesis
    using sched_invD(9) [OF assms(1), of i] by (auto simp: inv_fin_def)
qed

lemma end_not_pending:
  assumes "sched_inv g (s, {#})" "j < dg_n g"
  shows "terminal (sc_status s j) \<or> sc_status s j = kPending \<and>
    (dg_preds g j = 0 \<and> dg_onDemand g j \<or> (\<exists>i. (i, j) \<in> edges g \<and> sc_status s i = kPending))"
proof -
  have unread: "drop (sc_skipRead s) (sc_skipped s) = []"
    using sched_invD(3) [OF assms(1)] by (auto simp: inv_lock_def)
  have owed: "\<not> skip_owed g x (s, {#})" for x using unread by (simp add: skip_owed_def)
  have live: "terminal (sc_status s i) \<or> sc_status s i = kPending" if "i < dg_n g" for i
  proof -
    show ?thesis
      using owed sched_invD(7,18) [OF assms(1), of i] that by (cases "sc_status s i") (auto simp: inv_body_def inv_ready_def)
  qed
  show ?thesis
  proof (cases "sc_status s j = kPending \<and> dg_preds g j \<noteq> 0")
    case True
    have "\<exists>i. (i, j) \<in> edges g \<and> sc_status s i = kPending"
    proof (rule ccontr)
      assume none: "\<not> ?thesis"
      have "passed g (sc_trace s) i" if "i < dg_n g" "j \<in> set (dg_succs g i)" for i
      proof -
        have "terminal (sc_status s i)" using live none that by (auto simp: edges_def)
        moreover from this have "pass g i (sc_status s i)"
          using sched_invD(19) [OF assms, of i] True that owed by (auto simp: inv_blocked_def)
        ultimately show ?thesis
          using end_reported [OF assms(1)] unfolding passed_def by blast
      qed
      then have "passed_edges g (sc_trace s) j = (\<Sum>i<dg_n g. count_list (dg_succs g i) j)"
        by (auto simp: passed_edges_def count_list_0_iff intro!: sum.cong)
      then have "passed_edges g (sc_trace s) j = unat (dg_preds g j)"
        using sched_invD(1) [OF assms(1)] assms(2) by (simp add: dag_ok_def)
      then show False
        using True owed sched_invD(16,17) [OF assms(1,2)]
        by (auto simp: inv_exact_def inv_zero_def unat_eq_zero)
    qed
    with True show ?thesis by blast
  next
    case False
    then show ?thesis
      using live [OF assms(2)] sched_invD(14) [OF assms(1), of j] by (auto simp: inv_root_def)
  qed
qed

text \<open>Behind every job that a finished run left pending stands an on-demand job without predecessors.\<close>

lemma pending_behind_on_demand:
  assumes "sched_inv g (s, {#})" "j < dg_n g" "sc_status s j = kPending"
  shows "\<exists>k<dg_n g. (k, j) \<in> (edges g)\<^sup>* \<and> dg_onDemand g k \<and> dg_preds g k = 0 \<and> sc_status s k = kPending"
proof -
  have ok: "dag_ok g" by (rule sched_invD(1) [OF assms(1)])
  have "edges g \<subseteq> {..<dg_n g} \<times> {..<dg_n g}" using edges_range [OF ok] by auto
  then have "wf (edges g)"
    using ok by (intro finite_acyclic_wf) (auto simp: dag_ok_def intro: finite_subset)
  then show ?thesis
    using assms(2,3)
  proof (induction j rule: wf_induct_rule)
    case (less j)
    from end_not_pending [OF assms(1) less.prems(1)] less.prems(2)
    consider "dg_preds g j = 0" "dg_onDemand g j" | i where "(i, j) \<in> edges g" "sc_status s i = kPending"
      by auto
    then show ?case
    proof cases
      case 1
      then show ?thesis using less.prems by blast
    next
      case (2 i)
      then obtain k where "k < dg_n g" "(k, i) \<in> (edges g)\<^sup>*" "dg_onDemand g k" "dg_preds g k = 0"
        "sc_status s k = kPending"
        using less.IH edges_range [OF ok] by blast
      then show ?thesis using 2(1) by (meson rtrancl.rtrancl_into_rtrancl)
    qed
  qed
qed

lemma end_skips_descendants:
  assumes "sched_inv g (s, {#})" "(i, j) \<in> (edges g)\<^sup>+" "terminal (sc_status s i)" "\<not> pass g i (sc_status s i)"
  shows "sc_status s j = kSkipped"
  using assms(2)
proof (induction rule: trancl_induct)
  case (base j)
  have "sc_skipRead s \<ge> length (sc_skipped s)"
    using sched_invD(3) [OF assms(1)] by (auto simp: inv_lock_def)
  then have "\<not> skip_owed g j (s, {#})" by (simp add: skip_owed_def)
  moreover have "j < dg_n g" using base edges_range [OF sched_invD(1) [OF assms(1)]] by blast
  ultimately have "sc_status s j \<noteq> kPending"
    using base assms(3,4) sched_invD(19) [OF assms(1), of j i] by (auto simp: inv_blocked_def edges_def)
  then show ?case
    using started_ancestors_passed [OF assms(1)] base assms(4) by blast
next
  case (step j k)
  have "sc_skipRead s \<ge> length (sc_skipped s)"
    using sched_invD(3) [OF assms(1)] by (auto simp: inv_lock_def)
  then have "\<not> skip_owed g k (s, {#})" by (simp add: skip_owed_def)
  moreover have "k < dg_n g" using step edges_range [OF sched_invD(1) [OF assms(1)]] by blast
  ultimately have "sc_status s k \<noteq> kPending"
    using step sched_invD(19) [OF assms(1), of k j] by (auto simp: inv_blocked_def edges_def)
  then show ?case
    using started_ancestors_passed [OF assms(1)] step.hyps assms(4) by (meson trancl.trancl_into_trancl)
qed

lemma length_finishes:
  assumes "\<And>i st d. Finished i st d \<in> set tr \<Longrightarrow> i < n"
  shows "length (filter finishes tr) = (\<Sum>i<n. finish_count tr i)"
  using assms
proof (induction tr)
  case (Cons e tr)
  then have IH: "length (filter finishes tr) = (\<Sum>i<n. finish_count tr i)" by auto
  show ?case
  proof (cases e)
    case (Finished k st d)
    then have "k < n" using Cons.prems by auto
    then have "(\<Sum>i<n. of_bool (i = k) + finish_count tr i) = Suc (\<Sum>i<n. finish_count tr i)"
      by (simp add: sum.distrib of_bool_def)
    then show ?thesis using IH Finished by simp
  qed (use IH in simp_all)
qed simp

lemma end_finish_count:
  assumes "sched_inv g (s, {#})"
  shows "finish_count (sc_trace s) i = of_bool (terminal (sc_status s i))"
  using sched_invD(3) [OF assms] sched_invD(8) [OF assms, of i]
  by (auto simp: inv_lock_def inv_report_def)

lemma end_completed:
  assumes "sched_inv g (s, {#})"
  shows "unat (sc_completed s) = card {i. i < dg_n g \<and> terminal (sc_status s i)}"
proof -
  have "i < dg_n g" if "Finished i st d \<in> set (sc_trace s)" for i st d
    using that sched_invD(9) [OF assms, of i] sched_invD(20) [OF assms, of i]
    by (auto simp: inv_fin_def inv_out_def)
  then have "length (filter finishes (sc_trace s)) = (\<Sum>i<dg_n g. of_bool (terminal (sc_status s i)))"
    using length_finishes [of "sc_trace s" "dg_n g"] end_finish_count [OF assms] by simp
  also have "\<dots> = card {i. i < dg_n g \<and> terminal (sc_status s i)}"
    by (simp add: of_bool_def flip: sum.inter_filter)
  finally have len: "length (filter finishes (sc_trace s)) = card {i. i < dg_n g \<and> terminal (sc_status s i)}" .
  have "card {i. i < dg_n g \<and> terminal (sc_status s i)} \<le> card {..<dg_n g}"
    by (rule card_mono) auto
  then have "card {i. i < dg_n g \<and> terminal (sc_status s i)} \<le> 65536"
    using sched_invD(1) [OF assms] by (simp add: dag_ok_def)
  then show ?thesis
    using sched_invD(4) [OF assms] len by (simp add: inv_count_def unat_of_nat)
qed

lemma no_infinite_run:
  assumes "dag_ok g" "start g (f 0)" "\<And>k. step g (f k) (f (Suc k))"
  shows False
proof -
  have inv: "sched_inv g (f k)" for k
    by (induction k) (auto intro: start_inv step_inv assms)
  have "(f (Suc k), f k) \<in> measure (work_left g)" for k
  proof -
    from assms(3) [of k] show ?thesis
    proof cases
      case (step s t s' ts M)
      then show ?thesis
        using step_uses_work [OF step(3)] sched_invD(2,7) [OF inv [of k]] by simp
    qed
  qed
  then show False
    using wf_measure [of "work_left g"] unfolding wf_iff_no_infinite_down_chain by blast
qed

section \<open>A run with a failure\<close>

text \<open>
  Job 0 precedes job 1 and fails; job 1 is skipped. The run is followed step by step, with one thread
  for the roots and one for the job.
\<close>

definition two_jobs :: dag where
  "two_jobs = \<lparr>dg_n = 2, dg_succs = (\<lambda>i. if i = 0 then [1] else []),
     dg_preds = (\<lambda>j. if j = 1 then 1 else 0), dg_optional = (\<lambda>_. False),
     dg_deferred = (\<lambda>_. False), dg_onDemand = (\<lambda>_. False)\<rparr>"

lemma two_jobs_ok: "dag_ok two_jobs"
proof -
  have "edges two_jobs = {(0, 1)}"
    by (auto simp: edges_def two_jobs_def less_2_cases_iff split: if_splits)
  moreover have "acyclic {(0::nat, 1::nat)}" by (rule acyclicI_order [of _ "\<lambda>i. 1 - i"]) auto
  ultimately have "acyclic (edges two_jobs)" by simp
  then show ?thesis
    by (auto simp: dag_ok_def two_jobs_def lessThan_Suc numeral_2_eq_2 less_Suc_eq)
qed

lemma advance:
  assumes "reach (start g) (step g) (s, {#t#} + M)" "exec_task g s t s' ts" "N = mset ts + M"
  shows "reach (start g) (step g) (s', N)"
  using assms(1) step.step [OF assms(2), of M] unfolding assms(3) by (auto intro: reach.reach_step)

lemma two_jobs_run:
  "\<exists>s. reach (start two_jobs) (step two_jobs) (s, {#})
     \<and> sc_fatal s = Some (0, kJobFailed)
     \<and> sc_status s 0 = kFailed \<and> sc_status s 1 = kSkipped \<and> sc_completed s = 2
     \<and> (\<exists>es. sc_trace s = [] @ Started 0 # es)"
proof -
  let ?R = "reach (start two_jobs) (step two_jobs)" and ?s0 = "initial two_jobs"
  let ?e = "Inl kJobFailed :: unit expected"
  define s1 where "s1 = emit [Started 0] (set_status 0 kRunning ?s0)"
  define s2 where "s2 = set_status 0 (statusOf ?e) s1"
  define s3 where "s3 = report_finish two_jobs 0 (statusOf ?e) s2"
  define s4 where "s4 = record_first 0 kJobFailed (emit [Failure 0 kJobFailed []] s3)"
  define s5 where "s5 = (claim_skip 1 s4)\<lparr>sc_draining := True, sc_locked := True\<rparr>"
  define s6 where "s6 = s5\<lparr>sc_skipRead := sc_skipRead s5 + 1\<rparr>"
  define s7 where "s7 = s6\<lparr>sc_completed := sc_completed s6 + 1, sc_locked := False\<rparr>"
  define s8 where "s8 = emit (Finished 1 kSkipped (sc_completed s6 + 1) # notifyDependencies two_jobs 1) s7"
  define s9 where "s9 = s8\<lparr>sc_locked := True\<rparr>"
  define s10 where "s10 = s9\<lparr>sc_draining := False, sc_locked := False\<rparr>"
  note defs = s10_def s9_def s8_def s7_def s6_def s5_def s4_def s3_def s2_def s1_def sched_defs two_jobs_def
    initial_def notifyDependencies_def
  have "roots two_jobs = [0]" by (simp add: roots_def two_jobs_def upt_rec)
  then have r: "?R (?s0, {#Root_loop [0]#} + {#})" by (auto intro: reach.reach_init simp: start_def)
  have r: "?R (?s0, {#Root_loop []#} + {#Dispatch 0#})" by (rule advance [OF r root_accept]) simp_all
  have r: "?R (?s0, {#Dispatch 0#} + {#})" by (rule advance [OF r root_end]) simp
  have r: "?R (?s0, {#Claim 0#} + {#})" by (rule advance [OF r dispatch_go]) simp_all
  have r: "?R (s1, {#Body 0#} + {#})"
    unfolding s1_def by (rule advance [OF r claim]) (simp_all add: two_jobs_def)
  have r: "?R (s2, {#Stored 0 ?e []#} + {#})" unfolding s2_def by (rule advance [OF r body_return]) simp
  have r: "?R (s3, {#Record 0 kJobFailed []#} + {#})"
    unfolding s3_def by (rule advance [OF r stored_fatal]) (simp_all add: two_jobs_def fatal_result_def)
  have r: "?R (s4, {#Skip_all [1]#} + {#})"
    unfolding s4_def by (rule advance [OF r record_error]) (simp add: two_jobs_def)
  have r: "?R (s4, {#Skip_node 1 (Skip_all [])#} + {#})" by (rule advance [OF r skip_next]) simp
  have r: "?R (s5, {#Drain (Skip_all [])#} + {#})"
    unfolding s5_def by (rule advance [OF r skip_drain]) (simp_all add: defs)
  have "sc_skipRead s5 < length (sc_skipped s5)" "1 = sc_skipped s5 ! sc_skipRead s5" by (simp_all add: defs)
  then have r: "?R (s6, {#Enqueue 1 [] (Skip_all [])#} + {#})"
    unfolding s6_def by (rule advance [OF r drain_next]) (simp add: two_jobs_def)
  have r: "?R (s7, {#Report_skip 1 (sc_completed s6 + 1) (Skip_all [])#} + {#})"
    unfolding s7_def by (rule advance [OF r enqueue_end]) simp
  have r: "?R (s8, {#Relock (Skip_all [])#} + {#})" unfolding s8_def by (rule advance [OF r report_skip]) simp
  have r: "?R (s9, {#Drain (Skip_all [])#} + {#})"
    unfolding s9_def by (rule advance [OF r relock]) (simp_all add: defs)
  have r: "?R (s10, {#Skip_all []#} + {#})"
    unfolding s10_def by (rule advance [OF r drain_end]) (simp_all add: defs)
  have r: "?R (s10, {#})" by (rule advance [OF r skip_end]) simp
  show ?thesis
    by (rule exI [of _ s10], intro conjI, rule r) (simp_all add: defs)
qed

section \<open>Properties\<close>

text \<open>
  C5. In every interleaving, a job starts at most once in a run, and only after every predecessor has
  been reported finished with a status that lets its successors go on: done, or failed or timed out
  for an optional job.
\<close>

theorem jobs_start_after_predecessors:
  assumes "dag_ok g" "reach (start g) (step g) (s, M)" "sc_trace s = pre @ Started j # post"
  shows "Started j \<notin> set pre \<and> Started j \<notin> set post \<and>
    (\<forall>i<dg_n g. j \<in> set (dg_succs g i) \<longrightarrow>
       (\<exists>st d. Finished i st d \<in> set pre \<and>
          (st = kDone \<or> dg_optional g i \<and> (st = kFailed \<or> st = kTimedOut))))"
proof -
  note inv = reach_sched_inv [OF assms(1,2)]
  have "ordered g (pre @ Started j # post)"
    using sched_invD(6) [OF inv] assms(3) by (simp add: inv_order_def)
  then have "passed g pre i" if "i < dg_n g" "j \<in> set (dg_succs g i)" for i
    using that unfolding ordered_def by blast
  moreover have "count_list (pre @ Started j # post) (Started j) \<le> 1"
    using sched_invD(12) [OF inv, of j] assms(3) by (simp add: inv_start_def)
  ultimately show ?thesis by (auto simp: passed_def pass_def count_list_0_iff)
qed

theorem jobs_start_after_predecessors_witness:
  "\<exists>s es. reach (start two_jobs) (step two_jobs) (s, {#}) \<and> sc_trace s = Started 0 # es \<and> Started 0 \<notin> set es"
proof -
  obtain s es where r: "reach (start two_jobs) (step two_jobs) (s, {#})" "sc_trace s = [] @ Started 0 # es"
    using two_jobs_run by blast
  show ?thesis using jobs_start_after_predecessors [OF two_jobs_ok r] r by auto
qed



text \<open>
  C7. A finished run accounts for every job. Each job either ended in a terminal status, of which the
  observer was told exactly once, or is still pending behind an on-demand job without predecessors,
  which a run never starts on its own; \<^verbatim>\<open>completedCount_\<close> is the number of the former.
\<close>

theorem finished_run_accounts_for_every_job:
  assumes "dag_ok g" "reach (start g) (step g) (s, {#})"
  shows "(\<forall>j<dg_n g.
      terminal (sc_status s j) \<and> (\<exists>d. Finished j (sc_status s j) d \<in> set (sc_trace s))
        \<and> length (filter (finish_of j) (sc_trace s)) = 1
      \<or> sc_status s j = kPending \<and> length (filter (finish_of j) (sc_trace s)) = 0
        \<and> (\<exists>k<dg_n g. (k, j) \<in> (edges g)\<^sup>* \<and> dg_onDemand g k \<and> dg_preds g k = 0)) \<and>
    unat (sc_completed s) = card {i. i < dg_n g \<and> terminal (sc_status s i)}"
proof -
  note inv = reach_sched_inv [OF assms]
  have fc: "length (filter (finish_of j) (sc_trace s)) = of_bool (terminal (sc_status s j))" for j
    using end_finish_count [OF inv] by (simp add: finish_count_def)
  have "terminal (sc_status s j) \<and> (\<exists>d. Finished j (sc_status s j) d \<in> set (sc_trace s))
        \<and> length (filter (finish_of j) (sc_trace s)) = 1
      \<or> sc_status s j = kPending \<and> length (filter (finish_of j) (sc_trace s)) = 0
        \<and> (\<exists>k<dg_n g. (k, j) \<in> (edges g)\<^sup>* \<and> dg_onDemand g k \<and> dg_preds g k = 0)"
    if j: "j < dg_n g" for j
  proof (cases "terminal (sc_status s j)")
    case True
    then show ?thesis using end_reported [OF inv True] fc by simp
  next
    case False
    then have "sc_status s j = kPending" using end_not_pending [OF inv j] by blast
    then show ?thesis using pending_behind_on_demand [OF inv j] fc by auto
  qed
  then show ?thesis using end_completed [OF inv] by blast
qed

theorem finished_run_accounts_for_every_job_witness:
  "\<exists>s. reach (start two_jobs) (step two_jobs) (s, {#})
     \<and> card {i. i < dg_n two_jobs \<and> terminal (sc_status s i)} = 2"
proof -
  obtain s where r: "reach (start two_jobs) (step two_jobs) (s, {#})" "sc_completed s = 2"
    using two_jobs_run by blast
  then show ?thesis using finished_run_accounts_for_every_job [OF two_jobs_ok r(1)] by auto
qed

text \<open>
  C8. Failure containment: once a job has ended without passing, no job that depends on it, directly
  or not, is ever started in the run, and when the run ends all of them are skipped.
\<close>

theorem failure_is_contained:
  assumes "dag_ok g" "reach (start g) (step g) (s, M)" "terminal (sc_status s i)"
    "\<not> pass g i (sc_status s i)" "(i, j) \<in> (edges g)\<^sup>+"
  shows "Started j \<notin> set (sc_trace s) \<and> (M = {#} \<longrightarrow> sc_status s j = kSkipped)"
proof -
  note inv = reach_sched_inv [OF assms(1,2)]
  have "sc_status s j = kPending \<or> sc_status s j = kSkipped"
    using started_ancestors_passed [OF inv assms(5)] assms(4) by blast
  then have "Started j \<notin> set (sc_trace s)"
    using sched_invD(12) [OF inv, of j] by (auto simp: inv_start_def)
  then show ?thesis using end_skips_descendants inv assms(3-5) by blast
qed

theorem failure_is_contained_witness:
  "\<exists>s. reach (start two_jobs) (step two_jobs) (s, {#}) \<and> sc_status s 0 = kFailed
     \<and> Started 1 \<notin> set (sc_trace s) \<and> sc_status s 1 = kSkipped"
proof -
  obtain s where r: "reach (start two_jobs) (step two_jobs) (s, {#})" "sc_status s 0 = kFailed"
    using two_jobs_run by blast
  have "(0, 1) \<in> (edges two_jobs)\<^sup>+" by (rule r_into_trancl) (simp add: edges_def two_jobs_def)
  moreover have "\<not> pass two_jobs 0 kFailed" by (simp add: pass_def two_jobs_def)
  ultimately show ?thesis using failure_is_contained [OF two_jobs_ok r(1), of 0 1] r by auto
qed

text \<open>
  C9. The result of a finished run: success means that every job which ended has passed and none was
  skipped; an error is the one with which the job named in \<^verbatim>\<open>firstFailureName()\<close> ended.
\<close>

theorem run_result_reports_failures:
  assumes "dag_ok g" "reach (start g) (step g) (s, {#})"
  shows "(run_result s = Inr () \<longrightarrow>
      (\<forall>i. terminal (sc_status s i) \<longrightarrow> pass g i (sc_status s i) \<and> sc_status s i \<noteq> kSkipped)) \<and>
    (\<forall>e. run_result s = Inl e \<longrightarrow>
      (\<exists>i<dg_n g. sc_fatal s = Some (i, e) \<and> sc_status s i = statusOf (Inl e)))"
proof -
  note inv = reach_sched_inv [OF assms]
  have f: "inv_fatal g i (s, {#})" for i by (rule sched_invD(11) [OF inv])
  have "pass g i (sc_status s i)" if "sc_fatal s = None" "terminal (sc_status s i)" for i
    using f [of i] that by (auto simp: inv_fatal_def)
  moreover have "\<exists>i<dg_n g. sc_fatal s = Some (i, e) \<and> sc_status s i = statusOf (Inl e)"
    if "sc_fatal s = Some (k, e)" for k e
    using f [of k] that by (auto simp: inv_fatal_def)
  ultimately show ?thesis by (fastforce simp: run_result_def split: option.splits)
qed

theorem run_result_reports_failures_witness:
  "\<exists>s. reach (start two_jobs) (step two_jobs) (s, {#}) \<and> run_result s = Inl kJobFailed
     \<and> (\<exists>i<dg_n two_jobs. sc_status s i = kFailed)"
proof -
  obtain s where r: "reach (start two_jobs) (step two_jobs) (s, {#})" "sc_fatal s = Some (0, kJobFailed)"
    using two_jobs_run by blast
  then have "run_result s = Inl kJobFailed" by (simp add: run_result_def)
  then show ?thesis using run_result_reports_failures [OF two_jobs_ok r(1)] r(1) by fastforce
qed

end
