(* ===== verification/WorkerRun.thy ===== *)
theory WorkerRun
  imports Schedule Strategy
begin

text \<open>
  How a worker runs a request: \<^verbatim>\<open>WorkerHost::run\<close> (\<^verbatim>\<open>src/remote/worker_host.cpp\<close>). The request becomes a pipeline of optional jobs;
  the body of each looks at its predecessors and calls the registered function. The order in which the pipeline starts the bodies is
  that of any run of the scheduler on the request's graph; the reply is put together from what the bodies left behind.
\<close>

section \<open>Running the jobs\<close>

text \<open>
  A job kind's function: from the job's input and its predecessors' outputs, the result and the output and error text it set in its
  \<^verbatim>\<open>JobContext\<close>.
\<close>

type_synonym JobKindFn = "Payload \<Rightarrow> Payload list \<Rightarrow> unit expected \<times> Payload \<times> string"

text \<open>What is kept of each job: \<^verbatim>\<open>skipped\<close>, \<^verbatim>\<open>codes\<close>, \<^verbatim>\<open>errors\<close>, \<^verbatim>\<open>outputs\<close> and the status the pipeline holds.\<close>

record JobOut =
  jo_skipped :: bool
  jo_status :: JobStatus
  jo_code :: PipelineError
  jo_message :: string
  jo_output :: Payload

definition JobOut_new :: JobOut where
  "JobOut_new = \<lparr>jo_skipped = False, jo_status = kPending, jo_code = kJobFailed, jo_message = [], jo_output = Payload_new\<rparr>"

definition predecessorIds :: "SubGraphRequest \<Rightarrow> nat \<Rightarrow> nat list" where
  "predecessorIds req i = map (unat \<circ> fst) (filter (\<lambda>(from, to). unat to = i) (rq_edges req))"

definition successorIds :: "SubGraphRequest \<Rightarrow> nat \<Rightarrow> nat list" where
  "successorIds req i = map (unat \<circ> snd) (filter (\<lambda>(from, to). unat from = i) (rq_edges req))"

text \<open>The pipeline that is built: one optional job per job of the request, one dependency per edge.\<close>

definition request_dag :: "SubGraphRequest \<Rightarrow> dag" where
  "request_dag req =
     \<lparr>dg_n = length (rq_jobs req), dg_succs = successorIds req, dg_preds = (\<lambda>j. word_of_nat (length (predecessorIds req j))),
      dg_optional = (\<lambda>_. True), dg_deferred = (\<lambda>_. False), dg_onDemand = (\<lambda>_. False)\<rparr>"

definition succeeded :: "JobOut \<Rightarrow> bool" where
  "succeeded jo \<longleftrightarrow> \<not> jo_skipped jo \<and> jo_status jo = kDone"

text \<open>The body of job \<open>i\<close>. A job that skips itself is done for the pipeline.\<close>

definition job_body ::
  "(string \<Rightarrow> u32 \<Rightarrow> JobKindFn option) \<Rightarrow> SubGraphRequest \<Rightarrow> Payload list \<Rightarrow> nat \<Rightarrow> JobOut list \<Rightarrow> JobOut" where
  "job_body find_fn req inputs i outs =
     (if \<exists>p \<in> set (predecessorIds req i). \<not> succeeded (outs ! p)
      then (outs ! i)\<lparr>jo_skipped := True, jo_status := kDone\<rparr>
      else let kind = js_kind (rq_jobs req ! i)
           in case find_fn (jk_name kind) (jk_version kind) of
                None \<Rightarrow> (outs ! i)\<lparr>jo_status := kFailed,
                                  jo_message := ''unknown job kind '' @ jk_name kind @ ''@'' @ to_string (unat (jk_version kind))\<rparr>
              | Some fn \<Rightarrow>
                  (case fn (inputs ! i) (map (\<lambda>p. jo_output (outs ! p)) (predecessorIds req i)) of
                     (r, output, msg) \<Rightarrow>
                       (outs ! i)\<lparr>jo_status := statusOf r, jo_code := (case r of Inl e \<Rightarrow> e | Inr _ \<Rightarrow> jo_code (outs ! i)),
                                 jo_message := msg, jo_output := output\<rparr>))"

text \<open>
  What happens to a job in the pipeline: its body runs, or the run ends it without (a stop, a submission the executor refused, a
  predecessor that was stopped).
\<close>

datatype job_event = Ran nat | Ended nat JobStatus

fun apply_event ::
  "(string \<Rightarrow> u32 \<Rightarrow> JobKindFn option) \<Rightarrow> SubGraphRequest \<Rightarrow> Payload list \<Rightarrow> job_event \<Rightarrow> JobOut list \<Rightarrow> JobOut list" where
  "apply_event find_fn req inputs (Ran i) outs = outs[i := job_body find_fn req inputs i outs]"
| "apply_event find_fn req inputs (Ended i st) outs = outs[i := (outs ! i)\<lparr>jo_status := st\<rparr>]"

definition run_events ::
  "(string \<Rightarrow> u32 \<Rightarrow> JobKindFn option) \<Rightarrow> SubGraphRequest \<Rightarrow> Payload list \<Rightarrow> job_event list \<Rightarrow> JobOut list" where
  "run_events find_fn req inputs evs = fold (apply_event find_fn req inputs) evs (replicate (length (rq_jobs req)) JobOut_new)"

section \<open>The reply\<close>

text \<open>
  One result: the reply entry, the override for the wire and the payload frames. \<open>put\<close> is the worker's store, if it has one; \<open>None\<close> if
  the strategy did not return.
\<close>

definition bare_result :: "bool \<Rightarrow> JobOut \<Rightarrow> JobResult" where
  "bare_result cyclic jo =
     (if cyclic
      then JobResult_new\<lparr>jr_status := status_code kFailed, jr_error := error_code kCyclicDependency,
                         jr_message := ''the request's edges form a cycle''\<rparr>
      else let st = (if jo_skipped jo then kSkipped else jo_status jo)
           in JobResult_new\<lparr>jr_status := status_code st,
                jr_error := error_code (if st = kCancelledStatus then kCancelled else if st = kTimedOut then kTimeout else jo_code jo),
                jr_message := jo_message jo\<rparr>)"

definition failed_result :: "PipelineError \<Rightarrow> string \<Rightarrow> JobResult \<Rightarrow> JobResult" where
  "failed_result e msg r = r\<lparr>jr_output := Payload_new, jr_status := status_code kFailed, jr_error := error_code e, jr_message := msg\<rparr>"

definition export_output ::
  "'s StrategyOps \<Rightarrow> (bytes list \<Rightarrow> bool) \<Rightarrow> (bytes \<Rightarrow> bytes expected) option \<Rightarrow> u32 \<Rightarrow> u64 \<Rightarrow> JobResult \<Rightarrow> Payload \<Rightarrow> 's option
    \<Rightarrow> (JobResult \<times> Payload option \<times> bytes list list \<times> 's option) option" where
  "export_output I deliver put limit i r output s =
     (if pl_kind output \<noteq> kInline \<or> length (payload_bytes output) \<le> unat limit
      then Some (r\<lparr>jr_output := output\<rparr>, None, [], s)
      else case s of
             Some s0 \<Rightarrow>
               (case ps_send I deliver output i s0 of
                  None \<Rightarrow> None
                | Some (frames, Inr ref, s1) \<Rightarrow> Some (r\<lparr>jr_output := output\<rparr>, Some (Payload_reference ref), frames, Some s1)
                | Some (frames, Inl e, s1) \<Rightarrow> Some (failed_result e ''output payload transfer failed'' r, None, frames, Some s1))
           | None \<Rightarrow>
               (case put of
                  None \<Rightarrow> Some (failed_result kJobFailed ''output exceeds the inline limit and the worker has no store'' r, None, [], None)
                | Some store \<Rightarrow>
                    (case store (payload_bytes output) of
                       Inr handle \<Rightarrow>
                         if length handle \<le> kMaxHandleBytes then Some (r\<lparr>jr_output := Payload_handle handle\<rparr>, None, [], None)
                         else Some (failed_result kJobFailed ''storing a large output failed'' r, None, [], None)
                     | Inl e \<Rightarrow> Some (failed_result kJobFailed ''storing a large output failed'' r, None, [], None))))"

text \<open>The round of the loop for one job: its result, the payload that travels instead of its output, the payload frames sent.\<close>

definition report_job ::
  "'s StrategyOps \<Rightarrow> (bytes list \<Rightarrow> bool) \<Rightarrow> (bytes \<Rightarrow> bytes expected) option \<Rightarrow> u32 \<Rightarrow> u64 \<Rightarrow> bool \<Rightarrow> JobSpec \<Rightarrow> JobOut \<Rightarrow> 's option
    \<Rightarrow> (JobResult \<times> Payload option \<times> bytes list list \<times> 's option) option" where
  "report_job I deliver put limit i cyclic spec jo s =
     (let r = bare_result cyclic jo
      in if cyclic \<or> jr_status r \<noteq> status_code kDone \<or> \<not> js_exported spec then Some (r, None, [], s)
         else export_output I deliver put limit i r (jo_output jo) s)"

fun reply_results ::
  "'s StrategyOps \<Rightarrow> (bytes list \<Rightarrow> bool) \<Rightarrow> (bytes \<Rightarrow> bytes expected) option \<Rightarrow> u32 \<Rightarrow> u64 \<Rightarrow> bool \<Rightarrow> (JobSpec \<times> JobOut) list \<Rightarrow> 's option
    \<Rightarrow> (SubGraphReply \<times> Payload option list \<times> bytes list list \<times> 's option) option" where
  "reply_results I deliver put limit i cyclic [] s = Some ([], [], [], s)"
| "reply_results I deliver put limit i cyclic ((spec, jo) # js) s =
     (case report_job I deliver put limit i cyclic spec jo s of
        None \<Rightarrow> None
      | Some (r', ov, frames, s') \<Rightarrow>
          (case reply_results I deliver put limit i cyclic js s' of
             None \<Rightarrow> None
           | Some (rs, ovs, framess, s'') \<Rightarrow> Some (r' # rs, ov # ovs, frames @ framess, s'')))"

text \<open>The frames that the run of a request sends, payload frames first, and the results it reports.\<close>

definition run_request ::
  "'s StrategyOps \<Rightarrow> (bytes list \<Rightarrow> bool) \<Rightarrow> (bytes \<Rightarrow> bytes expected) option \<Rightarrow> u32 \<Rightarrow> u64 \<Rightarrow> bool \<Rightarrow> SubGraphRequest \<Rightarrow> JobOut list \<Rightarrow> 's option
    \<Rightarrow> (SubGraphReply \<times> bytes \<times> bytes list list \<times> 's option) option" where
  "run_request I deliver put limit i cyclic req outs s =
     (case reply_results I deliver put limit i cyclic (zip (rq_jobs req) outs) s of
        None \<Rightarrow> None
      | Some (reply, overrides, frames, s') \<Rightarrow> Some (reply, encodeReply i reply overrides, frames, s'))"

section \<open>The order of the starts\<close>

fun starts :: "event list \<Rightarrow> nat list" where
  "starts [] = []"
| "starts (Started i # tr) = i # starts tr"
| "starts (_ # tr) = starts tr"

lemma starts_append [simp]: "starts (tr @ tr') = starts tr @ starts tr'"
  by (induction tr rule: starts.induct) auto

lemma set_starts: "i \<in> set (starts tr) \<longleftrightarrow> Started i \<in> set tr"
  by (induction tr rule: starts.induct) auto

lemma count_starts: "count_list (starts tr) i = count_list tr (Started i)"
  by (induction tr rule: starts.induct) auto

text \<open>No job is reported finished before it starts.\<close>

definition fresh_starts :: "event list \<Rightarrow> bool" where
  "fresh_starts tr \<longleftrightarrow> (\<forall>pre i post. tr = pre @ Started i # post \<longrightarrow> finish_count pre i = 0)"

lemma fresh_starts_append:
  assumes "fresh_starts tr" "\<forall>i. Started i \<notin> set es"
  shows "fresh_starts (tr @ es)"
  unfolding fresh_starts_def
proof (intro allI impI)
  fix pre i post
  assume eq: "tr @ es = pre @ Started i # post"
  then consider us where "tr = pre @ us" "us @ es = Started i # post" | us where "es = us @ Started i # post"
    by (auto simp: append_eq_append_conv2)
  then show "finish_count pre i = 0"
  proof cases
    case 1
    then show ?thesis using assms by (cases us) (auto simp: fresh_starts_def)
  next
    case 2
    then show ?thesis using assms(2) by auto
  qed
qed

lemma fresh_starts_snoc:
  assumes "fresh_starts tr" "finish_count tr i = 0"
  shows "fresh_starts (tr @ [Started i])"
  unfolding fresh_starts_def
proof (intro allI impI)
  fix pre k post
  assume "tr @ [Started i] = pre @ Started k # post"
  then consider us where "tr = pre @ us" "us @ [Started i] = Started k # post" | us where "tr @ us = pre" "[Started i] = us @ Started k # post"
    by (auto simp: append_eq_append_conv2)
  then show "finish_count pre k = 0"
  proof cases
    case 1
    then show ?thesis using assms by (cases us) (auto simp: fresh_starts_def)
  next
    case 2
    then show ?thesis using assms(2) by (cases us) auto
  qed
qed

lemma reach_fresh_starts:
  assumes "dag_ok g" "reach (start g) (step g) x"
  shows "fresh_starts (sc_trace (fst x))"
  using assms(2)
proof (induction rule: reach.induct)
  case (reach_init x)
  then show ?case by (simp add: start_def initial_def fresh_starts_def)
next
  case (reach_step x y)
  note inv = reach_sched_inv [OF assms(1) reach_step.hyps(1)]
  obtain s t s' ts M where x: "x = (s, add_mset t M)" "y = (s', mset ts + M)" "exec_task g s t s' ts"
    using reach_step.hyps(2) by (cases rule: step.cases) auto
  have fr: "fresh_starts (sc_trace s)" using reach_step.IH x(1) by simp
  show ?case
  proof (cases "\<exists>i. t = Claim i \<and> sc_status s i = kReady")
    case True
    then obtain i where i: "t = Claim i" "sc_status s i = kReady" by blast
    have "finish_count (sc_trace s) i = 0"
      using sched_invD(8)[OF inv, of i] i(2) x(1) by (simp add: inv_report_def)
    moreover have "sc_trace s' = sc_trace s @ [Started i]"
      using x(3) i by cases (auto simp: sched_defs)
    ultimately show ?thesis using fresh_starts_snoc[OF fr] x(2) by simp
  next
    case False
    have "\<exists>es. sc_trace s' = sc_trace s @ es \<and> (\<forall>i. Started i \<notin> set es)"
      using x(3) False by cases (auto simp: sched_defs notifyDependencies_def split: if_splits)
    then show ?thesis using fresh_starts_append[OF fr] x(2) by auto
  qed
qed

text \<open>So the starts of a run come in an order that respects the dependencies.\<close>

definition follows_edges :: "SubGraphRequest \<Rightarrow> nat list \<Rightarrow> bool" where
  "follows_edges req order \<longleftrightarrow> (\<forall>pre i post. order = pre @ i # post \<longrightarrow> set (predecessorIds req i) \<subseteq> set pre)"

lemma starts_split:
  assumes "starts tr = pre @ i # post"
  shows "\<exists>tr1 tr2. tr = tr1 @ Started i # tr2 \<and> starts tr1 = pre"
  using assms
proof (induction tr arbitrary: pre)
  case (Cons e tr)
  show ?case
  proof (cases "e = Started i \<and> pre = []")
    case True
    then show ?thesis by (intro exI [of _ "[]"] exI [of _ tr]) simp
  next
    case False
    then obtain pre' where "starts tr = pre' @ i # post" "starts [e] @ pre' = pre"
      using Cons.prems by (cases e; cases pre) auto
    then obtain tr1 tr2 where "tr = tr1 @ Started i # tr2" "starts (e # tr1) = pre" using Cons.IH starts_append[of "[e]"] by (metis append_Cons append_Nil)
    then show ?thesis by (intro exI [of _ "e # tr1"] exI [of _ tr2]) simp
  qed
qed simp

lemma distinct_count: "distinct xs \<longleftrightarrow> (\<forall>x. count_list xs x \<le> 1)"
proof (induction xs)
  case (Cons a xs)
  show ?case
  proof
    assume "distinct (a # xs)"
    then show "\<forall>x. count_list (a # xs) x \<le> 1" using Cons by (auto simp: count_list_0_iff)
  next
    assume h: "\<forall>x. count_list (a # xs) x \<le> 1"
    then have "count_list xs a = 0" by (metis One_nat_def add_le_same_cancel2 count_list.simps(2) le_zero_eq)
    moreover have "\<forall>x. count_list xs x \<le> 1" using h by (metis count_list.simps(2) le_trans le_add1)
    ultimately show "distinct (a # xs)" using Cons by (simp add: count_list_0_iff)
  qed
qed simp

definition edges_within :: "SubGraphRequest \<Rightarrow> bool" where
  "edges_within req \<longleftrightarrow> (\<forall>(from, to) \<in> set (rq_edges req). unat from < length (rq_jobs req) \<and> unat to < length (rq_jobs req))"

lemma predecessorIds_iff: "p \<in> set (predecessorIds req i) \<longleftrightarrow> i \<in> set (successorIds req p)"
  by (force simp: predecessorIds_def successorIds_def)

lemma predecessor_range: "edges_within req \<Longrightarrow> p \<in> set (predecessorIds req i) \<Longrightarrow> p < length (rq_jobs req)"
  by (force simp: predecessorIds_def edges_within_def)

lemma starts_follow:
  assumes ok: "dag_ok (request_dag req)" and r: "reach (start (request_dag req)) (step (request_dag req)) (s, M)"
    and within: "edges_within req" and all: "\<forall>i < length (rq_jobs req). Started i \<in> set (sc_trace s)"
  shows "distinct (starts (sc_trace s))" "follows_edges req (starts (sc_trace s))"
proof -
  let ?g = "request_dag req"
  note inv = reach_sched_inv [OF ok r]
  show "distinct (starts (sc_trace s))"
    using sched_invD(12)[OF inv] by (simp add: distinct_count count_starts inv_start_def)
  have fr: "fresh_starts (sc_trace s)" using reach_fresh_starts[OF ok r] by simp
  show "follows_edges req (starts (sc_trace s))"
    unfolding follows_edges_def
  proof (intro allI impI subsetI)
    fix pre i post p
    assume "starts (sc_trace s) = pre @ i # post" and p: "p \<in> set (predecessorIds req i)"
    then obtain tr1 tr2 where tr: "sc_trace s = tr1 @ Started i # tr2" "starts tr1 = pre" using starts_split by meson
    have pn: "p < dg_n ?g" using predecessor_range[OF within p] by (simp add: request_dag_def)
    have "passed ?g tr1 p"
      using sched_invD(6)[OF inv] tr(1) pn p unfolding inv_order_def ordered_def
      by (auto simp: predecessorIds_iff request_dag_def)
    then have pos: "finish_count tr1 p \<noteq> 0" by (force simp: passed_def finish_count_def filter_empty_conv)
    have "Started p \<in> set (sc_trace s)" using all pn by (simp add: request_dag_def)
    then obtain a b where ab: "sc_trace s = a @ Started p # b" by (meson split_list)
    then have a0: "finish_count a p = 0" using fr by (simp add: fresh_starts_def)
    have "Started p \<in> set tr1"
    proof (rule ccontr)
      assume "Started p \<notin> set tr1"
      then obtain us where "a = tr1 @ us" using tr(1) ab by (auto simp: append_eq_append_conv2 Cons_eq_append_conv)
      then show False using a0 pos by simp
    qed
    then show "p \<in> set pre" using tr(2) set_starts by blast
  qed
qed

section \<open>Order does not matter\<close>

lemma job_body_cong:
  assumes "\<forall>p \<in> set (predecessorIds req i). a ! p = b ! p" "a ! i = b ! i"
  shows "job_body find_fn req inputs i a = job_body find_fn req inputs i b"
proof -
  have "map (\<lambda>p. jo_output (a ! p)) (predecessorIds req i) = map (\<lambda>p. jo_output (b ! p)) (predecessorIds req i)" using assms(1) by simp
  moreover have "(\<exists>p \<in> set (predecessorIds req i). \<not> succeeded (a ! p)) \<longleftrightarrow> (\<exists>p \<in> set (predecessorIds req i). \<not> succeeded (b ! p))" using assms(1) by auto
  ultimately show ?thesis unfolding job_body_def assms(2) by (simp only:)
qed

lemma run_events_length: "length (run_events find_fn req inputs evs) = length (rq_jobs req)"
proof -
  have "length (fold (apply_event find_fn req inputs) evs outs) = length outs" for outs
  proof (induction evs arbitrary: outs)
    case (Cons e evs)
    then show ?case by (cases e) simp_all
  qed simp
  then show ?thesis by (simp add: run_events_def)
qed

lemma follows_butlast: "follows_edges req (order @ [i]) \<Longrightarrow> follows_edges req order"
  by (auto simp: follows_edges_def)

lemma not_run: "i \<notin> set order \<Longrightarrow> i < length (rq_jobs req) \<Longrightarrow> run_events find_fn req inputs (map Ran order) ! i = JobOut_new"
proof (induction order rule: rev_induct)
  case (snoc k order)
  then show ?case by (simp add: run_events_def)
qed (simp add: run_events_def)

lemma run_equation:
  assumes "distinct order" "follows_edges req order" "set order \<subseteq> {..<length (rq_jobs req)}" "i \<in> set order"
  shows "run_events find_fn req inputs (map Ran order) ! i
    = job_body find_fn req inputs i ((run_events find_fn req inputs (map Ran order))[i := JobOut_new])"
  using assms
proof (induction order arbitrary: i rule: rev_induct)
  case (snoc k order)
  define o1 where "o1 = run_events find_fn req inputs (map Ran order)"
  have step: "run_events find_fn req inputs (map Ran (order @ [k])) = o1[k := job_body find_fn req inputs k o1]"
    by (simp add: run_events_def o1_def)
  have len: "length o1 = length (rq_jobs req)" by (simp add: o1_def run_events_length)
  have k: "k \<notin> set order" "k < length o1" using snoc.prems len by auto
  have pk: "set (predecessorIds req k) \<subseteq> set order" using snoc.prems(2) by (auto simp: follows_edges_def)
  show ?case
  proof (cases "i = k")
    case True
    have "job_body find_fn req inputs k (o1[k := job_body find_fn req inputs k o1, k := JobOut_new]) = job_body find_fn req inputs k o1"
      using pk k not_run[of k order req find_fn inputs] len by (intro job_body_cong) (auto simp: o1_def[symmetric] nth_list_update)
    then show ?thesis unfolding step using True k by simp
  next
    case False
    then have i: "i \<in> set order" using snoc.prems(4) by simp
    then obtain pre post where sp: "order = pre @ i # post" by (meson split_list)
    have pi: "set (predecessorIds req i) \<subseteq> set order"
      using snoc.prems(2) sp unfolding follows_edges_def by (metis append.assoc append_Cons set_append sup.coboundedI1)
    have IH: "o1 ! i = job_body find_fn req inputs i (o1[i := JobOut_new])"
      using snoc.IH[of i] snoc.prems follows_butlast i unfolding o1_def by auto
    have "job_body find_fn req inputs i (o1[k := job_body find_fn req inputs k o1, i := JobOut_new])
        = job_body find_fn req inputs i (o1[i := JobOut_new])"
      unfolding list_update_swap[OF False[symmetric]]
      using pi k False by (intro job_body_cong) (auto intro!: nth_list_update_neq)
    then show ?thesis unfolding step using IH False by simp
  qed
qed simp

lemma run_order_independent:
  assumes d: "distinct o1" "distinct o2" and f: "follows_edges req o1" "follows_edges req o2"
    and s: "set o1 = {..<length (rq_jobs req)}" "set o2 = {..<length (rq_jobs req)}"
  shows "run_events find_fn req inputs (map Ran o1) = run_events find_fn req inputs (map Ran o2)" (is "?a = ?b")
proof -
  have "\<forall>i \<in> set pre. ?a ! i = ?b ! i" if "o1 = pre @ post" for pre post
    using that
  proof (induction pre arbitrary: post rule: rev_induct)
    case (snoc i pre)
    then have IH: "\<forall>i \<in> set pre. ?a ! i = ?b ! i" by simp
    have i: "i \<in> set o1" "i \<in> set o2" using snoc.prems s by auto
    have p: "set (predecessorIds req i) \<subseteq> set pre" using f(1) snoc.prems by (simp add: follows_edges_def)
    have ni: "i \<notin> set pre" using d(1) snoc.prems by auto
    have len: "i < length ?a" "i < length ?b" using i s by (auto simp: run_events_length)
    have "job_body find_fn req inputs i (?a[i := JobOut_new]) = job_body find_fn req inputs i (?b[i := JobOut_new])"
      using IH p ni len by (intro job_body_cong) (auto simp: nth_list_update)
    then have "?a ! i = ?b ! i"
      using run_equation[OF d(1) f(1) _ i(1), of find_fn inputs] run_equation[OF d(2) f(2) _ i(2), of find_fn inputs] s by simp
    then show ?case using IH by auto
  qed simp
  from this[of o1 "[]"] show ?thesis using s(1) by (intro nth_equalityI) (auto simp: run_events_length)
qed

section \<open>Properties\<close>


text \<open>Two jobs without an edge between them, started in either order.\<close>

definition pair_request :: SubGraphRequest where
  "pair_request = \<lparr>rq_jobs = replicate 2 \<lparr>js_kind = \<lparr>jk_name = ''sum'', jk_version = 1\<rparr>, js_input = Payload_new, js_exported = True\<rparr>, rq_edges = []\<rparr>"

lemma pair_request_dag [simp]:
  "dg_n (request_dag pair_request) = 2" "dg_succs (request_dag pair_request) i = []" "dg_preds (request_dag pair_request) i = 0"
  "dg_optional (request_dag pair_request) i" "\<not> dg_deferred (request_dag pair_request) i" "\<not> dg_onDemand (request_dag pair_request) i"
  by (simp_all add: request_dag_def pair_request_def successorIds_def predecessorIds_def)

lemma pair_request_ok: "dag_ok (request_dag pair_request)" "edges_within pair_request"
proof -
  have "edges (request_dag pair_request) = {}" by (simp add: edges_def)
  then show "dag_ok (request_dag pair_request)" by (simp add: dag_ok_def acyclic_def)
  show "edges_within pair_request" by (simp add: edges_within_def pair_request_def)
qed

lemma pair_request_run:
  assumes "{i, j} = {0, 1}"
  shows "\<exists>s M. reach (start (request_dag pair_request)) (step (request_dag pair_request)) (s, M) \<and> starts (sc_trace s) = [i, j]"
proof -
  let ?g = "request_dag pair_request"
  let ?R = "reach (start ?g) (step ?g)" and ?s0 = "initial ?g"
  define s1 where "s1 = emit [Started i] (set_status i kRunning ?s0)"
  define s2 where "s2 = emit [Started j] (set_status j kRunning s1)"
  have ij: "i \<noteq> j" "i < 2" "j < 2" using assms by (auto simp: doubleton_eq_iff)
  have "roots ?g = [0, 1]" by (simp add: roots_def upt_rec)
  then have r: "?R (?s0, {#Root_loop [0, 1]#} + {#})" by (auto intro: reach.reach_init simp: start_def)
  have r: "?R (?s0, {#Root_loop [1]#} + {#Dispatch 0#})" by (rule advance [OF r root_accept]) simp_all
  have r: "?R (?s0, {#Root_loop []#} + {#Dispatch 0, Dispatch 1#})" by (rule advance [OF r root_accept]) simp_all
  have r: "?R (?s0, {#Dispatch i#} + {#Dispatch j#})"
    by (rule advance [OF r root_end]) (use assms in \<open>auto simp: doubleton_eq_iff add_mset_commute\<close>)
  have r: "?R (?s0, {#Claim i#} + {#Dispatch j#})" by (rule advance [OF r dispatch_go]) simp_all
  have r: "?R (s1, {#Dispatch j#} + {#Body i#})"
    unfolding s1_def by (rule advance [OF r claim]) simp_all
  have r: "?R (s1, {#Claim j#} + {#Body i#})" by (rule advance [OF r dispatch_go]) (simp_all add: s1_def sched_defs)
  have r: "?R (s2, {#Body j#} + {#Body i#})"
    unfolding s2_def by (rule advance [OF r claim]) (use ij in \<open>simp_all add: s1_def sched_defs\<close>)
  moreover have "starts (sc_trace s2) = [i, j]" by (simp add: s2_def s1_def sched_defs initial_def)
  ultimately show ?thesis by blast
qed


end
