(* ===== verification/WorkerHost.thy ===== *)
theory WorkerHost
  imports WorkerRun
begin

text \<open>
  The worker's end of a connection: \<^verbatim>\<open>WorkerHost\<close> (\<^verbatim>\<open>include/sub0pipeline/remote/worker_host.hpp\<close>,
  \<^verbatim>\<open>src/remote/worker_host.cpp\<close>). The transport's thread hands over one frame at a time, \<^verbatim>\<open>maxConcurrentRequests\<close> runner
  threads take requests from the queue, and \<^verbatim>\<open>serve\<close> starts and ends them; the step relation interleaves these threads in every
  order.
\<close>

section \<open>State\<close>

text \<open>\<open>wo_strategies\<close> are the results of calling the factories, \<open>None\<close> for an empty factory or a null result.\<close>

record 's HostOptions =
  wo_maxConcurrentRequests :: u32
  wo_maxInlineBytes :: u32
  wo_strategies :: "'s option list"
  wo_fingerprint :: u64

text \<open>A \<^verbatim>\<open>Work\<close> is shared by its address; its stop source is stopped when the address is in \<open>wh_stopped\<close>.\<close>

record Work =
  wk_address :: nat
  wk_id :: u64
  wk_request :: SubGraphRequest
  wk_inputs :: "Payload list"

record 's WorkerHost =
  wh_options :: "'s HostOptions"
  wh_handshaken :: bool
  wh_closed :: bool
  wh_admitted :: u32
  wh_inlineLimit :: u32
  wh_queue :: "Work list"
  wh_active :: "(u64 \<times> Work) list"
  wh_strategy :: "'s option"
  wh_sender :: bool
  wh_works :: nat
  wh_stopped :: "nat list"

definition WorkerHost_new :: "'s HostOptions \<Rightarrow> 's WorkerHost" where
  "WorkerHost_new opts =
     \<lparr>wh_options = opts, wh_handshaken = False, wh_closed = False, wh_admitted = 0, wh_inlineLimit = 0, wh_queue = [], wh_active = [],
      wh_strategy = None, wh_sender = False, wh_works = 0, wh_stopped = []\<rparr>"

text \<open>What the host hands to the transport, which may drop it: frames, the reply to a request, payload frames, the close.\<close>

datatype host_effect =
  HostSent bytes
| Answer u64 SubGraphReply "Payload option list"
| HostPayload "bytes list"
| HostClosing

text \<open>The frame of an answer.\<close>

fun effect_frame :: "host_effect \<Rightarrow> bytes option" where
  "effect_frame (HostSent fr) = Some fr"
| "effect_frame (Answer i reply overrides) = Some (encodeReply i reply overrides)"
| "effect_frame _ = None"

section \<open>Handshake\<close>

text \<open>One offer: the first factory of that name decides, and a strategy that does not accept ends the search.\<close>

fun accept_offer :: "'s StrategyOps \<Rightarrow> StrategyOffer \<Rightarrow> 's option list \<Rightarrow> ('s \<times> StrategyOffer) option" where
  "accept_offer I offer [] = None"
| "accept_offer I offer (None # fs) = accept_offer I offer fs"
| "accept_offer I offer (Some c # fs) =
     (if ps_name I c \<noteq> so_name offer then accept_offer I offer fs
      else case ps_accept I (so_setup offer) c of
             (Inl e, c') \<Rightarrow> None
           | (Inr setup, c') \<Rightarrow> Some (ps_attach I c', \<lparr>so_name = so_name offer, so_setup = setup\<rparr>))"

fun choose_strategy :: "'s StrategyOps \<Rightarrow> StrategyOffer list \<Rightarrow> 's option list \<Rightarrow> ('s \<times> StrategyOffer) option" where
  "choose_strategy I [] fs = None"
| "choose_strategy I (offer # offers) fs =
     (case accept_offer I offer fs of Some x \<Rightarrow> Some x | None \<Rightarrow> choose_strategy I offers fs)"

definition hello_reject :: "Hello \<Rightarrow> HelloReject" where
  "hello_reject hello =
     (if he_major hello \<noteq> kProtocolMajor
      then \<lparr>rj_reason = reason_code kVersion,
            rj_detail = ''worker speaks protocol '' @ to_string (unat kProtocolMajor) @ '', coordinator '' @ to_string (unat (he_major hello))\<rparr>
      else \<lparr>rj_reason = reason_code kFingerprint,
            rj_detail = ''worker job registry differs from the one the coordinator expects''\<rparr>)"

text \<open>\<open>stream\<close> is what \<^verbatim>\<open>streamStrategy()\<close> makes, the factory tried last.\<close>

definition handle_hello :: "'s StrategyOps \<Rightarrow> 's \<Rightarrow> bytes \<Rightarrow> 's WorkerHost \<Rightarrow> host_effect list \<times> 's WorkerHost" where
  "handle_hello I stream fr st =
     (case decodeHello fr of
        None \<Rightarrow> ([HostClosing], st)
      | Some hello \<Rightarrow>
          let opts = wh_options st in
          if wh_handshaken st then ([HostClosing], st)
          else if he_major hello \<noteq> kProtocolMajor \<or> he_fingerprint hello \<noteq> wo_fingerprint opts
          then ([HostSent (encodeReject (hello_reject hello)), HostClosing], st)
          else let chosen = choose_strategy I (he_strategies hello) (wo_strategies opts @ [Some stream]);
                   ack = Hello_new\<lparr>he_fingerprint := wo_fingerprint opts, he_maxInFlight := wo_maxConcurrentRequests opts,
                                   he_maxInlineBytes := wo_maxInlineBytes opts,
                                   he_strategies := (case chosen of None \<Rightarrow> [] | Some (c, offer) \<Rightarrow> [offer])\<rparr>
               in ([HostSent (encodeHello kHelloAck ack)],
                   st\<lparr>wh_strategy := (case chosen of None \<Rightarrow> wh_strategy st | Some (c, offer) \<Rightarrow> Some c),
                      wh_sender := (wh_sender st \<or> chosen \<noteq> None), wh_handshaken := True,
                      wh_inlineLimit := min (wo_maxInlineBytes opts) (he_maxInlineBytes hello)\<rparr>))"

section \<open>Requests\<close>

text \<open>Each input that is a reference is received from the strategy; the first component says whether all of them were.\<close>

fun resolve_inputs :: "'s StrategyOps \<Rightarrow> JobSpec list \<Rightarrow> 's option \<Rightarrow> bool \<times> Payload list \<times> 's option" where
  "resolve_inputs I [] s = (True, [], s)"
| "resolve_inputs I (job # jobs) s =
     (if pl_kind (js_input job) \<noteq> kReference
      then (case resolve_inputs I jobs s of (ok, ps, s') \<Rightarrow> (ok, js_input job # ps, s'))
      else case (case s of None \<Rightarrow> (Inl kJobFailed, None)
                 | Some s0 \<Rightarrow> (case ps_receive I (payload_bytes (js_input job)) s0 of (x, s1) \<Rightarrow> (x, Some s1))) of
             (x, s1) \<Rightarrow>
               (case resolve_inputs I jobs s1 of
                  (ok, ps, s') \<Rightarrow> (case x of Inr p \<Rightarrow> (ok, p # ps, s') | Inl e \<Rightarrow> (False, Payload_new # ps, s'))))"

definition busy_result :: "bool \<Rightarrow> JobResult" where
  "busy_result resolved =
     JobResult_new\<lparr>jr_status := status_code kFailed, jr_error := error_code (if resolved then kBusy else kJobFailed),
                   jr_message := (if resolved then ''worker at capacity'' else ''input payload unavailable'')\<rparr>"

definition handle_request :: "'s StrategyOps \<Rightarrow> bytes \<Rightarrow> 's WorkerHost \<Rightarrow> host_effect list \<times> 's WorkerHost" where
  "handle_request I fr st =
     (case decodeRequest fr of
        None \<Rightarrow> ([HostClosing], st)
      | Some (i, request) \<Rightarrow>
          (case resolve_inputs I (rq_jobs request) (wh_strategy st) of
             (resolved, inputs, s') \<Rightarrow>
               let st1 = st\<lparr>wh_strategy := s'\<rparr> in
               if \<not> wh_handshaken st then ([HostClosing], st1)
               else if wh_admitted st \<ge> wo_maxConcurrentRequests (wh_options st) \<or> \<not> resolved
               then ([Answer i (replicate (length (rq_jobs request)) (busy_result resolved)) []], st1)
               else ([], st1\<lparr>wh_admitted := wh_admitted st + 1, wh_works := Suc (wh_works st),
                             wh_queue := wh_queue st
                               @ [\<lparr>wk_address = wh_works st, wk_id = i, wk_request = request, wk_inputs = inputs\<rparr>]\<rparr>)))"

section \<open>Cancels and other frames\<close>

text \<open>A queued request goes before an active one, the last queued one before the others.\<close>

definition cancel_target :: "u64 \<Rightarrow> 's WorkerHost \<Rightarrow> Work option" where
  "cancel_target i st =
     (case filter (\<lambda>w. wk_id w = i) (wh_queue st) of [] \<Rightarrow> map_of (wh_active st) i | ws \<Rightarrow> Some (last ws))"

definition request_stop :: "Work list \<Rightarrow> 's WorkerHost \<Rightarrow> 's WorkerHost" where
  "request_stop ws st = st\<lparr>wh_stopped := wh_stopped st @ map wk_address ws\<rparr>"

definition handle_cancel :: "bytes \<Rightarrow> 's WorkerHost \<Rightarrow> 's WorkerHost" where
  "handle_cancel fr st =
     (case decodeCancel fr of
        None \<Rightarrow> st
      | Some i \<Rightarrow> (case cancel_target i st of None \<Rightarrow> st | Some w \<Rightarrow> request_stop [w] st))"

definition host_onFrameBuffer ::
  "'s StrategyOps \<Rightarrow> 's \<Rightarrow> nat option \<Rightarrow> bytes \<Rightarrow> 's WorkerHost \<Rightarrow> host_effect list \<times> 's WorkerHost" where
  "host_onFrameBuffer I stream own fr st =
     (case (frameType fr, wh_strategy st) of
        (Some kPayload, Some s) \<Rightarrow> ([], st\<lparr>wh_strategy := Some (ps_onPayloadFrame I (drop kHeaderBytes fr, own) s)\<rparr>)
      | (Some kHello, _) \<Rightarrow> handle_hello I stream fr st
      | (Some kRequest, _) \<Rightarrow> handle_request I fr st
      | (Some kCancel, _) \<Rightarrow> ([], handle_cancel fr st)
      | _ \<Rightarrow> ([HostClosing], st))"

lemma host_onFrameBuffer_cases [simp]:
  "frameType fr = Some kHello \<Longrightarrow> host_onFrameBuffer I stream own fr st = handle_hello I stream fr st"
  "frameType fr = Some kRequest \<Longrightarrow> host_onFrameBuffer I stream own fr st = handle_request I fr st"
  "frameType fr = Some kCancel \<Longrightarrow> host_onFrameBuffer I stream own fr st = ([], handle_cancel fr st)"
  "frameType fr = Some kPayload \<Longrightarrow> wh_strategy st = Some s \<Longrightarrow>
     host_onFrameBuffer I stream own fr st = ([], st\<lparr>wh_strategy := Some (ps_onPayloadFrame I (drop kHeaderBytes fr, own) s)\<rparr>)"
  by (simp_all add: host_onFrameBuffer_def split: option.splits)

definition host_onClosed :: "'s StrategyOps \<Rightarrow> 's WorkerHost \<Rightarrow> 's WorkerHost" where
  "host_onClosed I st = st\<lparr>wh_strategy := map_option (ps_onClosed I) (wh_strategy st), wh_closed := True\<rparr>"

section \<open>Runner threads\<close>

text \<open>
  The place a runner thread is at: waiting, running a request's pipeline, putting the reply together job by job, between the reply
  and the end of the round, or gone.
\<close>

datatype runner =
  Waiting
| Running Work
| Reporting Work bool "(JobSpec \<times> JobOut) list" SubGraphReply "Payload option list"
| Replied Work
| Gone

definition erase_active :: "u64 \<Rightarrow> (u64 \<times> Work) list \<Rightarrow> (u64 \<times> Work) list" where
  "erase_active i l = filter (\<lambda>(k, w). k \<noteq> i) l"

definition take_work :: "'s WorkerHost \<Rightarrow> (Work \<times> 's WorkerHost) option" where
  "take_work st =
     (case wh_queue st of
        [] \<Rightarrow> None
      | w # ws \<Rightarrow> Some (w, st\<lparr>wh_queue := ws, wh_active := erase_active (wk_id w) (wh_active st) @ [(wk_id w, w)]\<rparr>))"

definition finish_work :: "Work \<Rightarrow> 's WorkerHost \<Rightarrow> 's WorkerHost" where
  "finish_work w st = st\<lparr>wh_active := erase_active (wk_id w) (wh_active st), wh_admitted := wh_admitted st - 1\<rparr>"

text \<open>
  One step of a runner thread. \<open>evs\<close> and \<open>cyclic\<close> are what happened in the pipeline's run, \<open>deliver\<close> is the transport and \<open>put\<close> the
  store; \<open>stopping\<close> says that \<^verbatim>\<open>serve\<close> has asked the threads to stop, which a thread heeds only while the queue is empty.
\<close>

fun runner_step ::
  "'s StrategyOps \<Rightarrow> (string \<Rightarrow> u32 \<Rightarrow> JobKindFn option) \<Rightarrow> job_event list \<Rightarrow> bool \<Rightarrow> (bytes list \<Rightarrow> bool) \<Rightarrow> (bytes \<Rightarrow> bytes expected) option
    \<Rightarrow> bool \<Rightarrow> runner \<Rightarrow> 's WorkerHost \<Rightarrow> (runner \<times> host_effect list \<times> 's WorkerHost) option" where
  "runner_step I find_fn evs cyclic deliver put stopping Waiting st =
     (case take_work st of
        Some (w, st') \<Rightarrow> Some (Running w, [], st')
      | None \<Rightarrow> if stopping then Some (Gone, [], st) else None)"
| "runner_step I find_fn evs cyclic deliver put stopping (Running w) st =
     Some (Reporting w cyclic (zip (rq_jobs (wk_request w)) (run_events find_fn (wk_request w) (wk_inputs w) evs)) [] [], [], st)"
| "runner_step I find_fn evs cyclic deliver put stopping (Reporting w cyc ((spec, jo) # js) rs ovs) st =
     (case report_job I deliver put (wh_inlineLimit st) (wk_id w) cyc spec jo (wh_strategy st) of
        None \<Rightarrow> None
      | Some (r, ov, frames, s') \<Rightarrow> Some (Reporting w cyc js (rs @ [r]) (ovs @ [ov]), map HostPayload frames, st\<lparr>wh_strategy := s'\<rparr>))"
| "runner_step I find_fn evs cyclic deliver put stopping (Reporting w cyc [] rs ovs) st = Some (Replied w, [Answer (wk_id w) rs ovs], st)"
| "runner_step I find_fn evs cyclic deliver put stopping (Replied w) st = Some (Waiting, [], finish_work w st)"
| "runner_step I find_fn evs cyclic deliver put stopping Gone st = None"

section \<open>Serving\<close>

text \<open>The place \<^verbatim>\<open>serve\<close> is at.\<close>

datatype serve_phase = Spawning | Serving | ShuttingDown | Stopping "Work list" | Joining

text \<open>
  The host with its threads and what it has done so far. \<open>hw_arrived\<close> are the ids of the requests that came over the connection
  after the handshake, \<open>hw_dropped\<close> those that were still queued when \<^verbatim>\<open>serve\<close> ended.
\<close>

record 's host_world =
  hw_host :: "'s WorkerHost"
  hw_phase :: serve_phase
  hw_runners :: "runner list"
  hw_effects :: "host_effect list"
  hw_arrived :: "u64 list"
  hw_dropped :: "u64 list"

definition host_world_new :: "'s HostOptions \<Rightarrow> 's host_world" where
  "host_world_new opts =
     \<lparr>hw_host = WorkerHost_new opts, hw_phase = Spawning, hw_runners = [], hw_effects = [], hw_arrived = [], hw_dropped = []\<rparr>"

definition arriving_id :: "bytes \<Rightarrow> 's WorkerHost \<Rightarrow> u64 list" where
  "arriving_id fr st =
     (if frameType fr = Some kRequest \<and> wh_handshaken st then (case decodeRequest fr of None \<Rightarrow> [] | Some (i, r) \<Rightarrow> [i]) else [])"

text \<open>\<^verbatim>\<open>serve\<close>, section by section; \<open>stop\<close> is its stop token.\<close>

fun serve_step :: "bool \<Rightarrow> 's host_world \<Rightarrow> 's host_world option" where
  "serve_step stop w =
     (case hw_phase w of
        Spawning \<Rightarrow>
          Some (if length (hw_runners w) < unat (wo_maxConcurrentRequests (wh_options (hw_host w)))
                then w\<lparr>hw_runners := hw_runners w @ [Waiting]\<rparr> else w\<lparr>hw_phase := Serving\<rparr>)
      | Serving \<Rightarrow>
          if wh_closed (hw_host w) \<or> stop
          then Some (w\<lparr>hw_phase := ShuttingDown, hw_effects := hw_effects w @ [HostClosing]\<rparr>) else None
      | ShuttingDown \<Rightarrow>
          if wh_closed (hw_host w)
          then Some (w\<lparr>hw_phase := Stopping (map (\<lambda>(i, wk). wk) (wh_active (hw_host w)) @ wh_queue (hw_host w)),
                       hw_dropped := hw_dropped w @ map wk_id (wh_queue (hw_host w)),
                       hw_host := (hw_host w)\<lparr>wh_queue := []\<rparr>\<rparr>)
          else None
      | Stopping ws \<Rightarrow> Some (w\<lparr>hw_phase := Joining, hw_host := request_stop ws (hw_host w)\<rparr>)
      | Joining \<Rightarrow> None)"

text \<open>The transport delivers no frame after the close.\<close>

inductive host_step :: "'s StrategyOps \<Rightarrow> 's \<Rightarrow> (string \<Rightarrow> u32 \<Rightarrow> JobKindFn option) \<Rightarrow> 's host_world \<Rightarrow> 's host_world \<Rightarrow> bool"
  for I stream find_fn where
  serving: "serve_step stop w = Some w' \<Longrightarrow> host_step I stream find_fn w w'"
| receiving: "\<not> wh_closed (hw_host w) \<Longrightarrow> host_onFrameBuffer I stream own fr (hw_host w) = (es, st) \<Longrightarrow>
    host_step I stream find_fn w
      (w\<lparr>hw_host := st, hw_effects := hw_effects w @ es, hw_arrived := hw_arrived w @ arriving_id fr (hw_host w)\<rparr>)"
| closing: "host_step I stream find_fn w (w\<lparr>hw_host := host_onClosed I (hw_host w)\<rparr>)"
| running: "hw_runners w = rs1 @ r # rs2 \<Longrightarrow>
    runner_step I find_fn evs cyclic deliver put (hw_phase w = Joining) r (hw_host w) = Some (r', es, st) \<Longrightarrow>
    host_step I stream find_fn w (w\<lparr>hw_host := st, hw_runners := rs1 @ r' # rs2, hw_effects := hw_effects w @ es\<rparr>)"
| allocating: "wh_strategy (hw_host w) = Some s \<Longrightarrow>
    host_step I stream find_fn w (w\<lparr>hw_host := (hw_host w)\<lparr>wh_strategy := Some (snd (ps_allocate I n s))\<rparr>\<rparr>)"

section \<open>The books of a worker\<close>

fun busy :: "runner \<Rightarrow> nat" where
  "busy Waiting = 0" | "busy Gone = 0" | "busy _ = 1"

text \<open>The request a runner still has to answer.\<close>

fun owed :: "runner \<Rightarrow> u64 list" where
  "owed (Running w) = [wk_id w]" | "owed (Reporting w cyc js rs ovs) = [wk_id w]" | "owed _ = []"

fun answered :: "host_effect \<Rightarrow> u64 list" where
  "answered (Answer i reply overrides) = [i]" | "answered _ = []"

definition answers :: "'s host_world \<Rightarrow> u64 list" where
  "answers w = concat (map answered (hw_effects w))"

definition in_hand :: "'s host_world \<Rightarrow> u64 list" where
  "in_hand w = map wk_id (wh_queue (hw_host w)) @ concat (map owed (hw_runners w))"

definition limit_of :: "'s host_world \<Rightarrow> nat" where
  "limit_of w = unat (wo_maxConcurrentRequests (wh_options (hw_host w)))"

fun stopping_phase :: "serve_phase \<Rightarrow> bool" where
  "stopping_phase (Stopping ws) = True" | "stopping_phase Joining = True" | "stopping_phase _ = False"

definition books :: "'s host_world \<Rightarrow> bool" where
  "books w \<longleftrightarrow> unat (wh_admitted (hw_host w)) = length (wh_queue (hw_host w)) + sum_list (map busy (hw_runners w)) + length (hw_dropped w)
     \<and> unat (wh_admitted (hw_host w)) \<le> limit_of w"

definition conserved :: "'s host_world \<Rightarrow> bool" where
  "conserved w \<longleftrightarrow> mset (hw_arrived w) = mset (answers w) + mset (in_hand w) + mset (hw_dropped w)"

definition threads :: "'s host_world \<Rightarrow> bool" where
  "threads w \<longleftrightarrow> length (hw_runners w) \<le> limit_of w \<and> (hw_phase w \<noteq> Spawning \<longrightarrow> length (hw_runners w) = limit_of w)
     \<and> (Gone \<in> set (hw_runners w) \<longrightarrow> hw_phase w = Joining)
     \<and> (hw_dropped w \<noteq> [] \<longrightarrow> stopping_phase (hw_phase w))
     \<and> (stopping_phase (hw_phase w) \<longrightarrow> wh_closed (hw_host w) \<and> wh_queue (hw_host w) = [])"

definition host_inv :: "'s host_world \<Rightarrow> bool" where
  "host_inv w \<longleftrightarrow> books w \<and> conserved w \<and> threads w"

lemmas host_inv_defs = host_inv_def books_def conserved_def threads_def answers_def in_hand_def limit_of_def

text \<open>What a frame does to the books: nothing, or one request more that is answered or queued.\<close>

lemma frame_books:
  assumes "host_onFrameBuffer I stream own fr st = (es, st')"
  shows "wh_options st' = wh_options st \<and> wh_closed st' = wh_closed st
    \<and> (wh_queue st' = wh_queue st \<and> wh_admitted st' = wh_admitted st \<and> concat (map answered es) = arriving_id fr st
       \<or> (\<exists>wk. wh_queue st' = wh_queue st @ [wk] \<and> wh_admitted st' = wh_admitted st + 1 \<and> es = [] \<and> arriving_id fr st = [wk_id wk]
              \<and> wh_admitted st < wo_maxConcurrentRequests (wh_options st)))"
proof -
  consider (payload) s where "frameType fr = Some kPayload" "wh_strategy st = Some s" | (hello) "frameType fr = Some kHello"
    | (request) "frameType fr = Some kRequest" | (cancel) "frameType fr = Some kCancel"
    | (other) "host_onFrameBuffer I stream own fr st = ([HostClosing], st)" "frameType fr \<noteq> Some kRequest"
    by (cases "frameType fr"; cases "wh_strategy st"; cases "the (frameType fr)") (auto simp: host_onFrameBuffer_def)
  then show ?thesis
  proof cases
    case payload
    then show ?thesis using assms by (auto simp: host_onFrameBuffer_def arriving_id_def)
  next
    case hello
    then show ?thesis
      using assms by (auto simp: host_onFrameBuffer_def arriving_id_def handle_hello_def Let_def split: option.splits if_splits)
  next
    case request
    then have h: "handle_request I fr st = (es, st')" using assms by (auto simp: host_onFrameBuffer_def split: option.splits)
    then show ?thesis
      using request by (auto simp: handle_request_def arriving_id_def Let_def split: option.splits prod.splits if_splits)
  next
    case cancel
    then show ?thesis
      using assms by (auto simp: host_onFrameBuffer_def arriving_id_def handle_cancel_def request_stop_def split: option.splits)
  next
    case other
    then show ?thesis using assms by (auto simp: arriving_id_def)
  qed
qed

lemma receiving_keeps:
  assumes inv: "host_inv w" and open_: "\<not> wh_closed (hw_host w)" and fr: "host_onFrameBuffer I stream own fr (hw_host w) = (es, st)"
  shows "host_inv (w\<lparr>hw_host := st, hw_effects := hw_effects w @ es, hw_arrived := hw_arrived w @ arriving_id fr (hw_host w)\<rparr>)"
proof -
  note b = frame_books[OF fr]
  have phase: "\<not> stopping_phase (hw_phase w)" using inv open_ by (auto simp: host_inv_defs)
  consider "wh_queue st = wh_queue (hw_host w)" "wh_admitted st = wh_admitted (hw_host w)" "concat (map answered es) = arriving_id fr (hw_host w)"
    | wk where "wh_queue st = wh_queue (hw_host w) @ [wk]" "wh_admitted st = wh_admitted (hw_host w) + 1" "es = []"
      "arriving_id fr (hw_host w) = [wk_id wk]" "wh_admitted (hw_host w) < wo_maxConcurrentRequests (wh_options (hw_host w))"
    using b by blast
  then show ?thesis
  proof cases
    case 1
    then show ?thesis using inv b phase by (auto simp: host_inv_defs)
  next
    case 2
    let ?max = "wo_maxConcurrentRequests (wh_options (hw_host w))"
    have lt: "unat (wh_admitted (hw_host w)) < unat ?max" using 2(5) by (simp add: word_less_nat_alt)
    moreover have "unat ?max < 2 ^ LENGTH(32)" by (rule unsigned_less)
    ultimately have "unat (wh_admitted (hw_host w) + 1) = Suc (unat (wh_admitted (hw_host w)))" by (simp add: unat_word_ariths)
    then show ?thesis using inv b phase 2 lt by (auto simp: host_inv_defs)
  qed
qed

lemma running_keeps:
  assumes inv: "host_inv w" and rs: "hw_runners w = rs1 @ r # rs2"
    and st: "runner_step I find_fn evs cyclic deliver put (hw_phase w = Joining) r (hw_host w) = Some (r', es, st)"
  shows "host_inv (w\<lparr>hw_host := st, hw_runners := rs1 @ r' # rs2, hw_effects := hw_effects w @ es\<rparr>)"
proof -
  have other: "concat (map answered (map HostPayload fs)) = []" for fs by (induction fs) simp_all
  show ?thesis
  proof (cases r)
    case Waiting
    show ?thesis
    proof (cases "wh_queue (hw_host w)")
      case Nil
      then have "hw_phase w = Joining" "r' = Gone" "es = []" "st = hw_host w" using st Waiting by (auto simp: take_work_def split: if_splits)
      then show ?thesis using inv rs Waiting by (auto simp: host_inv_defs)
    next
      case (Cons wk ws)
      then have "r' = Running wk" "es = []" "st = (hw_host w)\<lparr>wh_queue := ws, wh_active := erase_active (wk_id wk) (wh_active (hw_host w)) @ [(wk_id wk, wk)]\<rparr>"
        using st Waiting by (auto simp: take_work_def)
      then show ?thesis using inv rs Waiting Cons by (auto simp: host_inv_defs)
    qed
  next
    case (Running wk)
    then show ?thesis using inv rs st by (auto simp: host_inv_defs)
  next
    case (Reporting wk cyc js res ovs)
    show ?thesis
    proof (cases js)
      case Nil
      then show ?thesis using Reporting inv rs st by (auto simp: host_inv_defs)
    next
      case (Cons a js')
      obtain spec jo where a: "a = (spec, jo)" by (cases a)
      obtain x ov frames s' where "r' = Reporting wk cyc js' (res @ [x]) (ovs @ [ov])" "es = map HostPayload frames" "st = (hw_host w)\<lparr>wh_strategy := s'\<rparr>"
        using st Reporting Cons a by (auto split: option.splits)
      then show ?thesis using Reporting inv rs other[of frames] by (auto simp: host_inv_defs)
    qed
  next
    case (Replied wk)
    then have "r' = Waiting" "es = []" "st = finish_work wk (hw_host w)" using st by auto
    moreover have adm: "unat (wh_admitted (hw_host w)) = Suc (length (wh_queue (hw_host w)) + sum_list (map busy rs1) + sum_list (map busy rs2) + length (hw_dropped w))"
      using inv rs Replied by (simp add: host_inv_def books_def)
    moreover have "unat (wh_admitted (hw_host w) - 1) = unat (wh_admitted (hw_host w)) - 1"
      by (rule unat_minus_one) (use adm in auto)
    ultimately show ?thesis using inv rs Replied by (simp add: host_inv_defs finish_work_def)
  next
    case Gone
    then show ?thesis using st by simp
  qed
qed

lemma serving_keeps:
  assumes "host_inv w" "serve_step stop w = Some w'"
  shows "host_inv w'"
  using assms by (cases "hw_phase w") (auto simp: host_inv_defs request_stop_def split: if_splits)

lemma host_step_keeps:
  assumes "host_inv w" "host_step I stream find_fn w w'"
  shows "host_inv w'"
  using assms(2)
proof cases
  case (serving stop)
  then show ?thesis using assms(1) serving_keeps by blast
next
  case (receiving own fr es st)
  show ?thesis unfolding receiving(1) by (rule receiving_keeps [OF assms(1) receiving(2,3)])
next
  case closing
  then show ?thesis using assms(1) by (simp add: host_inv_defs host_onClosed_def)
next
  case (running rs1 r rs2 evs cyclic deliver put r' es st)
  show ?thesis unfolding running(1) by (rule running_keeps [OF assms(1) running(2,3)])
next
  case (allocating s n)
  then show ?thesis using assms(1) by (simp add: host_inv_defs)
qed

lemma host_inv_new: "host_inv (host_world_new opts)"
  by (simp add: host_inv_defs host_world_new_def WorkerHost_new_def)

interpretation host: inductive_invariant "\<lambda>w. w = host_world_new opts" "host_step I stream find_fn" host_inv for opts I stream find_fn
  using host_step_keeps by unfold_locales (auto simp: host_inv_new)

section \<open>An example\<close>

text \<open>A worker with one runner and no strategy of its own serves a coordinator that offers none.\<close>

definition one_runner :: "Stream HostOptions" where
  "one_runner = \<lparr>wo_maxConcurrentRequests = 1, wo_maxInlineBytes = 16, wo_strategies = [], wo_fingerprint = 0\<rparr>"

abbreviation host_reach :: "'s HostOptions \<Rightarrow> 's StrategyOps \<Rightarrow> 's \<Rightarrow> (string \<Rightarrow> u32 \<Rightarrow> JobKindFn option) \<Rightarrow> 's host_world \<Rightarrow> bool" where
  "host_reach opts I stream find_fn \<equiv> reach (\<lambda>w. w = host_world_new opts) (host_step I stream find_fn)"

lemma request_frame_type: "decodeRequest f = Some x \<Longrightarrow> frameType f = Some kRequest"
  by (auto simp: decodeRequest_def bodyOf_def split: option.splits if_splits)

lemma reach_serving: "host_reach opts I stream find_fn w \<Longrightarrow> serve_step stop w = Some w' \<Longrightarrow> host_reach opts I stream find_fn w'"
  by (blast intro: reach_step host_step.serving)

lemma reach_receiving:
  "host_reach opts I stream find_fn w \<Longrightarrow> \<not> wh_closed (hw_host w) \<Longrightarrow> host_onFrameBuffer I stream own fr (hw_host w) = (es, st) \<Longrightarrow>
   host_reach opts I stream find_fn
     (w\<lparr>hw_host := st, hw_effects := hw_effects w @ es, hw_arrived := hw_arrived w @ arriving_id fr (hw_host w)\<rparr>)"
  by (rule reach_step) (auto intro: host_step.receiving)

lemma reach_running:
  "host_reach opts I stream find_fn w \<Longrightarrow> hw_runners w = [r] \<Longrightarrow>
   runner_step I find_fn evs cyclic deliver put (hw_phase w = Joining) r (hw_host w) = Some (r', es, st) \<Longrightarrow>
   host_reach opts I stream find_fn (w\<lparr>hw_host := st, hw_runners := [r'], hw_effects := hw_effects w @ es\<rparr>)"
  using host_step.running[of w "[]" r "[]" I find_fn evs cyclic deliver put r' es st stream] by (auto intro: reach_step)

lemma example_arrives:
  "\<exists>f jobs. decodeRequest f = Some (i, example_request\<lparr>rq_jobs := jobs\<rparr>) \<and> length jobs = 2
     \<and> (\<forall>j \<in> set jobs. pl_kind (js_input j) \<noteq> kReference)"
proof -
  obtain f where f: "encodeRequest i example_request [] = Some f" "length f < 2 ^ 32" using example_request_encodes by blast
  let ?jobs = "map (sent_job example_request []) [0..<length (rq_jobs example_request)]"
  have "decodeRequest f = Some (i, example_request\<lparr>rq_jobs := ?jobs\<rparr>)"
    by (rule request_roundtrip_body [OF f example_request_ok]) simp
  moreover have "length ?jobs = 2" by (simp add: example_request_def)
  moreover have "\<forall>j \<in> set ?jobs. pl_kind (js_input j) \<noteq> kReference"
    by (simp add: example_request_def upt_rec sent_job_def input_of_def inlineBytes_def Payload_new_def owned_def)
  ultimately show ?thesis by blast
qed

lemma resolve_plain:
  "\<forall>j \<in> set jobs. pl_kind (js_input j) \<noteq> kReference \<Longrightarrow> resolve_inputs I jobs s = (True, map js_input jobs, s)"
  by (induction jobs) auto

text \<open>The worker takes request 7, runs it and answers it.\<close>

lemma example_answered:
  "\<exists>w wk reply ovs. host_reach one_runner (stream_ops junk) stream find_fn w \<and> hw_runners w = [Replied wk]
     \<and> wh_handshaken (hw_host w) \<and> \<not> wh_closed (hw_host w) \<and> wh_admitted (hw_host w) = 1 \<and> wh_queue (hw_host w) = [] \<and> hw_arrived w = [7]
     \<and> wh_strategy (hw_host w) = None \<and> wh_options (hw_host w) = one_runner \<and> (\<exists>fr. hw_effects w = [HostSent fr, Answer 7 reply ovs])"
proof -
  let ?R = "host_reach one_runner (stream_ops junk) stream find_fn"
  let ?h0 = "WorkerHost_new one_runner"
  define w0 where "w0 = host_world_new one_runner"
  define w1 where "w1 = w0\<lparr>hw_runners := [Waiting]\<rparr>"
  define w2 where "w2 = w1\<lparr>hw_phase := Serving\<rparr>"
  note d = w0_def w1_def w2_def host_world_new_def WorkerHost_new_def one_runner_def
  have "?R w0" by (auto intro: reach_init simp: w0_def)
  then have "?R w1" by (rule reach_serving) (simp add: d)
  then have r2: "?R w2" by (rule reach_serving) (simp add: d)
  let ?hello = "encodeHello kHello Hello_new"
  have len: "length ?hello < 2 ^ 32" by (simp add: encodeHello_def Let_def w_simps finish_frame frame_def Hello_new_def)
  have hello: "decodeHello ?hello = Some Hello_new"
    using hello_roundtrip_body[OF _ len] by (simp add: arriving_def Hello_new_def kProtocolMinor_def)
  have ht: "frameType ?hello = Some kHello" by (rule frameType_hello [OF _ len]) simp
  define st3 where "st3 = (hw_host w2)\<lparr>wh_handshaken := True\<rparr>"
  define ack where "ack = encodeHello kHelloAck (Hello_new\<lparr>he_maxInFlight := 1, he_maxInlineBytes := 16\<rparr>)"
  have f3: "host_onFrameBuffer (stream_ops junk) stream None ?hello (hw_host w2) = ([HostSent ack], st3)"
    unfolding host_onFrameBuffer_cases(1)[OF ht] handle_hello_def hello by (simp add: d Hello_new_def st3_def ack_def)
  define w3 where "w3 = w2\<lparr>hw_host := st3, hw_effects := [HostSent ack]\<rparr>"
  have r3: "?R w3"
    using reach_receiving [OF r2 _ f3] by (simp add: d w3_def arriving_id_def ht)
  obtain f jobs where f: "decodeRequest f = Some (7, example_request\<lparr>rq_jobs := jobs\<rparr>)" "length jobs = 2"
    "\<forall>j \<in> set jobs. pl_kind (js_input j) \<noteq> kReference" using example_arrives by blast
  note ft = request_frame_type [OF f(1)]
  define wk where "wk = \<lparr>wk_address = 0, wk_id = 7, wk_request = example_request\<lparr>rq_jobs := jobs\<rparr>, wk_inputs = map js_input jobs\<rparr>"
  define st4 where "st4 = st3\<lparr>wh_admitted := 1, wh_works := 1, wh_queue := [wk]\<rparr>"
  have f4: "host_onFrameBuffer (stream_ops junk) stream None f st3 = ([], st4)"
    unfolding host_onFrameBuffer_cases(2)[OF ft] handle_request_def f(1)
    by (simp add: resolve_plain [OF f(3)] st4_def st3_def wk_def d Let_def)
  define w4 where "w4 = w3\<lparr>hw_host := st4, hw_arrived := [7]\<rparr>"
  have r4: "?R w4"
    using reach_receiving [OF r3, of None f "[]" st4] f4 by (simp add: w4_def w3_def arriving_id_def ft f(1) st3_def d)
  define st5 where "st5 = st4\<lparr>wh_queue := [], wh_active := [(7, wk)]\<rparr>"
  define res where "res = bare_result False JobOut_new"
  obtain j1 j2 where js: "jobs = [j1, j2]" using f(2) by (metis (no_types) length_0_conv length_Suc_conv numeral_2_eq_2)
  have w4: "hw_runners w4 = [Waiting]" "hw_host w4 = st4" by (simp_all add: w4_def w3_def d)
  have r: "?R (w4\<lparr>hw_host := st5, hw_runners := [Running wk]\<rparr>)"
    using reach_running [OF r4 w4(1), of "[]" False "\<lambda>_. True" None "Running wk" "[]" st5]
    by (simp add: w4(2) take_work_def st5_def st4_def st3_def d wk_def erase_active_def)
  have r: "?R (w4\<lparr>hw_host := st5, hw_runners := [Reporting wk False [(j1, JobOut_new), (j2, JobOut_new)] [] []]\<rparr>)"
    using reach_running [OF r, of "Running wk" "[]" False "\<lambda>_. True" None]
    by (simp add: wk_def run_events_def js numeral_2_eq_2)
  have job: "report_job I dlv put limit i False spec JobOut_new s = Some (res, None, [], s)" for I dlv put limit i spec and s :: "Stream option"
    by (simp add: report_job_def Let_def res_def bare_result_def JobOut_new_def status_code_def)
  have r: "?R (w4\<lparr>hw_host := st5, hw_runners := [Reporting wk False [(j2, JobOut_new)] [res] [None]]\<rparr>)"
    using reach_running [OF r, of "Reporting wk False [(j1, JobOut_new), (j2, JobOut_new)] [] []" "[]" False "\<lambda>_. True" None] by (simp add: job)
  have r: "?R (w4\<lparr>hw_host := st5, hw_runners := [Reporting wk False [] [res, res] [None, None]]\<rparr>)"
    using reach_running [OF r, of "Reporting wk False [(j2, JobOut_new)] [res] [None]" "[]" False "\<lambda>_. True" None] by (simp add: job)
  have r: "?R (w4\<lparr>hw_host := st5, hw_runners := [Replied wk], hw_effects := [HostSent ack, Answer 7 [res, res] [None, None]]\<rparr>)"
    using reach_running [OF r, of "Reporting wk False [] [res, res] [None, None]" "[]" False "\<lambda>_. True" None] by (simp add: wk_def w4_def w3_def d)
  then show ?thesis by (intro exI conjI, assumption) (auto simp: st5_def st4_def st3_def w4_def d)
qed

section \<open>Properties\<close>

lemma waiting_or_busy: "Gone \<notin> set rs \<Longrightarrow> length rs = length (filter ((=) Waiting) rs) + sum_list (map busy rs)"
proof (induction rs)
  case (Cons r rs)
  then show ?case by (cases r) auto
qed simp

text \<open>
  C33. A worker answers every request of a handshaken connection exactly once. At every moment each request that arrived has been
  answered, or waits in the queue, or is with a runner that has not replied yet, or was dropped when the host shut down, and only one
  of these; so when no request is in hand, the answers are those to the requests that arrived, one each.
\<close>

theorem requests_are_answered_once:
  assumes "reach (\<lambda>w. w = host_world_new opts) (host_step I stream find_fn) w"
  shows "mset (hw_arrived w) = mset (answers w) + mset (in_hand w) + mset (hw_dropped w)
    \<and> (hw_dropped w \<noteq> [] \<longrightarrow> wh_closed (hw_host w))
    \<and> (in_hand w = [] \<and> \<not> wh_closed (hw_host w) \<longrightarrow> mset (answers w) = mset (hw_arrived w))"
  using host.reach_inv [OF assms] by (auto simp: host_inv_def conserved_def threads_def)

theorem requests_are_answered_once_witness:
  "\<exists>w. host_reach one_runner (stream_ops (\<lambda>_. 0)) (Stream_new 16) (\<lambda>_ _. None) w \<and> hw_arrived w = [7] \<and> answers w = [7]
     \<and> mset (answers w) = mset (hw_arrived w)"
proof -
  obtain w wk reply ovs fr where w: "host_reach one_runner (stream_ops (\<lambda>_. 0)) (Stream_new 16) (\<lambda>_ _. None) w" "hw_runners w = [Replied wk]"
    "\<not> wh_closed (hw_host w)" "wh_queue (hw_host w) = []" "hw_arrived w = [7]" "hw_effects w = [HostSent fr, Answer 7 reply ovs]"
    using example_answered[of "\<lambda>_. 0" "Stream_new 16" "\<lambda>_ _. None"] by blast
  have "in_hand w = []" using w by (simp add: in_hand_def)
  then show ?thesis using requests_are_answered_once [OF w(1)] w by (auto simp: answers_def)
qed

text \<open>
  C34. A worker keeps the limit it announces. The requests it has taken in, queued or with a runner, are counted by
  \<^verbatim>\<open>admitted_\<close> and never more than \<^verbatim>\<open>maxConcurrentRequests\<close>, and once \<^verbatim>\<open>serve\<close> has started its threads there is a waiting runner for
  every queued request: no request waits for another to finish.
\<close>

theorem queued_requests_have_a_runner:
  assumes "reach (\<lambda>w. w = host_world_new opts) (host_step I stream find_fn) w"
  shows "length (wh_queue (hw_host w)) + sum_list (map busy (hw_runners w)) \<le> unat (wo_maxConcurrentRequests (wh_options (hw_host w)))
    \<and> (hw_dropped w = [] \<longrightarrow>
         unat (wh_admitted (hw_host w)) = length (wh_queue (hw_host w)) + sum_list (map busy (hw_runners w)))
    \<and> (hw_phase w = Serving \<or> hw_phase w = ShuttingDown \<longrightarrow>
         length (wh_queue (hw_host w)) \<le> length (filter ((=) Waiting) (hw_runners w)))"
proof -
  note inv = host.reach_inv [OF assms]
  show ?thesis
    using inv waiting_or_busy[of "hw_runners w"] by (auto simp: host_inv_def books_def threads_def limit_of_def)
qed


theorem queued_requests_have_a_runner_witness:
  "\<exists>w wk. host_reach one_runner (stream_ops (\<lambda>_. 0)) (Stream_new 16) (\<lambda>_ _. None) w \<and> hw_runners w = [Replied wk]
     \<and> length (wh_queue (hw_host w)) + sum_list (map busy (hw_runners w)) \<le> unat (wo_maxConcurrentRequests (wh_options (hw_host w)))"
proof -
  obtain w wk where w: "host_reach one_runner (stream_ops (\<lambda>_. 0)) (Stream_new 16) (\<lambda>_ _. None) w" "hw_runners w = [Replied wk]"
    using example_answered[of "\<lambda>_. 0" "Stream_new 16" "\<lambda>_ _. None"] by blast
  show ?thesis using queued_requests_have_a_runner [OF w(1)] w by blast
qed

section \<open>Refusing too early\<close>

text \<open>
  The runner hands the reply to the transport before it gives the slot back. A coordinator that keeps to the announced limit of one
  and sends its next request on the reply can therefore be refused.
\<close>

lemma answered_request_still_counts:
  "\<exists>w own fr es st. host_reach one_runner (stream_ops junk) stream find_fn w \<and> in_hand w = [] \<and> \<not> wh_closed (hw_host w)
     \<and> host_onFrameBuffer (stream_ops junk) stream own fr (hw_host w) = (es, st) \<and> arriving_id fr (hw_host w) = [8]
     \<and> es = [Answer 8 (replicate 2 (busy_result True)) []]"
proof -
  obtain w wk reply ovs fr where w: "host_reach one_runner (stream_ops junk) stream find_fn w" "hw_runners w = [Replied wk]" "wh_handshaken (hw_host w)"
    "\<not> wh_closed (hw_host w)" "wh_admitted (hw_host w) = 1" "wh_queue (hw_host w) = []" "wh_strategy (hw_host w) = None"
    "wh_options (hw_host w) = one_runner"
    using example_answered[of junk stream find_fn] by blast
  obtain f jobs where f: "decodeRequest f = Some (8, example_request\<lparr>rq_jobs := jobs\<rparr>)" "length jobs = 2"
    "\<forall>j \<in> set jobs. pl_kind (js_input j) \<noteq> kReference" using example_arrives by blast
  note ft = request_frame_type [OF f(1)]
  have "host_onFrameBuffer (stream_ops junk) stream None f (hw_host w) = ([Answer 8 (replicate 2 (busy_result True)) []], hw_host w)"
    unfolding host_onFrameBuffer_cases(2)[OF ft] handle_request_def f(1) by (simp add: resolve_plain [OF f(3)] w f(2) one_runner_def)
  moreover have "arriving_id f (hw_host w) = [8]" "in_hand w = []" using w by (simp_all add: arriving_id_def ft f(1) in_hand_def)
  ultimately show ?thesis using w by blast
qed

end
