(* ===== verification/Handshake.thy ===== *)
theory Handshake
  imports Channel WorkerHost
begin

text \<open>
  The handshake of the two ends: the hello of \<^verbatim>\<open>RemoteChannel::connect\<close>, the answer of \<^verbatim>\<open>WorkerHost\<close> and what the channel makes
  of it.
\<close>

section \<open>Names\<close>

text \<open>What both ends rely on in a strategy: its name stays the same and fits the hello frames.\<close>

locale named_strategies =
  fixes I :: "'s StrategyOps"
  assumes name_offer: "ps_name I (snd (ps_offer I c)) = ps_name I c"
    and name_accept: "ps_name I (snd (ps_accept I bs c)) = ps_name I c"
    and name_complete: "ps_name I (snd (ps_complete I bs c)) = ps_name I c"
    and name_attach: "ps_name I (ps_attach I c) = ps_name I c"
    and name_fits: "ps_name I c \<noteq> [] \<and> length (ps_name I c) \<le> 65535"

text \<open>The library's three strategies.\<close>

interpretation library_names: named_strategies "library_ops junk E S" for junk E S
proof
  fix c :: "'a LibraryStrategy"
  show "ps_name (library_ops junk E S) (snd (ps_offer (library_ops junk E S) c)) = ps_name (library_ops junk E S) c"
    by (cases c) (auto simp: library_ops_def vtable_def lift_ops_def stream_ops_def shm_ops_def store_ops_def)
  show "ps_name (library_ops junk E S) (snd (ps_accept (library_ops junk E S) bs c)) = ps_name (library_ops junk E S) c" for bs
    by (cases c) (auto simp: library_ops_def vtable_def lift_ops_def stream_ops_def shm_ops_def store_ops_def)
  show "ps_name (library_ops junk E S) (snd (ps_complete (library_ops junk E S) bs c)) = ps_name (library_ops junk E S) c" for bs
    by (cases c) (auto simp: library_ops_def vtable_def lift_ops_def stream_ops_def shm_ops_def store_ops_def)
  show "ps_name (library_ops junk E S) (ps_attach (library_ops junk E S) c) = ps_name (library_ops junk E S) c"
    by (cases c) (auto simp: library_ops_def vtable_def lift_ops_def stream_ops_def shm_ops_def store_ops_def)
  show "ps_name (library_ops junk E S) c \<noteq> [] \<and> length (ps_name (library_ops junk E S) c) \<le> 65535"
    by (cases c) (auto simp: library_ops_def vtable_def lift_ops_def stream_ops_def shm_ops_def store_ops_def)
qed

text \<open>The answer a hello gets: the worker's hello-ack.\<close>

definition ack_of :: "'s HostOptions \<Rightarrow> ('s \<times> StrategyOffer) option \<Rightarrow> Hello" where
  "ack_of opts chosen =
     Hello_new\<lparr>he_fingerprint := wo_fingerprint opts, he_maxInFlight := wo_maxConcurrentRequests opts, he_maxInlineBytes := wo_maxInlineBytes opts,
               he_strategies := (case chosen of None \<Rightarrow> [] | Some (c, offer) \<Rightarrow> [offer])\<rparr>"

lemma worker_acks:
  fixes I :: "'s StrategyOps" and stream :: 's
  assumes "decodeHello fr = Some hello" "frameType fr = Some kHello" "he_major hello = kProtocolMajor" "he_fingerprint hello = wo_fingerprint (wh_options h)"
    "\<not> wh_handshaken h"
  defines "chosen \<equiv> choose_strategy I (he_strategies hello) (wo_strategies (wh_options h) @ [Some stream])"
  shows "\<exists>h'. host_onFrameBuffer I stream own fr h = ([HostSent (encodeHello kHelloAck (ack_of (wh_options h) chosen))], h')
    \<and> wh_handshaken h' \<and> wh_inlineLimit h' = min (wo_maxInlineBytes (wh_options h)) (he_maxInlineBytes hello)
    \<and> wh_strategy h' = (case chosen of None \<Rightarrow> wh_strategy h | Some (c, offer) \<Rightarrow> Some c)"
  unfolding host_onFrameBuffer_cases(1)[OF assms(2)] handle_hello_def assms(1)
  using assms(3-5) by (simp add: Let_def ack_of_def chosen_def)

lemma worker_refuses:
  assumes "decodeHello fr = Some hello" "frameType fr = Some kHello" "he_major hello = kProtocolMajor" "he_fingerprint hello \<noteq> wo_fingerprint (wh_options h)"
    "\<not> wh_handshaken h"
  shows "host_onFrameBuffer I stream own fr h = ([HostSent (encodeReject (hello_reject hello)), HostClosing], h)"
    "rj_reason (hello_reject hello) = reason_code kFingerprint"
  unfolding host_onFrameBuffer_cases(1)[OF assms(2)] handle_hello_def assms(1)
  using assms(3-5) by (simp_all add: Let_def hello_reject_def)

text \<open>The reject reaches the channel as the reason for the failure of \<^verbatim>\<open>connect\<close>.\<close>

lemma channel_refused:
  assumes "rj_reason reject = reason_code kFingerprint" "ch_state st = kHandshaking"
  shows "\<exists>st'. onFrameBuffer I own (encodeReject reject) st = ([Closing], [], st') \<and> ch_state st' = kStateClosed \<and> ch_rejected st' = Some kFingerprintMismatch"
proof -
  note dec = reject_roundtrip_body [of reject]
  have ft: "frameType (encodeReject reject) = Some kHelloReject"
    using dec by (auto simp: decodeReject_def bodyOf_def split: option.splits if_splits)
  have "rejection (encodeReject reject) = kFingerprintMismatch" by (simp add: rejection_def dec assms(1))
  then show ?thesis using assms(2) by (simp add: onFrameBuffer_def ft handshake_frame_def end_connection_def)
qed

lemma accept_offer_name:
  "accept_offer I offer fs = Some (c, o') \<Longrightarrow> so_name o' = so_name offer"
  by (induction I offer fs rule: accept_offer.induct) (auto split: if_splits prod.splits sum.splits)

lemma choose_strategy_offered:
  "choose_strategy I offers fs = Some (c, o') \<Longrightarrow> \<exists>offer \<in> set offers. so_name o' = so_name offer \<and> accept_offer I offer fs = Some (c, o')"
  by (induction I offers fs rule: choose_strategy.induct) (auto split: option.splits dest: accept_offer_name)

context named_strategies
begin

lemma accept_offer_keeps: "accept_offer I offer fs = Some (c, o') \<Longrightarrow> ps_name I c = so_name offer"
proof (induction fs)
  case (Cons f fs)
  show ?case
  proof (cases f)
    case (Some x)
    then show ?thesis
      using Cons name_accept[of "so_setup offer" x] name_attach by (auto split: if_splits prod.splits sum.splits)
  qed (use Cons in simp)
qed simp

lemma select_candidate_name: "select_candidate I chosen cs = Some s \<Longrightarrow> ps_name I s = so_name chosen"
proof (induction cs)
  case (Cons c cs)
  then show ?case using name_complete[of "so_setup chosen" c] name_attach by (auto split: if_splits prod.splits sum.splits)
qed simp

lemma offer_all_fits:
  assumes "offer_all I fs cands offers = (cs, os)" "\<forall>so \<in> set offers. so_name so \<noteq> [] \<and> length (so_name so) \<le> 65535"
  shows "\<forall>so \<in> set os. so_name so \<noteq> [] \<and> length (so_name so) \<le> 65535"
  using assms
proof (induction fs arbitrary: cands offers)
  case (Cons f fs)
  show ?case
  proof (cases f)
    case None
    then show ?thesis using Cons by simp
  next
    case (Some c)
    obtain su c' where o: "ps_offer I c = (su, c')" by fastforce
    show ?thesis
    proof (cases "\<exists>c' \<in> set cands. ps_name I c' = ps_name I c")
      case True
      then show ?thesis using Cons.prems Cons.IH[of cands offers] Some by simp
    next
      case False
      then have "offer_all I fs (cands @ [c']) (offers @ [\<lparr>so_name = ps_name I c, so_setup = su\<rparr>]) = (cs, os)"
        using Cons.prems(1) Some o by simp
      then show ?thesis by (rule Cons.IH) (use Cons.prems(2) name_fits[of c] in auto)
    qed
  qed
qed simp

lemma cut_fits: "length (so_name so) \<le> 65535 \<Longrightarrow> cut_offer so = so"
  by (simp add: cut_offer_def)

text \<open>The channel on the worker's answer.\<close>

lemma channel_acked:
  assumes "decodeHello fr = Some ack" "frameType fr = Some kHelloAck" "he_major ack = kProtocolMajor"
    "he_fingerprint ack = op_expectedFingerprint (ch_options st)" "ch_state st = kHandshaking" "ch_strategy st = None"
  shows "\<exists>es st'. onFrameBuffer I own fr st = (es, [], st')
    \<and> (if he_strategies ack = [] \<or> select_candidate I (hd (he_strategies ack)) (ch_candidates st) \<noteq> None
       then ch_state st' = kConnected \<and> ch_inlineLimit st' = min (op_maxInlineBytes (ch_options st)) (he_maxInlineBytes ack)
          \<and> ch_inFlightLimit st' = min (op_maxInFlight (ch_options st)) (he_maxInFlight ack)
          \<and> map_option (ps_name I) (ch_strategy st') = (case he_strategies ack of [] \<Rightarrow> None | so # _ \<Rightarrow> Some (so_name so))
       else ch_state st' = kStateClosed \<and> ch_rejected st' = Some kConnectProtocol)"
proof (cases "he_strategies ack")
  case Nil
  then show ?thesis
    using assms by (simp add: onFrameBuffer_def handshake_frame_def accept_ack_def selectStrategy_def Let_def)
next
  case (Cons so sos)
  then show ?thesis
    using assms select_candidate_name
    by (cases "select_candidate I so (ch_candidates st)")
       (simp_all add: onFrameBuffer_def handshake_frame_def accept_ack_def selectStrategy_def Let_def end_connection_def)
qed

lemma agreement:
  assumes hello: "connect I cstream (Channel_new opts) = ([], [ConnectSend hello], st)"
    and len: "length (encodeHello kHello hello) < 2 ^ 32"
    and ack_len: "\<forall>chosen. chosen = choose_strategy I (take 255 (he_strategies hello)) (wo_strategies wopts @ [Some wstream]) \<longrightarrow>
        length (encodeHello kHelloAck (ack_of wopts chosen)) < 2 ^ 32"
  shows "if op_expectedFingerprint opts \<noteq> wo_fingerprint wopts
    then \<exists>fr st'. host_onFrameBuffer I wstream own (encodeHello kHello hello) (WorkerHost_new wopts) = ([HostSent fr, HostClosing], WorkerHost_new wopts)
       \<and> onFrameBuffer I own' fr st = ([Closing], [], st') \<and> ch_state st' = kStateClosed \<and> ch_rejected st' = Some kFingerprintMismatch
    else \<exists>fr h es st'. host_onFrameBuffer I wstream own (encodeHello kHello hello) (WorkerHost_new wopts) = ([HostSent fr], h)
       \<and> wh_handshaken h \<and> onFrameBuffer I own' fr st = (es, [], st')
       \<and> (ch_state st' = kConnected \<and> ch_inlineLimit st' = wh_inlineLimit h
            \<and> ch_inFlightLimit st' = min (op_maxInFlight opts) (wo_maxConcurrentRequests wopts)
            \<and> map_option (ps_name I) (ch_strategy st') = map_option (ps_name I) (wh_strategy h)
          \<or> ch_state st' = kStateClosed \<and> ch_rejected st' = Some kConnectProtocol
            \<and> (\<exists>so. select_candidate I so (ch_candidates st) = None \<and> map_option (ps_name I) (wh_strategy h) = Some (so_name so)))"
proof -
  let ?fr = "encodeHello kHello hello" and ?h = "WorkerHost_new wopts"
  obtain cands offers where oa: "offer_all I (op_strategies opts @ [Some cstream]) [] [] = (cands, offers)" by fastforce
  have h: "hello = Hello_new\<lparr>he_fingerprint := op_expectedFingerprint opts, he_maxInFlight := op_maxInFlight opts,
                     he_maxInlineBytes := op_maxInlineBytes opts, he_strategies := offers\<rparr>"
    and st: "ch_state st = kHandshaking" "ch_candidates st = cands" "ch_options st = opts" "ch_strategy st = None"
    using hello by (auto simp: connect_def Channel_new_def Let_def oa)
  have fits: "\<forall>so \<in> set offers. so_name so \<noteq> [] \<and> length (so_name so) \<le> 65535" using offer_all_fits [OF oa] by simp
  have cut: "map cut_offer (take 255 offers) = take 255 offers"
    by (rule map_idI) (use fits in_set_takeD in \<open>force simp: cut_fits\<close>)
  let ?hello = "hello\<lparr>he_strategies := take 255 offers\<rparr>"
  have dec: "decodeHello ?fr = Some ?hello"
    using hello_roundtrip_body [OF _ len] cut by (simp add: h Hello_new_def arriving_def kProtocolMinor_def)
  have ft: "frameType ?fr = Some kHello" by (rule frameType_hello [OF _ len]) simp
  have maj: "he_major ?hello = kProtocolMajor" by (simp add: h Hello_new_def)
  have fp: "he_fingerprint ?hello = op_expectedFingerprint opts" by (simp add: h)
  have new: "wh_options ?h = wopts" "\<not> wh_handshaken ?h" "wh_strategy ?h = None" by (simp_all add: WorkerHost_new_def)
  show ?thesis
  proof (cases "op_expectedFingerprint opts = wo_fingerprint wopts")
    case False
    then have "he_fingerprint ?hello \<noteq> wo_fingerprint (wh_options ?h)" using fp new by simp
    note r = worker_refuses [OF dec ft maj this new(2)]
    show ?thesis using False r(1) channel_refused [OF r(2) st(1)] by auto
  next
    case True
    then have eq: "he_fingerprint ?hello = wo_fingerprint (wh_options ?h)" using fp new by simp
    define chosen where "chosen = choose_strategy I (take 255 offers) (wo_strategies wopts @ [Some wstream])"
    let ?ack = "ack_of wopts chosen"
    obtain h' where w: "host_onFrameBuffer I wstream own ?fr ?h = ([HostSent (encodeHello kHelloAck ?ack)], h')" "wh_handshaken h'"
      "wh_inlineLimit h' = min (wo_maxInlineBytes wopts) (op_maxInlineBytes opts)"
      "wh_strategy h' = (case chosen of None \<Rightarrow> None | Some (c, offer) \<Rightarrow> Some c)"
      using worker_acks [OF dec ft maj eq new(2), of I wstream own, unfolded new(1,3)] by (auto simp: chosen_def h)
    have alen: "length (encodeHello kHelloAck ?ack) < 2 ^ 32" using ack_len by (simp add: chosen_def h)
    have names: "map_option (ps_name I) (wh_strategy h') = (case he_strategies ?ack of [] \<Rightarrow> None | so # _ \<Rightarrow> Some (so_name so))"
      and ok: "arriving kHelloAck (he_strategies ?ack) = he_strategies ?ack"
    proof -
      show "map_option (ps_name I) (wh_strategy h') = (case he_strategies ?ack of [] \<Rightarrow> None | so # _ \<Rightarrow> Some (so_name so))"
        using w(4) choose_strategy_offered [of I "take 255 offers"] accept_offer_keeps
        by (cases chosen) (fastforce simp: ack_of_def chosen_def)+
      show "arriving kHelloAck (he_strategies ?ack) = he_strategies ?ack"
      proof (cases chosen)
        case None
        then show ?thesis by (simp add: ack_of_def arriving_def)
      next
        case (Some x)
        obtain c o' where x: "x = (c, o')" by (cases x)
        then obtain so where "so \<in> set offers" "so_name o' = so_name so"
          using choose_strategy_offered [of I "take 255 offers" _ c o'] Some unfolding chosen_def by (meson in_set_takeD)
        then show ?thesis using fits Some x by (auto simp: ack_of_def arriving_def cut_fits)
      qed
    qed
    have adec: "decodeHello (encodeHello kHelloAck ?ack) = Some ?ack"
      using hello_roundtrip_body [OF _ alen] ok by (simp add: ack_of_def Hello_new_def kProtocolMinor_def)
    have aft: "frameType (encodeHello kHelloAck ?ack) = Some kHelloAck" by (rule frameType_hello [OF _ alen]) simp
    have amaj: "he_major ?ack = kProtocolMajor" "he_fingerprint ?ack = op_expectedFingerprint (ch_options st)"
      "he_maxInlineBytes ?ack = wo_maxInlineBytes wopts" "he_maxInFlight ?ack = wo_maxConcurrentRequests wopts"
      using True st(3) by (simp_all add: ack_of_def Hello_new_def)
    show ?thesis
    proof (cases "he_strategies ?ack = [] \<or> select_candidate I (hd (he_strategies ?ack)) (ch_candidates st) \<noteq> None")
      case c: True
      then show ?thesis
        using channel_acked [OF adec aft amaj(1,2) st(1,4), of own'] names w True amaj st(3) by (auto simp: min.commute)
    next
      case c: False
      then obtain so sos where so: "he_strategies ?ack = so # sos" "select_candidate I so (ch_candidates st) = None" by (cases "he_strategies ?ack") auto
      then show ?thesis
        using channel_acked [OF adec aft amaj(1,2) st(1,4), of own'] names w True by auto
    qed
  qed
qed

end

text \<open>The stream strategy on its own.\<close>

interpretation stream_names: named_strategies "stream_ops junk" for junk
  by unfold_locales (simp_all add: stream_ops_def)

lemma length_encodeU32 [simp]: "length (encodeU32 v) = 4"
  by (simp add: encodeU32_def)

text \<open>The strategies of both ends after a handshake in which neither configured any.\<close>

definition agreed_chunk :: "u32 \<Rightarrow> u32 \<Rightarrow> u32" where
  "agreed_chunk c w = min (max 1 (min c kMaxChunk)) (max 1 (min w kMaxChunk))"

lemma agreed_chunk_range: "0 < agreed_chunk c w" "agreed_chunk c w \<le> kMaxChunk"
  unfolding agreed_chunk_def kMaxChunk_def by (simp_all add: min_def max_def not_le) (auto simp: word_less_nat_alt word_le_nat_alt unat_gt_0 split: if_splits)

definition agreed_stream :: "u32 \<Rightarrow> u32 \<Rightarrow> Stream" where
  "agreed_stream c w = (Stream_new c)\<lparr>st_chunkBytes := agreed_chunk c w, st_attached := True\<rparr>"

lemma default_handshake:
  assumes "op_strategies opts = []" "wo_strategies wopts = []" "op_expectedFingerprint opts = wo_fingerprint wopts"
  shows "\<exists>hello st fr h st'. connect (stream_ops junk) (Stream_new c) (Channel_new opts) = ([], [ConnectSend hello], st)
    \<and> host_onFrameBuffer (stream_ops junk) (Stream_new w) own (encodeHello kHello hello) (WorkerHost_new wopts) = ([HostSent fr], h)
    \<and> onFrameBuffer (stream_ops junk) own' fr st = ([], [], st')
    \<and> wh_handshaken h \<and> wh_strategy h = Some (agreed_stream w c) \<and> wh_options h = wopts \<and> wh_admitted h = 0 \<and> wh_queue h = []
    \<and> ch_state st' = kConnected \<and> ch_strategy st' = Some (agreed_stream c w) \<and> ch_inlineLimit st' = wh_inlineLimit h
    \<and> ch_inFlightLimit st' = min (op_maxInFlight opts) (wo_maxConcurrentRequests wopts) \<and> ch_pending st' = [] \<and> ch_nextId st' = 1"
proof -
  let ?I = "stream_ops junk" and ?c = "max 1 (min c kMaxChunk)" and ?w = "max 1 (min w kMaxChunk)"
  let ?so = "\<lparr>so_name = ''stream'', so_setup = encodeU32 ?c\<rparr>" and ?so' = "\<lparr>so_name = ''stream'', so_setup = encodeU32 (min ?w ?c)\<rparr>"
  define hello where "hello = Hello_new\<lparr>he_fingerprint := op_expectedFingerprint opts, he_maxInFlight := op_maxInFlight opts,
     he_maxInlineBytes := op_maxInlineBytes opts, he_strategies := [?so]\<rparr>"
  define ack where "ack = Hello_new\<lparr>he_fingerprint := wo_fingerprint wopts, he_maxInFlight := wo_maxConcurrentRequests wopts,
     he_maxInlineBytes := wo_maxInlineBytes wopts, he_strategies := [?so']\<rparr>"
  have nz: "x \<noteq> 0" if "1 \<le> x" for x :: u32 using that by auto
  have "1 \<le> min ?w ?c" by simp
  then have pos: "?c \<noteq> 0" "min ?w ?c \<noteq> 0" using nz[of ?c] nz[of "min ?w ?c"] by simp_all
  define st where "st = (Channel_new opts)\<lparr>ch_state := kHandshaking, ch_started := True, ch_candidates := [Stream_new c]\<rparr>"
  have conn: "connect ?I (Stream_new c) (Channel_new opts) = ([], [ConnectSend hello], st)"
    by (simp add: connect_def Channel_new_def assms(1) stream_ops_def stream_offer_def Stream_new_def hello_def st_def)
  have len: "length (encodeHello kHello hello) < 2 ^ 32" "length (encodeHello kHelloAck ack) < 2 ^ 32"
    by (simp_all add: hello_frame frame_def enc_strategies_def hello_def ack_def cut_offer_def enc_offer_def enc_string_def enc_blob_def)
  have dec: "decodeHello (encodeHello kHello hello) = Some hello" "decodeHello (encodeHello kHelloAck ack) = Some ack"
    using hello_roundtrip_body [OF _ len(1)] hello_roundtrip_body [OF _ len(2)]
    by (simp_all add: hello_def ack_def Hello_new_def kProtocolMinor_def arriving_def cut_offer_def)
  have ft: "frameType (encodeHello kHello hello) = Some kHello" "frameType (encodeHello kHelloAck ack) = Some kHelloAck"
    by (rule frameType_hello [OF _ len(1)], simp) (rule frameType_hello [OF _ len(2)], simp)
  have accept: "choose_strategy ?I [?so] [Some (Stream_new w)] = Some (agreed_stream w c, ?so')"
    using pos by (simp add: stream_ops_def stream_accept_def stream_attach_def Stream_new_def agreed_stream_def agreed_chunk_def Let_def)
  define h where "h = (WorkerHost_new wopts)\<lparr>wh_strategy := Some (agreed_stream w c), wh_sender := True, wh_handshaken := True,
     wh_inlineLimit := min (wo_maxInlineBytes wopts) (op_maxInlineBytes opts)\<rparr>"
  have hs: "he_strategies hello = [?so]" "he_major hello = kProtocolMajor" "he_fingerprint hello = wo_fingerprint wopts"
    "he_maxInlineBytes hello = op_maxInlineBytes opts" by (simp_all add: hello_def Hello_new_def assms(3))
  have host: "host_onFrameBuffer ?I (Stream_new w) own (encodeHello kHello hello) (WorkerHost_new wopts) = ([HostSent (encodeHello kHelloAck ack)], h)"
    unfolding host_onFrameBuffer_cases(1)[OF ft(1)] handle_hello_def dec(1)
    by (simp add: hs WorkerHost_new_def assms(2) accept Let_def h_def ack_def del: choose_strategy.simps)
  have sel: "select_candidate ?I ?so' [Stream_new c] = Some (agreed_stream c w)"
    using pos by (simp add: stream_ops_def stream_complete_def stream_attach_def Stream_new_def agreed_stream_def agreed_chunk_def min.commute)
  have ah: "he_strategies ack = [?so']" "he_major ack = kProtocolMajor" "he_fingerprint ack = wo_fingerprint wopts"
    by (simp_all add: ack_def Hello_new_def)
  define st' where "st' = st\<lparr>ch_peer := ack, ch_candidates := [], ch_sender := True, ch_strategy := Some (agreed_stream c w),
     ch_inFlightLimit := min (op_maxInFlight opts) (wo_maxConcurrentRequests wopts),
     ch_inlineLimit := min (op_maxInlineBytes opts) (wo_maxInlineBytes wopts), ch_state := kConnected\<rparr>"
  have chan: "onFrameBuffer ?I own' (encodeHello kHelloAck ack) st = ([], [], st')"
    by (simp add: onFrameBuffer_def ft(2) handshake_frame_def dec(2) accept_ack_def ah selectStrategy_def Let_def sel st_def st'_def
        Channel_new_def assms(3) del: select_candidate.simps) (simp add: ack_def)
  show ?thesis using conn host chan by (intro exI conjI) (auto simp: h_def st'_def st_def WorkerHost_new_def Channel_new_def min.commute)
qed

section \<open>Properties\<close>


definition no_shm :: ShmEnv where
  "no_shm = \<lparr>se_create = (\<lambda>_. (None, [])), se_open = (\<lambda>_ _. None), se_address = (\<lambda>_. 0), se_peerMem = [], se_junk = (\<lambda>_. 0)\<rparr>"

definition no_store :: "unit PayloadStore" where
  "no_store = \<lparr>store_get = (\<lambda>_ _. Inl kJobFailed), store_put = (\<lambda>_ d. (Inl kJobFailed, d))\<rparr>"

definition plain_options :: "u64 \<Rightarrow> 's ChannelOptions" where
  "plain_options fp = \<lparr>op_expectedFingerprint = fp, op_maxInFlight = 4, op_queueCapacity = 0, op_maxInlineBytes = 16, op_strategies = []\<rparr>"

definition plain_host :: "'s HostOptions" where
  "plain_host = \<lparr>wo_maxConcurrentRequests = 2, wo_maxInlineBytes = 8, wo_strategies = [], wo_fingerprint = 3\<rparr>"


end
