(* ===== verification/Remote.thy ===== *)
theory Remote
  imports Handshake
begin

text \<open>
  The two ends of a connection together: the frames one side hands to its transport are those the other side processes, in that order,
  as the contract of \<^verbatim>\<open>ITransport\<close> says (\<^verbatim>\<open>include/sub0pipeline/remote/transport.hpp\<close>).
\<close>

section \<open>The wire\<close>

lemma reference_simps [simp]: "payload_bytes (Payload_reference ref) = ref" "pl_kind (Payload_reference ref) = kReference"
  by (simp_all add: Payload_reference_def payload_bytes_def)

definition payload_wire :: "bytes list \<Rightarrow> bytes list" where
  "payload_wire parts = (case sendPayloadFrame parts of Inl e \<Rightarrow> [] | Inr all \<Rightarrow> [sendParts_default all])"

text \<open>The frames that an effect of the channel puts on the wire.\<close>

fun wire_frames :: "effect \<Rightarrow> bytes list" where
  "wire_frames (Sent fr) = [fr]"
| "wire_frames (SentPayload parts) = payload_wire parts"
| "wire_frames _ = []"

text \<open>The host processes frames as they arrive, each with the buffer it came in.\<close>

definition host_frame :: "'s StrategyOps \<Rightarrow> 's \<Rightarrow> bytes \<times> nat option \<Rightarrow> host_effect list \<times> 's WorkerHost \<Rightarrow> host_effect list \<times> 's WorkerHost" where
  "host_frame I stream x r =
     (case host_onFrameBuffer I stream (snd x) (fst x) (snd r) of (es, st) \<Rightarrow> (fst r @ es, st))"

text \<open>
  What a strategy needs beside the promise of \<open>payload_carrier\<close> to work over frames: bodies and references within the limits of the
  format.
\<close>

locale framed_carrier = payload_carrier +
  assumes send_framed: "carries (Suc n) a b xs \<Longrightarrow> small p \<Longrightarrow> ps_send I (\<lambda>_. True) p scope a = Some (sent, Inr ref, a') \<Longrightarrow>
      (\<forall>parts \<in> set sent. length parts \<le> 7 \<and> length (concat parts) < 2 ^ 32) \<and> length ref < 2 ^ 32"

text \<open>References and the bytes they stand for, for the inputs with the numbers \<open>js\<close>.\<close>

definition held :: "SubGraphRequest \<Rightarrow> Payload option list \<Rightarrow> nat list \<Rightarrow> (bytes \<times> bytes) list" where
  "held req overrides js =
     concat (map (\<lambda>j. case overrides ! j of None \<Rightarrow> [] | Some p \<Rightarrow> [(payload_bytes p, payload_bytes (js_input (rq_jobs req ! j)))]) js)"

lemma held_Nil [simp]: "held req overrides [] = []"
  and held_Cons: "held req overrides (j # js) =
     (case overrides ! j of None \<Rightarrow> [] | Some p \<Rightarrow> [(payload_bytes p, payload_bytes (js_input (rq_jobs req ! j)))]) @ held req overrides js"
  by (simp_all add: held_def)

text \<open>The number of inputs still to transfer.\<close>

definition large_from :: "u32 \<Rightarrow> SubGraphRequest \<Rightarrow> nat \<Rightarrow> nat" where
  "large_from limit req k = length (filter (\<lambda>j. oversize limit (js_input (rq_jobs req ! j))) [k..<length (rq_jobs req)])"

lemma large_from_Suc:
  "k < length (rq_jobs req) \<Longrightarrow> large_from limit req k = (if oversize limit (js_input (rq_jobs req ! k)) then Suc else id) (large_from limit req (Suc k))"
  by (simp add: large_from_def upt_conv_Cons)

text \<open>Overrides as the transfer leaves them: a reference in place of every large input, nothing elsewhere.\<close>

definition overridden :: "u32 \<Rightarrow> SubGraphRequest \<Rightarrow> Payload option list \<Rightarrow> nat \<Rightarrow> bool" where
  "overridden limit req overrides j \<longleftrightarrow>
     (if oversize limit (js_input (rq_jobs req ! j)) then \<exists>ref. overrides ! j = Some (Payload_reference ref) \<and> length ref < 2 ^ 32
      else overrides ! j = None)"

lemma run_last:
  assumes "w_calls w = others @ [c]" "ids_left (w_channel w)" "run_call I deliver ok stopped c (w_channel w) = Some (es, cs, st)"
  shows "channel_step I w (w\<lparr>w_channel := st, w_calls := others @ cs, w_effects := w_effects w @ es\<rparr>)"
  using channel_step.thread [of w others c "[]", OF _ assms(2,3)] assms(1) by (simp add: proceed_def)

context framed_carrier
begin

lemma transfer_all:
  assumes "w_calls w = others @ [Transfer i req k overrides limit]" "ids_left (w_channel w)" "ch_strategy (w_channel w) = Some a"
    "\<forall>b \<in> B. carries (m + large_from limit req k) a b xs" "B \<noteq> {}" "k \<le> length (rq_jobs req)" "length overrides = length (rq_jobs req)"
    "\<forall>j < k. overridden limit req overrides j" "\<forall>j \<ge> k. j < length (rq_jobs req) \<longrightarrow> overrides ! j = None"
    "\<forall>job \<in> set (rq_jobs req). oversize limit (js_input job) \<longrightarrow> small (js_input job)"
  shows "\<exists>frames overrides' a'.
      (channel_step I)\<^sup>*\<^sup>* w (w\<lparr>w_channel := (w_channel w)\<lparr>ch_strategy := Some a'\<rparr>, w_calls := others @ [Control i req overrides'],
                            w_effects := w_effects w @ map SentPayload frames\<rparr>)
      \<and> (\<forall>parts \<in> set frames. length parts \<le> 7 \<and> length (concat parts) < 2 ^ 32)
      \<and> length overrides' = length (rq_jobs req) \<and> (\<forall>j < k. overrides' ! j = overrides ! j)
      \<and> (\<forall>j < length (rq_jobs req). overridden limit req overrides' j)
      \<and> (\<forall>b \<in> B. \<forall>frs. map fst frs = map concat frames \<longrightarrow>
            carries m a' (fold (ps_onPayloadFrame I) frs b) (xs @ held req overrides' [k..<length (rq_jobs req)]))"
  using assms
proof (induction "length (rq_jobs req) - k" arbitrary: w k overrides a B xs)
  case 0
  then have k: "k = length (rq_jobs req)" by simp
  have "run_call I (\<lambda>_. True) True False (Transfer i req k overrides limit) (w_channel w) = Some ([], [Control i req overrides], w_channel w)"
    by (simp add: transfer_def k)
  from run_last [OF "0.prems"(1,2) this] have st: "channel_step I w (w\<lparr>w_calls := others @ [Control i req overrides]\<rparr>)" by simp
  have same: "(w_channel w)\<lparr>ch_strategy := Some a\<rparr> = w_channel w" using "0.prems"(3) by (cases "w_channel w") simp
  show ?case
    by (rule exI [of _ "[]"], rule exI [of _ overrides], rule exI [of _ a], unfold same)
       (use st "0.prems" k in \<open>auto simp: large_from_def\<close>)
next
  case (Suc d)
  then have k: "k < length (rq_jobs req)" by linarith
  let ?input = "js_input (rq_jobs req ! k)"
  have d: "d = length (rq_jobs req) - Suc k" using Suc.hyps(2) by linarith
  show ?case
  proof (cases "oversize limit ?input")
    case False
    have "run_call I (\<lambda>_. True) True False (Transfer i req k overrides limit) (w_channel w)
        = Some ([], [Transfer i req (Suc k) overrides limit], w_channel w)"
      using k False by (simp add: transfer_def Let_def)
    from run_last [OF Suc.prems(1,2) this] have st: "channel_step I w (w\<lparr>w_calls := others @ [Transfer i req (Suc k) overrides limit]\<rparr>)" by simp
    let ?w = "w\<lparr>w_calls := others @ [Transfer i req (Suc k) overrides limit]\<rparr>"
    have ovk: "overrides ! k = None" using Suc.prems(9) k by simp
    have dn: "\<forall>j < Suc k. overridden limit req overrides j"
      using Suc.prems(8) ovk False by (auto simp: less_Suc_eq overridden_def)
    have c: "\<forall>b \<in> B. carries (m + large_from limit req (Suc k)) a b xs" using Suc.prems(4) large_from_Suc[OF k] False by simp
    obtain frames overrides' a' where IH: "(channel_step I)\<^sup>*\<^sup>* ?w (?w\<lparr>w_channel := (w_channel ?w)\<lparr>ch_strategy := Some a'\<rparr>, w_calls := others @ [Control i req overrides'],
                            w_effects := w_effects ?w @ map SentPayload frames\<rparr>)"
      "\<forall>parts \<in> set frames. length parts \<le> 7 \<and> length (concat parts) < 2 ^ 32"
      "length overrides' = length (rq_jobs req)" "\<forall>j < Suc k. overrides' ! j = overrides ! j"
      "\<forall>j < length (rq_jobs req). overridden limit req overrides' j"
      "\<forall>b \<in> B. \<forall>frs. map fst frs = map concat frames \<longrightarrow>
            carries m a' (fold (ps_onPayloadFrame I) frs b) (xs @ held req overrides' [Suc k..<length (rq_jobs req)])"
      using Suc.hyps(1)[OF d, of ?w overrides a B xs] Suc.prems c dn k by auto
    have "overrides' ! k = None" using IH(5) k False by (auto simp: overridden_def)
    then have eq: "held req overrides' [k..<length (rq_jobs req)] = held req overrides' [Suc k..<length (rq_jobs req)]"
      using k by (simp add: upt_conv_Cons held_Cons)
    have path: "(channel_step I)\<^sup>*\<^sup>* w (w\<lparr>w_channel := (w_channel w)\<lparr>ch_strategy := Some a'\<rparr>, w_calls := others @ [Control i req overrides'],
                            w_effects := w_effects w @ map SentPayload frames\<rparr>)"
      using converse_rtranclp_into_rtranclp[of "channel_step I", OF st] IH(1) by simp
    show ?thesis using path IH(2-6)[folded eq] by (metis less_Suc_eq)
  next
    case True
    have sm: "small ?input" using Suc.prems(10) k True by simp
    have c: "carries (Suc (m + large_from limit req (Suc k))) a b xs" if "b \<in> B" for b
      using Suc.prems(4) that large_from_Suc[OF k] True by simp
    obtain b0 where b0: "b0 \<in> B" using Suc.prems(5) by blast
    obtain sent ref a1 where snd: "ps_send I (\<lambda>_. True) ?input i a = Some (sent, Inr ref, a1)"
      using send_carries [OF c[OF b0] sm, of i] by blast
    define B1 where "B1 = {fold (ps_onPayloadFrame I) frs b | frs b. b \<in> B \<and> map fst frs = map concat sent}"
    have fold1: "\<forall>b \<in> B1. carries (m + large_from limit req (Suc k)) a1 b (xs @ [(ref, payload_bytes ?input)])"
      using send_carries [OF c sm, of _ i] snd by (fastforce simp: B1_def)
    have "map fst (map (\<lambda>p. (concat p, None :: nat option)) sent) = map concat sent" by simp
    then have ne: "B1 \<noteq> {}" using b0 unfolding B1_def by blast
    note fr = send_framed [OF c[OF b0] sm snd]
    let ?ov = "overrides[k := Some (Payload_reference ref)]"
    let ?w = "w\<lparr>w_channel := (w_channel w)\<lparr>ch_strategy := Some a1\<rparr>, w_calls := others @ [Transfer i req (Suc k) ?ov limit],
        w_effects := w_effects w @ map SentPayload sent\<rparr>"
    have "run_call I (\<lambda>_. True) True False (Transfer i req k overrides limit) (w_channel w)
        = Some (map SentPayload sent, [Transfer i req (Suc k) ?ov limit], (w_channel w)\<lparr>ch_strategy := Some a1\<rparr>)"
      using k True snd Suc.prems(3) by (simp add: transfer_def Let_def)
    from run_last [OF Suc.prems(1,2) this] have st: "channel_step I w ?w" by simp
    have dn: "\<forall>j < Suc k. overridden limit req ?ov j"
      using Suc.prems(7,8) k True fr by (auto simp: less_Suc_eq overridden_def nth_list_update)
    have up: "\<forall>j \<ge> Suc k. j < length (rq_jobs req) \<longrightarrow> ?ov ! j = None" using Suc.prems(9) by auto
    have w1: "w_calls ?w = others @ [Transfer i req (Suc k) ?ov limit]" "ids_left (w_channel ?w)" "ch_strategy (w_channel ?w) = Some a1"
      using Suc.prems(2) by (simp_all add: ids_left_def)
    obtain frames overrides' a' where IH: "(channel_step I)\<^sup>*\<^sup>* ?w (?w\<lparr>w_channel := (w_channel ?w)\<lparr>ch_strategy := Some a'\<rparr>, w_calls := others @ [Control i req overrides'],
                            w_effects := w_effects ?w @ map SentPayload frames\<rparr>)"
      "\<forall>parts \<in> set frames. length parts \<le> 7 \<and> length (concat parts) < 2 ^ 32"
      "length overrides' = length (rq_jobs req)" "\<forall>j < Suc k. overrides' ! j = ?ov ! j"
      "\<forall>j < length (rq_jobs req). overridden limit req overrides' j"
      "\<forall>b \<in> B1. \<forall>frs. map fst frs = map concat frames \<longrightarrow>
            carries m a' (fold (ps_onPayloadFrame I) frs b) ((xs @ [(ref, payload_bytes ?input)]) @ held req overrides' [Suc k..<length (rq_jobs req)])"
      using Suc.hyps(1)[OF d w1 fold1 ne _ _ dn up Suc.prems(10)] k Suc.prems(7) by auto
    have "overrides' ! k = Some (Payload_reference ref)" using IH(4) k Suc.prems(7) by simp
    then have eq: "held req overrides' [k..<length (rq_jobs req)] = (ref, payload_bytes ?input) # held req overrides' [Suc k..<length (rq_jobs req)]"
      using k by (simp add: upt_conv_Cons held_Cons)
    have path: "(channel_step I)\<^sup>*\<^sup>* w (w\<lparr>w_channel := (w_channel w)\<lparr>ch_strategy := Some a'\<rparr>, w_calls := others @ [Control i req overrides'],
                            w_effects := w_effects w @ map SentPayload (sent @ frames)\<rparr>)"
      using converse_rtranclp_into_rtranclp[of "channel_step I", OF st] IH(1) by simp
    have all: "\<forall>b \<in> B. \<forall>frs. map fst frs = map concat (sent @ frames) \<longrightarrow>
            carries m a' (fold (ps_onPayloadFrame I) frs b) (xs @ held req overrides' [k..<length (rq_jobs req)])"
    proof (intro ballI allI impI)
      fix b and frs :: "(bytes \<times> nat option) list"
      assume b: "b \<in> B" and "map fst frs = map concat (sent @ frames)"
      then obtain f1 f2 where f: "frs = f1 @ f2" "map fst f1 = map concat sent" "map fst f2 = map concat frames"
        by (auto simp: map_eq_append_conv)
      then have "fold (ps_onPayloadFrame I) f1 b \<in> B1" using b by (auto simp: B1_def)
      then show "carries m a' (fold (ps_onPayloadFrame I) frs b) (xs @ held req overrides' [k..<length (rq_jobs req)])"
        using IH(6) f unfolding eq by simp
    qed
    have len: "\<forall>parts \<in> set (sent @ frames). length parts \<le> 7 \<and> length (concat parts) < 2 ^ 32" using IH(2) fr by auto
    have old: "\<forall>j < k. overrides' ! j = overrides ! j" using IH(4) by simp
    show ?thesis using path len IH(3) old IH(5) all by blast
  qed
qed

lemma resolve_sent:
  assumes "carries m a b (held req overrides [k..<length (rq_jobs req)])" "length overrides = length (rq_jobs req)"
    "\<forall>j < length (rq_jobs req). overridden limit req overrides j" "\<forall>job \<in> set (rq_jobs req). pl_kind (js_input job) \<noteq> kReference"
    "k \<le> length (rq_jobs req)"
  shows "\<exists>ps b'. resolve_inputs I (map (sent_job req overrides) [k..<length (rq_jobs req)]) (Some b) = (True, ps, Some b')
     \<and> list_all2 payload_eq ps (map js_input (drop k (rq_jobs req))) \<and> carries m a b' []"
  using assms(1,5)
proof (induction "length (rq_jobs req) - k" arbitrary: k b)
  case 0
  then show ?case by auto
next
  case (Suc d)
  then have k: "k < length (rq_jobs req)" and d: "d = length (rq_jobs req) - Suc k" by linarith+
  let ?input = "js_input (rq_jobs req ! k)"
  have ne: "overrides \<noteq> []" using assms(2) k by auto
  have cons: "[k..<length (rq_jobs req)] = k # [Suc k..<length (rq_jobs req)]" "drop k (rq_jobs req) = rq_jobs req ! k # drop (Suc k) (rq_jobs req)"
    using k by (simp_all add: upt_conv_Cons Cons_nth_drop_Suc)
  show ?case
  proof (cases "oversize limit ?input")
    case False
    then have o: "overrides ! k = None" using assms(3) k by (auto simp: overridden_def)
    then have c: "carries m a b (held req overrides [Suc k..<length (rq_jobs req)])" using Suc.prems(1) cons by (simp add: held_Cons)
    obtain ps b' where IH: "resolve_inputs I (map (sent_job req overrides) [Suc k..<length (rq_jobs req)]) (Some b) = (True, ps, Some b')"
      "list_all2 payload_eq ps (map js_input (drop (Suc k) (rq_jobs req)))" "carries m a b' []"
      using Suc.hyps(1)[OF d c] k by auto
    have "js_input (sent_job req overrides k) = owned ?input" using o ne by (simp add: sent_job_def input_of_def)
    moreover have "pl_kind ?input \<noteq> kReference" using assms(4) k by simp
    ultimately show ?thesis using IH unfolding cons by simp
  next
    case True
    moreover have "overridden limit req overrides k" using assms(3) k by simp
    ultimately obtain ref where o: "overrides ! k = Some (Payload_reference ref)" by (auto simp: overridden_def)
    then have "carries m a b ((ref, payload_bytes ?input) # held req overrides [Suc k..<length (rq_jobs req)])"
      using Suc.prems(1) cons by (simp add: held_Cons)
    from receive_carries [OF this] obtain q b1 where q: "ps_receive I ref b = (Inr q, b1)" "pl_kind q = kInline" "payload_bytes q = payload_bytes ?input"
      "carries m a b1 (held req overrides [Suc k..<length (rq_jobs req)])" by blast
    obtain ps b' where IH: "resolve_inputs I (map (sent_job req overrides) [Suc k..<length (rq_jobs req)]) (Some b1) = (True, ps, Some b')"
      "list_all2 payload_eq ps (map js_input (drop (Suc k) (rq_jobs req)))" "carries m a b' []"
      using Suc.hyps(1)[OF d q(4)] k by auto
    have "js_input (sent_job req overrides k) = owned (Payload_reference ref)" using o ne by (simp add: sent_job_def input_of_def)
    moreover have "pl_kind (owned (Payload_reference ref)) = kReference" "payload_bytes (owned (Payload_reference ref)) = ref"
      by simp_all
    moreover have "payload_eq q ?input" using q(2,3) True by (simp add: payload_eq_def oversize_def)
    ultimately show ?thesis using IH q(1) unfolding cons by simp
  qed
qed

end

lemma payload_wire_frame:
  "length parts \<le> 7 \<Longrightarrow> length (concat parts) < 2 ^ 32 \<Longrightarrow> payload_wire parts = [frame kPayload (concat parts)]"
  using payload_frame_body [of parts] by (auto simp: payload_wire_def split: sum.splits)

lemma host_payloads:
  assumes "\<forall>parts \<in> set frames. length parts \<le> 7 \<and> length (concat parts) < 2 ^ 32" "wh_strategy h = Some b"
    "map fst frs = concat (map payload_wire frames)"
  shows "\<exists>bodies. map fst bodies = map concat frames
    \<and> fold (host_frame I stream) frs (es, h) = (es, h\<lparr>wh_strategy := Some (fold (ps_onPayloadFrame I) bodies b)\<rparr>)"
  using assms
proof (induction frames arbitrary: frs h b)
  case Nil
  then show ?case by (intro exI [of _ "[]"]) (cases h, simp)
next
  case (Cons parts frames)
  have len: "length (concat parts) < 2 ^ 32" using Cons.prems(1) by simp
  have "map fst frs = frame kPayload (concat parts) # concat (map payload_wire frames)"
    using Cons.prems(1,3) payload_wire_frame [of parts] by simp
  then obtain own frs' where frs: "frs = (frame kPayload (concat parts), own) # frs'" "map fst frs' = concat (map payload_wire frames)"
    by (cases frs) auto
  let ?b = "ps_onPayloadFrame I (concat parts, own) b"
  have one: "host_frame I stream (frame kPayload (concat parts), own) (es, h) = (es, h\<lparr>wh_strategy := Some ?b\<rparr>)"
    by (simp add: host_frame_def host_onFrameBuffer_cases(4)[OF frame_header(1)[OF len] Cons.prems(2)] frame_header(2)[OF len])
  obtain bodies where "map fst bodies = map concat frames"
    "fold (host_frame I stream) frs' (es, h\<lparr>wh_strategy := Some ?b\<rparr>) = (es, h\<lparr>wh_strategy := Some (fold (ps_onPayloadFrame I) bodies ?b)\<rparr>)"
    using Cons.IH[of "h\<lparr>wh_strategy := Some ?b\<rparr>" ?b frs'] Cons.prems(1) frs(2) by auto
  then show ?case using one unfolding frs by (intro exI [of _ "(concat parts, own) # bodies"]) simp
qed

text \<open>A request frame that the host admits.\<close>

lemma host_admits:
  assumes "decodeRequest f = Some (i, req)" "resolve_inputs I (rq_jobs req) (wh_strategy h) = (True, ps, s')"
    "wh_handshaken h" "wh_admitted h < wo_maxConcurrentRequests (wh_options h)"
  shows "\<exists>h'. host_frame I stream (f, own) (es, h) = (es, h')
    \<and> wh_queue h' = wh_queue h @ [\<lparr>wk_address = wh_works h, wk_id = i, wk_request = req, wk_inputs = ps\<rparr>]"
proof -
  have "\<not> wo_maxConcurrentRequests (wh_options h) \<le> wh_admitted h" using assms(4) by simp
  then show ?thesis
    using assms(1-3) host_onFrameBuffer_cases(2)[OF request_frame_type [OF assms(1)], of I stream own h]
    by (simp add: host_frame_def handle_request_def Let_def)
qed

text \<open>Requests that \<^verbatim>\<open>encodeRequest\<close> takes with the overrides of a transfer.\<close>

definition request_sendable :: "SubGraphRequest \<Rightarrow> bool" where
  "request_sendable req \<longleftrightarrow> request_ok req \<and> length (rq_jobs req) \<le> kMaxJobs
     \<and> (\<forall>job \<in> set (rq_jobs req). length (jk_name (js_kind job)) \<le> 65535 \<and> pl_kind (js_input job) \<noteq> kReference
          \<and> (pl_kind (js_input job) = kHandle \<longrightarrow> length (payload_bytes (js_input job)) \<le> kMaxHandleBytes))"

lemma sendable_encodes:
  assumes "request_sendable req" "length overrides = length (rq_jobs req)" "\<forall>j < length (rq_jobs req). overridden limit req overrides j"
  shows "\<exists>fr. encodeRequest i req overrides = Some fr" "\<forall>p. Some p \<in> set overrides \<longrightarrow> payload_ok p"
proof -
  have ref: "Some p \<in> set overrides \<Longrightarrow> \<exists>ref. p = Payload_reference ref" for p
    using assms(2,3) by (force simp: in_set_conv_nth overridden_def split: if_splits)
  then show "\<forall>p. Some p \<in> set overrides \<longrightarrow> payload_ok p" by (force simp: payload_ok_def Payload_reference_def)
  have "job_fits (sent_job req overrides j)" if j: "j < length (rq_jobs req)" for j
  proof -
    let ?job = "rq_jobs req ! j"
    have job: "length (jk_name (js_kind ?job)) \<le> 65535" "pl_kind (js_input ?job) = kHandle \<longrightarrow> length (payload_bytes (js_input ?job)) \<le> kMaxHandleBytes"
      "pl_kind (js_input ?job) \<noteq> kReference" "payload_ok (js_input ?job)"
      using assms(1) j by (auto simp: request_sendable_def request_ok_def)
    have ne: "overrides \<noteq> []" using assms(2) j by auto
    have ov: "overridden limit req overrides j" using assms(3) j by simp
    have "fits (input_of req overrides j)"
    proof (cases "oversize limit (js_input ?job)")
      case True
      then obtain r where "overrides ! j = Some (Payload_reference r)" "length r < 2 ^ 32" using ov by (auto simp: overridden_def)
      then show ?thesis using ne by (simp add: input_of_def fits_def Payload_reference_def payload_bytes_def)
    next
      case False
      have "unat limit < 2 ^ LENGTH(32)" by (rule unsigned_less)
      then show ?thesis
        using False ov ne job by (cases "pl_kind (js_input ?job)") (auto simp: overridden_def input_of_def fits_def oversize_def payload_ok_def)
    qed
    then show ?thesis using job(1) by (simp add: job_fits_def sent_job_def)
  qed
  then have "list_all (job_fits \<circ> sent_job req overrides) [0..<length (rq_jobs req)]" by (simp add: list_all_iff)
  then show "\<exists>fr. encodeRequest i req overrides = Some fr"
    using assms(1,2) unfolding encodeRequest_def encode_jobs_eq by (simp add: request_sendable_def)
qed

context framed_carrier
begin

lemma request_arrives:
  assumes call: "w_calls w = others @ [Send req d onReply]" and conn: "ch_state (w_channel w) = kConnected" "ch_strategy (w_channel w) = Some a"
    and room: "length (ch_pending (w_channel w)) < unat (ch_inFlightLimit (w_channel w))" "unat (ch_nextId (w_channel w)) + 2 < 2 ^ 64"
    and carry: "carries (m + large_from (ch_inlineLimit (w_channel w)) req 0) a b []"
    and req: "request_sendable req" "\<forall>job \<in> set (rq_jobs req). oversize (ch_inlineLimit (w_channel w)) (js_input job) \<longrightarrow> small (js_input job)"
    and host: "wh_handshaken h" "wh_strategy h = Some b" "wh_admitted h < wo_maxConcurrentRequests (wh_options h)"
  shows "\<exists>w' frames fr. (channel_step I)\<^sup>*\<^sup>* w w' \<and> w_effects w' = w_effects w @ map SentPayload frames @ [Sent fr]
    \<and> (length fr < 2 ^ 32 \<longrightarrow> (\<forall>frs. map fst frs = concat (map wire_frames (map SentPayload frames @ [Sent fr])) \<longrightarrow>
        (\<exists>wk h'. fold (host_frame I stream) frs ([], h) = ([], h') \<and> wh_queue h' = wh_queue h @ [wk] \<and> wk_id wk = ch_nextId (w_channel w)
           \<and> rq_edges (wk_request wk) = rq_edges req \<and> map js_kind (rq_jobs (wk_request wk)) = map js_kind (rq_jobs req)
           \<and> list_all2 payload_eq (wk_inputs wk) (map js_input (rq_jobs req)))))"
proof -
  let ?st = "w_channel w" and ?n = "length (rq_jobs req)"
  let ?i = "ch_nextId ?st" and ?limit = "ch_inlineLimit ?st"
  let ?st1 = "?st\<lparr>ch_nextId := ?i + 1, ch_pending := ch_pending ?st @ [(?i, \<lparr>pe_request = req, pe_done = d, pe_onReply = onReply, pe_cancel = False\<rparr>)]\<rparr>"
  let ?w1 = "w\<lparr>w_channel := ?st1, w_calls := others @ [Transfer ?i req 0 (replicate ?n None) ?limit]\<rparr>"
  have un: "unat (?i + 1) = unat ?i + 1" "unat (?i + 1 + 1) = unat ?i + 2" using room(2) by (simp_all add: unat_word_ariths)
  have ids: "ids_left ?st" "ids_left ?st1" unfolding ids_left_def using un by (metis One_nat_def add_eq_0_iff_both_eq_0 nat.distinct(1) unat_0, auto)
  have "run_call I (\<lambda>_. True) True False (Send req d onReply) ?st = Some ([], [Transfer ?i req 0 (replicate ?n None) ?limit], ?st1)"
    using conn room(1) by (simp add: send_enter_def Let_def)
  from run_last [OF call ids(1) this] have s1: "channel_step I w ?w1" by simp
  have w1: "w_calls ?w1 = others @ [Transfer ?i req 0 (replicate ?n None) ?limit]" "ids_left (w_channel ?w1)" "ch_strategy (w_channel ?w1) = Some a"
    "\<forall>b' \<in> {b}. carries (m + large_from ?limit req 0) a b' []" "{b} \<noteq> {}"
    using ids(2) conn carry by simp_all
  obtain frames overrides a' where t: "(channel_step I)\<^sup>*\<^sup>* ?w1 (?w1\<lparr>w_channel := (w_channel ?w1)\<lparr>ch_strategy := Some a'\<rparr>, w_calls := others @ [Control ?i req overrides],
                            w_effects := w_effects ?w1 @ map SentPayload frames\<rparr>)"
      "\<forall>parts \<in> set frames. length parts \<le> 7 \<and> length (concat parts) < 2 ^ 32"
      "length overrides = ?n" "\<forall>j < ?n. overridden ?limit req overrides j"
      "\<forall>frs. map fst frs = map concat frames \<longrightarrow> carries m a' (fold (ps_onPayloadFrame I) frs b) (held req overrides [0..<?n])"
    using transfer_all [OF w1 _ _ _ _ req(2)] by auto
  let ?w2 = "?w1\<lparr>w_channel := (w_channel ?w1)\<lparr>ch_strategy := Some a'\<rparr>, w_calls := others @ [Control ?i req overrides],
                            w_effects := w_effects ?w1 @ map SentPayload frames\<rparr>"
  obtain fr where fr: "encodeRequest ?i req overrides = Some fr" using sendable_encodes(1)[OF req(1) t(3,4)] by blast
  note ok = sendable_encodes(2)[OF req(1) t(3,4)]
  have "run_call I (\<lambda>_. True) True False (Control ?i req overrides) (w_channel ?w2) = Some ([Sent fr], [Register ?i], w_channel ?w2)"
    using fr by (simp add: control_def)
  moreover have "w_calls ?w2 = others @ [Control ?i req overrides]" "ids_left (w_channel ?w2)" using ids(2) by (simp_all add: ids_left_def)
  ultimately have s3: "channel_step I ?w2 (?w2\<lparr>w_calls := others @ [Register ?i], w_effects := w_effects ?w2 @ [Sent fr]\<rparr>)"
    using run_last [of ?w2 others "Control ?i req overrides" I "\<lambda>_. True" True False "[Sent fr]" "[Register ?i]" "w_channel ?w2"] by simp
  let ?w3 = "?w2\<lparr>w_calls := others @ [Register ?i], w_effects := w_effects ?w2 @ [Sent fr]\<rparr>"
  have path: "(channel_step I)\<^sup>*\<^sup>* w ?w3" using s1 t(1) s3 by (meson converse_rtranclp_into_rtranclp rtranclp.rtrancl_into_rtrancl)
  have eff: "w_effects ?w3 = w_effects w @ map SentPayload frames @ [Sent fr]" by simp
  let ?req = "req\<lparr>rq_jobs := map (sent_job req overrides) [0..<?n]\<rparr>"
  have "\<exists>wk h'. fold (host_frame I stream) frs ([], h) = ([], h') \<and> wh_queue h' = wh_queue h @ [wk] \<and> wk_id wk = ?i
           \<and> rq_edges (wk_request wk) = rq_edges req \<and> map js_kind (rq_jobs (wk_request wk)) = map js_kind (rq_jobs req)
           \<and> list_all2 payload_eq (wk_inputs wk) (map js_input (rq_jobs req))"
    if len: "length fr < 2 ^ 32" and frs: "map fst frs = concat (map wire_frames (map SentPayload frames @ [Sent fr]))" for frs
  proof -
    have "map fst frs = concat (map payload_wire frames) @ [fr]" using frs by (simp add: comp_def)
    then obtain f1 own where f: "frs = f1 @ [(fr, own)]" "map fst f1 = concat (map payload_wire frames)"
      by (auto simp: map_eq_append_conv)
    obtain bodies where b: "map fst bodies = map concat frames"
      "fold (host_frame I stream) f1 ([], h) = ([], h\<lparr>wh_strategy := Some (fold (ps_onPayloadFrame I) bodies b)\<rparr>)"
      using host_payloads [OF t(2) host(2) f(2)] by blast
    have c: "carries m a' (fold (ps_onPayloadFrame I) bodies b) (held req overrides [0..<?n])" using t(5) b(1) by blast
    have nr: "\<forall>job \<in> set (rq_jobs req). pl_kind (js_input job) \<noteq> kReference" using req(1) by (simp add: request_sendable_def)
    obtain ps b' where r: "resolve_inputs I (map (sent_job req overrides) [0..<?n]) (Some (fold (ps_onPayloadFrame I) bodies b)) = (True, ps, Some b')"
      "list_all2 payload_eq ps (map js_input (rq_jobs req))"
      using resolve_sent [OF c t(3,4) nr] by auto
    have dec: "decodeRequest fr = Some (?i, ?req)"
      by (rule request_roundtrip_body [OF fr len _ ok]) (use req(1) in \<open>simp add: request_sendable_def\<close>)
    let ?h = "h\<lparr>wh_strategy := Some (fold (ps_onPayloadFrame I) bodies b)\<rparr>"
    have "resolve_inputs I (rq_jobs ?req) (wh_strategy ?h) = (True, ps, Some b')" using r(1) by simp
    from host_admits [OF dec this, where stream = stream and own = own and es = "[]"] host obtain h' where h': "host_frame I stream (fr, own) ([], ?h) = ([], h')"
      "wh_queue h' = wh_queue h @ [\<lparr>wk_address = wh_works h, wk_id = ?i, wk_request = ?req, wk_inputs = ps\<rparr>]" by auto
    have "map js_kind (rq_jobs ?req) = map js_kind (rq_jobs req)" by (rule nth_equalityI) (simp_all add: sent_job_def)
    then show ?thesis using f(1) b(2) h' r(2) by (intro exI [of _ "\<lparr>wk_address = wh_works h, wk_id = ?i, wk_request = ?req, wk_inputs = ps\<rparr>"] exI [of _ h']) simp
  qed
  then show ?thesis using path eff by blast
qed

end

section \<open>Replies\<close>

text \<open>The result a job should have at the coordinator.\<close>

definition due_result :: "bool \<Rightarrow> JobSpec \<times> JobOut \<Rightarrow> JobResult" where
  "due_result cyclic x =
     (let r = bare_result cyclic (snd x)
      in if cyclic \<or> jr_status r \<noteq> status_code kDone \<or> \<not> js_exported (fst x) then r else r\<lparr>jr_output := jo_output (snd x)\<rparr>)"

lemma due_result_output: "jr_output (due_result cyclic x) = Payload_new \<or> jr_output (due_result cyclic x) = jo_output (snd x)"
  by (simp add: due_result_def Let_def bare_result_def JobResult_new_def)

lemma report_small:
  assumes "\<not> oversize limit (jr_output (due_result cyclic (spec, jo)))"
  shows "report_job I deliver put limit i cyclic spec jo s = Some (due_result cyclic (spec, jo), None, [], s)"
  using assms by (auto simp: report_job_def due_result_def Let_def export_output_def oversize_def)

lemma report_large:
  assumes "oversize limit (jr_output (due_result cyclic (spec, jo)))" "ps_send I deliver (jr_output (due_result cyclic (spec, jo))) i b = Some (frames, Inr ref, b')"
  shows "report_job I deliver put limit i cyclic spec jo (Some b) = Some (due_result cyclic (spec, jo), Some (Payload_reference ref), frames, Some b')"
proof -
  have "\<not> (cyclic \<or> jr_status (bare_result cyclic jo) \<noteq> status_code kDone \<or> \<not> js_exported spec)"
    using assms(1) by (auto simp: due_result_def Let_def oversize_def bare_result_def JobResult_new_def Payload_new_def split: if_splits)
  then show ?thesis using assms by (auto simp: report_job_def due_result_def Let_def export_output_def oversize_def)
qed

text \<open>The references of a reply and the bytes they stand for.\<close>

definition kept :: "(JobResult \<times> Payload option) list \<Rightarrow> (bytes \<times> bytes) list" where
  "kept xs = concat (map (\<lambda>(r, ov). case ov of None \<Rightarrow> [] | Some p \<Rightarrow> [(payload_bytes p, payload_bytes (jr_output r))]) xs)"

definition referred :: "u32 \<Rightarrow> JobResult \<Rightarrow> Payload option \<Rightarrow> bool" where
  "referred limit r ov \<longleftrightarrow> (if oversize limit (jr_output r) then \<exists>ref. ov = Some (Payload_reference ref) \<and> length ref < 2 ^ 32 else ov = None)"

definition same_result :: "JobResult \<Rightarrow> JobResult \<Rightarrow> bool" where
  "same_result a b \<longleftrightarrow> jr_status a = jr_status b \<and> jr_error a = jr_error b \<and> jr_message a = take 65535 (jr_message b)
     \<and> payload_eq (jr_output a) (jr_output b)"

definition travelling :: "JobResult \<Rightarrow> Payload option \<Rightarrow> JobResult" where
  "travelling r ov = r\<lparr>jr_message := take 65535 (jr_message r), jr_output := owned (case ov of None \<Rightarrow> jr_output r | Some p \<Rightarrow> p)\<rparr>"

lemma sent_results: "length ovs = length rs \<Longrightarrow> map (sent_result rs ovs) [0..<length rs] = map2 travelling rs ovs"
  by (rule nth_equalityI) (auto simp: sent_result_def output_of_def travelling_def)

definition large_outputs :: "u32 \<Rightarrow> bool \<Rightarrow> (JobSpec \<times> JobOut) list \<Rightarrow> nat" where
  "large_outputs limit cyclic js = length (filter (\<lambda>x. oversize limit (jr_output (due_result cyclic x))) js)"

context framed_carrier
begin

lemma report_all:
  assumes "\<forall>a \<in> A. carries (m + large_outputs limit cyclic js) b a xs" "A \<noteq> {}"
    "\<forall>x \<in> set js. oversize limit (jr_output (due_result cyclic x)) \<longrightarrow> small (jr_output (due_result cyclic x))"
  shows "\<exists>ovs frames b'. reply_results I (\<lambda>_. True) put limit i cyclic js (Some b) = Some (map (due_result cyclic) js, ovs, frames, Some b')
     \<and> list_all2 (referred limit) (map (due_result cyclic) js) ovs
     \<and> (\<forall>parts \<in> set frames. length parts \<le> 7 \<and> length (concat parts) < 2 ^ 32)
     \<and> (\<forall>a \<in> A. \<forall>frs. map fst frs = map concat frames \<longrightarrow>
          carries m b' (fold (ps_onPayloadFrame I) frs a) (xs @ kept (zip (map (due_result cyclic) js) ovs)))"
  using assms
proof (induction js arbitrary: A b xs)
  case Nil
  then show ?case by (auto simp: large_outputs_def kept_def)
next
  case (Cons x js)
  obtain spec jo where x: "x = (spec, jo)" by (cases x)
  let ?r = "due_result cyclic x"
  have sm: "\<forall>x \<in> set js. oversize limit (jr_output (due_result cyclic x)) \<longrightarrow> small (jr_output (due_result cyclic x))" using Cons.prems(3) by simp
  show ?case
  proof (cases "oversize limit (jr_output ?r)")
    case False
    then have c: "\<forall>a \<in> A. carries (m + large_outputs limit cyclic js) b a xs" using Cons.prems(1) by (simp add: large_outputs_def)
    note rep = report_small [OF False[unfolded x]]
    obtain ovs frames b' where IH: "reply_results I (\<lambda>_. True) put limit i cyclic js (Some b) = Some (map (due_result cyclic) js, ovs, frames, Some b')"
      "list_all2 (referred limit) (map (due_result cyclic) js) ovs" "\<forall>parts \<in> set frames. length parts \<le> 7 \<and> length (concat parts) < 2 ^ 32"
      "\<forall>a \<in> A. \<forall>frs. map fst frs = map concat frames \<longrightarrow>
          carries m b' (fold (ps_onPayloadFrame I) frs a) (xs @ kept (zip (map (due_result cyclic) js) ovs))"
      using Cons.IH [OF c Cons.prems(2) sm] by blast
    have k: "kept (zip (map (due_result cyclic) (x # js)) (None # ovs)) = kept (zip (map (due_result cyclic) js) ovs)" by (simp add: kept_def)
    have "reply_results I (\<lambda>_. True) put limit i cyclic (x # js) (Some b) = Some (map (due_result cyclic) (x # js), None # ovs, frames, Some b')"
      by (simp add: x rep IH(1))
    moreover have "list_all2 (referred limit) (map (due_result cyclic) (x # js)) (None # ovs)" using IH(2) False by (simp add: referred_def)
    ultimately show ?thesis using IH(3,4) k by metis
  next
    case True
    have s1: "small (jr_output ?r)" using Cons.prems(3) True by simp
    have c: "carries (Suc (m + large_outputs limit cyclic js)) b a xs" if "a \<in> A" for a using Cons.prems(1) that True by (simp add: large_outputs_def)
    obtain a0 where a0: "a0 \<in> A" using Cons.prems(2) by blast
    obtain sent ref b1 where snd: "ps_send I (\<lambda>_. True) (jr_output ?r) i b = Some (sent, Inr ref, b1)" using send_carries [OF c[OF a0] s1] by blast
    define A1 where "A1 = {fold (ps_onPayloadFrame I) frs a | frs a. a \<in> A \<and> map fst frs = map concat sent}"
    have c1: "\<forall>a \<in> A1. carries (m + large_outputs limit cyclic js) b1 a (xs @ [(ref, payload_bytes (jr_output ?r))])"
      using send_carries [OF c s1, of _ i] snd by (fastforce simp: A1_def)
    have "map fst (map (\<lambda>p. (concat p, None :: nat option)) sent) = map concat sent" by simp
    then have ne: "A1 \<noteq> {}" using a0 unfolding A1_def by blast
    note fr = send_framed [OF c[OF a0] s1 snd]
    note rep = report_large [OF True[unfolded x] snd[unfolded x]]
    obtain ovs frames b' where IH: "reply_results I (\<lambda>_. True) put limit i cyclic js (Some b1) = Some (map (due_result cyclic) js, ovs, frames, Some b')"
      "list_all2 (referred limit) (map (due_result cyclic) js) ovs" "\<forall>parts \<in> set frames. length parts \<le> 7 \<and> length (concat parts) < 2 ^ 32"
      "\<forall>a \<in> A1. \<forall>frs. map fst frs = map concat frames \<longrightarrow>
          carries m b' (fold (ps_onPayloadFrame I) frs a) ((xs @ [(ref, payload_bytes (jr_output ?r))]) @ kept (zip (map (due_result cyclic) js) ovs))"
      using Cons.IH [OF c1 ne sm] by blast
    let ?ov = "Some (Payload_reference ref)"
    have k: "kept (zip (map (due_result cyclic) (x # js)) (?ov # ovs)) = (ref, payload_bytes (jr_output ?r)) # kept (zip (map (due_result cyclic) js) ovs)"
      by (simp add: kept_def)
    have 1: "reply_results I (\<lambda>_. True) put limit i cyclic (x # js) (Some b) = Some (map (due_result cyclic) (x # js), ?ov # ovs, sent @ frames, Some b')"
      by (simp add: x rep IH(1))
    have 2: "list_all2 (referred limit) (map (due_result cyclic) (x # js)) (?ov # ovs)" using IH(2) True fr by (auto simp: referred_def)
    have 3: "\<forall>parts \<in> set (sent @ frames). length parts \<le> 7 \<and> length (concat parts) < 2 ^ 32" using IH(3) fr by auto
    have 4: "\<forall>a \<in> A. \<forall>frs. map fst frs = map concat (sent @ frames) \<longrightarrow>
          carries m b' (fold (ps_onPayloadFrame I) frs a) (xs @ kept (zip (map (due_result cyclic) (x # js)) (?ov # ovs)))"
    proof (intro ballI allI impI)
      fix a and frs :: "(bytes \<times> nat option) list"
      assume a: "a \<in> A" and "map fst frs = map concat (sent @ frames)"
      then obtain f1 f2 where f: "frs = f1 @ f2" "map fst f1 = map concat sent" "map fst f2 = map concat frames" by (auto simp: map_eq_append_conv)
      then have "fold (ps_onPayloadFrame I) f1 a \<in> A1" using a by (auto simp: A1_def)
      then show "carries m b' (fold (ps_onPayloadFrame I) frs a) (xs @ kept (zip (map (due_result cyclic) (x # js)) (?ov # ovs)))"
        using IH(4) f unfolding k by simp
    qed
    show ?thesis using 1 2 3 4 by blast
  qed
qed

lemma resolve_travelling:
  assumes "carries m b a (kept (zip rs ovs))" "list_all2 (referred limit) rs ovs" "\<forall>r \<in> set rs. pl_kind (jr_output r) \<noteq> kReference"
  shows "\<exists>rs' a'. resolve_outputs I (map2 travelling rs ovs) (Some a) = (rs', Some a') \<and> list_all2 same_result rs' rs \<and> carries m b a' []"
  using assms
proof (induction rs arbitrary: ovs a)
  case (Cons r rs)
  obtain ov ovs' where o: "ovs = ov # ovs'" "referred limit r ov" "list_all2 (referred limit) rs ovs'" using Cons.prems(2) by (cases ovs) auto
  have nr: "pl_kind (jr_output r) \<noteq> kReference" "\<forall>r \<in> set rs. pl_kind (jr_output r) \<noteq> kReference" using Cons.prems(3) by auto
  show ?case
  proof (cases "oversize limit (jr_output r)")
    case False
    then have n: "ov = None" using o(2) by (simp add: referred_def)
    then have "carries m b a (kept (zip rs ovs'))" using Cons.prems(1) o(1) by (simp add: kept_def)
    from Cons.IH [OF this o(3) nr(2)] obtain rs' a' where IH: "resolve_outputs I (map2 travelling rs ovs') (Some a) = (rs', Some a')"
      "list_all2 same_result rs' rs" "carries m b a' []" by blast
    have "pl_kind (jr_output (travelling r ov)) \<noteq> kReference" "same_result (travelling r ov) r"
      using n nr(1) by (simp_all add: travelling_def same_result_def)
    then show ?thesis using IH o(1) by simp
  next
    case True
    then obtain ref where ref: "ov = Some (Payload_reference ref)" using o(2) by (auto simp: referred_def)
    then have "carries m b a ((ref, payload_bytes (jr_output r)) # kept (zip rs ovs'))"
      using Cons.prems(1) o(1) by (simp add: kept_def)
    from receive_carries [OF this] obtain q a1 where q: "ps_receive I ref a = (Inr q, a1)" "pl_kind q = kInline" "payload_bytes q = payload_bytes (jr_output r)"
      "carries m b a1 (kept (zip rs ovs'))" by blast
    from Cons.IH [OF q(4) o(3) nr(2)] obtain rs' a' where IH: "resolve_outputs I (map2 travelling rs ovs') (Some a1) = (rs', Some a')"
      "list_all2 same_result rs' rs" "carries m b a' []" by blast
    have t: "pl_kind (jr_output (travelling r ov)) = kReference" "payload_bytes (jr_output (travelling r ov)) = ref"
      using ref by (simp_all add: travelling_def)
    have "same_result ((travelling r ov)\<lparr>jr_output := q\<rparr>) r" using True q by (simp add: same_result_def travelling_def payload_eq_def oversize_def)
    then show ?thesis using IH o(1) t q(1) by simp
  qed
qed (simp add: kept_def)

end

text \<open>The channel processes frames as they arrive.\<close>

definition channel_frame ::
  "'s StrategyOps \<Rightarrow> bytes \<times> nat option \<Rightarrow> effect list \<times> call list \<times> 's Channel \<Rightarrow> effect list \<times> call list \<times> 's Channel" where
  "channel_frame I x r =
     (case r of (es, cs, st) \<Rightarrow> (case onFrameBuffer I (snd x) (fst x) st of (es', cs', st') \<Rightarrow> (es @ es', cs @ cs', st')))"

lemma channel_payloads:
  assumes "\<forall>parts \<in> set frames. length parts \<le> 7 \<and> length (concat parts) < 2 ^ 32" "ch_strategy st = Some a"
    "map fst frs = concat (map payload_wire frames)"
  shows "\<exists>bodies. map fst bodies = map concat frames
    \<and> fold (channel_frame I) frs (es, cs, st) = (es, cs, st\<lparr>ch_strategy := Some (fold (ps_onPayloadFrame I) bodies a)\<rparr>)"
  using assms
proof (induction frames arbitrary: frs st a)
  case Nil
  then show ?case by (intro exI [of _ "[]"]) (cases st, simp)
next
  case (Cons parts frames)
  have len: "length (concat parts) < 2 ^ 32" using Cons.prems(1) by simp
  have "map fst frs = frame kPayload (concat parts) # concat (map payload_wire frames)"
    using Cons.prems(1,3) payload_wire_frame [of parts] by simp
  then obtain own frs' where frs: "frs = (frame kPayload (concat parts), own) # frs'" "map fst frs' = concat (map payload_wire frames)"
    by (cases frs) auto
  let ?a = "ps_onPayloadFrame I (concat parts, own) a"
  have one: "channel_frame I (frame kPayload (concat parts), own) (es, cs, st) = (es, cs, st\<lparr>ch_strategy := Some ?a\<rparr>)"
    using Cons.prems(2) by (simp add: channel_frame_def onFrameBuffer_def frame_header(1,2)[OF len])
  obtain bodies where "map fst bodies = map concat frames"
    "fold (channel_frame I) frs' (es, cs, st\<lparr>ch_strategy := Some ?a\<rparr>) = (es, cs, st\<lparr>ch_strategy := Some (fold (ps_onPayloadFrame I) bodies ?a)\<rparr>)"
    using Cons.IH[of "st\<lparr>ch_strategy := Some ?a\<rparr>" ?a frs'] Cons.prems(1) frs(2) by auto
  then show ?case using one unfolding frs by (intro exI [of _ "(concat parts, own) # bodies"]) simp
qed

text \<open>Outputs that a reply can carry.\<close>

definition output_ok :: "Payload \<Rightarrow> bool" where
  "output_ok p \<longleftrightarrow> payload_ok p \<and> pl_kind p \<noteq> kReference \<and> (pl_kind p = kHandle \<longrightarrow> length (payload_bytes p) \<le> kMaxHandleBytes)"

lemma referred_sendable:
  assumes "referred limit r ov" "output_ok (jr_output r)"
  shows "payload_ok (case ov of None \<Rightarrow> jr_output r | Some p \<Rightarrow> p)" "sendable (case ov of None \<Rightarrow> jr_output r | Some p \<Rightarrow> p)"
proof -
  have lim: "unat limit < 2 ^ LENGTH(32)" by (rule unsigned_less)
  have "payload_ok (case ov of None \<Rightarrow> jr_output r | Some p \<Rightarrow> p) \<and> fits (case ov of None \<Rightarrow> jr_output r | Some p \<Rightarrow> p)"
  proof (cases "oversize limit (jr_output r)")
    case True
    then obtain ref where "ov = Some (Payload_reference ref)" "length ref < 2 ^ 32" using assms(1) by (auto simp: referred_def)
    then show ?thesis by (simp add: payload_ok_def fits_def)
  next
    case False
    then have "ov = None" using assms(1) by (simp add: referred_def)
    then show ?thesis
      using False assms(2) lim by (cases "pl_kind (jr_output r)") (auto simp: output_ok_def payload_ok_def fits_def oversize_def)
  qed
  then show "payload_ok (case ov of None \<Rightarrow> jr_output r | Some p \<Rightarrow> p)" "sendable (case ov of None \<Rightarrow> jr_output r | Some p \<Rightarrow> p)"
    by (auto simp: sendable_def payload_ok_def)
qed

context framed_carrier
begin

lemma reply_arrives:
  assumes st: "ch_strategy st = Some a" and carry: "carries (m + large_outputs limit cyclic (zip (rq_jobs req) outs)) b a []"
    and outs: "\<forall>x \<in> set (zip (rq_jobs req) outs). output_ok (jr_output (due_result cyclic x))
        \<and> (oversize limit (jr_output (due_result cyclic x)) \<longrightarrow> small (jr_output (due_result cyclic x)))"
    and n: "length outs = length (rq_jobs req)" "length (rq_jobs req) \<le> kMaxJobs"
  shows "\<exists>fr frames b'. run_request I (\<lambda>_. True) put limit i cyclic req outs (Some b)
        = Some (map (due_result cyclic) (zip (rq_jobs req) outs), fr, frames, Some b')
    \<and> (length fr < 2 ^ 32 \<longrightarrow> (\<forall>frs. map fst frs = concat (map payload_wire frames) @ [fr] \<longrightarrow>
        (\<exists>reply st'. fold (channel_frame I) frs ([], [], st) = ([], [ReplyFound i reply], st')
           \<and> list_all2 same_result reply (map (due_result cyclic) (zip (rq_jobs req) outs)))))"
proof -
  let ?js = "zip (rq_jobs req) outs"
  let ?rs = "map (due_result cyclic) ?js"
  have A: "\<forall>a' \<in> {a}. carries (m + large_outputs limit cyclic ?js) b a' []" "{a} \<noteq> {}" using carry by simp_all
  have sm: "\<forall>x \<in> set ?js. oversize limit (jr_output (due_result cyclic x)) \<longrightarrow> small (jr_output (due_result cyclic x))" using outs by blast
  obtain ovs frames b' where r: "reply_results I (\<lambda>_. True) put limit i cyclic ?js (Some b) = Some (?rs, ovs, frames, Some b')"
    "list_all2 (referred limit) ?rs ovs" "\<forall>parts \<in> set frames. length parts \<le> 7 \<and> length (concat parts) < 2 ^ 32"
    "\<forall>frs. map fst frs = map concat frames \<longrightarrow> carries m b' (fold (ps_onPayloadFrame I) frs a) (kept (zip ?rs ovs))"
    using report_all [OF A sm, of put i] by auto
  let ?fr = "encodeReply i ?rs ovs"
  have run: "run_request I (\<lambda>_. True) put limit i cyclic req outs (Some b) = Some (?rs, ?fr, frames, Some b')"
    by (simp add: run_request_def r(1))
  have lo: "length ovs = length ?rs" using list_all2_lengthD [OF r(2)] by simp
  have ok: "\<forall>rr \<in> set ?rs. output_ok (jr_output rr)" using outs by auto
  have out: "output_of ?rs ovs k = (case ovs ! k of None \<Rightarrow> jr_output (?rs ! k) | Some p \<Rightarrow> p)" if "k < length ?rs" for k
    using that lo by (simp add: output_of_def)
  have ref: "referred limit (?rs ! k) (ovs ! k) \<and> output_ok (jr_output (?rs ! k))" if "k < length ?rs" for k
    using r(2) ok that nth_mem[of k ?rs] by (auto simp: list_all2_conv_all_nth simp del: nth_map map_map length_map)
  have "\<exists>reply st'. fold (channel_frame I) frs ([], [], st) = ([], [ReplyFound i reply], st') \<and> list_all2 same_result reply ?rs"
    if len: "length ?fr < 2 ^ 32" and frs: "map fst frs = concat (map payload_wire frames) @ [?fr]" for frs
  proof -
    obtain f1 own where f: "frs = f1 @ [(?fr, own)]" "map fst f1 = concat (map payload_wire frames)"
      using frs by (auto simp: map_eq_append_conv)
    obtain bodies where bd: "map fst bodies = map concat frames"
      "fold (channel_frame I) f1 ([], [], st) = ([], [], st\<lparr>ch_strategy := Some (fold (ps_onPayloadFrame I) bodies a)\<rparr>)"
      using channel_payloads [OF r(3) st f(2)] by blast
    have "\<forall>k < length ?rs. payload_ok (output_of ?rs ovs k)" "\<forall>k < length ?rs. sendable (output_of ?rs ovs k)"
      using out ref referred_sendable by metis+
    then have dec: "decodeReply ?fr = Some (i, map2 travelling ?rs ovs)"
      using reply_roundtrip_body [OF len] n sent_results [OF lo] by simp
    have "\<forall>rr \<in> set ?rs. pl_kind (jr_output rr) \<noteq> kReference" using ok by (auto simp: output_ok_def)
    then obtain reply a' where rv: "resolve_outputs I (map2 travelling ?rs ovs) (Some (fold (ps_onPayloadFrame I) bodies a)) = (reply, Some a')"
      "list_all2 same_result reply ?rs"
      using resolve_travelling [OF _ r(2)] r(4) bd(1) by blast
    have "onFrameBuffer I own ?fr (st\<lparr>ch_strategy := Some (fold (ps_onPayloadFrame I) bodies a)\<rparr>)
        = ([], [ReplyFound i reply], st\<lparr>ch_strategy := Some a'\<rparr>)"
      by (simp add: onFrameBuffer_def frameType_reply [OF len] handleReply_def dec rv(1))
    then show ?thesis using f(1) bd(2) rv(2) by (simp add: channel_frame_def)
  qed
  then show ?thesis using run by blast
qed

end

section \<open>The stream strategy over frames\<close>

definition framed_stream :: "nat \<Rightarrow> Stream \<Rightarrow> Stream \<Rightarrow> (bytes \<times> bytes) list \<Rightarrow> bool" where
  "framed_stream n a b xs \<longleftrightarrow> stream_carries n a b xs \<and> st_chunkBytes a \<le> kMaxChunk"

lemma send_loop_framed:
  assumes "0 < unat c" "send_loop deliver c bs stream off sent = Some (res, fine)"
    "\<forall>parts \<in> set sent. length parts \<le> 7 \<and> length (concat parts) \<le> 25 + unat c"
  shows "\<forall>parts \<in> set res. length parts \<le> 7 \<and> length (concat parts) \<le> 25 + unat c"
  using assms(2,3)
proof (induction "length bs - off" arbitrary: off sent rule: less_induct)
  case less
  let ?len = "min (unat c) (length bs - off)"
  let ?parts = "[chunk_header stream (length bs) off, take ?len (drop off bs)]"
  have new: "\<forall>parts \<in> set (sent @ [?parts]). length parts \<le> 7 \<and> length (concat parts) \<le> 25 + unat c"
    using less.prems(2) by (simp add: chunk_header_def)
  consider "res = sent" | "res = sent @ [?parts]"
    | "off + ?len < length bs" "send_loop deliver c bs stream (off + ?len) (sent @ [?parts]) = Some (res, fine)"
    using less.prems(1) by (subst (asm) send_loop.simps) (auto simp: Let_def split: if_splits)
  then show ?case
  proof cases
    case 3
    moreover have "length bs - (off + ?len) < length bs - off" using 3(1) assms(1) by simp
    ultimately show ?thesis using less.hyps new by blast
  qed (use less.prems(2) new in simp_all)
qed

lemma stream_send_framed:
  assumes "0 < st_chunkBytes a" "st_chunkBytes a \<le> kMaxChunk" "stream_send deliver p a = Some (sent, Inr ref, a')"
  shows "(\<forall>parts \<in> set sent. length parts \<le> 7 \<and> length (concat parts) < 2 ^ 32) \<and> length ref < 2 ^ 32" "st_chunkBytes a' = st_chunkBytes a"
proof -
  have c: "0 < unat (st_chunkBytes a)" using assms(1) by (simp add: word_less_nat_alt)
  have m: "unat (st_chunkBytes a) \<le> 2 ^ 32 - 65" using assms(2) by (simp add: word_le_nat_alt kMaxChunk_def)
  let ?loop = "send_loop (\<lambda>parts. st_attached a \<and> deliver parts) (st_chunkBytes a) (payload_bytes p) (st_nextStream a) 0 []"
  obtain sent' fine where l: "?loop = Some (sent', fine)" using assms(3) by (cases ?loop) (auto simp: stream_send_def Let_def)
  have sr: "sent' = sent" "(if fine then Inr (little (st_nextStream a) 8) else Inl kUnavailable) = (Inr ref :: bytes expected)"
    "a' = a\<lparr>st_nextStream := st_nextStream a + 1\<rparr>"
    using assms(3) unfolding stream_send_def Let_def l by simp_all
  have r: "ref = little (st_nextStream a) 8" using sr(2) by (cases fine) simp_all
  have "?loop = Some (sent, fine)" using l sr(1) by simp
  from send_loop_framed [OF c this(1)] have "\<forall>parts \<in> set sent. length parts \<le> 7 \<and> length (concat parts) \<le> 25 + unat (st_chunkBytes a)" by simp
  moreover have "25 + unat (st_chunkBytes a) < 2 ^ 32" using m by simp
  ultimately have "\<forall>parts \<in> set sent. length parts \<le> 7 \<and> length (concat parts) < 2 ^ 32" by (meson le_less_trans)
  moreover have "length ref < 2 ^ 32" using r by simp
  ultimately show "(\<forall>parts \<in> set sent. length parts \<le> 7 \<and> length (concat parts) < 2 ^ 32) \<and> length ref < 2 ^ 32" ..
  show "st_chunkBytes a' = st_chunkBytes a" using sr(3) by simp
qed

interpretation stream_frames: framed_carrier "stream_ops junk" framed_stream "\<lambda>p. length (payload_bytes p) < 2 ^ 64" for junk
proof
  fix n a b xs p scope
  assume c: "framed_stream (Suc n) a b xs" and len: "length (payload_bytes p) < 2 ^ 64"
  then have pos: "0 < st_chunkBytes a" "st_chunkBytes a \<le> kMaxChunk" by (auto simp: framed_stream_def stream_carries_def)
  obtain sent ref a' where s: "stream_send (\<lambda>_. True) p a = Some (sent, Inr ref, a')"
    "\<forall>frs. map fst frs = map concat sent \<longrightarrow> stream_carries n a' (fold (stream_onPayloadFrame junk) frs b) (xs @ [(ref, payload_bytes p)])"
    using stream_send_carries [of n a b xs p junk] c len by (auto simp: framed_stream_def)
  then show "\<exists>sent ref a'. ps_send (stream_ops junk) (\<lambda>_. True) p scope a = Some (sent, Inr ref, a')
      \<and> (\<forall>frs. map fst frs = map concat sent \<longrightarrow> framed_stream n a' (fold (ps_onPayloadFrame (stream_ops junk)) frs b) (xs @ [(ref, payload_bytes p)]))"
    using stream_send_framed(2)[OF pos s(1)] pos by (auto simp: stream_ops_def framed_stream_def)
next
  fix n a b ref bs xs
  assume "framed_stream n a b ((ref, bs) # xs)"
  then show "\<exists>q b'. ps_receive (stream_ops junk) ref b = (Inr q, b') \<and> pl_kind q = kInline \<and> payload_bytes q = bs \<and> framed_stream n a b' xs"
    using stream_receive_carries [of n a b ref bs xs] by (auto simp: stream_ops_def framed_stream_def)
next
  fix n a b xs p scope sent ref a'
  assume "framed_stream (Suc n) a b xs" and s: "ps_send (stream_ops junk) (\<lambda>_. True) p scope a = Some (sent, Inr ref, a')"
  then show "(\<forall>parts \<in> set sent. length parts \<le> 7 \<and> length (concat parts) < 2 ^ 32) \<and> length ref < 2 ^ 32"
    using stream_send_framed(1)[of a "\<lambda>_. True" p sent ref a'] by (auto simp: framed_stream_def stream_carries_def stream_ops_def)
qed

text \<open>Right after the handshake both directions are ready.\<close>

lemma agreed_stream_ready: "n + 1 < 2 ^ 64 \<Longrightarrow> framed_stream n (agreed_stream c w) (agreed_stream w' c') []"
  using agreed_chunk_range [of c w]
  by (simp add: framed_stream_def stream_carries_def agreed_stream_def Stream_new_def)

section \<open>Properties\<close>


text \<open>A connection without configured strategies, and a request with one input above and one below the inline limit.\<close>

definition large_request :: SubGraphRequest where
  "large_request =
     \<lparr>rq_jobs = [\<lparr>js_kind = \<lparr>jk_name = ''hash'', jk_version = 2\<rparr>, js_input = inlineBytes (replicate 20 7), js_exported = True\<rparr>,
                 \<lparr>js_kind = \<lparr>jk_name = ''sum'', jk_version = 1\<rparr>, js_input = inlineBytes [1], js_exported = True\<rparr>],
      rq_edges = [(0, 1)]\<rparr>"

lemma large_request_sendable:
  "request_sendable large_request" "\<forall>job \<in> set (rq_jobs large_request). length (payload_bytes (js_input job)) < 2 ^ 64"
  by (auto simp: request_sendable_def large_request_def request_ok_def edge_ok_def payload_ok_def inlineBytes_def kMaxJobs_def payload_bytes_def)


text \<open>
  C37. The outputs of a request arrive at the coordinator as the jobs left them. The reply that a worker puts together over the stream
  strategy, payload frames first, is handed on by the channel with the same status, error and output for every job; error texts are cut to
  the 65,535 bytes of the format.
\<close>

theorem reply_outputs_arrive:
  assumes "ch_strategy st = Some a" "framed_stream (m + large_outputs limit cyclic (zip (rq_jobs req) outs)) b a []"
    "\<forall>x \<in> set (zip (rq_jobs req) outs). output_ok (jr_output (due_result cyclic x))
        \<and> (oversize limit (jr_output (due_result cyclic x)) \<longrightarrow> length (payload_bytes (jr_output (due_result cyclic x))) < 2 ^ 64)"
    "length outs = length (rq_jobs req)" "length (rq_jobs req) \<le> kMaxJobs"
  shows "\<exists>fr frames b'. run_request (stream_ops junk) (\<lambda>_. True) put limit i cyclic req outs (Some b)
        = Some (map (due_result cyclic) (zip (rq_jobs req) outs), fr, frames, Some b')
    \<and> (length fr < 2 ^ 32 \<longrightarrow> (\<forall>frs. map fst frs = concat (map payload_wire frames) @ [fr] \<longrightarrow>
        (\<exists>reply st'. fold (channel_frame (stream_ops junk)) frs ([], [], st) = ([], [ReplyFound i reply], st')
           \<and> list_all2 same_result reply (map (due_result cyclic) (zip (rq_jobs req) outs)))))"
  by (rule stream_frames.reply_arrives [OF assms])

definition large_outs :: "JobOut list" where
  "large_outs = [JobOut_new\<lparr>jo_status := kDone, jo_output := inlineBytes (replicate 20 7)\<rparr>, JobOut_new\<lparr>jo_status := kDone, jo_output := inlineBytes [1]\<rparr>]"

theorem reply_outputs_arrive_witness:
  "\<exists>fr frames b'. run_request (stream_ops (\<lambda>_. 0)) (\<lambda>_. True) None 8 7 False large_request large_outs (Some (agreed_stream 16 16))
      = Some (map (due_result False) (zip (rq_jobs large_request) large_outs), fr, frames, Some b')"
proof -
  let ?js = "zip (rq_jobs large_request) large_outs"
  let ?st = "(Channel_new (plain_options 3))\<lparr>ch_strategy := Some (agreed_stream 16 16)\<rparr>"
  have "large_outputs 8 False ?js \<le> length ?js" unfolding large_outputs_def by (rule length_filter_le)
  then have ready: "framed_stream (0 + large_outputs 8 False ?js) (agreed_stream 16 16) (agreed_stream 16 16) []"
    by (intro agreed_stream_ready) (simp add: large_request_def large_outs_def)
  have "\<forall>x \<in> set ?js. output_ok (jr_output (due_result False x))
        \<and> (oversize 8 (jr_output (due_result False x)) \<longrightarrow> length (payload_bytes (jr_output (due_result False x))) < 2 ^ 64)"
    by (simp add: large_request_def large_outs_def due_result_def bare_result_def JobOut_new_def JobResult_new_def status_code_def
        output_ok_def payload_ok_def inlineBytes_def payload_bytes_def Let_def)
  from reply_outputs_arrive [OF _ ready this, where st = ?st and junk = "\<lambda>_. 0" and put = None and i = 7]
  show ?thesis by (auto simp: large_request_def large_outs_def kMaxJobs_def)
qed

end
