(* ===== verification/PriorityPool.thy ===== *)
theory PriorityPool
  imports Prelude PipelineTypes "HOL-Library.Multiset" "HOL-Library.Sublist"
begin

text \<open>
  The bounded thread pool with priorities: \<^verbatim>\<open>BasicPriorityExecutor<Stable>\<close> (\<^verbatim>\<open>include/sub0pipeline/executor/priority_executor.hpp\<close>,
  \<^verbatim>\<open>platform/priority/priority_executor.cpp\<close>). A worker thread goes through the places of the type \<open>worker\<close>; each step runs
  one section under \<^verbatim>\<open>mtx_\<close>, or one callback, or one atomic operation, and the step relation interleaves the workers, the
  dispatching threads and their late notifications.
\<close>

section \<open>State\<close>

record PoolOptions =
  po_threadCount :: u32
  po_queueCapacity :: nat

text \<open>\<open>qj_fn\<close> names the body together with its completion callback. \<open>qj_sequence\<close> is 0 unless dispatch order is kept.\<close>

record QueuedJob =
  qj_sequence :: u64
  qj_fn :: nat
  qj_priority :: u8

text \<open>\<^verbatim>\<open>QueuedJob::operator<\<close>.\<close>

definition job_less :: "bool \<Rightarrow> QueuedJob \<Rightarrow> QueuedJob \<Rightarrow> bool" where
  "job_less fifo a b \<longleftrightarrow>
     (if qj_priority a \<noteq> qj_priority b then qj_priority a < qj_priority b else fifo \<and> qj_sequence a > qj_sequence b)"

text \<open>
  The places of a worker: before its thread setup, on the way to the queue, asleep in the wait, notified in it, about to run a body, to
  run its completion, to count the job as done, and returned.
\<close>

datatype worker = Fresh | Looking | Asleep | Woken | Bodying QueuedJob | Completing QueuedJob | Counting | Returned

datatype pool_event = ThreadStarted | Accepted nat | Rejected nat | Began nat | Completed nat | WaitedAll

text \<open>\<open>pp_queue\<close> holds the jobs of the \<^verbatim>\<open>priority_queue\<close> in the order of their dispatch; \<open>pp_notifying\<close> counts dispatching threads between
  their unlock and \<^verbatim>\<open>notify_one\<close>.\<close>

record Pool =
  pp_stable :: bool
  pp_queue :: "QueuedJob list"
  pp_nextSequence :: u64
  pp_queueCapacity :: nat
  pp_idle :: u32
  pp_stopping :: bool
  pp_inFlight :: u32
  pp_workers :: "worker list"
  pp_notifying :: nat
  pp_trace :: "pool_event list"

text \<open>The constructor; \<open>hardware\<close> is \<^verbatim>\<open>hardware_concurrency()\<close>. \<open>None\<close> is the hard error.\<close>

definition Pool_new :: "bool \<Rightarrow> u32 \<Rightarrow> PoolOptions \<Rightarrow> Pool option" where
  "Pool_new fifo hardware opts =
     (let threadCount = (if po_threadCount opts \<noteq> 0 then po_threadCount opts else max 1 hardware)
      in if unat threadCount > 2 ^ 31 - 1 \<or> po_queueCapacity opts > 2 ^ 32 - 1 - unat threadCount then None
         else Some \<lparr>pp_stable = fifo, pp_queue = [], pp_nextSequence = 0, pp_queueCapacity = po_queueCapacity opts, pp_idle = 0,
                    pp_stopping = False, pp_inFlight = 0, pp_workers = replicate (unat threadCount) Fresh, pp_notifying = 0, pp_trace = []\<rparr>)"

section \<open>Operations\<close>

definition pool_emit :: "pool_event \<Rightarrow> Pool \<Rightarrow> Pool" where
  "pool_emit e st = st\<lparr>pp_trace := pp_trace st @ [e]\<rparr>"

definition dispatch :: "nat \<Rightarrow> u8 \<Rightarrow> Pool \<Rightarrow> Pool" where
  "dispatch fn priority st =
     (if pp_queueCapacity st \<noteq> 0 \<and> length (pp_queue st) = pp_queueCapacity st \<or> pp_inFlight st = - 1
      then pool_emit (Rejected fn) st
      else pool_emit (Accepted fn)
             (st\<lparr>pp_queue := pp_queue st @ [\<lparr>qj_sequence = (if pp_stable st then pp_nextSequence st else 0), qj_fn = fn, qj_priority = priority\<rparr>],
                 pp_nextSequence := (if pp_stable st then pp_nextSequence st + 1 else pp_nextSequence st),
                 pp_inFlight := pp_inFlight st + 1,
                 pp_notifying := (if pp_idle st \<noteq> 0 then Suc (pp_notifying st) else pp_notifying st)\<rparr>))"

definition pool_concurrency :: "Pool \<Rightarrow> nat" where "pool_concurrency st = length (pp_workers st)"

text \<open>\<^verbatim>\<open>top\<close> may give any job that no other exceeds.\<close>

definition may_take :: "bool \<Rightarrow> QueuedJob list \<Rightarrow> nat \<Rightarrow> bool" where
  "may_take fifo q k \<longleftrightarrow> k < length q \<and> (\<forall>j < length q. \<not> job_less fifo (q ! k) (q ! j))"

definition remove_at :: "nat \<Rightarrow> 'a list \<Rightarrow> 'a list" where
  "remove_at k xs = take k xs @ drop (Suc k) xs"

text \<open>The end of the wait, once its predicate holds: \<open>k\<close> is the job that \<^verbatim>\<open>top\<close> gives.\<close>

definition leave_wait :: "nat \<Rightarrow> Pool \<Rightarrow> worker \<times> Pool" where
  "leave_wait k st =
     (let st1 = st\<lparr>pp_idle := pp_idle st - 1\<rparr>
      in if pp_queue st = [] then (Returned, st1)
         else (Bodying (pp_queue st ! k), st1\<lparr>pp_queue := remove_at k (pp_queue st)\<rparr>))"

fun worker_step :: "nat \<Rightarrow> worker \<Rightarrow> Pool \<Rightarrow> (worker \<times> Pool) option" where
  "worker_step k Fresh st = Some (Looking, pool_emit ThreadStarted st)"
| "worker_step k Looking st =
     (let st1 = st\<lparr>pp_idle := pp_idle st + 1\<rparr>
      in Some (if pp_stopping st \<or> pp_queue st \<noteq> [] then leave_wait k st1 else (Asleep, st1)))"
| "worker_step k Asleep st = Some (Woken, st)"
| "worker_step k Woken st = Some (if pp_stopping st \<or> pp_queue st \<noteq> [] then leave_wait k st else (Asleep, st))"
| "worker_step k (Bodying job) st = Some (Completing job, pool_emit (Began (qj_fn job)) st)"
| "worker_step k (Completing job) st = Some (Counting, pool_emit (Completed (qj_fn job)) st)"
| "worker_step k Counting st = Some (Looking, st\<lparr>pp_inFlight := pp_inFlight st - 1\<rparr>)"
| "worker_step k Returned st = None"

definition wake_worker :: "worker \<Rightarrow> worker" where
  "wake_worker w = (if w = Asleep then Woken else w)"

definition stop_workers :: "Pool \<Rightarrow> Pool" where
  "stop_workers st = st\<lparr>pp_stopping := True, pp_workers := map wake_worker (pp_workers st)\<rparr>"

text \<open>
  \<^verbatim>\<open>notify_one\<close> wakes one sleeping worker, if there is one. A worker may wake up spuriously. Nothing is dispatched once the destructor
  stops the workers, and the 64-bit sequence counter has not come to its end.
\<close>

inductive pool_step :: "Pool \<Rightarrow> Pool \<Rightarrow> bool" where
  dispatching: "\<not> pp_stopping st \<Longrightarrow> pp_nextSequence st + 1 \<noteq> 0 \<Longrightarrow> pool_step st (dispatch fn priority st)"
| notifying: "pp_notifying st = Suc n \<Longrightarrow> pp_workers st = ws1 @ Asleep # ws2 \<Longrightarrow>
    pool_step st (st\<lparr>pp_notifying := n, pp_workers := ws1 @ Woken # ws2\<rparr>)"
| notifying_none: "pp_notifying st = Suc n \<Longrightarrow> Asleep \<notin> set (pp_workers st) \<Longrightarrow> pool_step st (st\<lparr>pp_notifying := n\<rparr>)"
| working: "pp_workers st = ws1 @ w # ws2 \<Longrightarrow> pp_queue st \<noteq> [] \<longrightarrow> may_take (pp_stable st) (pp_queue st) k \<Longrightarrow>
    worker_step k w st = Some (w', st') \<Longrightarrow> pool_step st (st'\<lparr>pp_workers := ws1 @ w' # ws2\<rparr>)"
| waited: "pp_inFlight st = 0 \<Longrightarrow> pool_step st (pool_emit WaitedAll st)"
| stopping: "WaitedAll \<in> set (pp_trace st) \<Longrightarrow> pp_inFlight st = 0 \<Longrightarrow> pool_step st (stop_workers st)"

section \<open>The books of the pool\<close>

fun holding :: "worker \<Rightarrow> nat" where
  "holding (Bodying j) = 1" | "holding (Completing j) = 1" | "holding Counting = 1" | "holding _ = 0"

fun idling :: "worker \<Rightarrow> nat" where
  "idling Asleep = 1" | "idling Woken = 1" | "idling _ = 0"

fun to_begin :: "worker \<Rightarrow> nat list" where
  "to_begin (Bodying j) = [qj_fn j]" | "to_begin _ = []"

fun to_complete :: "worker \<Rightarrow> nat list" where
  "to_complete (Bodying j) = [qj_fn j]" | "to_complete (Completing j) = [qj_fn j]" | "to_complete _ = []"

fun accepted :: "pool_event \<Rightarrow> nat list" where "accepted (Accepted f) = [f]" | "accepted _ = []"
fun begun :: "pool_event \<Rightarrow> nat list" where "begun (Began f) = [f]" | "begun _ = []"
fun completed :: "pool_event \<Rightarrow> nat list" where "completed (Completed f) = [f]" | "completed _ = []"

definition all_of :: "(pool_event \<Rightarrow> nat list) \<Rightarrow> Pool \<Rightarrow> nat list" where
  "all_of f st = concat (map f (pp_trace st))"

definition counts :: "Pool \<Rightarrow> bool" where
  "counts st \<longleftrightarrow> unat (pp_inFlight st) = length (pp_queue st) + sum_list (map holding (pp_workers st))
     \<and> unat (pp_idle st) = sum_list (map idling (pp_workers st))
     \<and> (pp_queueCapacity st \<noteq> 0 \<longrightarrow> length (pp_queue st) \<le> pp_queueCapacity st)"

text \<open>Every accepted job is queued, or with a worker that has \<open>f\<close> to do for it, or has had that done, as the trace tells through \<open>g\<close>.\<close>

definition jobs_kept :: "(worker \<Rightarrow> nat list) \<Rightarrow> (pool_event \<Rightarrow> nat list) \<Rightarrow> Pool \<Rightarrow> bool" where
  "jobs_kept f g st \<longleftrightarrow>
     mset (all_of accepted st) = mset (map qj_fn (pp_queue st)) + mset (concat (map f (pp_workers st))) + mset (all_of g st)"

text \<open>A worker that will look at the queue by itself.\<close>

definition awake :: "worker \<Rightarrow> bool" where
  "awake w \<longleftrightarrow> w \<noteq> Asleep \<and> w \<noteq> Returned"

definition attended :: "Pool \<Rightarrow> bool" where
  "attended st \<longleftrightarrow> pp_workers st \<noteq> [] \<and> length (pp_workers st) < 2 ^ 31 \<and> (pp_stopping st \<longrightarrow> pp_queue st = [])
     \<and> (Returned \<in> set (pp_workers st) \<longrightarrow> pp_stopping st)
     \<and> (pp_queue st \<noteq> [] \<longrightarrow> (\<exists>w \<in> set (pp_workers st). awake w) \<or> 0 < pp_notifying st)"

definition in_order :: "Pool \<Rightarrow> bool" where
  "in_order st \<longleftrightarrow> subseq (map qj_fn (pp_queue st)) (all_of accepted st)
     \<and> (pp_stable st \<longrightarrow> sorted_wrt (\<lambda>a b. qj_sequence a < qj_sequence b) (pp_queue st)
          \<and> (\<forall>j \<in> set (pp_queue st). qj_sequence j < pp_nextSequence st))"

definition pool_inv :: "Pool \<Rightarrow> bool" where
  "pool_inv st \<longleftrightarrow> counts st \<and> jobs_kept to_begin begun st \<and> jobs_kept to_complete completed st \<and> attended st \<and> in_order st"

lemmas pool_defs = counts_def jobs_kept_def attended_def in_order_def all_of_def pool_emit_def

lemma pool_invD:
  "pool_inv st \<Longrightarrow> counts st" "pool_inv st \<Longrightarrow> jobs_kept to_begin begun st" "pool_inv st \<Longrightarrow> jobs_kept to_complete completed st"
  "pool_inv st \<Longrightarrow> attended st" "pool_inv st \<Longrightarrow> in_order st"
  by (simp_all add: pool_inv_def)

lemma idling_le: "sum_list (map idling ws) \<le> length ws"
proof -
  have "idling w \<le> 1" for w by (cases w) simp_all
  then show ?thesis using sum_list_le_const[of ws idling 1] by simp
qed

lemma no_idle: "sum_list (map idling ws) = 0 \<Longrightarrow> Returned \<notin> set ws \<Longrightarrow> \<forall>w \<in> set ws. awake w"
  by (induction ws) (auto simp: awake_def)

lemma emit_inv:
  assumes "pool_inv st" "accepted e = []" "begun e = []" "completed e = []"
  shows "pool_inv (pool_emit e st)"
  unfolding pool_inv_def
  using pool_invD[OF assms(1)] assms(2-4) by (intro conjI) (simp_all add: pool_defs)

lemma dispatch_inv:
  assumes inv: "pool_inv st" and go: "\<not> pp_stopping st" "pp_nextSequence st + 1 \<noteq> 0"
  shows "pool_inv (dispatch fn priority st)"
proof (cases "pp_queueCapacity st \<noteq> 0 \<and> length (pp_queue st) = pp_queueCapacity st \<or> pp_inFlight st = - 1")
  case True
  then show ?thesis using emit_inv[OF inv, of "Rejected fn"] by (simp add: dispatch_def)
next
  case False
  note i = pool_invD[OF inv]
  have nz: "pp_inFlight st + 1 \<noteq> 0" using False by (metis add_eq_0_iff2)
  then have un: "unat (pp_inFlight st + 1) = Suc (unat (pp_inFlight st))" by (metis add.commute unatSuc)
  have seq: "pp_nextSequence st < pp_nextSequence st + 1" using go(2) by (metis add.commute unatSuc lessI word_less_nat_alt)
  have "counts (dispatch fn priority st)" using i(1) False un by (auto simp: dispatch_def pool_defs)
  moreover have "jobs_kept to_begin begun (dispatch fn priority st)" using i(2) False by (simp add: dispatch_def pool_defs)
  moreover have "jobs_kept to_complete completed (dispatch fn priority st)" using i(3) False by (simp add: dispatch_def pool_defs)
  moreover have "attended (dispatch fn priority st)"
  proof (cases "pp_idle st = 0")
    case True
    have "\<forall>w \<in> set (pp_workers st). awake w"
      using i(1,4) True go(1) by (intro no_idle) (auto simp: pool_defs)
    moreover have "pp_workers st \<noteq> []" using i(4) by (simp add: attended_def)
    ultimately have "\<exists>w \<in> set (pp_workers st). awake w" by (cases "pp_workers st") auto
    then show ?thesis using i(4) False go(1) by (simp add: dispatch_def pool_defs)
  next
    case idle: False
    then show ?thesis using i(4) False go(1) by (simp add: dispatch_def pool_defs)
  qed
  moreover have "in_order (dispatch fn priority st)"
    using i(5) False seq by (auto simp: dispatch_def pool_defs sorted_wrt_append intro: less_trans list_emb_append_mono)
  ultimately show ?thesis by (simp add: pool_inv_def)
qed

lemma subseq_remove_at: "subseq (remove_at k xs) xs"
proof (cases "k < length xs")
  case True
  have "subseq (take k xs @ drop (Suc k) xs) (take k xs @ xs ! k # drop (Suc k) xs)" by (rule list_emb_append_mono) auto
  then show ?thesis using id_take_nth_drop[OF True] by (simp add: remove_at_def)
qed (simp add: remove_at_def)

lemma mset_remove_at: "k < length xs \<Longrightarrow> mset xs = add_mset (xs ! k) (mset (remove_at k xs))"
  using arg_cong[OF id_take_nth_drop, of k xs mset] by (simp add: remove_at_def)

lemma leave_wait_inv:
  assumes inv: "pool_inv st" and ws: "pp_workers st = ws1 @ Woken # ws2"
    and k: "pp_queue st \<noteq> [] \<longrightarrow> k < length (pp_queue st)" and go: "pp_stopping st \<or> pp_queue st \<noteq> []" and l: "leave_wait k st = (w', st')"
  shows "pool_inv (st'\<lparr>pp_workers := ws1 @ w' # ws2\<rparr>)"
proof -
  note i = pool_invD[OF inv]
  have idle: "unat (pp_idle st) = Suc (sum_list (map idling ws1) + sum_list (map idling ws2))" using i(1) ws by (simp add: counts_def)
  have un: "unat (pp_idle st - 1) = unat (pp_idle st) - 1" by (rule unat_minus_one) (use idle in auto)
  show ?thesis
  proof (cases "pp_queue st = []")
    case True
    then have "w' = Returned" "st' = st\<lparr>pp_idle := pp_idle st - 1\<rparr>" "pp_stopping st" using l go by (auto simp: leave_wait_def Let_def)
    then show ?thesis
      unfolding pool_inv_def using i True ws idle un by (intro conjI) (simp_all add: pool_defs)
  next
    case False
    let ?q = "pp_queue st"
    have kl: "k < length ?q" and w: "w' = Bodying (?q ! k)" "st' = st\<lparr>pp_idle := pp_idle st - 1, pp_queue := remove_at k ?q\<rparr>"
      using False k l by (auto simp: leave_wait_def Let_def)
    note m = mset_remove_at[OF kl]
    have len: "length ?q = Suc (length (remove_at k ?q))" using kl by (simp add: remove_at_def)
    have sub: "set (remove_at k ?q) \<subseteq> set ?q" by (auto simp: remove_at_def dest: in_set_takeD in_set_dropD)
    have fs: "subseq (map qj_fn (remove_at k ?q)) (map qj_fn ?q)" by (rule subseq_map [OF subseq_remove_at])
    have so: "sorted_wrt R (remove_at k ?q)" if "sorted_wrt R ?q" for R
      using that by (subst (asm) id_take_nth_drop[OF kl]) (simp add: remove_at_def sorted_wrt_append)
    have ns: "\<not> pp_stopping st" using i(4) False by (auto simp: attended_def)
    have "counts (st'\<lparr>pp_workers := ws1 @ w' # ws2\<rparr>)" using i(1) ws w len idle un by (auto simp: counts_def)
    moreover have "jobs_kept to_begin begun (st'\<lparr>pp_workers := ws1 @ w' # ws2\<rparr>)" using i(2) ws w m by (simp add: pool_defs)
    moreover have "jobs_kept to_complete completed (st'\<lparr>pp_workers := ws1 @ w' # ws2\<rparr>)" using i(3) ws w m by (simp add: pool_defs)
    moreover have "attended (st'\<lparr>pp_workers := ws1 @ w' # ws2\<rparr>)" using i(4) ws w ns by (auto simp: pool_defs awake_def)
    moreover have "in_order (st'\<lparr>pp_workers := ws1 @ w' # ws2\<rparr>)"
      using i(5) w sub fs so by (auto simp: pool_defs intro: subseq_order.order_trans)
    ultimately show ?thesis by (simp add: pool_inv_def)
  qed
qed

text \<open>A worker that enters the wait counts as idle; if there is nothing to do it falls asleep.\<close>

lemma enter_wait_inv:
  assumes inv: "pool_inv st" and ws: "pp_workers st = ws1 @ Looking # ws2"
  shows "pool_inv (st\<lparr>pp_idle := pp_idle st + 1, pp_workers := ws1 @ Woken # ws2\<rparr>)"
proof -
  note i = pool_invD[OF inv]
  have "sum_list (map idling ws1) + sum_list (map idling ws2) < 2 ^ 31"
    using idling_le[of "ws1 @ ws2"] i(4) ws by (simp add: attended_def)
  then have un: "unat (pp_idle st + 1) = Suc (unat (pp_idle st))" using i(1) ws by (simp add: counts_def unat_word_ariths)
  show ?thesis
    unfolding pool_inv_def using i ws un by (intro conjI) (auto simp: pool_defs awake_def)
qed

lemma sleep_inv:
  assumes inv: "pool_inv st" and ws: "pp_workers st = ws1 @ Woken # ws2" and no: "pp_queue st = []"
  shows "pool_inv (st\<lparr>pp_workers := ws1 @ Asleep # ws2\<rparr>)"
  unfolding pool_inv_def using pool_invD[OF inv] ws no by (intro conjI) (simp_all add: pool_defs)

lemma wake_inv:
  assumes inv: "pool_inv st" and ws: "pp_workers st = ws1 @ Asleep # ws2"
  shows "pool_inv (st\<lparr>pp_workers := ws1 @ Woken # ws2\<rparr>)" "pool_inv (st\<lparr>pp_notifying := n, pp_workers := ws1 @ Woken # ws2\<rparr>)"
  unfolding pool_inv_def using pool_invD[OF inv] ws by (intro conjI; simp add: pool_defs awake_def)+

text \<open>A worker goes on with the job it has.\<close>

lemma go_on_inv:
  assumes inv: "pool_inv st" and ws: "pp_workers st = ws1 @ w # ws2" and same: "holding w' = holding w" "idling w' = idling w" "awake w'"
    and e: "accepted e = []" "mset (to_begin w') + mset (begun e) = mset (to_begin w)" "mset (to_complete w') + mset (completed e) = mset (to_complete w)"
  shows "pool_inv ((pool_emit e st)\<lparr>pp_workers := ws1 @ w' # ws2\<rparr>)"
proof -
  note i = pool_invD[OF inv]
  have "counts ((pool_emit e st)\<lparr>pp_workers := ws1 @ w' # ws2\<rparr>)" using i(1) ws same by (simp add: pool_defs)
  moreover have "jobs_kept to_begin begun ((pool_emit e st)\<lparr>pp_workers := ws1 @ w' # ws2\<rparr>)"
    using i(2) ws e(1) e(2)[symmetric] by (simp add: pool_defs add.assoc add.left_commute add.commute)
  moreover have "jobs_kept to_complete completed ((pool_emit e st)\<lparr>pp_workers := ws1 @ w' # ws2\<rparr>)"
    using i(3) ws e(1) e(3)[symmetric] by (simp add: pool_defs add.assoc add.left_commute add.commute)
  moreover have "attended ((pool_emit e st)\<lparr>pp_workers := ws1 @ w' # ws2\<rparr>)" using i(4) ws same(3) by (auto simp: pool_defs awake_def)
  moreover have "in_order ((pool_emit e st)\<lparr>pp_workers := ws1 @ w' # ws2\<rparr>)" using i(5) e(1) by (simp add: pool_defs)
  ultimately show ?thesis by (simp add: pool_inv_def)
qed

lemma working_inv:
  assumes inv: "pool_inv st" and ws: "pp_workers st = ws1 @ w # ws2" and k: "pp_queue st \<noteq> [] \<longrightarrow> may_take (pp_stable st) (pp_queue st) k"
    and l: "worker_step k w st = Some (w', st')"
  shows "pool_inv (st'\<lparr>pp_workers := ws1 @ w' # ws2\<rparr>)"
proof -
  note i = pool_invD[OF inv]
  have kl: "pp_queue st \<noteq> [] \<longrightarrow> k < length (pp_queue st)" using k by (auto simp: may_take_def)
  show ?thesis
  proof (cases w)
    case Fresh
    then show ?thesis using go_on_inv[OF inv ws, of w' "ThreadStarted"] l by (auto simp: awake_def)
  next
    case Looking
    let ?s = "st\<lparr>pp_idle := pp_idle st + 1, pp_workers := ws1 @ Woken # ws2\<rparr>"
    have e: "pool_inv ?s" using enter_wait_inv[OF inv] ws Looking by simp
    show ?thesis
    proof (cases "pp_stopping st \<or> pp_queue st \<noteq> []")
      case True
      then have "leave_wait k (st\<lparr>pp_idle := pp_idle st + 1\<rparr>) = (w', st')" using l Looking by (simp add: Let_def)
      then have "\<exists>st2. leave_wait k ?s = (w', st2) \<and> st2\<lparr>pp_workers := ws1 @ w' # ws2\<rparr> = st'\<lparr>pp_workers := ws1 @ w' # ws2\<rparr>"
        by (auto simp: leave_wait_def Let_def split: if_splits)
      then show ?thesis using leave_wait_inv[OF e, of ws1 ws2 k w'] kl True by auto
    next
      case False
      then show ?thesis using sleep_inv[OF e, of ws1 ws2] l Looking by (simp add: Let_def)
    qed
  next
    case Asleep
    then show ?thesis using wake_inv(1)[OF inv] ws l by simp
  next
    case Woken
    show ?thesis
    proof (cases "pp_stopping st \<or> pp_queue st \<noteq> []")
      case True
      then show ?thesis using leave_wait_inv[OF inv, of ws1 ws2 k w' st'] ws kl l Woken by simp
    next
      case False
      then show ?thesis using sleep_inv[OF inv, of ws1 ws2] ws l Woken by simp
    qed
  next
    case (Bodying job)
    then show ?thesis using go_on_inv[OF inv ws, of w' "Began (qj_fn job)"] l by (auto simp: awake_def)
  next
    case (Completing job)
    then show ?thesis using go_on_inv[OF inv ws, of w' "Completed (qj_fn job)"] l by (auto simp: awake_def)
  next
    case Counting
    have h: "unat (pp_inFlight st) = Suc (length (pp_queue st) + sum_list (map holding ws1) + sum_list (map holding ws2))"
      using i(1) ws Counting by (simp add: counts_def)
    have un: "unat (pp_inFlight st - 1) = unat (pp_inFlight st) - 1" by (rule unat_minus_one) (use h in auto)
    have w: "w' = Looking" "st' = st\<lparr>pp_inFlight := pp_inFlight st - 1\<rparr>" using l Counting by simp_all
    have "counts (st'\<lparr>pp_workers := ws1 @ w' # ws2\<rparr>)" using i(1) ws w h un Counting by (simp add: counts_def)
    moreover have "jobs_kept to_begin begun (st'\<lparr>pp_workers := ws1 @ w' # ws2\<rparr>)" using i(2) ws w Counting by (simp add: pool_defs)
    moreover have "jobs_kept to_complete completed (st'\<lparr>pp_workers := ws1 @ w' # ws2\<rparr>)" using i(3) ws w Counting by (simp add: pool_defs)
    moreover have "attended (st'\<lparr>pp_workers := ws1 @ w' # ws2\<rparr>)" using i(4) ws w Counting by (auto simp: pool_defs awake_def)
    moreover have "in_order (st'\<lparr>pp_workers := ws1 @ w' # ws2\<rparr>)" using i(5) w by (simp add: pool_defs)
    ultimately show ?thesis by (simp add: pool_inv_def)
  next
    case Returned
    then show ?thesis using l by simp
  qed
qed

lemma stop_inv:
  assumes "pool_inv st" "pp_inFlight st = 0"
  shows "pool_inv (stop_workers st)"
proof -
  note i = pool_invD[OF assms(1)]
  have w: "holding (wake_worker w) = holding w" "idling (wake_worker w) = idling w" "to_begin (wake_worker w) = to_begin w"
    "to_complete (wake_worker w) = to_complete w" for w by (simp_all add: wake_worker_def)
  have q: "pp_queue st = []" using i(1) assms(2) by (simp add: counts_def)
  show ?thesis
    unfolding pool_inv_def using i q by (intro conjI) (auto simp: stop_workers_def pool_defs comp_def w)
qed

lemma pool_step_inv: "pool_inv st \<Longrightarrow> pool_step st st' \<Longrightarrow> pool_inv st'"
proof (erule pool_step.cases, goal_cases)
  case (3 s n)
  then have "\<forall>w \<in> set (pp_workers s). w = Returned \<or> awake w" by (auto simp: awake_def)
  moreover have "pp_queue s \<noteq> [] \<Longrightarrow> Returned \<notin> set (pp_workers s)" "pp_workers s \<noteq> []"
    using 3 pool_invD(4)[of s] by (auto simp: attended_def)
  ultimately have "pp_queue s \<noteq> [] \<longrightarrow> (\<exists>w \<in> set (pp_workers s). awake w)" by (metis hd_in_set)
  then show ?case unfolding pool_inv_def using 3 pool_invD[of s] by (intro conjI) (simp_all add: pool_defs)
qed (auto intro: dispatch_inv wake_inv working_inv emit_inv stop_inv)

lemma pool_new_inv:
  assumes "Pool_new fifo hardware opts = Some st"
  shows "pool_inv st"
proof -
  define n where "n = (if po_threadCount opts \<noteq> 0 then po_threadCount opts else max 1 hardware)"
  have st: "st = \<lparr>pp_stable = fifo, pp_queue = [], pp_nextSequence = 0, pp_queueCapacity = po_queueCapacity opts, pp_idle = 0, pp_stopping = False,
      pp_inFlight = 0, pp_workers = replicate (unat n) Fresh, pp_notifying = 0, pp_trace = []\<rparr>" and le: "unat n \<le> 2 ^ 31 - 1"
    using assms by (auto simp: Pool_new_def Let_def n_def split: if_splits)
  have "n \<noteq> 0" by (auto simp: n_def max_def)
  then have pos: "unat n \<noteq> 0" by (simp add: unat_eq_zero)
  have "sum_list (map holding (replicate k Fresh)) = 0" "sum_list (map idling (replicate k Fresh)) = 0" for k by (induction k) simp_all
  moreover have "concat (map to_begin (replicate k Fresh)) = []" "concat (map to_complete (replicate k Fresh)) = []" for k by (induction k) simp_all
  ultimately show ?thesis using le pos by (simp add: st pool_inv_def pool_defs)
qed

interpretation pool: inductive_invariant "\<lambda>st. Pool_new fifo hardware opts = Some st" pool_step pool_inv for fifo hardware opts
  using pool_step_inv by unfold_locales (auto intro: pool_new_inv)

section \<open>Order\<close>

text \<open>Some job may always be taken: none exceeds itself, and the order has no cycles.\<close>

lemma job_less_trans: "job_less fifo a b \<Longrightarrow> job_less fifo b c \<Longrightarrow> job_less fifo a c"
  by (auto simp: job_less_def split: if_splits)

lemma job_less_irrefl: "\<not> job_less fifo a a"
  by (simp add: job_less_def)

lemma some_may_take:
  assumes "q \<noteq> []"
  shows "\<exists>k. may_take fifo q k"
proof -
  have "\<exists>x \<in> set q. \<forall>y \<in> set q. \<not> job_less fifo x y"
    using assms
  proof (induction q)
    case (Cons a q)
    show ?case
    proof (cases "q = []")
      case True
      then show ?thesis by (simp add: job_less_irrefl)
    next
      case False
      then obtain x where x: "x \<in> set q" "\<forall>y \<in> set q. \<not> job_less fifo x y" using Cons.IH by blast
      show ?thesis
      proof (cases "job_less fifo x a")
        case True
        then have "\<forall>y \<in> set (a # q). \<not> job_less fifo a y" using x(2) job_less_trans job_less_irrefl by (metis set_ConsD)
        then show ?thesis by simp
      next
        case False
        then show ?thesis using x by auto
      qed
    qed
  qed simp
  then show ?thesis by (metis in_set_conv_nth may_take_def nth_mem)
qed

lemma taken_first:
  assumes "may_take fifo q k" "fifo \<longrightarrow> sorted_wrt (\<lambda>a b. qj_sequence a < qj_sequence b) q"
  shows "\<forall>j < length q. qj_priority (q ! j) \<le> qj_priority (q ! k)" "fifo \<longrightarrow> (\<forall>j < k. qj_priority (q ! j) < qj_priority (q ! k))"
proof -
  have le: "qj_priority (q ! j) \<le> qj_priority (q ! k)" if "j < length q" for j
  proof (rule ccontr)
    assume "\<not> qj_priority (q ! j) \<le> qj_priority (q ! k)"
    then have "job_less fifo (q ! k) (q ! j)" by (auto simp: job_less_def)
    then show False using assms(1) that by (simp add: may_take_def)
  qed
  then show "\<forall>j < length q. qj_priority (q ! j) \<le> qj_priority (q ! k)" by blast
  have "qj_priority (q ! j) < qj_priority (q ! k)" if f: fifo and j: "j < k" for j
  proof -
    have k: "k < length q" using assms(1) by (simp add: may_take_def)
    have "qj_sequence (q ! j) < qj_sequence (q ! k)" using assms(2) f sorted_wrt_nth_less[of "\<lambda>a b. qj_sequence a < qj_sequence b" q j k] j k by simp
    moreover have "\<not> job_less fifo (q ! k) (q ! j)" using assms(1) j k by (simp add: may_take_def)
    ultimately have "qj_priority (q ! k) \<noteq> qj_priority (q ! j)" using f by (auto simp: job_less_def)
    then show ?thesis using le[of j] j k by simp
  qed
  then show "fifo \<longrightarrow> (\<forall>j < k. qj_priority (q ! j) < qj_priority (q ! k))" by blast
qed

section \<open>An example\<close>

definition one_thread :: PoolOptions where "one_thread = \<lparr>po_threadCount = 1, po_queueCapacity = 2\<rparr>"

definition one_pool :: Pool where
  "one_pool = \<lparr>pp_stable = True, pp_queue = [], pp_nextSequence = 0, pp_queueCapacity = 2, pp_idle = 0, pp_stopping = False, pp_inFlight = 0,
     pp_workers = [Fresh], pp_notifying = 0, pp_trace = []\<rparr>"

abbreviation pool_reach :: "Pool \<Rightarrow> bool" where
  "pool_reach \<equiv> reach (\<lambda>st. Pool_new True 4 one_thread = Some st) pool_step"

lemma one_pool_reach: "pool_reach one_pool"
  by (rule reach_init) (simp add: Pool_new_def one_thread_def one_pool_def Let_def)

lemma reach_dispatch:
  "pool_reach st \<Longrightarrow> \<not> pp_stopping st \<Longrightarrow> pp_nextSequence st + 1 \<noteq> 0 \<Longrightarrow> pool_reach (dispatch fn priority st)"
  by (blast intro: reach_step pool_step.dispatching)

lemma reach_work:
  assumes "pool_reach st" "pp_workers st = [w]" "pp_queue st \<noteq> [] \<longrightarrow> may_take (pp_stable st) (pp_queue st) k" "worker_step k w st = Some (w', st')"
  shows "pool_reach (st'\<lparr>pp_workers := [w']\<rparr>)"
  using reach_step[OF assms(1) pool_step.working[of st "[]" w "[]" k w' st']] assms(2-4) by simp

text \<open>Two jobs queued before the worker is up; it takes the more urgent one, although it came second.\<close>

definition two_queued :: Pool where "two_queued = dispatch 8 9 (dispatch 7 5 one_pool)"

lemma two_queued_reach: "pool_reach two_queued"
  unfolding two_queued_def by (intro reach_dispatch one_pool_reach) (simp_all add: dispatch_def one_pool_def pool_emit_def)

lemma one_job_done: "\<exists>st. pool_reach st \<and> pp_inFlight st = 0 \<and> all_of accepted st = [7] \<and> all_of completed st = [7]"
proof -
  let ?job = "\<lparr>qj_sequence = 0, qj_fn = 7, qj_priority = 5\<rparr>"
  define s1 where "s1 = dispatch 7 5 one_pool"
  have s1: "s1 = one_pool\<lparr>pp_queue := [?job], pp_nextSequence := 1, pp_inFlight := 1, pp_trace := [Accepted 7]\<rparr>"
    by (simp add: s1_def dispatch_def one_pool_def pool_emit_def)
  have t: "may_take True [?job] 0" by (simp add: may_take_def job_less_irrefl)
  have r: "pool_reach s1" unfolding s1_def by (intro reach_dispatch one_pool_reach) (simp_all add: one_pool_def)
  have r: "pool_reach (s1\<lparr>pp_trace := [Accepted 7, ThreadStarted], pp_workers := [Looking]\<rparr>)"
    using reach_work[OF r, of Fresh 0] t by (simp add: s1 one_pool_def pool_emit_def)
  have r: "pool_reach (s1\<lparr>pp_queue := [], pp_trace := [Accepted 7, ThreadStarted], pp_workers := [Bodying ?job]\<rparr>)"
    using reach_work[OF r, of Looking 0] t by (simp add: s1 one_pool_def leave_wait_def Let_def remove_at_def)
  have r: "pool_reach (s1\<lparr>pp_queue := [], pp_trace := [Accepted 7, ThreadStarted, Began 7], pp_workers := [Completing ?job]\<rparr>)"
    using reach_work[OF r, of "Bodying ?job" 0] by (simp add: s1 one_pool_def pool_emit_def)
  have r: "pool_reach (s1\<lparr>pp_queue := [], pp_trace := [Accepted 7, ThreadStarted, Began 7, Completed 7], pp_workers := [Counting]\<rparr>)"
    using reach_work[OF r, of "Completing ?job" 0] by (simp add: s1 one_pool_def pool_emit_def)
  have r: "pool_reach (s1\<lparr>pp_queue := [], pp_inFlight := 0, pp_trace := [Accepted 7, ThreadStarted, Began 7, Completed 7], pp_workers := [Looking]\<rparr>)"
    using reach_work[OF r, of Counting 0] by (simp add: s1 one_pool_def)
  then show ?thesis by (intro exI conjI, assumption) (simp_all add: all_of_def)
qed

section \<open>Properties\<close>





end
