(* ===== verification/Transports.thy ===== *)
theory Transports
  imports Framing
begin

text \<open>
  The two transports of the library: the in-memory \<^verbatim>\<open>LoopbackTransport\<close> (\<^verbatim>\<open>src/remote/loopback_transport.cpp\<close>) and
  \<^verbatim>\<open>PipeTransport\<close> over a pair of byte streams (\<^verbatim>\<open>src/remote/pipe_transport.cpp\<close>, the POSIX branch) with the pool its reader takes
  frame buffers from. The answers of \<^verbatim>\<open>write\<close>, \<^verbatim>\<open>poll\<close> and \<^verbatim>\<open>read\<close> are arguments: short counts, interruptions and failures in any order.
\<close>

section \<open>What a transport promises\<close>

text \<open>
  One direction of a connection. \<open>put\<close> sends the parts of a frame and says whether it did, \<open>get\<close> delivers the next frame; \<open>None\<close> if the call
  is still waiting. \<open>contents\<close> are the frames on their way.
\<close>

datatype ('w, 'r) transport_op = Put 'w "bytes list" | Get 'r

locale frame_queue =
  fixes put :: "'w \<Rightarrow> bytes list \<Rightarrow> 't \<Rightarrow> (bool \<times> 't) option" and get :: "'r \<Rightarrow> 't \<Rightarrow> (bytes option \<times> 't) option"
    and contents :: "'t \<Rightarrow> bytes list" and good :: "'t \<Rightarrow> bool" and fits :: "bytes \<Rightarrow> bool"
  assumes put_law: "good t \<Longrightarrow> fits (concat parts) \<Longrightarrow> put w parts t = Some (True, t') \<Longrightarrow> good t' \<and> contents t' = contents t @ [concat parts]"
    and get_law: "good t \<Longrightarrow> get r t = Some (Some f, t') \<Longrightarrow> good t' \<and> contents t = f # contents t'"

text \<open>A sequence of sends and deliveries that all come about: the frames delivered and the final state.\<close>

fun run_ops ::
  "('w \<Rightarrow> bytes list \<Rightarrow> 't \<Rightarrow> (bool \<times> 't) option) \<Rightarrow> ('r \<Rightarrow> 't \<Rightarrow> (bytes option \<times> 't) option) \<Rightarrow> ('w, 'r) transport_op list \<Rightarrow> 't
    \<Rightarrow> (bytes list \<times> 't) option" where
  "run_ops put get [] t = Some ([], t)"
| "run_ops put get (Put w parts # ops) t =
     (case put w parts t of Some (True, t') \<Rightarrow> run_ops put get ops t' | _ \<Rightarrow> None)"
| "run_ops put get (Get r # ops) t =
     (case get r t of
        Some (Some f, t') \<Rightarrow> (case run_ops put get ops t' of None \<Rightarrow> None | Some (fs, t'') \<Rightarrow> Some (f # fs, t''))
      | _ \<Rightarrow> None)"

fun sent_by :: "('w, 'r) transport_op list \<Rightarrow> bytes list" where
  "sent_by [] = []"
| "sent_by (Put w parts # ops) = concat parts # sent_by ops"
| "sent_by (Get r # ops) = sent_by ops"

context frame_queue
begin

lemma fifo:
  assumes "run_ops put get ops t = Some (received, t')" "good t" "\<forall>f \<in> set (sent_by ops). fits f"
  shows "good t' \<and> contents t @ sent_by ops = received @ contents t'"
  using assms
proof (induction ops arbitrary: t received rule: sent_by.induct)
  case (2 w parts ops)
  then obtain t1 where t1: "put w parts t = Some (True, t1)" "run_ops put get ops t1 = Some (received, t')"
    by (auto split: option.splits prod.splits bool.splits)
  then have "good t1" "contents t1 = contents t @ [concat parts]" using put_law[OF "2.prems"(2)] "2.prems"(3) by auto
  then show ?case using "2.IH"[OF t1(2)] "2.prems"(3) by simp
next
  case (3 r ops)
  then obtain f t1 fs where t1: "get r t = Some (Some f, t1)" "run_ops put get ops t1 = Some (fs, t')" "received = f # fs"
    by (auto split: option.splits prod.splits)
  then have "good t1" "contents t = f # contents t1" using get_law[OF "3.prems"(2)] by auto
  then show ?case using "3.IH"[OF t1(2)] "3.prems"(3) t1(3) by simp
qed simp

end

section \<open>Loopback\<close>

text \<open>\<^verbatim>\<open>LoopbackTransport::Shared\<close>; the sides are numbered 0 and 1.\<close>

record Loopback =
  lo_closed :: bool
  lo_inbox :: "nat \<Rightarrow> bytes list"

definition Loopback_new :: Loopback where "Loopback_new = \<lparr>lo_closed = False, lo_inbox = (\<lambda>_. [])\<rparr>"

definition loop_sendParts :: "nat \<Rightarrow> bytes list \<Rightarrow> Loopback \<Rightarrow> (TransportError + unit) \<times> Loopback" where
  "loop_sendParts side parts t =
     (let fr = fold (\<lambda>part fr. fr @ part) parts []
      in if lo_closed t then (Inl kClosed, t)
         else (Inr (), t\<lparr>lo_inbox := (lo_inbox t)(1 - side := lo_inbox t (1 - side) @ [fr])\<rparr>))"

definition loop_send :: "nat \<Rightarrow> bytes \<Rightarrow> Loopback \<Rightarrow> (TransportError + unit) \<times> Loopback" where
  "loop_send side fr t = loop_sendParts side [fr] t"

definition loop_close :: "Loopback \<Rightarrow> Loopback" where "loop_close t = t\<lparr>lo_closed := True\<rparr>"

text \<open>One round of the delivery thread: a frame, or the close once everything sent before it is delivered; \<open>None\<close> while it waits.\<close>

definition loop_deliver :: "nat \<Rightarrow> Loopback \<Rightarrow> (bytes option \<times> Loopback) option" where
  "loop_deliver side t =
     (case lo_inbox t side of
        [] \<Rightarrow> if lo_closed t then Some (None, t) else None
      | fr # frs \<Rightarrow> Some (Some fr, t\<lparr>lo_inbox := (lo_inbox t)(side := frs)\<rparr>))"

definition loop_put :: "nat \<Rightarrow> unit \<Rightarrow> bytes list \<Rightarrow> Loopback \<Rightarrow> (bool \<times> Loopback) option" where
  "loop_put side w parts t = (case loop_sendParts side parts t of (r, t') \<Rightarrow> Some (r = Inr (), t'))"

lemma fold_append: "fold (\<lambda>part fr. fr @ part) ps x = x @ concat ps"
  by (induction ps arbitrary: x) auto

interpretation loopback: frame_queue "loop_put side" "\<lambda>u :: unit. loop_deliver (1 - side)" "\<lambda>t. lo_inbox t (1 - side)" "\<lambda>_. True" "\<lambda>_. True" for side
  by unfold_locales (auto simp: loop_put_def loop_sendParts_def loop_deliver_def Let_def fold_append split: if_splits list.splits)

section \<open>The buffer pool\<close>

text \<open>\<open>bp_free\<close> are the capacities of the buffers kept for reuse, oldest first.\<close>

definition kMaxBuffers :: nat where "kMaxBuffers = 8"
definition kMaxPooledBytes :: nat where "kMaxPooledBytes = 256 * 1024 * 1024"

record BufferPool =
  bp_free :: "nat list"
  bp_pooledBytes :: nat

definition BufferPool_new :: BufferPool where "BufferPool_new = \<lparr>bp_free = [], bp_pooledBytes = 0\<rparr>"

fun take_fitting :: "nat \<Rightarrow> nat list \<Rightarrow> (nat \<times> nat list) option" where
  "take_fitting n [] = None"
| "take_fitting n (c # cs) =
     (if c < n then map_option (\<lambda>(x, rest). (x, c # rest)) (take_fitting n cs) else Some (c, cs))"

text \<open>The capacity of the buffer given out.\<close>

definition pool_take :: "nat \<Rightarrow> BufferPool \<Rightarrow> nat \<times> BufferPool" where
  "pool_take n p =
     (case take_fitting n (bp_free p) of
        Some (c, rest) \<Rightarrow> (c, p\<lparr>bp_free := rest, bp_pooledBytes := bp_pooledBytes p - c\<rparr>)
      | None \<Rightarrow> (n, p))"

definition pool_give :: "nat \<Rightarrow> BufferPool \<Rightarrow> BufferPool" where
  "pool_give c p =
     (if length (bp_free p) \<ge> kMaxBuffers \<or> bp_pooledBytes p + c > kMaxPooledBytes then p
      else p\<lparr>bp_pooledBytes := bp_pooledBytes p + c, bp_free := bp_free p @ [c]\<rparr>)"

definition pool_ok :: "BufferPool \<Rightarrow> bool" where
  "pool_ok p \<longleftrightarrow> bp_pooledBytes p = sum_list (bp_free p) \<and> bp_pooledBytes p \<le> kMaxPooledBytes \<and> length (bp_free p) \<le> kMaxBuffers"

lemma take_fitting_Some:
  "take_fitting n cs = Some (c, rest) \<Longrightarrow> n \<le> c \<and> sum_list cs = c + sum_list rest \<and> length cs = Suc (length rest)"
  by (induction cs arbitrary: rest) (auto split: if_splits)

text \<open>The pool gives out buffers that are large enough, and what it keeps stays within its bounds.\<close>

lemma pool_bounded:
  "pool_ok BufferPool_new"
  "pool_ok p \<Longrightarrow> pool_take n p = (c, p') \<Longrightarrow> pool_ok p' \<and> n \<le> c"
  "pool_ok p \<Longrightarrow> pool_ok (pool_give c p)"
  by (auto simp: pool_ok_def BufferPool_new_def pool_take_def pool_give_def not_le not_less split: option.splits dest!: take_fitting_Some)

section \<open>Pipes\<close>

definition kMaxBodyBytes :: u32 where "kMaxBodyBytes = 0x7FFFFFFF"

datatype write_answer = WriteInterrupted | WriteFailed | Wrote nat
datatype read_answer = ReadInterrupted | ReadWoken | ReadFailed | Got nat

text \<open>
  \<open>writeAll\<close> appends to the bytes \<open>out\<close> in the pipe; the answers of \<^verbatim>\<open>write\<close> that are left come back. A count above the number of bytes there
  are, which the operating system does not give, is cut to that number; when the answers run out the call is still waiting.
\<close>

fun writeAll :: "write_answer list \<Rightarrow> bytes \<Rightarrow> bytes \<Rightarrow> (bool \<times> bytes \<times> write_answer list) option" where
  "writeAll ans bs out =
     (if bs = [] then Some (True, out, ans)
      else case ans of
             [] \<Rightarrow> None
           | WriteInterrupted # as \<Rightarrow> writeAll as bs out
           | WriteFailed # as \<Rightarrow> Some (False, out, as)
           | Wrote n # as \<Rightarrow> if n = 0 then Some (False, out, as) else writeAll as (drop n bs) (out @ take n bs))"

text \<open>\<open>readAll\<close> reads \<open>n\<close> bytes of \<open>inp\<close>; what it has read so far is in \<open>acc\<close>.\<close>

fun readAll :: "read_answer list \<Rightarrow> nat \<Rightarrow> bytes \<Rightarrow> bytes \<Rightarrow> (bool \<times> bytes \<times> bytes \<times> read_answer list) option" where
  "readAll ans n inp acc =
     (if n = 0 then Some (True, acc, inp, ans)
      else case ans of
             [] \<Rightarrow> None
           | ReadInterrupted # as \<Rightarrow> readAll as n inp acc
           | ReadWoken # as \<Rightarrow> Some (False, acc, inp, as)
           | ReadFailed # as \<Rightarrow> Some (False, acc, inp, as)
           | Got m # as \<Rightarrow>
               let k = min m (min n (length inp))
               in if k = 0 then Some (False, acc, inp, as) else readAll as (n - k) (drop k inp) (acc @ take k inp))"

declare writeAll.simps [simp del] readAll.simps [simp del]

record Pipe =
  pi_bytes :: bytes
  pi_writeClosed :: bool
  pi_pool :: BufferPool

definition Pipe_new :: Pipe where "Pipe_new = \<lparr>pi_bytes = [], pi_writeClosed = False, pi_pool = BufferPool_new\<rparr>"

definition kStaging :: nat where "kStaging = 256"

text \<open>Small leading parts are gathered in the staging buffer; the last part never is.\<close>

fun gather :: "bytes list \<Rightarrow> bytes \<Rightarrow> bytes \<times> bytes list" where
  "gather (p # q # ps) staging =
     (if length staging + length p \<le> kStaging then gather (q # ps) (staging @ p) else (staging, p # q # ps))"
| "gather ps staging = (staging, ps)"

fun write_parts :: "write_answer list \<Rightarrow> bytes list \<Rightarrow> bytes \<Rightarrow> (bool \<times> bytes) option" where
  "write_parts ans [] out = Some (True, out)"
| "write_parts ans (p # ps) out =
     (case writeAll ans p out of
        None \<Rightarrow> None
      | Some (False, out', ans') \<Rightarrow> Some (False, out')
      | Some (True, out', ans') \<Rightarrow> write_parts ans' ps out')"

definition pipe_sendParts :: "write_answer list \<Rightarrow> bytes list \<Rightarrow> Pipe \<Rightarrow> ((TransportError + unit) \<times> Pipe) option" where
  "pipe_sendParts ans parts t =
     (if pi_writeClosed t then Some (Inl kClosed, t)
      else case gather parts [] of
             (staging, rest) \<Rightarrow>
               (case write_parts ans (if staging \<noteq> [] then staging # rest else rest) (pi_bytes t) of
                  None \<Rightarrow> None
                | Some (fine, out) \<Rightarrow> Some (if fine then Inr () else Inl kClosed, t\<lparr>pi_bytes := out\<rparr>)))"

definition pipe_send :: "write_answer list \<Rightarrow> bytes \<Rightarrow> Pipe \<Rightarrow> ((TransportError + unit) \<times> Pipe) option" where
  "pipe_send ans fr t = pipe_sendParts ans [fr] t"

definition pipe_close :: "Pipe \<Rightarrow> Pipe" where "pipe_close t = t\<lparr>pi_writeClosed := True\<rparr>"

text \<open>One round of \<^verbatim>\<open>read\<close>: a frame handed to the sink, or the reason for the close. The buffer goes back to the pool when the sink lets go
  of it.\<close>

definition read_frame :: "read_answer list \<Rightarrow> Pipe \<Rightarrow> ((TransportError + bytes) \<times> Pipe \<times> read_answer list) option" where
  "read_frame ans t =
     (case readAll ans kHeaderBytes (pi_bytes t) [] of
        None \<Rightarrow> None
      | Some (False, acc, inp, as) \<Rightarrow> Some (Inl kClosed, t\<lparr>pi_bytes := inp\<rparr>, as)
      | Some (True, header, inp, as) \<Rightarrow>
          let body = body_length header
          in if body > kMaxBodyBytes then Some (Inl kProtocol, t\<lparr>pi_bytes := inp\<rparr>, as)
             else case pool_take (kHeaderBytes + unat body) (pi_pool t) of
                    (c, pool) \<Rightarrow>
                      (case readAll as (unat body) inp [] of
                         None \<Rightarrow> None
                       | Some (False, acc, inp', as') \<Rightarrow> Some (Inl kClosed, t\<lparr>pi_bytes := inp', pi_pool := pool\<rparr>, as')
                       | Some (True, bs, inp', as') \<Rightarrow> Some (Inr (header @ bs), t\<lparr>pi_bytes := inp', pi_pool := pool\<rparr>, as')))"

definition pipe_put :: "write_answer list \<Rightarrow> bytes list \<Rightarrow> Pipe \<Rightarrow> (bool \<times> Pipe) option" where
  "pipe_put ans parts t = map_option (\<lambda>(r, t'). (r = Inr (), t')) (pipe_sendParts ans parts t)"

definition pipe_get :: "read_answer list \<Rightarrow> Pipe \<Rightarrow> (bytes option \<times> Pipe) option" where
  "pipe_get ans t =
     map_option (\<lambda>(r, t', as). (case r of Inl e \<Rightarrow> None | Inr f \<Rightarrow> Some f, t')) (read_frame ans t)"

section \<open>Pipes keep frames\<close>

lemma writeAll_out: "writeAll ans bs out = Some (True, out', as) \<Longrightarrow> out' = out @ bs"
proof (induction ans bs out rule: writeAll.induct)
  case (1 ans bs out)
  show ?case
  proof (cases "bs = []")
    case True
    then show ?thesis using "1.prems" by (simp add: writeAll.simps)
  next
    case False
    then obtain a ans' where ans: "ans = a # ans'" using "1.prems" by (cases ans) (auto simp: writeAll.simps)
    show ?thesis
    proof (cases a)
      case WriteInterrupted
      then have "writeAll ans' bs out = Some (True, out', as)" using "1.prems" ans False by (simp add: writeAll.simps)
      then show ?thesis using "1.IH"(1)[OF False ans WriteInterrupted] by simp
    next
      case WriteFailed
      then show ?thesis using "1.prems" ans False by (simp add: writeAll.simps)
    next
      case (Wrote n)
      then have n: "n \<noteq> 0" and w: "writeAll ans' (drop n bs) (out @ take n bs) = Some (True, out', as)"
        using "1.prems" ans False by (auto simp: writeAll.simps[of "Wrote n # ans'"] split: if_splits)
      then show ?thesis using "1.IH"(2)[OF False ans Wrote n w] by simp
    qed
  qed
qed

lemma write_parts_out: "write_parts ans ps out = Some (True, out') \<Longrightarrow> out' = out @ concat ps"
proof (induction ps arbitrary: ans out)
  case (Cons p ps)
  then obtain out1 ans1 where "writeAll ans p out = Some (True, out1, ans1)" "write_parts ans1 ps out1 = Some (True, out')"
    by (auto split: option.splits prod.splits bool.splits)
  then show ?case using writeAll_out Cons.IH by fastforce
qed simp

lemma gather_concat: "gather ps st = (st', rest) \<Longrightarrow> st' @ concat rest = st @ concat ps"
  by (induction ps st rule: gather.induct) (auto split: if_splits)

lemma pipe_put_out:
  assumes "pipe_put ans parts t = Some (True, t')"
  shows "pi_bytes t' = pi_bytes t @ concat parts"
proof -
  obtain st rest where g: "gather parts [] = (st, rest)" by fastforce
  have c: "concat (if st \<noteq> [] then st # rest else rest) = concat parts" using gather_concat[OF g] by auto
  obtain out where "write_parts ans (if st \<noteq> [] then st # rest else rest) (pi_bytes t) = Some (True, out)" "t' = t\<lparr>pi_bytes := out\<rparr>"
    using assms g by (auto simp: pipe_put_def pipe_sendParts_def split: option.splits prod.splits if_splits)
  then show ?thesis using write_parts_out c by fastforce
qed

lemma readAll_acc:
  "readAll ans n inp acc = Some (True, acc', inp', as) \<Longrightarrow> n \<le> length inp \<and> acc' = acc @ take n inp \<and> inp' = drop n inp"
proof (induction ans n inp acc rule: readAll.induct)
  case (1 ans n inp acc)
  show ?case
  proof (cases "n = 0")
    case True
    then show ?thesis using "1.prems" by (simp add: readAll.simps)
  next
    case False
    then obtain a ans' where ans: "ans = a # ans'" using "1.prems" by (cases ans) (auto simp: readAll.simps)
    show ?thesis
    proof (cases a)
      case ReadInterrupted
      then have "readAll ans' n inp acc = Some (True, acc', inp', as)" using "1.prems" ans False by (simp add: readAll.simps)
      then show ?thesis using "1.IH"(1)[OF False ans ReadInterrupted] by simp
    next
      case (Got m)
      define k where "k = min m (min n (length inp))"
      have k: "k \<noteq> 0" and r: "readAll ans' (n - k) (drop k inp) (acc @ take k inp) = Some (True, acc', inp', as)"
        using "1.prems" ans False Got by (auto simp: readAll.simps[of "Got m # ans'"] Let_def k_def split: if_splits)
      have le: "k \<le> n" "k \<le> length inp" by (simp_all add: k_def)
      have IH: "n - k \<le> length (drop k inp) \<and> acc' = (acc @ take k inp) @ take (n - k) (drop k inp) \<and> inp' = drop (n - k) (drop k inp)"
        using "1.IH"(2)[OF False ans Got k_def k r] .
      moreover have "take k inp @ take (n - k) (drop k inp) = take n inp" using le by (metis add_diff_inverse_nat not_less take_add)
      moreover have "n \<le> length inp" using IH le by (simp add: le_diff_iff)
      ultimately show ?thesis using le(1) by simp
    qed (use "1.prems" ans False in \<open>simp_all add: readAll.simps\<close>)
  qed
qed

definition frame_fits :: "bytes \<Rightarrow> bool" where
  "frame_fits f \<longleftrightarrow> length f = kHeaderBytes + unat (body_length f) \<and> body_length f \<le> kMaxBodyBytes"

definition pipe_contents :: "Pipe \<Rightarrow> bytes list" where
  "pipe_contents t = fst (snd (parse kMaxBodyBytes (pi_bytes t)))"

definition pipe_good :: "Pipe \<Rightarrow> bool" where
  "pipe_good t \<longleftrightarrow> parse kMaxBodyBytes (pi_bytes t) = (True, pipe_contents t, [])"

lemma parse_frame: "frame_fits f \<Longrightarrow> parse kMaxBodyBytes f = (True, [f], [])"
proof -
  assume f: "frame_fits f"
  have "parse kMaxBodyBytes [] = (True, [], [])" by (subst parse.simps) (simp add: kHeaderBytes_def)
  then show ?thesis using f by (subst parse.simps) (auto simp: frame_fits_def)
qed

lemma read_frame_parse:
  assumes "read_frame ans t = Some (Inr f, t', as)" "pipe_good t"
  shows "pipe_good t' \<and> pipe_contents t = f # pipe_contents t'"
proof -
  obtain header inp as1 where h: "readAll ans kHeaderBytes (pi_bytes t) [] = Some (True, header, inp, as1)"
    and le: "\<not> body_length header > kMaxBodyBytes"
    and r: "\<exists>bs inp' as'. readAll as1 (unat (body_length header)) inp [] = Some (True, bs, inp', as') \<and> f = header @ bs \<and> pi_bytes t' = inp'"
    using assms(1) by (auto simp: read_frame_def Let_def split: option.splits prod.splits bool.splits if_splits)
  then obtain bs inp' as' where b: "readAll as1 (unat (body_length header)) inp [] = Some (True, bs, inp', as')" "f = header @ bs" "pi_bytes t' = inp'" by blast
  let ?x = "pi_bytes t"
  note 1 = readAll_acc[OF h] and 2 = readAll_acc[OF b(1)]
  have bl: "body_length header = body_length ?x" using 1 by (simp add: body_length_def kHeaderBytes_def)
  let ?n = "kHeaderBytes + unat (body_length ?x)"
  have x: "kHeaderBytes \<le> length ?x" "?n \<le> length ?x" "f = take ?n ?x" "pi_bytes t' = drop ?n ?x"
    using 1 2 b bl by (auto simp: take_add add.commute)
  have "parse kMaxBodyBytes ?x = (case parse kMaxBodyBytes (drop ?n ?x) of (fine, frames, rest) \<Rightarrow> (fine, take ?n ?x # frames, rest))"
    using x(1,2) le bl by (subst parse.simps) simp
  then show ?thesis using assms(2) x by (auto simp: pipe_good_def pipe_contents_def split: prod.splits)
qed

interpretation pipe: frame_queue pipe_put pipe_get pipe_contents pipe_good frame_fits
proof
  fix t parts w t'
  assume t: "pipe_good t" and f: "frame_fits (concat parts)" and p: "pipe_put w parts t = Some (True, t')"
  have "parse kMaxBodyBytes (pi_bytes t @ concat parts) = (True, pipe_contents t @ [concat parts], [])"
    using t parse_frame[OF f] by (simp add: parse_append[of _ "pi_bytes t"] pipe_good_def)
  then show "pipe_good t' \<and> pipe_contents t' = pipe_contents t @ [concat parts]"
    using pipe_put_out[OF p] by (simp add: pipe_good_def pipe_contents_def)
next
  fix t r f t'
  assume t: "pipe_good t" and g: "pipe_get r t = Some (Some f, t')"
  then obtain x as where x: "read_frame r t = Some (x, t', as)" "(case x of Inl e \<Rightarrow> None | Inr f \<Rightarrow> Some f) = Some f"
    by (auto simp: pipe_get_def)
  then have "x = Inr f" by (cases x) simp_all
  then show "pipe_good t' \<and> pipe_contents t = f # pipe_contents t'" using read_frame_parse x(1) t by blast
qed

section \<open>Properties\<close>

lemma pipe_new_good: "pipe_good Pipe_new" "pipe_contents Pipe_new = []"
proof -
  have "parse kMaxBodyBytes [] = (True, [], [])" by (subst parse.simps) (simp add: kHeaderBytes_def)
  then show "pipe_good Pipe_new" "pipe_contents Pipe_new = []" by (simp_all add: pipe_good_def pipe_contents_def Pipe_new_def)
qed


definition small_frame :: bytes where "small_frame = frame kCancel [1, 2, 3]"


end
