(* ===== verification/PoolSuccessors.thy ===== *)
theory PoolSuccessors
  imports PipelineTypes
begin

text \<open>
  \<^verbatim>\<open>struct PoolSuccessors\<close> of \<^verbatim>\<open>src/sub0pipeline.cpp\<close>: the 12-byte successor list of a node. Up to
  four 16-bit indices are stored inline; a longer list lives in a block of the flat arena
  \<^verbatim>\<open>Impl::succPool_\<close> that all nodes share. All fields keep their 16-bit width, \<^verbatim>\<open>std::size_t\<close> is
  64 bits, and the arena is a list. The theorems relate a family of such lists over one arena to
  plain lists: an append changes one list and no other, the reserved memory stays below four
  entries per edge, and the 32-bit block start never loses bits.
\<close>

section \<open>Model\<close>

definition kInlineCap :: u16 where "kInlineCap = 4"
definition kPoolFlag :: u16 where "kPoolFlag = 0x8000"
definition kCountMask :: u16 where "kCountMask = 0x7FFF"

record PoolSuccessors =
  ps_size :: u16
  ps_poolIdx :: u16
  ps_inline :: "u16 list"

definition PoolSuccessors_new :: PoolSuccessors where
  "PoolSuccessors_new = \<lparr>ps_size = 0, ps_poolIdx = 0, ps_inline = replicate (unat kInlineCap) 0\<rparr>"

text \<open>The move constructor: the new object, and what is left in the source.\<close>

definition PoolSuccessors_move :: "PoolSuccessors \<Rightarrow> PoolSuccessors \<times> PoolSuccessors" where
  "PoolSuccessors_move o' =
     (\<lparr>ps_size = ps_size o', ps_poolIdx = ps_poolIdx o',
       ps_inline = copy_loop (\<lambda>i. ps_inline o' ! i) 0 (unat kInlineCap) (replicate (unat kInlineCap) 0)\<rparr>,
      o'\<lparr>ps_size := 0, ps_poolIdx := 0\<rparr>)"

definition succ_count :: "PoolSuccessors \<Rightarrow> u16" where
  "succ_count ps = ps_size ps AND kCountMask"

definition succ_empty :: "PoolSuccessors \<Rightarrow> bool" where
  "succ_empty ps \<longleftrightarrow> succ_count ps = 0"

definition isPool :: "PoolSuccessors \<Rightarrow> bool" where
  "isPool ps \<longleftrightarrow> ps_size ps AND kPoolFlag \<noteq> 0"

definition blockStart :: "PoolSuccessors \<Rightarrow> u64" where
  "blockStart ps = ucast (ps_poolIdx ps) OR push_bit 16 (ucast (ps_inline ps ! 1))"

definition blockCapacity :: "PoolSuccessors \<Rightarrow> u16" where
  "blockCapacity ps = ps_inline ps ! 0"

definition setBlock :: "u64 \<Rightarrow> u16 \<Rightarrow> PoolSuccessors \<Rightarrow> PoolSuccessors" where
  "setBlock start capacity ps =
     ps\<lparr>ps_poolIdx := ucast (start AND 0xFFFF),
        ps_inline := (ps_inline ps)[1 := ucast (drop_bit 16 start), 0 := capacity]\<rparr>"

text \<open>The capacity a full block grows to.\<close>

definition grown_capacity :: "u16 \<Rightarrow> u16" where
  "grown_capacity capacity = (if capacity > kCountMask div 2 then kCountMask else capacity * 2)"

text \<open>The spill of a full inline list into a new block at the end of the arena.\<close>

definition spill :: "PoolSuccessors \<Rightarrow> u16 list \<Rightarrow> PoolSuccessors \<times> u16 list" where
  "spill ps pool =
     (let n = succ_count ps;
          start = length pool;
          pool1 = resize (start + 2 * unat kInlineCap) pool;
          pool2 = copy_loop (\<lambda>i. ps_inline ps ! i) start (unat n) pool1;
          ps1 = setBlock (word_of_nat start) (2 * kInlineCap) ps
      in (ps1\<lparr>ps_size := kPoolFlag OR n\<rparr>, pool2))"

text \<open>Making room in a full block: in place at the end of the arena, otherwise by moving.\<close>

definition grow_block :: "PoolSuccessors \<Rightarrow> u16 list \<Rightarrow> PoolSuccessors \<times> u16 list" where
  "grow_block ps pool =
     (let n = succ_count ps;
          start = unat (blockStart ps);
          capacity = blockCapacity ps;
          grown = grown_capacity capacity
      in if start + unat capacity = length pool
         then (setBlock (word_of_nat start) grown ps, resize (start + unat grown) pool)
         else (let moved = length pool;
                   pool1 = resize (moved + unat grown) pool;
                   pool2 = copy_loop (\<lambda>i. pool1 ! (start + i)) moved (unat n) pool1
               in (setBlock (word_of_nat moved) grown ps, pool2)))"

text \<open>The part of \<^verbatim>\<open>push_back\<close> that runs in pool mode.\<close>

definition push_pooled :: "u16 \<Rightarrow> PoolSuccessors \<Rightarrow> u16 list \<Rightarrow> (PoolSuccessors \<times> u16 list) cpp" where
  "push_pooled v ps pool =
     (let n = succ_count ps
      in if n = kCountMask then Inl (HardError ''A job cannot have more than 32767 successors'')
         else
           (let (ps1, pool1) = (if n = blockCapacity ps then grow_block ps pool else (ps, pool))
            in Inr (ps1\<lparr>ps_size := kPoolFlag OR (n + 1)\<rparr>,
                    pool1[unat (blockStart ps1) + unat n := v])))"

definition push_back :: "u16 \<Rightarrow> PoolSuccessors \<Rightarrow> u16 list \<Rightarrow> (PoolSuccessors \<times> u16 list) cpp" where
  "push_back v ps pool =
     (let n = succ_count ps
      in if \<not> isPool ps
         then if n < kInlineCap
              then Inr (ps\<lparr>ps_inline := (ps_inline ps)[unat n := v], ps_size := n + 1\<rparr>, pool)
              else (case spill ps pool of (ps1, pool1) \<Rightarrow> push_pooled v ps1 pool1)
         else push_pooled v ps pool)"

text \<open>\<^verbatim>\<open>range(pool)\<close>: the entries between \<^verbatim>\<open>begin(pool)\<close> and \<^verbatim>\<open>end(pool)\<close>, in order.\<close>

definition succ_range :: "u16 list \<Rightarrow> PoolSuccessors \<Rightarrow> u16 list" where
  "succ_range pool ps =
     take (unat (succ_count ps)) (if isPool ps then drop (unat (blockStart ps)) pool else ps_inline ps)"

section \<open>Bit-level lemmas\<close>

lemma and_count_mask: "n \<le> kCountMask \<Longrightarrow> n AND kCountMask = n"
proof -
  assume "n \<le> kCountMask"
  then have "unat n < 2 ^ 15" by (simp add: word_le_nat_alt kCountMask_def)
  then have "take_bit 15 n = n"
    by (simp add: word_unat_eq_iff unsigned_take_bit_eq take_bit_nat_eq_self)
  then show ?thesis
    by (simp add: kCountMask_def take_bit_eq_mask mask_eq_exp_minus_1)
qed

lemma pool_flag_count: "n \<le> kCountMask \<Longrightarrow> (kPoolFlag OR n) AND kCountMask = n"
  by (simp add: word_ao_dist and_count_mask) (simp add: kPoolFlag_def kCountMask_def)

lemma pool_flag_set: "(kPoolFlag OR n) AND kPoolFlag \<noteq> 0"
  by (simp add: kPoolFlag_def word_ao_dist)

lemma small_no_flag: "n \<le> kCountMask \<Longrightarrow> n AND kPoolFlag = 0"
proof -
  assume "n \<le> kCountMask"
  then have "n AND kPoolFlag = (n AND kCountMask) AND kPoolFlag"
    by (simp add: and_count_mask)
  also have "\<dots> = 0" by (simp add: kCountMask_def kPoolFlag_def and.assoc)
  finally show ?thesis .
qed

lemma unat_joined_halves:
  "unat (ucast (a::u16) OR push_bit 16 (ucast (b::u16)) :: u64) = unat a + 65536 * unat b"
proof -
  have ab: "unat a < 65536" "unat b < 65536"
    using unsigned_less [of a] unsigned_less [of b] by simp_all
  have "(ucast a :: u64) AND push_bit 16 (ucast b) = 0"
    by (rule bit_word_eqI) (auto simp: bit_simps dest: bit_imp_le_length)
  then have eq: "ucast a OR push_bit 16 (ucast b) = (ucast a + push_bit 16 (ucast b) :: u64)"
    by (simp add: disjunctive_add_eq_or)
  have sh: "unat (push_bit 16 (ucast b) :: u64) = 65536 * unat b"
    using ab by (simp add: push_bit_eq_mult unat_word_ariths unsigned_ucast_eq take_bit_nat_eq_self)
  show ?thesis
    using ab by (simp add: eq unat_word_ariths sh unsigned_ucast_eq take_bit_nat_eq_self)
qed

lemma split_halves:
  assumes "s < 2 ^ 32"
  shows "unat (ucast ((word_of_nat s :: u64) AND 0xFFFF) :: u16)
       + 65536 * unat (ucast (drop_bit 16 (word_of_nat s :: u64)) :: u16) = s"
proof -
  have us: "unat (word_of_nat s :: u64) = s"
    using assms by (simp add: unat_of_nat)
  have "(w :: u64) AND 0xFFFF = take_bit 16 w" for w
    by (simp add: take_bit_eq_mask mask_eq_exp_minus_1)
  then have lo: "unat (ucast ((word_of_nat s :: u64) AND 0xFFFF) :: u16) = s mod 65536"
    using us by (simp add: unsigned_ucast_eq take_bit_eq_mod unat_mod_distrib)
  have hi: "unat (ucast (drop_bit 16 (word_of_nat s :: u64)) :: u16) = s div 65536"
    using assms us
    by (simp add: unsigned_ucast_eq unat_drop_bit_eq drop_bit_eq_div take_bit_eq_mod unat_div_distrib)
  show ?thesis using lo hi by presburger
qed

abbreviation cnt :: "PoolSuccessors \<Rightarrow> nat" where "cnt ps \<equiv> unat (succ_count ps)"
abbreviation cap :: "PoolSuccessors \<Rightarrow> nat" where "cap ps \<equiv> unat (blockCapacity ps)"
abbreviation bstart :: "PoolSuccessors \<Rightarrow> nat" where "bstart ps \<equiv> unat (blockStart ps)"

text \<open>The capacities a block can have.\<close>

definition block_caps :: "nat set" where
  "block_caps = {8, 16, 32, 64, 128, 256, 512, 1024, 2048, 4096, 8192, 16384, 32767}"

definition ps_ok :: "u16 list \<Rightarrow> PoolSuccessors \<Rightarrow> bool" where
  "ps_ok pool ps \<longleftrightarrow> length (ps_inline ps) = 4 \<and>
     (if isPool ps
      then cap ps \<in> block_caps \<and> cnt ps \<le> cap ps \<and> cap ps < 2 * cnt ps \<and>
           bstart ps + cap ps \<le> length pool
      else cnt ps \<le> 4)"

text \<open>The arena positions a list owns, and a bound on the arena entries it has ever claimed.\<close>

definition block :: "PoolSuccessors \<Rightarrow> nat set" where
  "block ps = (if isPool ps then {bstart ps ..< bstart ps + cap ps} else {})"

definition footprint :: "PoolSuccessors \<Rightarrow> nat" where
  "footprint ps =
     (if isPool ps then if cap ps = 32767 then 65527 else 2 * cap ps - 8 else 0)"

lemma setBlock_facts:
  assumes "length (ps_inline ps) = 4" "s < 2 ^ 32"
  shows "bstart (setBlock (word_of_nat s) c ps) = s"
    and "blockCapacity (setBlock (word_of_nat s) c ps) = c"
    and "ps_size (setBlock (word_of_nat s) c ps) = ps_size ps"
    and "length (ps_inline (setBlock (word_of_nat s) c ps)) = 4"
  using assms split_halves [OF assms(2)]
  by (simp_all add: blockStart_def blockCapacity_def setBlock_def unat_joined_halves)

lemma count_le: "cnt ps \<le> 32767"
proof -
  have "succ_count ps \<le> kCountMask" by (simp add: succ_count_def word_and_le1)
  then show ?thesis by (simp add: word_le_nat_alt kCountMask_def)
qed

lemma size_flag [simp]:
  "isPool (ps\<lparr>ps_size := kPoolFlag OR n\<rparr>)"
  "unat n \<le> 32767 \<Longrightarrow> succ_count (ps\<lparr>ps_size := kPoolFlag OR n\<rparr>) = n"
  using pool_flag_set [of n] pool_flag_count [of n]
  by (simp_all add: isPool_def succ_count_def word_le_nat_alt kCountMask_def)

lemma size_noflag [simp]:
  "unat n \<le> 32767 \<Longrightarrow> \<not> isPool (ps\<lparr>ps_size := n\<rparr>)"
  "unat n \<le> 32767 \<Longrightarrow> succ_count (ps\<lparr>ps_size := n\<rparr>) = n"
  by (simp_all add: isPool_def succ_count_def small_no_flag and_count_mask word_le_nat_alt
      kCountMask_def [THEN arg_cong, of unat])

lemma block_size_update [simp]:
  "blockStart (ps\<lparr>ps_size := n\<rparr>) = blockStart ps"
  "blockCapacity (ps\<lparr>ps_size := n\<rparr>) = blockCapacity ps"
  by (simp_all add: blockStart_def blockCapacity_def)

lemma grown_capacity_caps:
  assumes "unat c \<in> block_caps" "unat c < 32767"
  shows "unat (grown_capacity c) \<in> block_caps"
    and "unat (grown_capacity c) \<le> 2 * unat c"
    and "unat c < unat (grown_capacity c)"
    and "unat (grown_capacity c) = (if unat c = 16384 then 32767 else 2 * unat c)"
proof -
  have "unat (grown_capacity c) = (if unat c = 16384 then 32767 else 2 * unat c)"
    using assms
    by (auto simp: grown_capacity_def kCountMask_def block_caps_def word_less_nat_alt
        unat_word_ariths unat_div_distrib)
  then show "unat (grown_capacity c) = (if unat c = 16384 then 32767 else 2 * unat c)"
    "unat (grown_capacity c) \<in> block_caps" "unat (grown_capacity c) \<le> 2 * unat c"
    "unat c < unat (grown_capacity c)"
    using assms by (auto simp: block_caps_def)
qed

section \<open>One list\<close>

text \<open>
  \<open>room pool ps pool1 ps1\<close>: the list \<open>ps\<close> over \<open>pool\<close> became \<open>ps1\<close> over \<open>pool1\<close>, in pool mode,
  with the same entries and room for one more, without touching what others own.
\<close>

definition room :: "u16 list \<Rightarrow> PoolSuccessors \<Rightarrow> u16 list \<Rightarrow> PoolSuccessors \<Rightarrow> bool" where
  "room pool ps pool1 ps1 \<longleftrightarrow>
     isPool ps1 \<and> succ_count ps1 = succ_count ps \<and> length (ps_inline ps1) = 4 \<and>
     cap ps1 \<in> block_caps \<and> cnt ps < cap ps1 \<and> cap ps1 < 2 * (cnt ps + 1) \<and>
     bstart ps1 + cap ps1 \<le> length pool1 \<and> block ps1 \<subseteq> block ps \<union> {length pool..} \<and>
     length pool \<le> length pool1 \<and>
     length pool1 + footprint ps \<le> length pool + footprint ps1 \<and>
     (\<forall>k<length pool. pool1 ! k = pool ! k) \<and>
     (\<forall>i<cnt ps. pool1 ! (bstart ps1 + i) = succ_range pool ps ! i)"

lemma room_spill:
  assumes ok: "ps_ok pool ps" "\<not> isPool ps" "cnt ps = 4" and len: "length pool < 2 ^ 32"
    and sp: "spill ps pool = (ps1, pool1)"
  shows "room pool ps pool1 ps1"
proof -
  have il: "length (ps_inline ps) = 4" using ok(1) by (simp add: ps_ok_def)
  let ?b = "setBlock (word_of_nat (length pool)) (2 * kInlineCap) ps"
  have "ps1 = ?b\<lparr>ps_size := kPoolFlag OR succ_count ps\<rparr>"
    "pool1 = copy_loop (\<lambda>i. ps_inline ps ! i) (length pool) 4 (resize (length pool + 8) pool)"
    using sp ok(3) by (auto simp: spill_def Let_def kInlineCap_def)
  then show ?thesis
    using setBlock_facts [OF il len, of "2 * kInlineCap"] ok
    by (auto simp: room_def kInlineCap_def block_caps_def block_def footprint_def nth_copy_loop
        nth_resize succ_range_def)
qed

lemma room_grow:
  assumes ok: "ps_ok pool ps" "isPool ps" "cnt ps = cap ps" "cap ps < 32767"
    and len: "length pool < 2 ^ 32"
    and gr: "grow_block ps pool = (ps1, pool1)"
  shows "room pool ps pool1 ps1"
proof -
  let ?g = "grown_capacity (blockCapacity ps)"
  have il: "length (ps_inline ps) = 4" and bc: "bstart ps + cap ps \<le> length pool"
    and c: "cap ps \<in> block_caps"
    using ok(1,2) by (simp_all add: ps_ok_def)
  note g = grown_capacity_caps [OF c ok(4)]
  have foot: "footprint ps + unat ?g \<le> (if unat ?g = 32767 then 65527 else 2 * unat ?g - 8)"
    using g(1,4) c ok(2) by (auto simp: footprint_def block_caps_def)
  show ?thesis
  proof (cases "bstart ps + cap ps = length pool")
    case True
    have s32: "bstart ps < 2 ^ 32" using len True by simp
    have "ps1 = setBlock (word_of_nat (bstart ps)) ?g ps" "pool1 = resize (bstart ps + unat ?g) pool"
      using gr True by (auto simp: grow_block_def Let_def)
    then show ?thesis
      using setBlock_facts [OF il s32, of ?g] g(1-3) ok True foot
      by (auto simp: room_def isPool_def succ_count_def nth_resize block_def footprint_def
          succ_range_def)
  next
    case False
    have "ps1 = setBlock (word_of_nat (length pool)) ?g ps"
      "pool1 = copy_loop (\<lambda>i. resize (length pool + unat ?g) pool ! (bstart ps + i))
         (length pool) (cnt ps) (resize (length pool + unat ?g) pool)"
      using gr False by (auto simp: grow_block_def Let_def)
    then show ?thesis
      using setBlock_facts [OF il len, of ?g] g(1-3) ok bc foot
      by (auto simp: room_def isPool_def succ_count_def nth_copy_loop nth_resize block_def
          footprint_def succ_range_def)
  qed
qed

lemma room_same:
  assumes "ps_ok pool ps" "isPool ps" "cnt ps \<noteq> cap ps"
  shows "room pool ps pool ps"
  using assms by (auto simp: room_def ps_ok_def succ_range_def)

lemma length_succ_range:
  "ps_ok pool ps \<Longrightarrow> length (succ_range pool ps) = cnt ps"
  by (auto simp: succ_range_def ps_ok_def split: if_splits)

lemma ps_ok_count_small: "ps_ok pool ps \<Longrightarrow> \<not> isPool ps \<Longrightarrow> cnt ps \<le> 4"
  by (simp add: ps_ok_def)

lemma full_block: "ps_ok pool ps \<Longrightarrow> isPool ps \<Longrightarrow> cap ps = 32767 \<Longrightarrow> cnt ps = cap ps \<Longrightarrow> succ_count ps = kCountMask"
  by (simp add: word_unat_eq_iff kCountMask_def)

text \<open>What one append promises; \<open>v\<close> goes to the end and nothing another list owns changes.\<close>

definition appended :: "u16 \<Rightarrow> u16 list \<Rightarrow> PoolSuccessors \<Rightarrow> u16 list \<Rightarrow> PoolSuccessors \<Rightarrow> bool" where
  "appended v pool ps pool1 ps1 \<longleftrightarrow>
     ps_ok pool1 ps1 \<and> succ_range pool1 ps1 = succ_range pool ps @ [v] \<and>
     block ps1 \<subseteq> block ps \<union> {length pool..} \<and> length pool \<le> length pool1 \<and>
     length pool1 + footprint ps \<le> length pool + footprint ps1 \<and>
     (\<forall>k<length pool. k \<notin> block ps \<longrightarrow> pool1 ! k = pool ! k)"

lemma appended_room:
  assumes ok: "ps_ok pool ps" and r: "room pool ps pool1 ps1" and n: "cnt ps < 32767"
  shows "appended v pool ps (pool1[bstart ps1 + cnt ps := v])
     (ps1\<lparr>ps_size := kPoolFlag OR (succ_count ps + 1)\<rparr>)"
proof -
  let ?ps = "ps1\<lparr>ps_size := kPoolFlag OR (succ_count ps + 1)\<rparr>"
  let ?pool = "pool1[bstart ps1 + cnt ps := v]"
  have c1: "unat (succ_count ps + 1) = cnt ps + 1"
    using n by (simp add: unat_word_ariths)
  have cnt: "cnt ?ps = cnt ps + 1" using c1 n by simp
  have ok1: "ps_ok ?pool ?ps"
    using r c1 cnt n by (simp add: ps_ok_def room_def)
  have "succ_range ?pool ?ps ! i = (succ_range pool ps @ [v]) ! i" if "i < cnt ps + 1" for i
    using that r ok cnt length_succ_range [OF ok]
    by (auto simp: succ_range_def [of ?pool] room_def nth_append nth_list_update)
  then have rng: "succ_range ?pool ?ps = succ_range pool ps @ [v]"
    using length_succ_range [OF ok] length_succ_range [OF ok1] cnt
    by (intro nth_equalityI) simp_all
  have blk: "block ?ps = block ps1" "footprint ?ps = footprint ps1"
    using r by (simp_all add: block_def footprint_def room_def)
  have frame: "?pool ! k = pool ! k" if "k < length pool" "k \<notin> block ps" for k
  proof -
    have "bstart ps1 + cnt ps \<in> block ps1" using r by (simp add: block_def room_def)
    then have "bstart ps1 + cnt ps \<noteq> k" using r that by (auto simp: room_def)
    then show ?thesis using r that(1) by (simp add: room_def nth_list_update)
  qed
  show ?thesis
    unfolding appended_def using r ok1 rng blk frame by (simp add: room_def)
qed

lemma push_pooled_appended:
  assumes ok: "ps_ok pool ps" "isPool ps" "cnt ps < 32767" and len: "length pool < 2 ^ 32"
  shows "\<exists>ps1 pool1. push_pooled v ps pool = Inr (ps1, pool1) \<and> appended v pool ps pool1 ps1"
proof -
  have n: "succ_count ps \<noteq> kCountMask"
    using ok(3) by (auto simp: kCountMask_def)
  obtain ps1 pool1 where g:
    "(if succ_count ps = blockCapacity ps then grow_block ps pool else (ps, pool)) = (ps1, pool1)"
    by fastforce
  have "room pool ps pool1 ps1"
  proof (cases "succ_count ps = blockCapacity ps")
    case True
    then show ?thesis using room_grow ok len g by auto
  next
    case False
    then show ?thesis using room_same ok g by (auto simp: word_unat_eq_iff)
  qed
  then show ?thesis
    using appended_room [OF ok(1) _ ok(3)] n g by (auto simp: push_pooled_def Let_def)
qed

lemma push_back_appended:
  assumes ok: "ps_ok pool ps" "cnt ps < 32767" and len: "length pool < 2 ^ 32"
  shows "\<exists>ps1 pool1. push_back v ps pool = Inr (ps1, pool1) \<and> appended v pool ps pool1 ps1"
proof -
  consider (pool) "isPool ps" | (inl) "\<not> isPool ps" "cnt ps < 4" | (spill) "\<not> isPool ps" "cnt ps = 4"
    using ps_ok_count_small [OF ok(1)] by linarith
  then show ?thesis
  proof cases
    case pool
    then show ?thesis using push_pooled_appended ok len by (simp add: push_back_def Let_def)
  next
    case inl
    have c1: "unat (succ_count ps + 1) = cnt ps + 1"
      using inl by (simp add: unat_word_ariths)
    let ?ps = "ps\<lparr>ps_inline := (ps_inline ps)[cnt ps := v], ps_size := succ_count ps + 1\<rparr>"
    have push: "push_back v ps pool = Inr (?ps, pool)"
      using inl by (simp add: push_back_def Let_def kInlineCap_def word_less_nat_alt)
    have np: "\<not> isPool ?ps" and cnt: "cnt ?ps = cnt ps + 1"
      using c1 inl by (simp_all add: isPool_def succ_count_def small_no_flag and_count_mask
          word_le_nat_alt kCountMask_def [THEN arg_cong, of unat])
    have "appended v pool ps pool ?ps"
      using ok inl np cnt
      by (auto simp: appended_def ps_ok_def succ_range_def take_Suc_conv_app_nth block_def
          footprint_def)
    with push show ?thesis by blast
  next
    case spill
    obtain ps1 pool1 where sp: "spill ps pool = (ps1, pool1)" by fastforce
    have r: "room pool ps pool1 ps1" using room_spill ok(1) spill len sp by blast
    then have "succ_count ps1 = succ_count ps" "succ_count ps1 \<noteq> blockCapacity ps1"
      by (auto simp: room_def)
    moreover have "succ_count ps \<noteq> kCountMask" using spill by (auto simp: kCountMask_def)
    ultimately have "push_back v ps pool =
      Inr (ps1\<lparr>ps_size := kPoolFlag OR (succ_count ps + 1)\<rparr>, pool1[bstart ps1 + cnt ps := v])"
      using spill sp
      by (simp add: push_back_def push_pooled_def kInlineCap_def word_less_nat_alt)
    with appended_room [OF ok(1) r] ok(2) show ?thesis by blast
  qed
qed

lemma push_back_full:
  assumes "ps_ok pool ps" "cnt ps = 32767"
  shows "push_back v ps pool = Inl (HardError ''A job cannot have more than 32767 successors'')"
proof -
  have "isPool ps" using assms ps_ok_count_small by fastforce
  moreover have "succ_count ps = kCountMask"
    using assms by (simp add: word_unat_eq_iff kCountMask_def)
  ultimately show ?thesis by (simp add: push_back_def push_pooled_def)
qed

section \<open>All lists of a graph over one arena\<close>

text \<open>
  The successor lists of all nodes (at most 65,536 of them, the limit \<^verbatim>\<open>addNode\<close> enforces) share
  one arena. The invariant: each list is well formed, no two own a common arena position, and the
  arena is no longer than what the lists have claimed.
\<close>

type_synonym arena = "PoolSuccessors list \<times> u16 list"

definition arena_ok :: "arena \<Rightarrow> bool" where
  "arena_ok a \<longleftrightarrow> (case a of (pss, pool) \<Rightarrow>
     length pss \<le> 65536 \<and> (\<forall>ps\<in>set pss. ps_ok pool ps) \<and>
     (\<forall>i<length pss. \<forall>j<length pss. i \<noteq> j \<longrightarrow> block (pss ! i) \<inter> block (pss ! j) = {}) \<and>
     length pool \<le> sum_list (map footprint pss))"

definition arena_lists :: "arena \<Rightarrow> u16 list list" where
  "arena_lists a = (case a of (pss, pool) \<Rightarrow> map (succ_range pool) pss)"

text \<open>Appending to the list of node \<open>k\<close>.\<close>

definition arena_push :: "nat \<Rightarrow> u16 \<Rightarrow> arena \<Rightarrow> arena cpp" where
  "arena_push k v a = (case a of (pss, pool) \<Rightarrow>
     if k < length pss
     then (case push_back v (pss ! k) pool of
             Inl e \<Rightarrow> Inl e
           | Inr (ps', pool') \<Rightarrow> Inr (pss[k := ps'], pool'))
     else Inl OutOfRange)"

lemma footprint_le: "ps_ok pool ps \<Longrightarrow> footprint ps \<le> 65527"
  by (auto simp: footprint_def ps_ok_def block_caps_def)

lemma footprint_count:
  "ps_ok pool ps \<Longrightarrow> footprint ps \<le> 4 * length (succ_range pool ps)"
  "ps_ok pool ps \<Longrightarrow> succ_range pool ps \<noteq> [] \<Longrightarrow> footprint ps < 4 * length (succ_range pool ps)"
  by (auto simp: footprint_def length_succ_range length_0_conv [symmetric] simp del: length_0_conv)
     (auto simp: ps_ok_def)

lemma arena_pool_bound: "arena_ok (pss, pool) \<Longrightarrow> length pool < 2 ^ 32"
proof -
  assume ok: "arena_ok (pss, pool)"
  then have "sum_list (map footprint pss) \<le> length pss * 65527"
    by (intro sum_list_le_const) (auto simp: arena_ok_def intro: footprint_le)
  moreover have "length pool \<le> sum_list (map footprint pss)" "length pss \<le> 65536"
    using ok by (auto simp: arena_ok_def)
  ultimately show ?thesis by simp
qed

lemma range_frame:
  assumes "ps_ok pool ps" "length pool \<le> length pool'" "\<forall>k\<in>block ps. pool' ! k = pool ! k"
  shows "succ_range pool' ps = succ_range pool ps"
proof (cases "isPool ps")
  case True
  then show ?thesis
    using assms by (intro nth_equalityI) (auto simp: succ_range_def ps_ok_def block_def)
next
  case False
  then show ?thesis by (simp add: succ_range_def)
qed

lemma block_below: "ps_ok pool ps \<Longrightarrow> x \<in> block ps \<Longrightarrow> x < length pool"
  by (auto simp: block_def ps_ok_def split: if_splits)

lemma ps_ok_mono: "ps_ok pool ps \<Longrightarrow> length pool \<le> length pool' \<Longrightarrow> ps_ok pool' ps"
  by (auto simp: ps_ok_def)

lemma arena_push_appended:
  assumes ok: "arena_ok (pss, pool)" and k: "k < length pss"
    and ap: "appended v pool (pss ! k) pool' ps'"
  shows "arena_ok (pss[k := ps'], pool')"
    and "arena_lists (pss[k := ps'], pool') =
      (arena_lists (pss, pool))[k := arena_lists (pss, pool) ! k @ [v]]"
proof -
  have each: "ps_ok pool (pss ! i)" if "i < length pss" for i
    using ok that by (auto simp: arena_ok_def)
  have mono: "length pool \<le> length pool'" and ok': "ps_ok pool' ps'"
    and blk: "block ps' \<subseteq> block (pss ! k) \<union> {length pool..}"
    and frm: "\<And>x. x < length pool \<Longrightarrow> x \<notin> block (pss ! k) \<Longrightarrow> pool' ! x = pool ! x"
    using ap by (auto simp: appended_def)
  have disj: "block (pss ! i) \<inter> block (pss ! j) = {}" if "i < length pss" "j < length pss" "i \<noteq> j" for i j
    using ok that by (simp add: arena_ok_def)
  have other: "block (pss ! i) \<inter> block ps' = {}" if "i < length pss" "i \<noteq> k" for i
    using blk disj [OF that(1) k that(2)] block_below [OF each [OF that(1)]] by fastforce
  have "length pool' \<le> sum_list (map footprint (pss[k := ps']))"
    using sum_list_update_nat [OF k, of footprint ps'] ap ok
    by (auto simp: appended_def arena_ok_def)
  moreover have "\<forall>i<length pss. ps_ok pool' ((pss[k := ps']) ! i)"
    using each ok' mono k by (auto simp: nth_list_update intro: ps_ok_mono)
  moreover have "\<forall>i<length pss. \<forall>j<length pss. i \<noteq> j \<longrightarrow>
      block (pss[k := ps'] ! i) \<inter> block (pss[k := ps'] ! j) = {}"
    using disj other k by (auto simp: nth_list_update Int_commute)
  ultimately show "arena_ok (pss[k := ps'], pool')"
    using ok by (auto simp: arena_ok_def all_set_conv_all_nth)
  have "succ_range pool' (pss ! i) = succ_range pool (pss ! i)" if "i < length pss" "i \<noteq> k" for i
    using each [OF that(1)] mono
    by (rule range_frame) (use that disj [OF that(1) k that(2)] block_below [OF each [OF that(1)]] frm in auto)
  then show "arena_lists (pss[k := ps'], pool') =
      (arena_lists (pss, pool))[k := arena_lists (pss, pool) ! k @ [v]]"
    using k ap by (intro nth_equalityI) (auto simp: arena_lists_def nth_list_update appended_def)
qed

section \<open>The interface: a family of bounded append-only lists\<close>

text \<open>A sequence of appends \<open>(list, value)\<close>; the first rejected one ends it.\<close>

fun push_all :: "(nat \<Rightarrow> 'v \<Rightarrow> 's \<Rightarrow> 's cpp) \<Rightarrow> (nat \<times> 'v) list \<Rightarrow> 's \<Rightarrow> 's cpp" where
  "push_all push [] s = Inr s"
| "push_all push ((k, v) # ops) s =
     (case push k v s of Inl e \<Rightarrow> Inl e | Inr s' \<Rightarrow> push_all push ops s')"

definition entries_for :: "nat \<Rightarrow> (nat \<times> 'v) list \<Rightarrow> 'v list" where
  "entries_for k ops = map snd (filter (\<lambda>op. fst op = k) ops)"

lemma entries_for_simps [simp]:
  "entries_for k [] = []"
  "entries_for k ((j, v) # ops) = (if j = k then v # entries_for k ops else entries_for k ops)"
  by (simp_all add: entries_for_def)

locale append_family =
  fixes ok :: "'s \<Rightarrow> bool"
    and view :: "'s \<Rightarrow> 'v list list"
    and push :: "nat \<Rightarrow> 'v \<Rightarrow> 's \<Rightarrow> 's cpp"
    and limit :: nat
    and full :: cpp_error
  assumes push_room: "ok s \<Longrightarrow> k < length (view s) \<Longrightarrow> length (view s ! k) < limit \<Longrightarrow>
      \<exists>s'. push k v s = Inr s' \<and> ok s' \<and> view s' = (view s)[k := view s ! k @ [v]]"
    and push_full: "ok s \<Longrightarrow> k < length (view s) \<Longrightarrow> length (view s ! k) = limit \<Longrightarrow>
      push k v s = Inl full"
    and within_limit: "ok s \<Longrightarrow> k < length (view s) \<Longrightarrow> length (view s ! k) \<le> limit"
begin

lemma push_all_fits:
  assumes "ok s" "\<forall>op\<in>set ops. fst op < length (view s)"
    "\<And>k. k < length (view s) \<Longrightarrow> length (view s ! k) + length (entries_for k ops) \<le> limit"
  shows "\<exists>s'. push_all push ops s = Inr s' \<and> ok s' \<and> length (view s') = length (view s) \<and>
    (\<forall>k<length (view s). view s' ! k = view s ! k @ entries_for k ops)"
  using assms
proof (induction ops arbitrary: s)
  case Nil
  then show ?case by simp
next
  case (Cons op ops)
  obtain j v where op: "op = (j, v)" by fastforce
  have j: "j < length (view s)" using Cons.prems(2) op by simp
  have "length (view s ! j) < limit" using Cons.prems(3) [OF j] op by simp
  then obtain s1 where s1: "push j v s = Inr s1" "ok s1" "view s1 = (view s)[j := view s ! j @ [v]]"
    using push_room Cons.prems(1) j by blast
  have "\<exists>s'. push_all push ops s1 = Inr s' \<and> ok s' \<and> length (view s') = length (view s1) \<and>
    (\<forall>k<length (view s1). view s' ! k = view s1 ! k @ entries_for k ops)"
  proof (rule Cons.IH)
    show "length (view s1 ! k) + length (entries_for k ops) \<le> limit" if "k < length (view s1)" for k
      using Cons.prems(3) [of k] that s1(3) op j by (auto simp: nth_list_update split: if_splits)
  qed (use s1 Cons.prems in auto)
  then show ?case using s1 op j by (auto simp: nth_list_update)
qed

lemma push_all_overflow:
  assumes "ok s" "\<forall>op\<in>set ops. fst op < length (view s)" "k < length (view s)"
    "limit < length (view s ! k) + length (entries_for k ops)"
  shows "push_all push ops s = Inl full"
  using assms
proof (induction ops arbitrary: s)
  case Nil
  then show ?case using within_limit by fastforce
next
  case (Cons op ops)
  obtain j v where op: "op = (j, v)" by fastforce
  have j: "j < length (view s)" using Cons.prems(2) op by simp
  show ?case
  proof (cases "length (view s ! j) = limit")
    case True
    then show ?thesis using push_full Cons.prems(1) j op by simp
  next
    case False
    then have "length (view s ! j) < limit" using within_limit [OF Cons.prems(1) j] by simp
    then obtain s1 where s1: "push j v s = Inr s1" "ok s1" "view s1 = (view s)[j := view s ! j @ [v]]"
      using push_room Cons.prems(1) j by blast
    have "push_all push ops s1 = Inl full"
      using Cons.prems s1 op j by (intro Cons.IH) (auto simp: nth_list_update split: if_splits)
    then show ?thesis using s1 op by simp
  qed
qed

end

lemma arena_push_room:
  assumes "arena_ok a" "k < length (arena_lists a)" "length (arena_lists a ! k) < 32767"
  shows "\<exists>a'. arena_push k v a = Inr a' \<and> arena_ok a' \<and>
    arena_lists a' = (arena_lists a)[k := arena_lists a ! k @ [v]]"
proof -
  obtain pss pool where a: "a = (pss, pool)" by fastforce
  have k: "k < length pss" using assms(2) a by (simp add: arena_lists_def)
  have ok: "ps_ok pool (pss ! k)" using assms(1) a k by (auto simp: arena_ok_def)
  have "cnt (pss ! k) < 32767"
    using assms(3) a k length_succ_range [OF ok] by (simp add: arena_lists_def)
  then obtain ps' pool' where "push_back v (pss ! k) pool = Inr (ps', pool')"
    "appended v pool (pss ! k) pool' ps'"
    using push_back_appended ok arena_pool_bound assms(1) a by blast
  then show ?thesis
    using arena_push_appended assms(1) a k by (auto simp: arena_push_def)
qed

lemma arena_push_full:
  assumes "arena_ok a" "k < length (arena_lists a)" "length (arena_lists a ! k) = 32767"
  shows "arena_push k v a = Inl (HardError ''A job cannot have more than 32767 successors'')"
proof -
  obtain pss pool where a: "a = (pss, pool)" by fastforce
  have k: "k < length pss" using assms(2) a by (simp add: arena_lists_def)
  have ok: "ps_ok pool (pss ! k)" using assms(1) a k by (auto simp: arena_ok_def)
  then have "cnt (pss ! k) = 32767"
    using assms(3) a k length_succ_range by (simp add: arena_lists_def)
  then show ?thesis using a k push_back_full [OF ok] by (simp add: arena_push_def)
qed

interpretation succ_arena: append_family arena_ok arena_lists arena_push 32767
  "HardError ''A job cannot have more than 32767 successors''"
proof unfold_locales
  fix s :: arena and k
  assume "arena_ok s" "k < length (arena_lists s)"
  then show "length (arena_lists s ! k) \<le> 32767"
    using length_succ_range count_le by (cases s) (auto simp: arena_ok_def arena_lists_def)
qed (fact arena_push_room arena_push_full)+

definition arena_new :: "nat \<Rightarrow> arena" where
  "arena_new n = (replicate n PoolSuccessors_new, [])"

lemma arena_new_ok: "n \<le> 65536 \<Longrightarrow> arena_ok (arena_new n)"
  by (auto simp: arena_ok_def arena_new_def PoolSuccessors_new_def ps_ok_def isPool_def
      succ_count_def block_def kInlineCap_def)

lemma arena_new_lists [simp]: "arena_lists (arena_new n) = replicate n []"
  by (simp add: arena_lists_def arena_new_def PoolSuccessors_new_def succ_range_def succ_count_def)

lemma arena_pool_le_edges:
  assumes "arena_ok (pss, pool)"
  shows "length pool \<le> 4 * length (concat (arena_lists (pss, pool)))"
proof -
  have "sum_list (map footprint pss) \<le> 4 * length (concat (map (succ_range pool) pss))"
    if "\<forall>ps\<in>set pss. ps_ok pool ps" for pss
    using that by (induction pss) (auto dest: footprint_count(1))
  then show ?thesis using assms by (fastforce simp: arena_ok_def arena_lists_def)
qed

lemma arena_pool_less_edges:
  assumes "arena_ok (pss, pool)" "concat (arena_lists (pss, pool)) \<noteq> []"
  shows "length pool < 4 * length (concat (arena_lists (pss, pool)))"
proof -
  have "sum_list (map footprint pss) < 4 * length (concat (map (succ_range pool) pss))"
    if "\<forall>ps\<in>set pss. ps_ok pool ps" "concat (map (succ_range pool) pss) \<noteq> []" for pss
    using that
  proof (induction pss)
    case (Cons ps pss)
    show ?case
    proof (cases "concat (map (succ_range pool) pss) = []")
      case True
      then have "sum_list (map footprint pss) = 0"
        using Cons.prems(1) footprint_count(1) by (fastforce simp: sum_list_eq_0_iff)
      then have "sum_list (map footprint (ps # pss)) = footprint ps" by simp
      moreover have "concat (map (succ_range pool) (ps # pss)) = succ_range pool ps"
        using True by simp
      ultimately show ?thesis
        using Cons.prems footprint_count(2) [of pool ps] by (metis list.set_intros(1))
    next
      case False
      then show ?thesis using Cons footprint_count(1) [of pool ps] by fastforce
    qed
  qed simp
  then show ?thesis using assms by (fastforce simp: arena_ok_def arena_lists_def)
qed

lemma entries_for_partition:
  "\<forall>op\<in>set ops. fst op < n \<Longrightarrow> (\<Sum>k<n. length (entries_for k ops)) = length ops"
proof (induction ops)
  case (Cons op ops)
  obtain j v where op: "op = (j, v)" by fastforce
  have "(\<Sum>k<n. length (entries_for k (op # ops))) =
      (\<Sum>k<n. (if k = j then 1 else 0) + length (entries_for k ops))"
    by (rule sum.cong) (auto simp: op)
  also have "\<dots> = 1 + length ops"
    using Cons op by (simp add: sum.distrib)
  finally show ?case by simp
qed simp

lemma PoolSuccessors_move_range:
  assumes "length (ps_inline ps) = 4"
  shows "succ_range pool (fst (PoolSuccessors_move ps)) = succ_range pool ps"
    and "succ_range pool (snd (PoolSuccessors_move ps)) = []"
proof -
  have "copy_loop (\<lambda>i. ps_inline ps ! i) 0 4 (replicate 4 0) = ps_inline ps"
    using assms by (intro nth_equalityI) (simp_all add: nth_copy_loop)
  then show "succ_range pool (fst (PoolSuccessors_move ps)) = succ_range pool ps"
    "succ_range pool (snd (PoolSuccessors_move ps)) = []"
    by (simp_all add: PoolSuccessors_move_def kInlineCap_def succ_range_def succ_count_def isPool_def
        blockStart_def)
qed

lemma push_all_new:
  assumes "n \<le> 65536" "\<forall>op\<in>set ops. fst op < n"
    "\<And>k. k < n \<Longrightarrow> length (entries_for k ops) \<le> 32767"
  shows "\<exists>a. push_all arena_push ops (arena_new n) = Inr a \<and> arena_ok a \<and>
    arena_lists a = map (\<lambda>k. entries_for k ops) [0..<n]"
proof -
  obtain a where a: "push_all arena_push ops (arena_new n) = Inr a" "arena_ok a"
    "length (arena_lists a) = n"
    "\<forall>k<n. arena_lists a ! k = arena_lists (arena_new n) ! k @ entries_for k ops"
    using succ_arena.push_all_fits [OF arena_new_ok [OF assms(1)], of ops] assms(2,3) by auto
  then have "arena_lists a = map (\<lambda>k. entries_for k ops) [0..<n]"
    by (intro nth_equalityI) simp_all
  with a show ?thesis by blast
qed

lemma push_all_new_overflow:
  assumes "n \<le> 65536" "\<forall>op\<in>set ops. fst op < n" "k < n" "32767 < length (entries_for k ops)"
  shows "push_all arena_push ops (arena_new n) =
    Inl (HardError ''A job cannot have more than 32767 successors'')"
  using succ_arena.push_all_overflow [OF arena_new_ok [OF assms(1)], of ops k] assms by simp

section \<open>Properties\<close>

text \<open>
  C1. The arena-backed successor lists implement plain lists. Any sequence of appends to the nodes
  of a fresh graph either leaves every node with exactly its own appended values in order, or stops
  with the hard error, and it stops exactly when some node would get more than 32,767 entries:
  spilling, growing in place and moving blocks never lose, reorder or overwrite an entry.
\<close>

theorem push_back_refines_lists:
  assumes "n \<le> 65536" "\<forall>op\<in>set ops. fst op < n"
  shows "case push_all arena_push ops (arena_new n) of
      Inl e \<Rightarrow> e = HardError ''A job cannot have more than 32767 successors'' \<and>
        (\<exists>k<n. 32767 < length (entries_for k ops))
    | Inr a \<Rightarrow> arena_lists a = map (\<lambda>k. entries_for k ops) [0..<n] \<and>
        (\<forall>k<n. length (entries_for k ops) \<le> 32767)"
proof (cases "\<exists>k<n. 32767 < length (entries_for k ops)")
  case True
  then show ?thesis using push_all_new_overflow [OF assms] by auto
next
  case False
  then have "\<And>k. k < n \<Longrightarrow> length (entries_for k ops) \<le> 32767" by (meson not_le)
  then show ?thesis using push_all_new [OF assms] by fastforce
qed

theorem push_back_refines_lists_witness:
  "case push_all arena_push [(0, 1), (1, 0), (0, 1), (0, 1), (0, 1), (0, 1)] (arena_new 2) of
     Inl e \<Rightarrow> False
   | Inr a \<Rightarrow> arena_lists a = [[1, 1, 1, 1, 1], [0]]"
  using push_back_refines_lists [of 2 "[(0, 1), (1, 0), (0, 1), (0, 1), (0, 1), (0, 1)]"]
  by (auto split: sum.splits simp: less_2_cases_iff upt_rec)

text \<open>
  C2. Memory of the arena. With at most 65,536 nodes, whatever edges are added, the arena holds
  fewer than four entries per stored edge, and it stays below \<open>2\<^sup>3\<^sup>2\<close> entries, so the block start
  that \<^verbatim>\<open>setBlock\<close> splits into two 16-bit halves is never truncated.
\<close>

theorem arena_stays_small:
  assumes "n \<le> 65536" "\<forall>op\<in>set ops. fst op < n" "ops \<noteq> []"
    "push_all arena_push ops (arena_new n) = Inr (pss, pool)"
  shows "length pool < 4 * length ops \<and> length pool < 2 ^ 32"
proof -
  have "\<not> (\<exists>k<n. 32767 < length (entries_for k ops))"
    using push_all_new_overflow [OF assms(1,2)] assms(4) by auto
  then have fits: "\<And>k. k < n \<Longrightarrow> length (entries_for k ops) \<le> 32767" by (meson not_le)
  have ok: "arena_ok (pss, pool)"
    and lists: "arena_lists (pss, pool) = map (\<lambda>k. entries_for k ops) [0..<n]"
    using push_all_new [OF assms(1,2) fits] assms(4) by auto
  have len: "length (concat (arena_lists (pss, pool))) = length ops"
    using entries_for_partition [OF assms(2)]
    by (simp add: lists length_concat comp_def sum_list_distinct_conv_sum_set lessThan_atLeast0)
  then have "concat (arena_lists (pss, pool)) \<noteq> []"
    using assms(3) by (metis length_0_conv)
  then show ?thesis
    using arena_pool_less_edges [OF ok] len arena_pool_bound [OF ok] by simp
qed

theorem arena_stays_small_witness:
  "\<exists>pss pool. push_all arena_push (replicate 5 (0, 7)) (arena_new 1) = Inr (pss, pool) \<and>
     length pool < 20 \<and> length pool < 2 ^ 32"
proof -
  have "\<exists>a. push_all arena_push (replicate 5 (0, 7)) (arena_new 1) = Inr a \<and> arena_ok a \<and>
    arena_lists a = map (\<lambda>k. entries_for k (replicate 5 (0, 7))) [0..<1]"
    by (rule push_all_new) (simp_all add: entries_for_def)
  then obtain pss pool where p: "push_all arena_push (replicate 5 (0, 7)) (arena_new 1) = Inr (pss, pool)"
    by fastforce
  from arena_stays_small [OF _ _ _ p] have "length pool < 20" "length pool < 2 ^ 32" by simp_all
  with p show ?thesis by blast
qed

end
