(* ===== verification/Deferred.thy ===== *)
theory Deferred
  imports PipelineTypes
begin

text \<open>
  Deferred jobs: \<^verbatim>\<open>detail::DeferredSlot\<close>, \<^verbatim>\<open>detail::DeferredOrphans\<close> and the \<^verbatim>\<open>Completion\<close> handle
  of \<^verbatim>\<open>src/sub0pipeline.cpp\<close> and \<^verbatim>\<open>include/sub0pipeline/completion.hpp\<close>. Three parties act on one
  run of a deferred job: the body returning, the completion being signalled and the stop source
  firing. The operations below are the code's member functions; a call of the slot's
  \<^verbatim>\<open>deliver\<close> function is the boolean they return.
\<close>

section \<open>Model\<close>

datatype SlotOutcome = kNone | kSignalled | kStopped

definition kReleased :: u8 where "kReleased = 0x01"
definition kOrphaned :: u8 where "kOrphaned = 0x02"

text \<open>
  \<open>ds_token\<close> names the stop state the slot listens to, \<open>ds_stopCallback\<close> says whether its stop
  callback is registered, \<open>ds_deadline\<close> holds the registration's expired flag while a
  \<^verbatim>\<open>Deadline\<close> exists, \<open>ds_deadlineService\<close> says whether a registration may be live.
\<close>

record 'f DeferredSlot =
  ds_start :: 'f
  ds_outcome :: SlotOutcome
  ds_parties :: u8
  ds_handleFlags :: u8
  ds_result :: "unit expected"
  ds_message :: string
  ds_token :: nat
  ds_stopCallback :: bool
  ds_deadline :: "bool option"
  ds_deadlineService :: bool

definition DeferredSlot_new :: "'f \<Rightarrow> 'f DeferredSlot" where
  "DeferredSlot_new start =
     \<lparr>ds_start = start, ds_outcome = kNone, ds_parties = 0, ds_handleFlags = 0, ds_result = Inr (),
      ds_message = [], ds_token = 0, ds_stopCallback = False, ds_deadline = None,
      ds_deadlineService = False\<rparr>"

text \<open>\<^verbatim>\<open>DeferredOrphans::count\<close>; \<^verbatim>\<open>release\<close> decrements it, \<^verbatim>\<open>wait\<close> returns once it is zero.\<close>

definition orphans_release :: "u64 \<Rightarrow> u64" where
  "orphans_release count = count - 1"

definition slot_expired :: "'f DeferredSlot \<Rightarrow> bool" where
  "slot_expired s \<longleftrightarrow> ds_deadline s = Some True"

definition arrive :: "'f DeferredSlot \<Rightarrow> 'f DeferredSlot \<times> bool" where
  "arrive s = (s\<lparr>ds_parties := ds_parties s - 1\<rparr>, ds_parties s = 1)"

definition releaseLate :: "'f DeferredSlot \<Rightarrow> u64 \<Rightarrow> 'f DeferredSlot \<times> u64" where
  "releaseLate s count =
     (s\<lparr>ds_handleFlags := ds_handleFlags s OR kReleased\<rparr>,
      if ds_handleFlags s AND kOrphaned \<noteq> 0 then orphans_release count else count)"

text \<open>The winning signaller's writes: result, then message.\<close>

definition signal_write :: "unit expected \<Rightarrow> string \<Rightarrow> 'f DeferredSlot \<Rightarrow> 'f DeferredSlot" where
  "signal_write value text s =
     (let s1 = s\<lparr>ds_result := if slot_expired s then Inl kTimeout else value\<rparr>
      in if value \<noteq> Inr () \<and> text \<noteq> [] then s1\<lparr>ds_message := text\<rparr> else s1)"

definition signal ::
  "unit expected \<Rightarrow> string \<Rightarrow> 'f DeferredSlot \<Rightarrow> u64 \<Rightarrow> 'f DeferredSlot \<times> u64 \<times> bool" where
  "signal value text s count =
     (if ds_outcome s \<noteq> kNone
      then (case releaseLate s count of (s', count') \<Rightarrow> (s', count', False))
      else (case arrive (signal_write value text (s\<lparr>ds_outcome := kSignalled\<rparr>)) of
              (s', deliver) \<Rightarrow> (s', count, deliver)))"

definition stop_write :: "'f DeferredSlot \<Rightarrow> 'f DeferredSlot" where
  "stop_write s = s\<lparr>ds_result := Inl (if slot_expired s then kTimeout else kCancelled)\<rparr>"

definition slot_stop :: "'f DeferredSlot \<Rightarrow> 'f DeferredSlot \<times> bool" where
  "slot_stop s =
     (if ds_outcome s \<noteq> kNone then (s, False)
      else arrive (stop_write (s\<lparr>ds_outcome := kStopped\<rparr>)))"

definition orphanIfHeld :: "'f DeferredSlot \<Rightarrow> u64 \<Rightarrow> 'f DeferredSlot \<times> u64" where
  "orphanIfHeld s count =
     (if ds_handleFlags s AND kReleased = 0
      then (s\<lparr>ds_handleFlags := ds_handleFlags s OR kOrphaned\<rparr>, count + 1)
      else (s, count))"

definition releaseRegistrations :: "'f DeferredSlot \<Rightarrow> 'f DeferredSlot" where
  "releaseRegistrations s = s\<lparr>ds_stopCallback := False, ds_deadlineService := False\<rparr>"

text \<open>
  \<^verbatim>\<open>Completion\<close>: a handle holds a slot or nothing. Each operation returns the handle afterwards
  and the \<^verbatim>\<open>signal\<close> call it makes, if any.
\<close>

type_synonym 'k Completion = "'k option"
type_synonym 'k signal_call = "('k \<times> unit expected \<times> string) option"

definition abandoned :: "'k \<Rightarrow> 'k \<times> unit expected \<times> string" where
  "abandoned k = (k, Inl kJobFailed, ''completion abandoned'')"

definition Completion_complete ::
  "unit expected \<Rightarrow> string \<Rightarrow> 'k Completion \<Rightarrow> 'k Completion \<times> 'k signal_call" where
  "Completion_complete r message h = (None, map_option (\<lambda>k. (k, r, message)) h)"

definition Completion_succeed :: "'k Completion \<Rightarrow> 'k Completion \<times> 'k signal_call" where
  "Completion_succeed h = Completion_complete (Inr ()) [] h"

definition Completion_fail ::
  "PipelineError \<Rightarrow> string \<Rightarrow> 'k Completion \<Rightarrow> 'k Completion \<times> 'k signal_call" where
  "Completion_fail e message h = Completion_complete (Inl e) message h"

definition Completion_destroy :: "'k Completion \<Rightarrow> 'k signal_call" where
  "Completion_destroy h = map_option abandoned h"

text \<open>The move constructor, and \<^verbatim>\<open>operator=(Completion&&)\<close> between two distinct handles.\<close>

definition Completion_move :: "'k Completion \<Rightarrow> 'k Completion \<times> 'k Completion" where
  "Completion_move other = (other, None)"

definition Completion_assign ::
  "'k Completion \<Rightarrow> 'k Completion \<Rightarrow> 'k Completion \<times> 'k Completion \<times> 'k signal_call" where
  "Completion_assign h other = (other, None, map_option abandoned h)"

definition Completion_valid :: "'k Completion \<Rightarrow> bool" where
  "Completion_valid h \<longleftrightarrow> h \<noteq> None"

end
