(* ===== verification/Graph.thy ===== *)
theory Graph
  imports PoolSuccessors Deferred
begin

text \<open>
  The dependency graph: \<^verbatim>\<open>Pipeline::Node\<close>, \<^verbatim>\<open>Pipeline::Impl\<close>, the \<^verbatim>\<open>Job\<close> and \<^verbatim>\<open>JobGroup\<close> builder
  methods, the \<^verbatim>\<open>emplace\<close> family and \<^verbatim>\<open>Pipeline::validate\<close> of \<^verbatim>\<open>src/sub0pipeline.cpp\<close>. User callables
  are opaque values of the type parameter \<open>'f\<close>. A \<^verbatim>\<open>std::stop_source\<close> is the number of its shared
  state in \<open>im_stops\<close>, which records whether a stop was requested on it; copies share the number.
\<close>

section \<open>Nodes and handles\<close>

text \<open>
  \<^verbatim>\<open>Impl::JobFn\<close>: \<open>IgnoringStop\<close> is the adapter \<^verbatim>\<open>ignoringStop\<close> puts around a callable without a
  token parameter; \<open>NoFn\<close> is the empty function of a deferred node.
\<close>

datatype 'f JobFn = IgnoringStop 'f | TakesStop 'f | NoFn

record 'f Node =
  nd_unmetDeps :: u32
  nd_jobStatus :: JobStatus
  nd_flags :: u8
  nd_priority :: u8
  nd_coreAffinity :: int
  nd_stackBytes :: u32
  nd_predecessorCount :: u32
  nd_timeout :: int
  nd_successors :: PoolSuccessors
  nd_fn :: "'f JobFn"
  nd_stopSource :: nat
  nd_nameStr :: string
  nd_statusText :: "string option"
  nd_deferred :: "'f DeferredSlot option"

definition kFlagOptional :: u8 where "kFlagOptional = 0x01"
definition kFlagOnDemand :: u8 where "kFlagOnDemand = 0x02"
definition kFlagCancellable :: u8 where "kFlagCancellable = 0x04"
definition kFlagDeferred :: u8 where "kFlagDeferred = 0x08"

definition isOptional :: "'f Node \<Rightarrow> bool" where
  "isOptional nd \<longleftrightarrow> nd_flags nd AND kFlagOptional \<noteq> 0"
definition isOnDemand :: "'f Node \<Rightarrow> bool" where
  "isOnDemand nd \<longleftrightarrow> nd_flags nd AND kFlagOnDemand \<noteq> 0"
definition isCancellable :: "'f Node \<Rightarrow> bool" where
  "isCancellable nd \<longleftrightarrow> nd_flags nd AND kFlagCancellable \<noteq> 0"
definition isDeferred :: "'f Node \<Rightarrow> bool" where
  "isDeferred nd \<longleftrightarrow> nd_flags nd AND kFlagDeferred \<noteq> 0"

text \<open>\<^verbatim>\<open>std::chrono::milliseconds::max()\<close>, the default \<^verbatim>\<open>timeout_\<close>: no timeout.\<close>

definition milliseconds_max :: int where "milliseconds_max = 2 ^ 63 - 1"

text \<open>A default-constructed node; \<open>stop\<close> is the shared state of its new \<^verbatim>\<open>std::stop_source\<close>.\<close>

definition Node_new :: "nat \<Rightarrow> 'f Node" where
  "Node_new stop =
     \<lparr>nd_unmetDeps = 0, nd_jobStatus = kPending, nd_flags = 0, nd_priority = 5,
      nd_coreAffinity = -1, nd_stackBytes = 8192, nd_predecessorCount = 0,
      nd_timeout = milliseconds_max, nd_successors = PoolSuccessors_new, nd_fn = NoFn,
      nd_stopSource = stop, nd_nameStr = [], nd_statusText = None, nd_deferred = None\<rparr>"

record Job =
  jb_idx :: u32
  jb_anchor :: "nat option"

definition cInvalid :: u32 where "cInvalid = 0xFFFFFFFF"

definition Job_valid :: "Job \<Rightarrow> bool" where "Job_valid j \<longleftrightarrow> jb_idx j \<noteq> cInvalid"

section \<open>The pipeline's state\<close>

text \<open>
  \<open>im_anchor\<close> is the identity of this \<^verbatim>\<open>Impl\<close>, which job handles point at. The armed executor and
  observer and the injected deadline service are present or absent; what they do is a parameter of
  the operations that call them.
\<close>

record 'f Impl =
  im_anchor :: nat
  im_nodes :: "'f Node list"
  im_roots :: "nat list"
  im_skipped :: "nat list"
  im_inlineReady :: "nat list"
  im_succPool :: "u16 list"
  im_running :: bool
  im_rootsCached :: bool
  im_deadlines :: bool
  im_armedExecutor :: bool
  im_armedObserver :: bool
  im_failedJobName :: string
  im_completedCount :: u32
  im_pendingOrphans :: nat
  im_deferredNodes :: "nat list"
  im_deferredFinished :: "nat list"
  im_deferredOrphans :: u64
  im_stops :: "bool list"

definition Impl_new :: "nat \<Rightarrow> 'f Impl" where
  "Impl_new anchor =
     \<lparr>im_anchor = anchor, im_nodes = [], im_roots = [], im_skipped = [], im_inlineReady = [],
      im_succPool = [], im_running = False, im_rootsCached = False, im_deadlines = False,
      im_armedExecutor = False, im_armedObserver = False, im_failedJobName = [],
      im_completedCount = 0, im_pendingOrphans = 0, im_deferredNodes = [],
      im_deferredFinished = [], im_deferredOrphans = 0, im_stops = []\<rparr>"

text \<open>The successor indices of node \<open>i\<close>, in the order their edges were added.\<close>

definition succs :: "'f Impl \<Rightarrow> nat \<Rightarrow> nat list" where
  "succs impl i = map unat (succ_range (im_succPool impl) (nd_successors (im_nodes impl ! i)))"

definition upd_node :: "nat \<Rightarrow> ('f Node \<Rightarrow> 'f Node) \<Rightarrow> 'f Impl \<Rightarrow> 'f Impl" where
  "upd_node i g impl = impl\<lparr>im_nodes := (im_nodes impl)[i := g (im_nodes impl ! i)]\<rparr>"

section \<open>Construction\<close>

definition ensureNodeIndexFitsSuccessorStorage :: "nat \<Rightarrow> cpp_error option" where
  "ensureNodeIndexFitsSuccessorStorage nodeCount =
     (if nodeCount > 65535
      then Some (HardError ''Pipeline exceeds the 65536-job uint16_t index range'') else None)"

definition addNode :: "'f JobFn \<Rightarrow> string \<Rightarrow> u8 \<Rightarrow> 'f Impl \<Rightarrow> (nat \<times> 'f Impl) cpp" where
  "addNode fn namePrefix flags impl =
     (case ensureNodeIndexFitsSuccessorStorage (length (im_nodes impl)) of
        Some e \<Rightarrow> Inl e
      | None \<Rightarrow>
          (let idx = length (im_nodes impl);
               nd = (Node_new (length (im_stops impl)))
                      \<lparr>nd_fn := fn, nd_flags := flags, nd_nameStr := namePrefix @ to_string idx\<rparr>
           in Inr (idx, impl\<lparr>im_nodes := im_nodes impl @ [nd], im_stops := im_stops impl @ [False],
                             im_rootsCached := False\<rparr>)))"

definition job_handle :: "(nat \<times> 'f Impl) cpp \<Rightarrow> (Job \<times> 'f Impl) cpp" where
  "job_handle r = map_sum id (\<lambda>(idx, impl).
     (\<lparr>jb_idx = word_of_nat idx, jb_anchor = Some (im_anchor impl)\<rparr>, impl)) r"

text \<open>\<^verbatim>\<open>emplacePlain\<close>, reached by the overloads of \<^verbatim>\<open>emplace\<close> without a token parameter.\<close>

definition emplacePlain :: "'f \<Rightarrow> 'f Impl \<Rightarrow> (Job \<times> 'f Impl) cpp" where
  "emplacePlain fn impl = job_handle (addNode (IgnoringStop fn) ''job_'' 0 impl)"

definition emplaceCancellable :: "'f \<Rightarrow> 'f Impl \<Rightarrow> (Job \<times> 'f Impl) cpp" where
  "emplaceCancellable fn impl = job_handle (addNode (TakesStop fn) ''job_'' kFlagCancellable impl)"

definition addOnDemand :: "'f \<Rightarrow> 'f Impl \<Rightarrow> (Job \<times> 'f Impl) cpp" where
  "addOnDemand fn impl = job_handle (addNode (IgnoringStop fn) ''on_demand_'' kFlagOnDemand impl)"

definition addOnDemandCancellable :: "'f \<Rightarrow> 'f Impl \<Rightarrow> (Job \<times> 'f Impl) cpp" where
  "addOnDemandCancellable fn impl =
     job_handle (addNode (TakesStop fn) ''on_demand_'' (kFlagOnDemand OR kFlagCancellable) impl)"

definition emplaceDeferred :: "'f \<Rightarrow> 'f Impl \<Rightarrow> (Job \<times> 'f Impl) cpp" where
  "emplaceDeferred start impl =
     job_handle (case addNode NoFn ''job_'' kFlagDeferred impl of
       Inl e \<Rightarrow> Inl e
     | Inr (idx, impl1) \<Rightarrow>
         Inr (idx, (upd_node idx (\<lambda>nd. nd\<lparr>nd_deferred := Some (DeferredSlot_new start)\<rparr>) impl1)
                     \<lparr>im_deferredNodes := im_deferredNodes impl1 @ [idx]\<rparr>))"

section \<open>Builder methods\<close>

text \<open>
  \<^verbatim>\<open>if (pipeline() && valid()) pipeline()->node(idx_)...\<close>: \<open>impl\<close> is the state the handle's anchor
  names; a handle without anchor or index changes nothing.
\<close>

definition job_update :: "Job \<Rightarrow> ('f Node \<Rightarrow> 'f Node) \<Rightarrow> 'f Impl \<Rightarrow> 'f Impl cpp" where
  "job_update j g impl =
     (if jb_anchor j = None \<or> \<not> Job_valid j then Inr impl
      else if unat (jb_idx j) < length (im_nodes impl) then Inr (upd_node (unat (jb_idx j)) g impl)
      else Inl OutOfRange)"

definition Job_name :: "string \<Rightarrow> Job \<Rightarrow> 'f Impl \<Rightarrow> 'f Impl cpp" where
  "Job_name n j = job_update j (\<lambda>nd. nd\<lparr>nd_nameStr := n\<rparr>)"

definition Job_timeout :: "int \<Rightarrow> Job \<Rightarrow> 'f Impl \<Rightarrow> 'f Impl cpp" where
  "Job_timeout t j = job_update j (\<lambda>nd. nd\<lparr>nd_timeout := t\<rparr>)"

definition Job_stack :: "u32 \<Rightarrow> Job \<Rightarrow> 'f Impl \<Rightarrow> 'f Impl cpp" where
  "Job_stack bytes j = job_update j (\<lambda>nd. nd\<lparr>nd_stackBytes := bytes\<rparr>)"

definition Job_core :: "int \<Rightarrow> Job \<Rightarrow> 'f Impl \<Rightarrow> 'f Impl cpp" where
  "Job_core c j = job_update j (\<lambda>nd. nd\<lparr>nd_coreAffinity := c\<rparr>)"

definition Job_priority :: "u8 \<Rightarrow> Job \<Rightarrow> 'f Impl \<Rightarrow> 'f Impl cpp" where
  "Job_priority p j = job_update j (\<lambda>nd. nd\<lparr>nd_priority := p\<rparr>)"

definition Job_optional :: "bool \<Rightarrow> Job \<Rightarrow> 'f Impl \<Rightarrow> 'f Impl cpp" where
  "Job_optional opt j = job_update j (\<lambda>nd. nd\<lparr>nd_flags :=
     if opt then nd_flags nd OR kFlagOptional else nd_flags nd AND NOT kFlagOptional\<rparr>)"

definition Job_statusText :: "string option \<Rightarrow> Job \<Rightarrow> 'f Impl \<Rightarrow> 'f Impl cpp" where
  "Job_statusText text j = job_update j (\<lambda>nd. nd\<lparr>nd_statusText := text\<rparr>)"

text \<open>\<^verbatim>\<open>source.request_stop()\<close> on a copy of the node's stop source.\<close>

definition request_stop :: "nat \<Rightarrow> 'f Impl \<Rightarrow> 'f Impl" where
  "request_stop src impl = impl\<lparr>im_stops := (im_stops impl)[src := True]\<rparr>"

definition stop_requested :: "nat \<Rightarrow> 'f Impl \<Rightarrow> bool" where
  "stop_requested src impl \<longleftrightarrow> src < length (im_stops impl) \<and> im_stops impl ! src"

definition Job_cancel :: "Job \<Rightarrow> 'f Impl \<Rightarrow> 'f Impl cpp" where
  "Job_cancel j impl =
     (if jb_anchor j = None \<or> \<not> Job_valid j then Inr impl
      else if unat (jb_idx j) < length (im_nodes impl)
      then Inr (request_stop (nd_stopSource (im_nodes impl ! unat (jb_idx j))) impl)
      else Inl OutOfRange)"

text \<open>
  The edge from node \<open>from\<close> to node \<open>to\<close>, shared by \<^verbatim>\<open>succeed\<close> and \<^verbatim>\<open>precede\<close>: the edge is recorded
  before the dependency is counted. The result is the state and what was thrown, if anything.
\<close>

definition add_edge :: "nat \<Rightarrow> nat \<Rightarrow> 'f Impl \<Rightarrow> 'f Impl \<times> cpp_error option" where
  "add_edge from to impl =
     (let impl0 = impl\<lparr>im_rootsCached := False\<rparr>
      in case push_back (word_of_nat to) (nd_successors (im_nodes impl ! from)) (im_succPool impl) of
           Inl e \<Rightarrow> (impl0, Some e)
         | Inr (ps, pool) \<Rightarrow>
             (upd_node to (\<lambda>nd. nd\<lparr>nd_predecessorCount := nd_predecessorCount nd + 1\<rparr>)
                ((upd_node from (\<lambda>nd. nd\<lparr>nd_successors := ps\<rparr>) impl0)\<lparr>im_succPool := pool\<rparr>),
              None))"

definition Job_succeed :: "Job \<Rightarrow> Job \<Rightarrow> 'f Impl \<Rightarrow> 'f Impl \<times> cpp_error option" where
  "Job_succeed self other impl =
     (if jb_anchor self = None \<or> \<not> Job_valid self \<or> \<not> Job_valid other then (impl, None)
      else if unat (jb_idx self) < length (im_nodes impl) \<and> unat (jb_idx other) < length (im_nodes impl)
      then add_edge (unat (jb_idx other)) (unat (jb_idx self)) impl
      else (impl, Some OutOfRange))"

definition Job_precede :: "Job \<Rightarrow> Job \<Rightarrow> 'f Impl \<Rightarrow> 'f Impl \<times> cpp_error option" where
  "Job_precede self other impl =
     (if jb_anchor self = None \<or> \<not> Job_valid self \<or> \<not> Job_valid other then (impl, None)
      else if unat (jb_idx self) < length (im_nodes impl) \<and> unat (jb_idx other) < length (im_nodes impl)
      then add_edge (unat (jb_idx self)) (unat (jb_idx other)) impl
      else (impl, Some OutOfRange))"

text \<open>A loop over handles that stops where one call throws.\<close>

fun for_jobs :: "(Job \<Rightarrow> 'f Impl \<Rightarrow> 'f Impl \<times> cpp_error option) \<Rightarrow> Job list \<Rightarrow> 'f Impl \<Rightarrow>
    'f Impl \<times> cpp_error option" where
  "for_jobs g [] impl = (impl, None)"
| "for_jobs g (j # js) impl =
     (case g j impl of (impl1, Some e) \<Rightarrow> (impl1, Some e) | (impl1, None) \<Rightarrow> for_jobs g js impl1)"

definition Job_succeed_group :: "Job \<Rightarrow> Job list \<Rightarrow> 'f Impl \<Rightarrow> 'f Impl \<times> cpp_error option" where
  "Job_succeed_group self jobs = for_jobs (Job_succeed self) jobs"

definition Job_precede_group :: "Job \<Rightarrow> Job list \<Rightarrow> 'f Impl \<Rightarrow> 'f Impl \<times> cpp_error option" where
  "Job_precede_group self jobs = for_jobs (Job_precede self) jobs"

definition JobGroup_succeed :: "Job list \<Rightarrow> Job \<Rightarrow> 'f Impl \<Rightarrow> 'f Impl \<times> cpp_error option" where
  "JobGroup_succeed jobs other = for_jobs (\<lambda>j. Job_succeed j other) jobs"

definition JobGroup_succeed_group :: "Job list \<Rightarrow> Job list \<Rightarrow> 'f Impl \<Rightarrow> 'f Impl \<times> cpp_error option" where
  "JobGroup_succeed_group jobs other = for_jobs (\<lambda>j. for_jobs (\<lambda>o'. Job_succeed j o') other) jobs"

definition JobGroup_precede :: "Job list \<Rightarrow> Job \<Rightarrow> 'f Impl \<Rightarrow> 'f Impl \<times> cpp_error option" where
  "JobGroup_precede jobs other = for_jobs (\<lambda>j. Job_precede j other) jobs"

definition JobGroup_precede_group :: "Job list \<Rightarrow> Job list \<Rightarrow> 'f Impl \<Rightarrow> 'f Impl \<times> cpp_error option" where
  "JobGroup_precede_group jobs other = for_jobs (\<lambda>j. for_jobs (\<lambda>o'. Job_precede j o') other) jobs"

section \<open>Validation\<close>

text \<open>
  Kahn's algorithm as \<^verbatim>\<open>validate\<close> runs it. \<open>count_degrees\<close> is the first loop, \<open>relax\<close> the inner loop
  over the successors of the visited node, \<open>kahn_loop\<close> the while loop; a loop that never ended would
  have the value \<open>None\<close>.
\<close>

definition count_degrees :: "nat list list \<Rightarrow> u32 list \<Rightarrow> u32 list" where
  "count_degrees ss deg = fold (\<lambda>s d. fold (\<lambda>j d. d[j := d ! j + 1]) s d) ss deg"

fun relax :: "nat list \<Rightarrow> u32 list \<times> nat list \<Rightarrow> u32 list \<times> nat list" where
  "relax [] (deg, ready) = (deg, ready)"
| "relax (j # js) (deg, ready) =
     (let deg1 = deg[j := deg ! j - 1]
      in relax js (deg1, if deg1 ! j = 0 then ready @ [j] else ready))"

partial_function (option) kahn_loop ::
  "(nat \<Rightarrow> nat list) \<Rightarrow> u32 list \<Rightarrow> nat list \<Rightarrow> nat \<Rightarrow> nat option" where
  "kahn_loop sf deg ready visited =
     (if visited < length ready
      then (case relax (sf (ready ! visited)) (deg, ready) of
              (deg1, ready1) \<Rightarrow> kahn_loop sf deg1 ready1 (visited + 1))
      else Some visited)"

declare kahn_loop.simps [code]

definition validate :: "'f Impl \<Rightarrow> unit expected option" where
  "validate impl =
     (let n = length (im_nodes impl);
          deg = count_degrees (map (succs impl) [0..<n]) (replicate n 0);
          ready = filter (\<lambda>i. deg ! i = 0) [0..<n]
      in case kahn_loop (succs impl) deg ready 0 of
           None \<Rightarrow> None
         | Some visited \<Rightarrow> Some (if visited \<noteq> n then Inl kCyclicDependency else Inr ()))"

section \<open>Kahn's algorithm\<close>

abbreviation edge_rel :: "nat \<Rightarrow> (nat \<Rightarrow> nat list) \<Rightarrow> (nat \<times> nat) set" where
  "edge_rel n sf \<equiv> {(i, j). i < n \<and> j \<in> set (sf i)}"

definition indeg :: "nat \<Rightarrow> (nat \<Rightarrow> nat list) \<Rightarrow> nat \<Rightarrow> nat" where
  "indeg n sf j = (\<Sum>i<n. count_list (sf i) j)"

text \<open>What \<open>validate\<close> needs of the graph: edges stay inside it and no count reaches \<open>2\<^sup>3\<^sup>2\<close>.\<close>

definition graph_view :: "nat \<Rightarrow> (nat \<Rightarrow> nat list) \<Rightarrow> bool" where
  "graph_view n sf \<longleftrightarrow> (\<forall>i<n. set (sf i) \<subseteq> {..<n}) \<and> (\<Sum>i<n. length (sf i)) < 2 ^ 32"

lemma count_list_le_length: "count_list xs x \<le> length xs"
  by (induction xs) auto

lemma indeg_bound: "graph_view n sf \<Longrightarrow> indeg n sf j < 2 ^ 32"
  unfolding graph_view_def indeg_def
  by (rule le_less_trans [OF sum_mono [OF count_list_le_length]]) simp

lemma fold_incr:
  assumes "set s \<subseteq> {..<length (d::u32 list)}"
  shows "length (fold (\<lambda>j d. d[j := d ! j + 1]) s d) = length d"
    and "k < length d \<Longrightarrow> fold (\<lambda>j d. d[j := d ! j + 1]) s d ! k = d ! k + of_nat (count_list s k)"
  using assms by (induction s arbitrary: d) (auto simp: nth_list_update)

lemma count_degrees_nth:
  assumes "\<And>s. s \<in> set ss \<Longrightarrow> set s \<subseteq> {..<length d}"
  shows "length (count_degrees ss d) = length d"
    and "k < length d \<Longrightarrow>
      count_degrees ss d ! k = d ! k + of_nat (sum_list (map (\<lambda>s. count_list s k) ss))"
  using assms unfolding count_degrees_def
  by (induction ss arbitrary: d) (auto simp: fold_incr)

lemma initial_degrees:
  assumes "graph_view n sf" "k < n"
  shows "unat (count_degrees (map sf [0..<n]) (replicate n 0) ! k) = indeg n sf k"
proof -
  have "count_degrees (map sf [0..<n]) (replicate n 0) ! k =
      of_nat (sum_list (map (\<lambda>s. count_list s k) (map sf [0..<n])))"
    using assms by (subst count_degrees_nth(2)) (auto simp: graph_view_def)
  also have "sum_list (map (\<lambda>s. count_list s k) (map sf [0..<n])) = indeg n sf k"
    by (simp add: indeg_def comp_def sum_list_distinct_conv_sum_set lessThan_atLeast0)
  finally show ?thesis
    using indeg_bound [OF assms(1), of k] by (simp add: unat_of_nat take_bit_eq_mod)
qed

lemma relax_spec:
  assumes "relax js (deg, ready) = (deg', ready')" "set js \<subseteq> {..<length deg}"
    "\<And>j. j < length deg \<Longrightarrow> count_list js j \<le> unat (deg ! j)"
  shows "length deg' = length deg \<and>
    (\<forall>j<length deg. unat (deg' ! j) = unat (deg ! j) - count_list js j) \<and>
    (\<exists>new. ready' = ready @ new \<and> distinct new \<and>
      set new = {j \<in> set js. unat (deg ! j) = count_list js j})"
  using assms
proof (induction js arbitrary: deg ready)
  case Nil
  then show ?case by auto
next
  case (Cons j js)
  define d1 where "d1 = deg[j := deg ! j - 1]"
  define r1 where "r1 = (if d1 ! j = 0 then ready @ [j] else ready)"
  have j: "j < length deg" using Cons.prems(2) by simp
  have pos: "0 < unat (deg ! j)" using Cons.prems(3) [OF j] by simp
  have d1: "unat (d1 ! i) = unat (deg ! i) - (if i = j then 1 else 0)" if "i < length deg" for i
    using that j pos by (auto simp: d1_def nth_list_update unat_minus_one unat_gt_0 simp flip: unat_gt_0)
  have len: "length d1 = length deg" by (simp add: d1_def)
  have IH: "length deg' = length d1 \<and>
    (\<forall>j<length d1. unat (deg' ! j) = unat (d1 ! j) - count_list js j) \<and>
    (\<exists>new. ready' = r1 @ new \<and> distinct new \<and> set new = {j \<in> set js. unat (d1 ! j) = count_list js j})"
  proof (rule Cons.IH)
    show "relax js (d1, r1) = (deg', ready')"
      using Cons.prems(1) by (simp add: d1_def r1_def Let_def)
    show "count_list js i \<le> unat (d1 ! i)" if "i < length d1" for i
      using Cons.prems(3) [of i] that len d1 [of i] by (auto split: if_splits)
  qed (use Cons.prems len in auto)
  then obtain new where new: "ready' = r1 @ new" "distinct new"
    "set new = {i \<in> set js. unat (d1 ! i) = count_list js i}" by blast
  have zero: "d1 ! j = 0 \<longleftrightarrow> unat (deg ! j) = 1"
    using d1 [OF j] pos unat_eq_zero [of "d1 ! j"] by (simp, linarith)
  have in_len: "i < length deg" if "i \<in> set js" for i using Cons.prems(2) that by auto
  have "\<exists>new. ready' = ready @ new \<and> distinct new \<and>
      set new = {i \<in> set (j # js). unat (deg ! i) = count_list (j # js) i}"
  proof (cases "d1 ! j = 0")
    case True
    then have nj: "j \<notin> set js"
      using zero Cons.prems(3) [OF j] by (auto simp: count_list_0_iff [symmetric])
    then have "set (j # new) = {i \<in> set (j # js). unat (deg ! i) = count_list (j # js) i}"
      using new(3) True zero d1 in_len by (auto simp: count_list_0_iff)
    then show ?thesis using True new nj by (intro exI [of _ "j # new"]) (auto simp: r1_def)
  next
    case False
    have "i \<in> set js \<Longrightarrow> (unat (d1 ! i) = count_list js i) = (unat (deg ! i) = count_list (j # js) i)" for i
      using d1 [OF in_len, of i] pos by (cases "i = j") auto
    moreover have "unat (deg ! j) = count_list (j # js) j \<Longrightarrow> j \<in> set js"
      using False zero by (cases "j \<in> set js") (auto simp: count_list_0_iff)
    ultimately show ?thesis
      using False new by (intro exI [of _ new]) (auto simp: r1_def)
  qed
  then show ?case using IH len d1 by auto
qed

definition kahn_inv :: "nat \<Rightarrow> (nat \<Rightarrow> nat list) \<Rightarrow> u32 list \<Rightarrow> nat list \<Rightarrow> nat \<Rightarrow> bool" where
  "kahn_inv n sf deg ready visited \<longleftrightarrow>
     length deg = n \<and> distinct ready \<and> set ready \<subseteq> {..<n} \<and> visited \<le> length ready \<and>
     (\<forall>j<n. unat (deg ! j) = (\<Sum>i\<in>{..<n} - set (take visited ready). count_list (sf i) j)) \<and>
     (\<forall>j<n. j \<in> set ready \<longleftrightarrow> unat (deg ! j) = 0) \<and>
     (\<forall>k<length ready. \<forall>i<n. ready ! k \<in> set (sf i) \<longrightarrow> i \<in> set (take k ready))"

lemma kahn_inv_init:
  assumes g: "graph_view n sf"
  shows "kahn_inv n sf (count_degrees (map sf [0..<n]) (replicate n 0))
    (filter (\<lambda>i. count_degrees (map sf [0..<n]) (replicate n 0) ! i = 0) [0..<n]) 0"
    (is "kahn_inv n sf ?deg ?ready 0")
proof -
  have len: "length ?deg = n"
    using g by (subst count_degrees_nth(1)) (auto simp: graph_view_def)
  have deg: "unat (?deg ! j) = indeg n sf j" if "j < n" for j
    using initial_degrees [OF g that] .
  have zero: "?deg ! j = 0 \<longleftrightarrow> indeg n sf j = 0" if "j < n" for j
    using deg [OF that] by (metis unat_eq_zero)
  have mem: "j \<in> set ?ready \<longleftrightarrow> j < n \<and> indeg n sf j = 0" for j
    using zero by auto
  have ord: "i \<in> set (take k ?ready)" if "k < length ?ready" "i < n" "?ready ! k \<in> set (sf i)" for k i
  proof -
    have "indeg n sf (?ready ! k) = 0" using nth_mem [OF that(1)] mem by blast
    then show ?thesis using that(2,3) by (auto simp: indeg_def count_list_0_iff)
  qed
  show ?thesis
    unfolding kahn_inv_def using len ord mem deg
    by (auto simp: indeg_def)
qed

lemma kahn_inv_relax:
  assumes inv: "kahn_inv n sf deg ready visited" and v: "visited < length ready"
    and g: "graph_view n sf"
    and r: "relax (sf (ready ! visited)) (deg, ready) = (deg', ready')"
  shows "kahn_inv n sf deg' ready' (visited + 1)"
proof -
  let ?x = "ready ! visited"
  let ?todo = "{..<n} - set (take visited ready)"
  let ?todo' = "{..<n} - set (take (visited + 1) ready)"
  have len: "length deg = n" and dist: "distinct ready" and sub: "set ready \<subseteq> {..<n}"
    and deg: "\<And>j. j < n \<Longrightarrow> unat (deg ! j) = (\<Sum>i\<in>?todo. count_list (sf i) j)"
    and rdy: "\<And>j. j < n \<Longrightarrow> j \<in> set ready \<longleftrightarrow> unat (deg ! j) = 0"
    and ord: "\<And>k i. k < length ready \<Longrightarrow> i < n \<Longrightarrow> ready ! k \<in> set (sf i) \<Longrightarrow> i \<in> set (take k ready)"
    using inv by (auto simp: kahn_inv_def)
  have xn: "?x < n" using sub v nth_mem by fastforce
  have "?x \<notin> set (take visited ready)"
    using dist v by (metis distinct_take in_set_conv_nth id_take_nth_drop not_distinct_conv_prefix)
  then have todo: "?todo = insert ?x ?todo'" "?x \<notin> ?todo'"
    using v xn by (auto simp: take_Suc_conv_app_nth)
  have split: "unat (deg ! j) = count_list (sf ?x) j + (\<Sum>i\<in>?todo'. count_list (sf i) j)" if "j < n" for j
    using deg [OF that] todo by simp
  have sfx: "set (sf ?x) \<subseteq> {..<length deg}" using g xn len by (auto simp: graph_view_def)
  from relax_spec [OF r sfx] split len
  have len': "length deg' = n"
    and deg': "\<And>j. j < n \<Longrightarrow> unat (deg' ! j) = unat (deg ! j) - count_list (sf ?x) j"
    and "\<exists>new. ready' = ready @ new \<and> distinct new \<and>
      set new = {j \<in> set (sf ?x). unat (deg ! j) = count_list (sf ?x) j}"
    by auto
  then obtain new where new: "ready' = ready @ new" "distinct new"
    "set new = {j \<in> set (sf ?x). unat (deg ! j) = count_list (sf ?x) j}" by blast
  have newn: "set new \<subseteq> {..<n}" using new(3) sfx len by auto
  have fresh: "set new \<inter> set ready = {}"
    using new(3) rdy newn by (fastforce simp: count_list_0_iff)
  have rest: "unat (deg' ! j) = (\<Sum>i\<in>?todo'. count_list (sf i) j)" if "j < n" for j
    using deg' [OF that] split [OF that] by simp
  have take': "take (visited + 1) ready' = take (visited + 1) ready" using new(1) v by simp
  have ready_iff: "j \<in> set ready' \<longleftrightarrow> unat (deg' ! j) = 0" if "j < n" for j
  proof (cases "j \<in> set (sf ?x)")
    case True
    then have "0 < count_list (sf ?x) j" by (simp add: count_list_0_iff neq0_conv [symmetric])
    then show ?thesis using True that rdy [OF that] deg' [OF that] new split [OF that] by auto
  next
    case False
    then show ?thesis using that rdy [OF that] deg' [OF that] new by (auto simp: count_list_0_iff)
  qed
  have ord': "i \<in> set (take k ready')" if "k < length ready'" "i < n" "ready' ! k \<in> set (sf i)" for k i
  proof (cases "k < length ready")
    case True
    then show ?thesis using that ord [OF True that(2)] new(1) by (simp add: nth_append)
  next
    case False
    then have "ready' ! k \<in> set new" using that new(1) by (simp add: nth_append)
    then have "ready' ! k < n" "unat (deg' ! (ready' ! k)) = 0"
      using newn ready_iff new(1) by auto
    then have "i \<notin> ?todo'" using rest that(3) by (auto simp: count_list_0_iff)
    then have "i \<in> set (take (visited + 1) ready)" using that(2) by simp
    then show ?thesis
      using False v new(1) set_take_subset_set_take [of "visited + 1" k ready'] take' by auto
  qed
  show ?thesis
    unfolding kahn_inv_def using len' dist new fresh sub newn v rest take' ready_iff ord' by auto
qed

lemma kahn_loop_returns:
  assumes "kahn_inv n sf deg ready visited" "graph_view n sf"
  shows "\<exists>deg' ready'. kahn_loop sf deg ready visited = Some (length ready') \<and>
    kahn_inv n sf deg' ready' (length ready')"
  using assms(1)
proof (induction "n - visited" arbitrary: deg ready visited rule: less_induct)
  case less
  show ?case
  proof (cases "visited < length ready")
    case True
    obtain deg1 ready1 where r: "relax (sf (ready ! visited)) (deg, ready) = (deg1, ready1)"
      by fastforce
    have inv1: "kahn_inv n sf deg1 ready1 (visited + 1)"
      using kahn_inv_relax [OF less.prems True assms(2) r] .
    have "length ready \<le> n"
      using less.prems card_mono [of "{..<n}" "set ready"] distinct_card [of ready]
      by (auto simp: kahn_inv_def)
    then have "n - (visited + 1) < n - visited" using True by simp
    from less.hyps [OF this inv1] show ?thesis
      using True r by (simp add: kahn_loop.simps [of sf deg ready])
  next
    case False
    then have "visited = length ready" using less.prems by (simp add: kahn_inv_def)
    then show ?thesis using less.prems by (auto simp: kahn_loop.simps [of sf deg ready])
  qed
qed

lemma acyclic_iff_all_ready:
  assumes inv: "kahn_inv n sf deg ready (length ready)" and g: "graph_view n sf"
  shows "acyclic (edge_rel n sf) \<longleftrightarrow> length ready = n"
proof
  have dist: "distinct ready" and sub: "set ready \<subseteq> {..<n}"
    and deg: "\<And>j. j < n \<Longrightarrow> unat (deg ! j) = (\<Sum>i\<in>{..<n} - set ready. count_list (sf i) j)"
    and rdy: "\<And>j. j < n \<Longrightarrow> j \<in> set ready \<longleftrightarrow> unat (deg ! j) = 0"
    and ord: "\<And>k i. k < length ready \<Longrightarrow> i < n \<Longrightarrow> ready ! k \<in> set (sf i) \<Longrightarrow> i \<in> set (take k ready)"
    using inv by (auto simp: kahn_inv_def)
  have edges: "edge_rel n sf \<subseteq> {..<n} \<times> {..<n}" using g by (auto simp: graph_view_def)
  show "length ready = n" if ac: "acyclic (edge_rel n sf)"
  proof (rule ccontr)
    assume "length ready \<noteq> n"
    then have "set ready \<noteq> {..<n}" using dist distinct_card by fastforce
    then obtain q where q: "q \<in> {..<n} - set ready" using sub by blast
    have "finite (edge_rel n sf)" using edges by (rule finite_subset) simp
    then have "wf (edge_rel n sf)" using ac by (rule finite_acyclic_wf)
    then obtain z where z: "z \<in> {..<n} - set ready"
      "\<And>y. (y, z) \<in> edge_rel n sf \<Longrightarrow> y \<notin> {..<n} - set ready"
      using q by (rule wfE_min) blast
    then have "unat (deg ! z) \<noteq> 0" using rdy by blast
    then have "(\<Sum>i\<in>{..<n} - set ready. count_list (sf i) z) \<noteq> 0"
      using deg [of z] z(1) by (metis DiffD1 lessThan_iff)
    then obtain i where "i \<in> {..<n} - set ready" "count_list (sf i) z \<noteq> 0"
      by (rule sum.not_neutral_contains_not_neutral)
    then show False using z(2) [of i] by (auto simp: count_list_0_iff)
  qed
  show "acyclic (edge_rel n sf)" if full: "length ready = n"
  proof -
    have all: "set ready = {..<n}"
      using full dist sub by (simp add: card_subset_eq distinct_card)
    define pos where "pos x = (LEAST k. k < n \<and> ready ! k = x)" for x
    have pos: "pos x < n \<and> ready ! pos x = x" if "x < n" for x
    proof -
      have "\<exists>k. k < n \<and> ready ! k = x" using that all full by (metis in_set_conv_nth lessThan_iff)
      then show ?thesis unfolding pos_def by (rule LeastI_ex)
    qed
    have less: "pos i < pos j" if "(i, j) \<in> edge_rel n sf" for i j
    proof -
      have ij: "i < n" "j < n" "j \<in> set (sf i)" using that edges by auto
      then have "i \<in> set (take (pos j) ready)" using ord [of "pos j" i] pos full by auto
      then obtain k where k: "k < pos j" "ready ! k = i" by (auto simp: in_set_conv_nth)
      then have "k < n \<and> ready ! k = i" using pos [OF ij(2)] by simp
      then have "pos i \<le> k" unfolding pos_def by (rule Least_le)
      then show ?thesis using k by simp
    qed
    have "n - pos j < n - pos i" if "(i, j) \<in> edge_rel n sf" for i j
    proof -
      have "pos j < n" using that edges pos [of j] by auto
      then show ?thesis using less [OF that] by linarith
    qed
    then show ?thesis by (rule acyclicI_order)
  qed
qed

lemma validate_correct:
  assumes "graph_view (length (im_nodes impl)) (succs impl)"
  shows "validate impl =
    Some (if acyclic (edge_rel (length (im_nodes impl)) (succs impl)) then Inr ()
          else Inl kCyclicDependency)"
  using kahn_loop_returns [OF kahn_inv_init [OF assms] assms] acyclic_iff_all_ready [OF _ assms]
  by (auto simp: validate_def Let_def)

section \<open>The graph invariant\<close>

definition graph_arena :: "'f Impl \<Rightarrow> arena" where
  "graph_arena impl = (map nd_successors (im_nodes impl), im_succPool impl)"

text \<open>
  The arena holds the successor lists, edges stay inside the graph, every dependency count is the
  number of edges into the node, and every stop source has a shared state.
\<close>

definition graph_ok :: "'f Impl \<Rightarrow> bool" where
  "graph_ok impl \<longleftrightarrow>
     arena_ok (graph_arena impl) \<and>
     (\<forall>i<length (im_nodes impl). set (succs impl i) \<subseteq> {..<length (im_nodes impl)}) \<and>
     (\<forall>j<length (im_nodes impl).
        unat (nd_predecessorCount (im_nodes impl ! j)) = indeg (length (im_nodes impl)) (succs impl) j) \<and>
     (\<forall>nd\<in>set (im_nodes impl). nd_stopSource nd < length (im_stops impl))"

lemma succs_arena: "i < length (im_nodes impl) \<Longrightarrow> succs impl i = map unat (arena_lists (graph_arena impl) ! i)"
  by (simp add: succs_def graph_arena_def arena_lists_def)

lemma length_arena_lists [simp]: "length (arena_lists (graph_arena impl)) = length (im_nodes impl)"
  by (simp add: graph_arena_def arena_lists_def)

lemma graph_ok_size: "graph_ok impl \<Longrightarrow> length (im_nodes impl) \<le> 65536"
  by (simp add: graph_ok_def graph_arena_def arena_ok_def)

lemma graph_ok_edges: "graph_ok impl \<Longrightarrow> (\<Sum>i<length (im_nodes impl). length (succs impl i)) < 2 ^ 31"
proof -
  assume ok: "graph_ok impl"
  let ?n = "length (im_nodes impl)"
  have "length (succs impl i) \<le> 32767" if "i < ?n" for i
    using ok that succ_arena.within_limit [of "graph_arena impl" i] by (simp add: graph_ok_def succs_arena)
  then have "(\<Sum>i<?n. length (succs impl i)) \<le> (\<Sum>i<?n. 32767)" by (intro sum_mono) simp
  also have "\<dots> \<le> 65536 * 32767" using graph_ok_size [OF ok] by simp
  finally show ?thesis by simp
qed

lemma graph_ok_view: "graph_ok impl \<Longrightarrow> graph_view (length (im_nodes impl)) (succs impl)"
  using graph_ok_edges [of impl] by (auto simp: graph_view_def graph_ok_def)

lemma graph_ok_new: "graph_ok (Impl_new a)"
  by (simp add: graph_ok_def Impl_new_def graph_arena_def arena_ok_def)

lemma addNode_cases:
  "addNode fn pre fl impl = Inr (idx, impl') \<Longrightarrow> length (im_nodes impl) \<le> 65535 \<and> idx = length (im_nodes impl) \<and>
    impl' = impl\<lparr>im_nodes := im_nodes impl @ [(Node_new (length (im_stops impl)))
                \<lparr>nd_fn := fn, nd_flags := fl, nd_nameStr := pre @ to_string idx\<rparr>],
              im_stops := im_stops impl @ [False], im_rootsCached := False\<rparr>"
  by (auto simp: addNode_def ensureNodeIndexFitsSuccessorStorage_def Let_def split: if_splits)

lemma arena_ok_snoc:
  assumes "arena_ok (pss, pool)" "length pss \<le> 65535"
  shows "arena_ok (pss @ [PoolSuccessors_new], pool)"
proof -
  have new: "ps_ok pool PoolSuccessors_new" "block PoolSuccessors_new = {}" "footprint PoolSuccessors_new = 0"
    by (simp_all add: ps_ok_def PoolSuccessors_new_def isPool_def succ_count_def block_def
        footprint_def kInlineCap_def)
  show ?thesis
    using assms new by (auto simp: arena_ok_def nth_append less_Suc_eq)
qed

lemma succs_snoc:
  assumes "im_nodes impl' = im_nodes impl @ [nd]" "im_succPool impl' = im_succPool impl"
    "nd_successors nd = PoolSuccessors_new"
  shows "i < length (im_nodes impl) \<Longrightarrow> succs impl' i = succs impl i"
    and "succs impl' (length (im_nodes impl)) = []"
  using assms
  by (auto simp: succs_def nth_append PoolSuccessors_new_def succ_range_def succ_count_def)

lemma graph_ok_snoc:
  assumes ok: "graph_ok impl" and n: "length (im_nodes impl) \<le> 65535"
    and nodes: "im_nodes impl' = im_nodes impl @ [nd]" and pool: "im_succPool impl' = im_succPool impl"
    and nd: "nd_successors nd = PoolSuccessors_new" "nd_predecessorCount nd = 0"
    and stop: "nd_stopSource nd < length (im_stops impl')" "length (im_stops impl) \<le> length (im_stops impl')"
  shows "graph_ok impl'"
proof -
  let ?n = "length (im_nodes impl)"
  have s_old: "succs impl' i = succs impl i" if "i < ?n" for i
    using that succs_snoc(1) [OF nodes pool nd(1)] by simp
  have s_new: "succs impl' ?n = []" using succs_snoc(2) [OF nodes pool nd(1)] by simp
  have ar: "arena_ok (graph_arena impl')"
    using ok n nodes pool nd arena_ok_snoc by (simp add: graph_ok_def graph_arena_def)
  have ind: "indeg (length (im_nodes impl')) (succs impl') j = indeg ?n (succs impl) j" for j
    using nodes s_old s_new by (simp add: indeg_def)
  have "indeg ?n (succs impl) ?n = 0"
    using ok by (fastforce simp: indeg_def graph_ok_def count_list_0_iff)
  then show ?thesis
    using ok ar s_old s_new nodes nd stop
    unfolding graph_ok_def ind
    by (auto simp: nth_append less_Suc_eq) (fastforce+)?
qed

lemma indeg_append:
  assumes "from < n" "\<And>i. i < n \<Longrightarrow> sf' i = (if i = from then sf from @ [to] else sf i)"
  shows "indeg n sf' j = indeg n sf j + (if j = to then 1 else 0)"
proof -
  have "indeg n sf' j = (\<Sum>i<n. count_list (sf i) j + (if i = from \<and> j = to then 1 else 0))"
    unfolding indeg_def using assms(2) by (intro sum.cong) auto
  also have "\<dots> = indeg n sf j + (\<Sum>i<n. if i = from \<and> j = to then 1 else 0)"
    by (simp add: sum.distrib indeg_def)
  also have "(\<Sum>i<n. if i = from \<and> j = to then 1 else (0::nat)) = (if j = to then 1 else 0)"
    using assms(1) by (cases "j = to") (simp_all add: sum.delta)
  finally show ?thesis .
qed

lemma add_edge_push:
  assumes ok: "graph_ok impl" and ft: "from < length (im_nodes impl)" "to < length (im_nodes impl)"
    and room: "length (succs impl from) < 32767"
  shows "\<exists>impl'. add_edge from to impl = (impl', None) \<and> arena_ok (graph_arena impl') \<and>
    arena_lists (graph_arena impl') = (arena_lists (graph_arena impl))
      [from := arena_lists (graph_arena impl) ! from @ [word_of_nat to]] \<and>
    length (im_nodes impl') = length (im_nodes impl) \<and> im_stops impl' = im_stops impl \<and>
    (\<forall>k<length (im_nodes impl). \<exists>ps. im_nodes impl' ! k = (im_nodes impl ! k)
       \<lparr>nd_successors := ps, nd_predecessorCount :=
          nd_predecessorCount (im_nodes impl ! k) + (if k = to then 1 else 0)\<rparr>)"
proof -
  let ?n = "length (im_nodes impl)"
  have aok: "arena_ok (graph_arena impl)" using ok by (simp add: graph_ok_def)
  have "length (arena_lists (graph_arena impl) ! from) < 32767" using room ft by (simp add: succs_arena)
  then obtain a' where a': "arena_push from (word_of_nat to) (graph_arena impl) = Inr a'" "arena_ok a'"
    "arena_lists a' = (arena_lists (graph_arena impl))
      [from := arena_lists (graph_arena impl) ! from @ [word_of_nat to]]"
    using arena_push_room [OF aok] ft by fastforce
  from a'(1) ft obtain ps pool where push:
    "push_back (word_of_nat to) (nd_successors (im_nodes impl ! from)) (im_succPool impl) = Inr (ps, pool)"
    and a'_eq: "a' = ((map nd_successors (im_nodes impl))[from := ps], pool)"
    by (auto simp: arena_push_def graph_arena_def split: sum.splits prod.splits)
  define impl' where "impl' = fst (add_edge from to impl)"
  have e: "add_edge from to impl = (impl', None)"
    using push by (simp add: impl'_def add_edge_def Let_def)
  have nodes: "im_nodes impl' ! k = (im_nodes impl ! k)
       \<lparr>nd_successors := if k = from then ps else nd_successors (im_nodes impl ! k), nd_predecessorCount :=
          nd_predecessorCount (im_nodes impl ! k) + (if k = to then 1 else 0)\<rparr>" if "k < ?n" for k
    using push ft that by (simp add: impl'_def add_edge_def Let_def upd_node_def nth_list_update)
  have len: "length (im_nodes impl') = ?n" and st: "im_stops impl' = im_stops impl"
    and pl: "im_succPool impl' = pool"
    using push by (simp_all add: impl'_def add_edge_def Let_def upd_node_def)
  have "graph_arena impl' = a'"
    unfolding graph_arena_def a'_eq using len nodes pl
    by (auto intro!: nth_equalityI simp: nth_list_update)
  with e a' nodes len st show ?thesis by blast
qed

lemma add_edge_ok:
  assumes ok: "graph_ok impl" and ft: "from < length (im_nodes impl)" "to < length (im_nodes impl)"
    and room: "length (succs impl from) < 32767"
  shows "\<exists>impl'. add_edge from to impl = (impl', None) \<and> graph_ok impl' \<and>
    length (im_nodes impl') = length (im_nodes impl) \<and>
    (\<forall>i<length (im_nodes impl).
       succs impl' i = (if i = from then succs impl from @ [to] else succs impl i))"
proof -
  let ?n = "length (im_nodes impl)"
  obtain impl' where e: "add_edge from to impl = (impl', None)"
    and aok: "arena_ok (graph_arena impl')"
    and lists: "arena_lists (graph_arena impl') = (arena_lists (graph_arena impl))
      [from := arena_lists (graph_arena impl) ! from @ [word_of_nat to]]"
    and len: "length (im_nodes impl') = ?n" and st: "im_stops impl' = im_stops impl"
    and nodes: "\<And>k. k < ?n \<Longrightarrow> \<exists>ps. im_nodes impl' ! k = (im_nodes impl ! k)
       \<lparr>nd_successors := ps, nd_predecessorCount :=
          nd_predecessorCount (im_nodes impl ! k) + (if k = to then 1 else 0)\<rparr>"
    using add_edge_push [OF assms] by blast
  have to16: "unat (word_of_nat to :: u16) = to"
    using ft graph_ok_size [OF ok] by (simp add: unat_of_nat take_bit_eq_mod)
  have ss: "succs impl' i = (if i = from then succs impl from @ [to] else succs impl i)" if "i < ?n" for i
    using that len lists ft by (simp add: succs_arena nth_list_update to16)
  have ind: "indeg ?n (succs impl') j = indeg ?n (succs impl) j + (if j = to then 1 else 0)" for j
    by (rule indeg_append [OF ft(1) ss])
  have cnt: "unat (nd_predecessorCount (im_nodes impl' ! j)) = indeg ?n (succs impl') j" if j: "j < ?n" for j
  proof -
    have "unat (nd_predecessorCount (im_nodes impl ! j)) = indeg ?n (succs impl) j"
      using ok j by (simp add: graph_ok_def)
    moreover have "indeg ?n (succs impl) j < 2 ^ 31"
      unfolding indeg_def
      by (rule le_less_trans [OF sum_mono [OF count_list_le_length] graph_ok_edges [OF ok]])
    ultimately show ?thesis
      using nodes [OF j] ind by (auto simp: unat_word_ariths)
  qed
  have stops: "nd_stopSource (im_nodes impl' ! k) < length (im_stops impl')" if "k < ?n" for k
    using ok nodes [OF that] that st by (auto simp: graph_ok_def)
  have inside: "set (succs impl' i) \<subseteq> {..<?n}" if "i < ?n" for i
    using ok ss [OF that] that ft by (auto simp: graph_ok_def)
  have "graph_ok impl'"
    unfolding graph_ok_def using aok len cnt stops inside by (auto simp: all_set_conv_all_nth)
  then show ?thesis using e len ss by blast
qed

lemma add_edge_full:
  assumes ok: "graph_ok impl" and ft: "from < length (im_nodes impl)"
    and full: "length (succs impl from) = 32767"
  shows "add_edge from to impl = (impl\<lparr>im_rootsCached := False\<rparr>,
    Some (HardError ''A job cannot have more than 32767 successors''))"
proof -
  have "arena_push from (word_of_nat to) (graph_arena impl) =
      Inl (HardError ''A job cannot have more than 32767 successors'')"
    using ok ft full by (intro arena_push_full) (auto simp: graph_ok_def succs_arena)
  then show ?thesis
    using ft by (auto simp: arena_push_def graph_arena_def add_edge_def split: sum.splits prod.splits)
qed

section \<open>Everything the builder API reaches\<close>

text \<open>One rule per public operation that builds or edits the graph, rejected calls included.\<close>

inductive build_step :: "'f Impl \<Rightarrow> 'f Impl \<Rightarrow> bool" where
  plain: "emplacePlain fn s = Inr (j, t) \<Longrightarrow> build_step s t"
| cancellable: "emplaceCancellable fn s = Inr (j, t) \<Longrightarrow> build_step s t"
| deferred: "emplaceDeferred fn s = Inr (j, t) \<Longrightarrow> build_step s t"
| on_demand: "addOnDemand fn s = Inr (j, t) \<Longrightarrow> build_step s t"
| on_demand_cancellable: "addOnDemandCancellable fn s = Inr (j, t) \<Longrightarrow> build_step s t"
| name: "Job_name n j s = Inr t \<Longrightarrow> build_step s t"
| timeout: "Job_timeout d j s = Inr t \<Longrightarrow> build_step s t"
| stack: "Job_stack b j s = Inr t \<Longrightarrow> build_step s t"
| core: "Job_core c j s = Inr t \<Longrightarrow> build_step s t"
| priority: "Job_priority p j s = Inr t \<Longrightarrow> build_step s t"
| optional: "Job_optional opt j s = Inr t \<Longrightarrow> build_step s t"
| statusText: "Job_statusText x j s = Inr t \<Longrightarrow> build_step s t"
| cancel: "Job_cancel j s = Inr t \<Longrightarrow> build_step s t"
| succeed: "Job_succeed j o' s = (t, e) \<Longrightarrow> build_step s t"
| precede: "Job_precede j o' s = (t, e) \<Longrightarrow> build_step s t"
| succeed_group: "Job_succeed_group j os s = (t, e) \<Longrightarrow> build_step s t"
| precede_group: "Job_precede_group j os s = (t, e) \<Longrightarrow> build_step s t"
| group_succeed: "JobGroup_succeed js o' s = (t, e) \<Longrightarrow> build_step s t"
| group_succeed_group: "JobGroup_succeed_group js os s = (t, e) \<Longrightarrow> build_step s t"
| group_precede: "JobGroup_precede js o' s = (t, e) \<Longrightarrow> build_step s t"
| group_precede_group: "JobGroup_precede_group js os s = (t, e) \<Longrightarrow> build_step s t"

definition built :: "'f Impl \<Rightarrow> bool" where
  "built = reach (\<lambda>s. \<exists>a. s = Impl_new a) build_step"

lemma graph_ok_frame:
  assumes "graph_ok s" "im_succPool t = im_succPool s" "length (im_stops t) = length (im_stops s)"
    "length (im_nodes t) = length (im_nodes s)"
    "\<And>k. k < length (im_nodes s) \<Longrightarrow>
       nd_successors (im_nodes t ! k) = nd_successors (im_nodes s ! k) \<and>
       nd_predecessorCount (im_nodes t ! k) = nd_predecessorCount (im_nodes s ! k) \<and>
       nd_stopSource (im_nodes t ! k) = nd_stopSource (im_nodes s ! k)"
  shows "graph_ok t"
proof -
  have "map nd_successors (im_nodes t) = map nd_successors (im_nodes s)"
    using assms by (intro nth_equalityI) auto
  then have ar: "graph_arena t = graph_arena s" using assms(2) by (simp add: graph_arena_def)
  have ss: "succs t k = succs s k" if "k < length (im_nodes s)" for k
    using that assms by (simp add: succs_def)
  then have "indeg (length (im_nodes s)) (succs t) = indeg (length (im_nodes s)) (succs s)"
    by (simp add: indeg_def fun_eq_iff)
  then show ?thesis
    using assms ar ss by (auto simp: graph_ok_def all_set_conv_all_nth)
qed

lemma graph_ok_upd_node:
  assumes "graph_ok s" "\<And>nd. nd_successors (g nd) = nd_successors nd \<and>
      nd_predecessorCount (g nd) = nd_predecessorCount nd \<and> nd_stopSource (g nd) = nd_stopSource nd"
  shows "graph_ok (upd_node i g s)"
  using assms(1) by (rule graph_ok_frame) (auto simp: upd_node_def nth_update_iff assms(2))

lemma graph_ok_job_update:
  assumes "job_update j g s = Inr t" "graph_ok s" "\<And>nd. nd_successors (g nd) = nd_successors nd \<and>
      nd_predecessorCount (g nd) = nd_predecessorCount nd \<and> nd_stopSource (g nd) = nd_stopSource nd"
  shows "graph_ok t"
  using assms graph_ok_upd_node [OF assms(2,3)] by (auto simp: job_update_def split: if_splits)

lemma graph_ok_addNode:
  assumes "addNode fn pre fl s = Inr (i, t)" "graph_ok s"
  shows "graph_ok t"
  using graph_ok_snoc [OF assms(2), of t] addNode_cases [OF assms(1)] by (auto simp: Node_new_def)

lemma graph_ok_handle:
  assumes "job_handle r = Inr (j, t)" "\<And>i t. r = Inr (i, t) \<Longrightarrow> graph_ok t"
  shows "graph_ok t"
  using assms by (cases r) (auto simp: job_handle_def)

lemma graph_ok_edge:
  assumes ok: "graph_ok s" and ft: "from < length (im_nodes s)" "to < length (im_nodes s)"
  shows "graph_ok (fst (add_edge from to s))"
proof (cases "length (succs s from) < 32767")
  case True
  then show ?thesis using add_edge_ok [OF ok ft] by auto
next
  case False
  then have "length (succs s from) = 32767"
    using ok ft succ_arena.within_limit [of "graph_arena s" "from"] by (simp add: graph_ok_def succs_arena)
  from add_edge_full [OF ok ft(1) this] show ?thesis
    using ok by (auto intro: graph_ok_frame)
qed

lemma graph_ok_succeed: "Job_succeed j o' s = (t, e) \<Longrightarrow> graph_ok s \<Longrightarrow> graph_ok t"
  using graph_ok_edge [of s "unat (jb_idx o')" "unat (jb_idx j)"]
  by (auto simp: Job_succeed_def split: if_splits)

lemma graph_ok_precede: "Job_precede j o' s = (t, e) \<Longrightarrow> graph_ok s \<Longrightarrow> graph_ok t"
  using graph_ok_edge [of s "unat (jb_idx j)" "unat (jb_idx o')"]
  by (auto simp: Job_precede_def split: if_splits)

lemma graph_ok_for_jobs:
  assumes "\<And>j s t e. g j s = (t, e) \<Longrightarrow> graph_ok s \<Longrightarrow> graph_ok t"
  shows "for_jobs g js s = (t, e) \<Longrightarrow> graph_ok s \<Longrightarrow> graph_ok t"
  by (induction js arbitrary: s) (auto split: prod.splits option.splits dest: assms)

lemmas build_group_defs = Job_succeed_group_def Job_precede_group_def JobGroup_succeed_def
  JobGroup_succeed_group_def JobGroup_precede_def JobGroup_precede_group_def

lemmas build_field_defs = Job_name_def Job_timeout_def Job_stack_def Job_core_def Job_priority_def
  Job_optional_def Job_statusText_def

lemma graph_ok_deferred:
  assumes "emplaceDeferred fn s = Inr (j, t)" "graph_ok s"
  shows "graph_ok t"
proof -
  obtain i t1 where a: "addNode NoFn ''job_'' kFlagDeferred s = Inr (i, t1)"
    and t: "t = (upd_node i (\<lambda>nd. nd\<lparr>nd_deferred := Some (DeferredSlot_new fn)\<rparr>) t1)
      \<lparr>im_deferredNodes := im_deferredNodes t1 @ [i]\<rparr>"
    using assms(1) by (auto simp: emplaceDeferred_def job_handle_def split: sum.splits)
  have "graph_ok (upd_node i (\<lambda>nd. nd\<lparr>nd_deferred := Some (DeferredSlot_new fn)\<rparr>) t1)"
    by (rule graph_ok_upd_node [OF graph_ok_addNode [OF a assms(2)]]) simp
  then show ?thesis by (rule graph_ok_frame) (simp_all add: t)
qed

lemma graph_ok_cancel: "Job_cancel j s = Inr t \<Longrightarrow> graph_ok s \<Longrightarrow> graph_ok t"
  by (auto simp: Job_cancel_def request_stop_def split: if_splits intro: graph_ok_frame)

lemma graph_ok_step: "build_step s t \<Longrightarrow> graph_ok s \<Longrightarrow> graph_ok t"
proof (induction rule: build_step.induct)
  case (deferred fn s j t)
  then show ?case by (rule graph_ok_deferred)
next
  case (cancel j s t)
  then show ?case by (rule graph_ok_cancel)
qed (auto simp: build_group_defs build_field_defs emplacePlain_def emplaceCancellable_def
    addOnDemand_def addOnDemandCancellable_def
    intro: graph_ok_handle graph_ok_addNode graph_ok_job_update graph_ok_succeed graph_ok_precede
    elim!: graph_ok_for_jobs [rotated 1])

interpretation build: inductive_invariant "\<lambda>s. \<exists>a. s = Impl_new a" build_step graph_ok
  by unfold_locales (auto intro: graph_ok_new graph_ok_step)

lemma built_graph_ok: "built s \<Longrightarrow> graph_ok s"
  unfolding built_def by (rule build.reach_inv)

lemma built_step: "built s \<Longrightarrow> build_step s t \<Longrightarrow> built t"
  unfolding built_def by (rule reach_step)

lemma built_new: "built (Impl_new a)"
  unfolding built_def by (rule reach_init) blast

section \<open>Two small graphs\<close>

text \<open>Two plain jobs, the second after the first; and one job that depends on itself.\<close>

definition example_two :: "nat Impl" where
  "example_two =
     (case emplacePlain 0 (Impl_new 0) of
        Inl _ \<Rightarrow> Impl_new 0
      | Inr (_, s) \<Rightarrow> (case emplacePlain 1 s of Inl _ \<Rightarrow> s | Inr (_, t) \<Rightarrow> t))"

abbreviation example_job :: "nat \<Rightarrow> Job" where
  "example_job i \<equiv> \<lparr>jb_idx = word_of_nat i, jb_anchor = Some 0\<rparr>"

definition example_chain :: "nat Impl" where
  "example_chain = fst (Job_succeed (example_job 1) (example_job 0) example_two)"

definition example_loop :: "nat Impl" where
  "example_loop = fst (Job_succeed (example_job 0) (example_job 0) example_chain)"

lemma built_example_two: "built example_two"
proof -
  obtain j s where s: "emplacePlain (0::nat) (Impl_new 0) = Inr (j, s)"
    by (auto simp: emplacePlain_def job_handle_def addNode_def ensureNodeIndexFitsSuccessorStorage_def
        Impl_new_def Let_def)
  then have n: "length (im_nodes s) = 1"
    by (auto simp: emplacePlain_def job_handle_def addNode_def ensureNodeIndexFitsSuccessorStorage_def
        Impl_new_def Let_def)
  then obtain j' t where t: "emplacePlain (1::nat) s = Inr (j', t)"
    by (auto simp: emplacePlain_def job_handle_def addNode_def ensureNodeIndexFitsSuccessorStorage_def
        Let_def)
  show ?thesis
    using built_step [OF built_step [OF built_new build_step.plain [OF s]] build_step.plain [OF t]] s t
    by (simp add: example_two_def)
qed

lemma built_example_chain: "built example_chain"
  unfolding example_chain_def
  by (rule built_step [OF built_example_two build_step.succeed [OF surjective_pairing]])

lemma built_example_loop: "built example_loop"
  unfolding example_loop_def
  by (rule built_step [OF built_example_chain build_step.succeed [OF surjective_pairing]])

lemmas example_defs = example_two_def example_chain_def example_loop_def emplacePlain_def
  job_handle_def addNode_def ensureNodeIndexFitsSuccessorStorage_def Impl_new_def Node_new_def
  Job_succeed_def Job_valid_def cInvalid_def add_edge_def push_back_def upd_node_def succs_def
  succ_range_def succ_count_def isPool_def PoolSuccessors_new_def kInlineCap_def kCountMask_def
  kPoolFlag_def

lemma example_chain_shape:
  "length (im_nodes example_chain) = 2" "succs example_chain 0 = [1]" "succs example_chain (Suc 0) = []"
  by (simp_all add: example_defs, simp_all add: numeral_eq_Suc)

lemma example_loop_shape:
  "length (im_nodes example_loop) = 2" "succs example_loop 0 = [1, 0]" "succs example_loop (Suc 0) = []"
  by (simp_all add: example_defs, simp_all add: numeral_eq_Suc)

section \<open>Properties\<close>

text \<open>
  C3. Whatever sequence of builder calls made the graph, rejected ones included: it has at most
  65,536 nodes, every recorded successor is a node of the graph, and the dependency count of each
  node, kept apart from the successor lists, is exactly the number of edges into it.
\<close>

theorem built_graph_consistent:
  assumes "built s"
  shows "length (im_nodes s) \<le> 65536 \<and>
    (\<forall>i<length (im_nodes s). set (succs s i) \<subseteq> {..<length (im_nodes s)}) \<and>
    (\<forall>j<length (im_nodes s). unat (nd_predecessorCount (im_nodes s ! j)) =
       (\<Sum>i<length (im_nodes s). count_list (succs s i) j))"
  using built_graph_ok [OF assms] graph_ok_size by (auto simp: graph_ok_def indeg_def)

theorem built_graph_consistent_witness:
  "built example_chain \<and> unat (nd_predecessorCount (im_nodes example_chain ! 1)) = 1"
  using built_graph_consistent [OF built_example_chain] built_example_chain
  by (simp add: example_chain_shape numeral_2_eq_2)

text \<open>
  C4. \<^verbatim>\<open>validate\<close> terminates on every graph the API can build and reports \<^verbatim>\<open>kCyclicDependency\<close>
  exactly when the dependency relation has a cycle.
\<close>

theorem validate_detects_cycles:
  assumes "built s"
  shows "validate s =
    Some (if acyclic {(i, j). i < length (im_nodes s) \<and> j \<in> set (succs s i)} then Inr ()
          else Inl kCyclicDependency)"
  by (rule validate_correct [OF graph_ok_view [OF built_graph_ok [OF assms]]])

theorem validate_detects_cycles_witness:
  "validate example_chain = Some (Inr ()) \<and> validate example_loop = Some (Inl kCyclicDependency)"
proof -
  have e: "{(i, j). i < 2 \<and> j \<in> set (succs example_chain i)} = {(0, 1)}"
    by (auto simp: less_2_cases_iff example_chain_shape)
  have "acyclic {(0::nat, 1::nat)}" by (rule acyclicI_order [of _ "\<lambda>i. 1 - i"]) auto
  moreover have "(0, 0) \<in> {(i, j). i < 2 \<and> j \<in> set (succs example_loop i)}"
    by (simp add: example_loop_shape)
  then have "\<not> acyclic {(i, j). i < 2 \<and> j \<in> set (succs example_loop i)}"
    by (meson acyclic_def r_into_trancl)
  ultimately show ?thesis
    using validate_detects_cycles [OF built_example_chain] validate_detects_cycles [OF built_example_loop]
    by (simp add: example_chain_shape(1) example_loop_shape(1) e)
qed

end
