(* ===== verification/TaskBags.thy ===== *)
theory TaskBags
  imports Prelude "HOL-Library.Multiset"
begin

text \<open>
  Multisets of tasks, in which the step relations keep the threads that are inside an operation: a step takes a task out
  of the bag and puts its next stage back, and invariants count tasks with weights.
\<close>

lemma sum_task_remove:
  fixes f :: "'a \<Rightarrow> nat"
  assumes "a \<in># M"
  shows "(\<Sum>x\<in>#M. f x) = f a + (\<Sum>x\<in>#M - {#a#}. f x)"
  using assms by (metis insert_DiffM image_mset_add_mset sum_mset.add_mset)

lemma in_remove_other: "x \<noteq> y \<Longrightarrow> x \<in># M - {#y#} \<longleftrightarrow> x \<in># M"
  by (simp add: in_diff_count)

lemma reach_steps: "step\<^sup>*\<^sup>* s t \<Longrightarrow> reach init step s \<Longrightarrow> reach init step t"
  by (induction rule: rtranclp_induct) (auto intro: reach_step)

end
