(* ===== verification/Dsl.thy ===== *)
theory Dsl
  imports Graph TaskBags
begin

text \<open>
  The operators of \<^verbatim>\<open>include/sub0pipeline/dsl.hpp\<close> with \<^verbatim>\<open>JobGroup\<close> of \<^verbatim>\<open>job_group.hpp\<close>: job descriptors,
  groups of descriptors, and the overloads of \<^verbatim>\<open>>>\<close> and \<^verbatim>\<open>+\<close> that add jobs and edges. Each overload is one definition; \<open>shift\<close>
  picks the overload by the kinds of the operands, and \<open>shifts\<close> evaluates a whole expression
  \<^verbatim>\<open>pipe >> a >> b + c >> d\<close> from left to right. An abstract reading of such an expression, \<open>wiring\<close>, says which jobs and edges it
  should add; the operators are shown to add exactly these.

  All handles of an expression belong to the pipeline whose state is passed along. An operator returns the state it leaves
  and its value or what it throws; dereferencing the null pipeline of an empty handle and \<^verbatim>\<open>front()\<close> of an empty group, for which
  the code has no defined behaviour, are \<open>OutOfRange\<close>.
\<close>

section \<open>Descriptors\<close>

text \<open>
  The callable of a descriptor selects an overload of \<^verbatim>\<open>Pipeline::emplace\<close>: \<open>Cooperative\<close> ones take a
  \<^verbatim>\<open>std::stop_token\<close>.
\<close>

datatype 'f Callable = Plain 'f | Cooperative 'f

record 'f JobSpec =
  js_name :: string
  js_fn :: "'f Callable"
  js_timeout :: int
  js_priority :: u8
  js_coreAffinity :: int
  js_stackBytes :: u32
  js_isOptional :: bool

definition JobSpec_new :: "string \<Rightarrow> 'f Callable \<Rightarrow> 'f JobSpec" where
  "JobSpec_new name fn = \<lparr>js_name = name, js_fn = fn, js_timeout = 0, js_priority = 0, js_coreAffinity = -1,
     js_stackBytes = 0, js_isOptional = False\<rparr>"

definition JobSpec_timeout :: "int \<Rightarrow> 'f JobSpec \<Rightarrow> 'f JobSpec" where
  "JobSpec_timeout t spec = spec\<lparr>js_timeout := t\<rparr>"
definition JobSpec_priority :: "u8 \<Rightarrow> 'f JobSpec \<Rightarrow> 'f JobSpec" where
  "JobSpec_priority p spec = spec\<lparr>js_priority := p\<rparr>"
definition JobSpec_core :: "int \<Rightarrow> 'f JobSpec \<Rightarrow> 'f JobSpec" where
  "JobSpec_core c spec = spec\<lparr>js_coreAffinity := c\<rparr>"
definition JobSpec_stack :: "u32 \<Rightarrow> 'f JobSpec \<Rightarrow> 'f JobSpec" where
  "JobSpec_stack bytes spec = spec\<lparr>js_stackBytes := bytes\<rparr>"
definition JobSpec_optional :: "bool \<Rightarrow> 'f JobSpec \<Rightarrow> 'f JobSpec" where
  "JobSpec_optional opt spec = spec\<lparr>js_isOptional := opt\<rparr>"

text \<open>\<^verbatim>\<open>"name"_job(fn)\<close> and \<^verbatim>\<open>job(fn)\<close>.\<close>

definition named_job :: "string \<Rightarrow> 'f Callable \<Rightarrow> 'f JobSpec" where
  "named_job str fn = JobSpec_new str fn"
definition unnamed_job :: "'f Callable \<Rightarrow> 'f JobSpec" where
  "unnamed_job fn = JobSpec_new [] fn"

definition Pipeline_emplace :: "'f Callable \<Rightarrow> 'f Impl \<Rightarrow> (Job \<times> 'f Impl) cpp" where
  "Pipeline_emplace fn impl = (case fn of Plain f \<Rightarrow> emplacePlain f impl | Cooperative f \<Rightarrow> emplaceCancellable f impl)"

text \<open>\<^verbatim>\<open>if (c) j.setter(...)\<close> in a sequence of such statements.\<close>

definition set_if :: "bool \<Rightarrow> ('f Impl \<Rightarrow> 'f Impl cpp) \<Rightarrow> 'f Impl cpp \<Rightarrow> 'f Impl cpp" where
  "set_if c g r = (case r of Inl e \<Rightarrow> Inl e | Inr s \<Rightarrow> if c then g s else Inr s)"

definition apply_options :: "'f JobSpec \<Rightarrow> Job \<Rightarrow> 'f Impl \<Rightarrow> 'f Impl cpp" where
  "apply_options spec j s =
     set_if (js_isOptional spec) (Job_optional True j)
       (set_if (js_stackBytes spec > 0) (Job_stack (js_stackBytes spec) j)
         (set_if (js_coreAffinity spec \<ge> 0) (Job_core (js_coreAffinity spec) j)
           (set_if (js_priority spec > 0) (Job_priority (js_priority spec) j)
             (set_if (js_timeout spec > 0) (Job_timeout (js_timeout spec) j)
               (set_if (js_name spec \<noteq> []) (Job_name (js_name spec) j) (Inr s))))))"

text \<open>The outcome of an operator: the state it leaves, and its value or what was thrown.\<close>

type_synonym ('f, 'a) outcome = "'f Impl \<times> 'a cpp"

definition JobSpec_build :: "'f JobSpec \<Rightarrow> 'f Impl \<Rightarrow> ('f, Job) outcome" where
  "JobSpec_build spec impl =
     (case Pipeline_emplace (js_fn spec) impl of
        Inl e \<Rightarrow> (impl, Inl e)
      | Inr (j, s) \<Rightarrow> (case apply_options spec j s of Inl e \<Rightarrow> (s, Inl e) | Inr t \<Rightarrow> (t, Inr j)))"

section \<open>Groups\<close>

text \<open>\<^verbatim>\<open>JobGroup\<close>, \<^verbatim>\<open>JobTuple\<close> and the layers of a \<^verbatim>\<open>JobTupleChain\<close> are lists of handles.\<close>

definition JobGroup_add :: "Job list \<Rightarrow> Job \<Rightarrow> Job list" where
  "JobGroup_add jobs j = jobs @ [j]"

definition parallel :: "Job list \<Rightarrow> Job list" where
  "parallel jobs = foldl JobGroup_add [] jobs"

definition JobTuple_group :: "Job list \<Rightarrow> Job list" where
  "JobTuple_group tuple = foldl JobGroup_add [] tuple"

definition and_then :: "('f, 'a) outcome \<Rightarrow> ('a \<Rightarrow> 'f Impl \<Rightarrow> ('f, 'b) outcome) \<Rightarrow> ('f, 'b) outcome" where
  "and_then r k = (case r of (s, Inl e) \<Rightarrow> (s, Inl e) | (s, Inr x) \<Rightarrow> k x s)"

text \<open>A call that only changes the state, followed by the value that the operator returns.\<close>

definition giving :: "'f Impl \<times> cpp_error option \<Rightarrow> 'a \<Rightarrow> ('f, 'a) outcome" where
  "giving r x = (case r of (s, Some e) \<Rightarrow> (s, Inl e) | (s, None) \<Rightarrow> (s, Inr x))"

text \<open>\<^verbatim>\<open>buildAll\<close>, the pack expansions \<^verbatim>\<open>{specs.build(pipe)...}\<close> of the tuple operators, and \<^verbatim>\<open>Pipeline::emplace(specs...)\<close>.\<close>

fun buildAll :: "'f JobSpec list \<Rightarrow> 'f Impl \<Rightarrow> ('f, Job list) outcome" where
  "buildAll [] impl = (impl, Inr [])"
| "buildAll (spec # specs) impl =
     and_then (JobSpec_build spec impl) (\<lambda>j s. and_then (buildAll specs s) (\<lambda>js t. (t, Inr (j # js))))"

text \<open>\<^verbatim>\<open>*lhs.pipeline()\<close>, and \<^verbatim>\<open>*lhs.jobs().front().pipeline()\<close>.\<close>

definition in_pipeline_of :: "Job \<Rightarrow> ('f Impl \<Rightarrow> ('f, 'a) outcome) \<Rightarrow> 'f Impl \<Rightarrow> ('f, 'a) outcome" where
  "in_pipeline_of j k impl = (if jb_anchor j = None then (impl, Inl OutOfRange) else k impl)"

definition in_pipeline_of_front :: "Job list \<Rightarrow> ('f Impl \<Rightarrow> ('f, 'a) outcome) \<Rightarrow> 'f Impl \<Rightarrow> ('f, 'a) outcome" where
  "in_pipeline_of_front jobs k impl = (case jobs of [] \<Rightarrow> (impl, Inl OutOfRange) | j # _ \<Rightarrow> in_pipeline_of j k impl)"

section \<open>Operators\<close>

definition plus_job_job :: "Job \<Rightarrow> Job \<Rightarrow> Job list" where
  "plus_job_job lhs rhs = [lhs, rhs]"
definition plus_group_job :: "Job list \<Rightarrow> Job \<Rightarrow> Job list" where
  "plus_group_job lhs rhs = JobGroup_add lhs rhs"
definition plus_group_group :: "Job list \<Rightarrow> Job list \<Rightarrow> Job list" where
  "plus_group_group lhs rhs = foldl JobGroup_add lhs rhs"
definition plus_spec_spec :: "'f JobSpec \<Rightarrow> 'f JobSpec \<Rightarrow> 'f JobSpec list" where
  "plus_spec_spec lhs rhs = [lhs, rhs]"
definition plus_specs_spec :: "'f JobSpec list \<Rightarrow> 'f JobSpec \<Rightarrow> 'f JobSpec list" where
  "plus_specs_spec lhs rhs = lhs @ [rhs]"

definition job_job :: "Job \<Rightarrow> Job \<Rightarrow> 'f Impl \<Rightarrow> ('f, Job) outcome" where
  "job_job lhs rhs impl = giving (Job_precede lhs rhs impl) rhs"
definition job_group :: "Job \<Rightarrow> Job list \<Rightarrow> 'f Impl \<Rightarrow> ('f, Job list) outcome" where
  "job_group lhs rhs impl = giving (for_jobs (Job_precede lhs) rhs impl) rhs"
definition group_job :: "Job list \<Rightarrow> Job \<Rightarrow> 'f Impl \<Rightarrow> ('f, Job) outcome" where
  "group_job lhs rhs impl = giving (for_jobs (\<lambda>j. Job_precede j rhs) lhs impl) rhs"

text \<open>\<^verbatim>\<open>for (auto l : lhs) for (auto r : rhs) l.precede(r)\<close>\<close>

definition precede_all :: "Job list \<Rightarrow> Job list \<Rightarrow> 'f Impl \<Rightarrow> 'f Impl \<times> cpp_error option" where
  "precede_all lhs rhs impl = for_jobs (\<lambda>l. for_jobs (\<lambda>r. Job_precede l r) rhs) lhs impl"

definition group_group :: "Job list \<Rightarrow> Job list \<Rightarrow> 'f Impl \<Rightarrow> ('f, Job list) outcome" where
  "group_group lhs rhs impl = giving (precede_all lhs rhs impl) rhs"

definition pipe_spec :: "'f JobSpec \<Rightarrow> 'f Impl \<Rightarrow> ('f, Job) outcome" where
  "pipe_spec spec impl = JobSpec_build spec impl"
definition job_spec :: "Job \<Rightarrow> 'f JobSpec \<Rightarrow> 'f Impl \<Rightarrow> ('f, Job) outcome" where
  "job_spec lhs rhs impl =
     and_then (in_pipeline_of lhs (JobSpec_build rhs) impl) (\<lambda>newJob s. giving (Job_precede lhs newJob s) newJob)"
definition pipe_specs :: "'f JobSpec list \<Rightarrow> 'f Impl \<Rightarrow> ('f, Job list) outcome" where
  "pipe_specs rhs impl = buildAll rhs impl"
definition job_specs :: "Job \<Rightarrow> 'f JobSpec list \<Rightarrow> 'f Impl \<Rightarrow> ('f, Job list) outcome" where
  "job_specs lhs rhs impl =
     and_then (in_pipeline_of lhs (buildAll rhs) impl) (\<lambda>group s. giving (for_jobs (Job_precede lhs) group s) group)"
definition group_specs :: "Job list \<Rightarrow> 'f JobSpec list \<Rightarrow> 'f Impl \<Rightarrow> ('f, Job list) outcome" where
  "group_specs lhs rhs impl =
     and_then (in_pipeline_of_front lhs (buildAll rhs) impl) (\<lambda>rhsGroup s. giving (precede_all lhs rhsGroup s) rhsGroup)"
definition group_spec :: "Job list \<Rightarrow> 'f JobSpec \<Rightarrow> 'f Impl \<Rightarrow> ('f, Job) outcome" where
  "group_spec lhs rhs impl =
     and_then (in_pipeline_of_front lhs (JobSpec_build rhs) impl)
       (\<lambda>newJob s. giving (for_jobs (\<lambda>j. Job_precede j newJob) lhs s) newJob)"

text \<open>The operators on tuples return their left operand, those on chains too unless they append a layer.\<close>

definition tuple_job :: "Job list \<Rightarrow> Job \<Rightarrow> 'f Impl \<Rightarrow> ('f, Job list) outcome" where
  "tuple_job lhs rhs impl = giving (for_jobs (\<lambda>j. Job_precede j rhs) lhs impl) lhs"
definition tuple_spec :: "Job list \<Rightarrow> 'f JobSpec \<Rightarrow> 'f Impl \<Rightarrow> ('f, Job list) outcome" where
  "tuple_spec lhs rhs impl =
     and_then (in_pipeline_of_front lhs (JobSpec_build rhs) impl)
       (\<lambda>newJob s. giving (for_jobs (\<lambda>j. Job_precede j newJob) lhs s) lhs)"
definition tuple_specs :: "Job list \<Rightarrow> 'f JobSpec list \<Rightarrow> 'f Impl \<Rightarrow> ('f, Job list list) outcome" where
  "tuple_specs lhs rhs impl =
     and_then (in_pipeline_of_front lhs (buildAll rhs) impl)
       (\<lambda>newLayer s. giving (precede_all lhs newLayer s) [lhs, newLayer])"

definition last_layer :: "Job list list \<Rightarrow> Job list" where
  "last_layer layers = last layers"
definition append_layer :: "Job list list \<Rightarrow> Job list \<Rightarrow> Job list list" where
  "append_layer layers newLayer = layers @ [newLayer]"

definition chain_job :: "Job list list \<Rightarrow> Job \<Rightarrow> 'f Impl \<Rightarrow> ('f, Job list list) outcome" where
  "chain_job lhs rhs impl = giving (for_jobs (\<lambda>j. Job_precede j rhs) (last_layer lhs) impl) lhs"
definition chain_spec :: "Job list list \<Rightarrow> 'f JobSpec \<Rightarrow> 'f Impl \<Rightarrow> ('f, Job list list) outcome" where
  "chain_spec lhs rhs impl =
     and_then (in_pipeline_of_front (last_layer lhs) (JobSpec_build rhs) impl)
       (\<lambda>newJob s. giving (for_jobs (\<lambda>j. Job_precede j newJob) (last_layer lhs) s) lhs)"
definition chain_specs :: "Job list list \<Rightarrow> 'f JobSpec list \<Rightarrow> 'f Impl \<Rightarrow> ('f, Job list list) outcome" where
  "chain_specs lhs rhs impl =
     and_then (in_pipeline_of_front (last_layer lhs) (buildAll rhs) impl)
       (\<lambda>newLayer s. giving (precede_all (last_layer lhs) newLayer s) (append_layer lhs newLayer))"

section \<open>Expressions\<close>

datatype operand = Pipe | OneJob Job | Group "Job list" | Tuple "Job list" | Chain "Job list list"

datatype 'f right = RJob Job | RGroup "Job list" | RSpec "'f JobSpec" | RSpecs "'f JobSpec list"

definition lift :: "('a \<Rightarrow> operand) \<Rightarrow> ('f, 'a) outcome \<Rightarrow> ('f, operand) outcome" where
  "lift c r = and_then r (\<lambda>x s. (s, Inr (c x)))"

text \<open>
  Overload resolution; \<open>None\<close> where no overload exists, so that the expression does not compile. A tuple on the left of a group
  is converted to a group.
\<close>

fun shift :: "operand \<Rightarrow> 'f right \<Rightarrow> ('f Impl \<Rightarrow> ('f, operand) outcome) option" where
  "shift Pipe (RSpec spec) = Some (\<lambda>s. lift OneJob (pipe_spec spec s))"
| "shift Pipe (RSpecs specs) = Some (\<lambda>s. lift Tuple (pipe_specs specs s))"
| "shift (OneJob lhs) (RJob rhs) = Some (\<lambda>s. lift OneJob (job_job lhs rhs s))"
| "shift (OneJob lhs) (RGroup rhs) = Some (\<lambda>s. lift Group (job_group lhs rhs s))"
| "shift (OneJob lhs) (RSpec rhs) = Some (\<lambda>s. lift OneJob (job_spec lhs rhs s))"
| "shift (OneJob lhs) (RSpecs rhs) = Some (\<lambda>s. lift Group (job_specs lhs rhs s))"
| "shift (Group lhs) (RJob rhs) = Some (\<lambda>s. lift OneJob (group_job lhs rhs s))"
| "shift (Group lhs) (RGroup rhs) = Some (\<lambda>s. lift Group (group_group lhs rhs s))"
| "shift (Group lhs) (RSpec rhs) = Some (\<lambda>s. lift OneJob (group_spec lhs rhs s))"
| "shift (Group lhs) (RSpecs rhs) = Some (\<lambda>s. lift Group (group_specs lhs rhs s))"
| "shift (Tuple lhs) (RJob rhs) = Some (\<lambda>s. lift Tuple (tuple_job lhs rhs s))"
| "shift (Tuple lhs) (RGroup rhs) = Some (\<lambda>s. lift Group (group_group (JobTuple_group lhs) rhs s))"
| "shift (Tuple lhs) (RSpec rhs) = Some (\<lambda>s. lift Tuple (tuple_spec lhs rhs s))"
| "shift (Tuple lhs) (RSpecs rhs) = Some (\<lambda>s. lift Chain (tuple_specs lhs rhs s))"
| "shift (Chain lhs) (RJob rhs) = Some (\<lambda>s. lift Chain (chain_job lhs rhs s))"
| "shift (Chain lhs) (RSpec rhs) = Some (\<lambda>s. lift Chain (chain_spec lhs rhs s))"
| "shift (Chain lhs) (RSpecs rhs) = Some (\<lambda>s. lift Chain (chain_specs lhs rhs s))"
| "shift _ _ = None"

fun shifts :: "operand \<Rightarrow> 'f right list \<Rightarrow> 'f Impl \<Rightarrow> ('f, operand) outcome option" where
  "shifts lhs [] impl = Some (impl, Inr lhs)"
| "shifts lhs (r # rs) impl =
     (case shift lhs r of
        None \<Rightarrow> None
      | Some f \<Rightarrow> (case f impl of
                     (s, Inl e) \<Rightarrow> Some (s, Inl e)
                   | (s, Inr lhs') \<Rightarrow> shifts lhs' rs s))"

section \<open>What an expression means\<close>

text \<open>
  The abstract reading: \<open>front\<close> are the jobs of the left operand that get successors, \<open>goals\<close> the jobs on the right, given or about
  to be created as the next nodes of the pipeline. An operator adds the descriptors on its right as jobs and one edge from every
  front job to every goal.
\<close>

fun front :: "operand \<Rightarrow> Job list" where
  "front Pipe = []"
| "front (OneJob j) = [j]"
| "front (Group js) = js"
| "front (Tuple js) = js"
| "front (Chain layers) = last layers"

fun specs_of :: "'f right \<Rightarrow> 'f JobSpec list" where
  "specs_of (RJob j) = []"
| "specs_of (RGroup js) = []"
| "specs_of (RSpec spec) = [spec]"
| "specs_of (RSpecs specs) = specs"

definition handle_at :: "nat \<Rightarrow> nat \<Rightarrow> Job" where
  "handle_at a i = \<lparr>jb_idx = word_of_nat i, jb_anchor = Some a\<rparr>"

fun goals :: "nat \<Rightarrow> nat \<Rightarrow> 'f right \<Rightarrow> Job list" where
  "goals a n (RJob j) = [j]"
| "goals a n (RGroup js) = js"
| "goals a n (RSpec spec) = [handle_at a n]"
| "goals a n (RSpecs specs) = map (handle_at a) [n..<n + length specs]"

definition index :: "Job \<Rightarrow> nat" where
  "index j = unat (jb_idx j)"

definition wiring :: "nat \<Rightarrow> nat \<Rightarrow> operand \<Rightarrow> 'f right \<Rightarrow> (nat \<times> nat) list" where
  "wiring a n l r = List.product (map index (front l)) (map index (goals a n r))"

fun value_of :: "nat \<Rightarrow> nat \<Rightarrow> operand \<Rightarrow> 'f right \<Rightarrow> operand" where
  "value_of a n (Tuple js) (RJob j) = Tuple js"
| "value_of a n (Tuple js) (RSpec spec) = Tuple js"
| "value_of a n (Tuple js) (RSpecs specs) = Chain [js, goals a n (RSpecs specs)]"
| "value_of a n (Chain layers) (RJob j) = Chain layers"
| "value_of a n (Chain layers) (RSpec spec) = Chain layers"
| "value_of a n (Chain layers) (RSpecs specs) = Chain (layers @ [goals a n (RSpecs specs)])"
| "value_of a n Pipe (RSpecs specs) = Tuple (goals a n (RSpecs specs))"
| "value_of a n l (RJob j) = OneJob j"
| "value_of a n l (RSpec spec) = OneJob (handle_at a n)"
| "value_of a n l (RGroup js) = Group js"
| "value_of a n l (RSpecs specs) = Group (goals a n (RSpecs specs))"

fun reading :: "nat \<Rightarrow> nat \<Rightarrow> operand \<Rightarrow> 'f right list \<Rightarrow> 'f JobSpec list \<times> (nat \<times> nat) list \<times> operand" where
  "reading a n l [] = ([], [], l)"
| "reading a n l (r # rs) =
     (case reading a (n + length (specs_of r)) (value_of a n l r) rs of
        (specs, es, l') \<Rightarrow> (specs_of r @ specs, wiring a n l r @ es, l'))"

fun compiles :: "nat \<Rightarrow> nat \<Rightarrow> operand \<Rightarrow> 'f right list \<Rightarrow> bool" where
  "compiles a n l [] = True"
| "compiles a n l (r # rs) \<longleftrightarrow> shift l r \<noteq> None \<and> compiles a (n + length (specs_of r)) (value_of a n l r) rs"

text \<open>The settings of a node that descriptors determine, and those a descriptor asks for.\<close>

definition settings :: "'f Node \<Rightarrow> 'f JobFn \<times> u8 \<times> u8 \<times> int \<times> u32 \<times> int \<times> string" where
  "settings nd = (nd_fn nd, nd_flags nd, nd_priority nd, nd_coreAffinity nd, nd_stackBytes nd, nd_timeout nd, nd_nameStr nd)"

definition asked :: "'f JobSpec \<Rightarrow> nat \<Rightarrow> 'f JobFn \<times> u8 \<times> u8 \<times> int \<times> u32 \<times> int \<times> string" where
  "asked spec i =
     (case js_fn spec of Plain f \<Rightarrow> IgnoringStop f | Cooperative f \<Rightarrow> TakesStop f,
      (case js_fn spec of Plain f \<Rightarrow> 0 | Cooperative f \<Rightarrow> kFlagCancellable) OR (if js_isOptional spec then kFlagOptional else 0),
      if js_priority spec = 0 then 5 else js_priority spec,
      if js_coreAffinity spec < 0 then -1 else js_coreAffinity spec,
      if js_stackBytes spec = 0 then 8192 else js_stackBytes spec,
      if js_timeout spec \<le> 0 then milliseconds_max else js_timeout spec,
      if js_name spec = [] then ''job_'' @ to_string i else js_name spec)"

fun asked_from :: "nat \<Rightarrow> 'f JobSpec list \<Rightarrow> ('f JobFn \<times> u8 \<times> u8 \<times> int \<times> u32 \<times> int \<times> string) list" where
  "asked_from n [] = []"
| "asked_from n (spec # specs) = asked spec n # asked_from (Suc n) specs"

definition targets_of :: "nat \<Rightarrow> (nat \<times> nat) list \<Rightarrow> nat list" where
  "targets_of i es = map snd (filter (\<lambda>e. fst e = i) es)"

definition old_succs :: "'f Impl \<Rightarrow> nat \<Rightarrow> nat list" where
  "old_succs s i = (if i < length (im_nodes s) then succs s i else [])"

text \<open>\<open>t\<close> is \<open>s\<close> with the jobs and edges added, in this order, and nothing else changed in the graph.\<close>

definition grown :: "'f Impl \<Rightarrow> 'f JobSpec list \<Rightarrow> (nat \<times> nat) list \<Rightarrow> 'f Impl \<Rightarrow> bool" where
  "grown s specs es t \<longleftrightarrow> build_step\<^sup>*\<^sup>* s t \<and> im_anchor t = im_anchor s
     \<and> map settings (im_nodes t) = map settings (im_nodes s) @ asked_from (length (im_nodes s)) specs
     \<and> (\<forall>i. old_succs t i = old_succs s i @ targets_of i es)"

definition fits :: "'f Impl \<Rightarrow> 'f JobSpec list \<Rightarrow> (nat \<times> nat) list \<Rightarrow> bool" where
  "fits s specs es \<longleftrightarrow> length (im_nodes s) + length specs \<le> 65536
     \<and> (\<forall>i. length (old_succs s i) + length (targets_of i es) \<le> 32767)"

definition ours :: "'f Impl \<Rightarrow> Job \<Rightarrow> bool" where
  "ours s j \<longleftrightarrow> jb_anchor j = Some (im_anchor s) \<and> index j < length (im_nodes s)"

definition operand_ok :: "'f Impl \<Rightarrow> operand \<Rightarrow> bool" where
  "operand_ok s l \<longleftrightarrow> (\<forall>j\<in>set (front l). ours s j) \<and> (l = Pipe \<or> front l \<noteq> []) \<and> (\<forall>layers. l = Chain layers \<longrightarrow> layers \<noteq> [])"

fun right_ok :: "'f Impl \<Rightarrow> 'f right \<Rightarrow> bool" where
  "right_ok s (RJob j) \<longleftrightarrow> ours s j"
| "right_ok s (RGroup js) \<longleftrightarrow> js \<noteq> [] \<and> (\<forall>j\<in>set js. ours s j)"
| "right_ok s (RSpec spec) \<longleftrightarrow> True"
| "right_ok s (RSpecs specs) \<longleftrightarrow> specs \<noteq> []"

section \<open>Growing graphs\<close>

lemma targets_of_simps [simp]:
  "targets_of i [] = []"
  "targets_of i (es @ es') = targets_of i es @ targets_of i es'"
  "targets_of i (e # es) = (if fst e = i then [snd e] else []) @ targets_of i es"
  by (auto simp: targets_of_def)

lemma length_asked_from [simp]: "length (asked_from n specs) = length specs"
  by (induction specs arbitrary: n) simp_all

lemma asked_from_append: "asked_from n (a @ b) = asked_from n a @ asked_from (n + length a) b"
  by (induction a arbitrary: n) simp_all

lemma grown_length:
  assumes "grown s specs es t"
  shows "length (im_nodes t) = length (im_nodes s) + length specs"
proof -
  have "length (map settings (im_nodes t)) = length (map settings (im_nodes s) @ asked_from (length (im_nodes s)) specs)"
    using assms unfolding grown_def by presburger
  then show ?thesis by simp
qed

lemma grown_refl: "grown s [] [] s"
  by (simp add: grown_def)

lemma grown_trans:
  assumes "grown s a e t" "grown t b f u"
  shows "grown s (a @ b) (e @ f) u"
proof -
  have "build_step\<^sup>*\<^sup>* s u" using assms unfolding grown_def by (meson rtranclp_trans)
  then show ?thesis
    using assms grown_length [OF assms(1)] unfolding grown_def by (simp add: asked_from_append)
qed

lemma grown_ok: "grown s a e t \<Longrightarrow> graph_ok s \<Longrightarrow> graph_ok t"
  unfolding grown_def using build.steps_inv by blast

lemma grown_fits:
  assumes "grown s a e t" "fits s (a @ b) (e @ f)"
  shows "fits t b f"
  using assms grown_length [OF assms(1)] by (simp add: fits_def grown_def add.assoc)

lemma fitsD:
  assumes "fits s (a @ b) (e @ f)"
  shows "fits s a e"
proof -
  have "length (old_succs s i) + length (targets_of i e) \<le> 32767" for i
  proof -
    have "length (old_succs s i) + length (targets_of i (e @ f)) \<le> 32767" using assms unfolding fits_def by blast
    then show ?thesis by simp
  qed
  then show ?thesis using assms by (simp add: fits_def)
qed

lemma grown_ours: "grown s a e t \<Longrightarrow> ours s j \<Longrightarrow> ours t j"
  using grown_length [of s a e t] by (auto simp: ours_def grown_def)

text \<open>One edge between two nodes that are there, while the list of successors has room.\<close>

lemma ours_valid: "ours s j \<Longrightarrow> graph_ok s \<Longrightarrow> Job_valid j"
  using graph_ok_size [of s] by (auto simp: ours_def index_def Job_valid_def cInvalid_def)

lemma precede_grown:
  assumes ok: "graph_ok s" and j: "ours s l" "ours s r" and room: "fits s [] [(index l, index r)]"
  shows "\<exists>t. Job_precede l r s = (t, None) \<and> grown s [] [(index l, index r)] t"
proof -
  let ?n = "length (im_nodes s)"
  have idx: "index l < ?n" "index r < ?n" using j by (simp_all add: ours_def)
  have "length (old_succs s (index l)) + length (targets_of (index l) [(index l, index r)]) \<le> 32767"
    using room unfolding fits_def by blast
  then have free: "length (succs s (index l)) < 32767" using idx by (simp add: old_succs_def)
  obtain t where t: "add_edge (index l) (index r) s = (t, None)" "length (im_nodes t) = ?n"
    "\<And>i. i < ?n \<Longrightarrow> succs t i = (if i = index l then succs s (index l) @ [index r] else succs s i)"
    using add_edge_ok [OF ok idx free] by blast
  obtain u where "add_edge (index l) (index r) s = (u, None)"
    and nodes: "\<And>k. k < ?n \<Longrightarrow> \<exists>ps c. im_nodes u ! k = (im_nodes s ! k)\<lparr>nd_successors := ps, nd_predecessorCount := c\<rparr>"
    using add_edge_push [OF ok idx free] by blast
  then have u: "u = t" using t(1) by simp
  have set: "map settings (im_nodes t) = map settings (im_nodes s)"
  proof (rule nth_equalityI)
    fix k assume "k < length (map settings (im_nodes t))"
    then show "map settings (im_nodes t) ! k = map settings (im_nodes s) ! k"
      using nodes [of k] t(2) u by (auto simp: settings_def)
  qed (simp add: t(2))
  have p: "Job_precede l r s = (t, None)"
    using t(1) idx j ours_valid [OF j(1) ok] ours_valid [OF j(2) ok] by (simp add: Job_precede_def ours_def index_def)
  have "im_anchor t = im_anchor s"
    using t(1) by (auto simp: add_edge_def Let_def upd_node_def split: sum.splits prod.splits)
  then have "grown s [] [(index l, index r)] t"
    using r_into_rtranclp [of build_step, OF build_step.precede [OF p]] set t(2,3) idx
    by (auto simp: grown_def old_succs_def)
  then show ?thesis using p by blast
qed

lemma for_jobs_grown:
  assumes step: "\<And>j e s'. j \<in> set js \<Longrightarrow> graph_ok s' \<Longrightarrow> grown s [] e s' \<Longrightarrow> fits s' [] (E j) \<Longrightarrow>
      \<exists>t. g j s' = (t, None) \<and> grown s' [] (E j) t"
    and "graph_ok s" "fits s [] (concat (map E js))"
  shows "\<exists>t. for_jobs g js s = (t, None) \<and> grown s [] (concat (map E js)) t"
proof -
  have "\<exists>t. for_jobs g js' u = (t, None) \<and> grown s [] (e @ concat (map E js')) t"
    if "set js' \<subseteq> set js" "grown s [] e u" "fits s [] (e @ concat (map E js'))" for js' e u
    using that
  proof (induction js' arbitrary: e u)
    case Nil
    then show ?case by simp
  next
    case (Cons j js')
    have ok: "graph_ok u" by (rule grown_ok [OF Cons.prems(2) assms(2)])
    have "fits u [] (E j @ concat (map E js'))"
      using grown_fits [OF Cons.prems(2), of "[]"] Cons.prems(3) by simp
    then have "fits u [] (E j)" using fitsD [of u "[]" "[]"] by simp
    then obtain t where t: "g j u = (t, None)" "grown u [] (E j) t"
      using step [OF _ ok Cons.prems(2)] Cons.prems(1) by auto
    have "grown s [] (e @ E j) t" using grown_trans [OF Cons.prems(2) t(2)] by simp
    then show ?case
      using Cons.IH [of "e @ E j" t] Cons.prems t(1) by simp
  qed
  from this [of js "[]" s] show ?thesis using assms(3) grown_refl [of s] by auto
qed

lemma precede_all_grown:
  assumes ok: "graph_ok s" and j: "\<forall>l\<in>set ls. ours s l" "\<forall>r\<in>set rs. ours s r"
    and room: "fits s [] (List.product (map index ls) (map index rs))"
  shows "\<exists>t. precede_all ls rs s = (t, None) \<and> grown s [] (List.product (map index ls) (map index rs)) t"
proof -
  let ?E = "\<lambda>l. concat (map (\<lambda>r. [(index l, index r)]) rs)"
  have prod: "List.product (map index ls) (map index rs) = concat (map ?E ls)"
    by (simp add: product_concat_map comp_def)
  have inner: "\<exists>t. for_jobs (Job_precede l) rs u = (t, None) \<and> grown u [] (?E l) t"
    if l: "l \<in> set ls" and u: "graph_ok u" "grown s [] e u" "fits u [] (?E l)" for l e u
  proof (rule for_jobs_grown [OF _ u(1,3)])
    fix r e' u' assume r: "r \<in> set rs" "graph_ok u'" "grown u [] e' u'" "fits u' [] [(index l, index r)]"
    have "ours u' l" "ours u' r" using l r j grown_ours [OF u(2)] grown_ours [OF r(3)] by blast+
    then show "\<exists>t. Job_precede l r u' = (t, None) \<and> grown u' [] [(index l, index r)] t"
      using precede_grown r by blast
  qed
  show ?thesis
    unfolding precede_all_def prod
    by (rule for_jobs_grown [OF inner ok]) (use room prod in simp_all)
qed

lemma for_jobs_single: "for_jobs g [j] = g j"
  by (rule ext) (simp split: prod.split option.split)

lemma precede_all_simps:
  "precede_all [l] [r] = Job_precede l r"
  "precede_all [l] rs = for_jobs (Job_precede l) rs"
  "precede_all ls [r] = for_jobs (\<lambda>j. Job_precede j r) ls"
  by (simp_all add: precede_all_def for_jobs_single fun_eq_iff)

section \<open>Building descriptors\<close>

lemma job_update_at:
  assumes "ours s j" "graph_ok s"
  shows "job_update j g s = Inr (upd_node (index j) g s)"
  using assms ours_valid [OF assms] by (simp add: job_update_def ours_def index_def)

text \<open>\<open>u\<close> is \<open>s\<close> with one more node, whose handle is \<open>j\<close> and which the setters have made \<open>nd\<close>.\<close>

definition stage :: "'f Impl \<Rightarrow> Job \<Rightarrow> 'f Node \<Rightarrow> 'f Impl \<Rightarrow> bool" where
  "stage s j nd u \<longleftrightarrow> ours u j \<and> graph_ok u \<and> build_step\<^sup>*\<^sup>* s u \<and> im_anchor u = im_anchor s \<and> old_succs u = old_succs s
     \<and> im_nodes u = im_nodes s @ [nd] \<and> index j = length (im_nodes s)"

lemma stage_set:
  assumes st: "stage s j nd u" and step: "\<And>u t. job_update j g u = Inr t \<Longrightarrow> build_step u t"
    and keep: "\<And>nd. nd_successors (g nd) = nd_successors nd"
  shows "\<exists>u'. set_if c (job_update j g) (Inr u) = Inr u' \<and> stage s j (if c then g nd else nd) u'"
proof (cases c)
  case True
  let ?u = "upd_node (index j) g u"
  have jo: "ours u j" and ok: "graph_ok u" using st by (simp_all add: stage_def)
  have upd: "job_update j g u = Inr ?u" by (rule job_update_at [OF jo ok])
  have bs: "build_step u ?u" by (rule step [OF upd])
  have "build_step\<^sup>*\<^sup>* s ?u" using st bs unfolding stage_def by (metis rtranclp.rtrancl_into_rtrancl)
  moreover have "old_succs ?u = old_succs u"
    by (auto simp: old_succs_def succs_def upd_node_def fun_eq_iff nth_update_iff keep)
  ultimately have "stage s j (g nd) ?u"
    using st graph_ok_step [OF bs ok] by (auto simp: stage_def ours_def upd_node_def)
  then show ?thesis using True upd by (simp add: set_if_def)
next
  case False
  then show ?thesis using st by (simp add: set_if_def)
qed

lemma emplace_stage:
  assumes ok: "graph_ok s" and n: "length (im_nodes s) \<le> 65535"
  shows "\<exists>u. Pipeline_emplace fn s = Inr (handle_at (im_anchor s) (length (im_nodes s)), u) \<and>
    stage s (handle_at (im_anchor s) (length (im_nodes s)))
      ((Node_new (length (im_stops s)))
         \<lparr>nd_fn := (case fn of Plain f \<Rightarrow> IgnoringStop f | Cooperative f \<Rightarrow> TakesStop f),
          nd_flags := (case fn of Plain f \<Rightarrow> 0 | Cooperative f \<Rightarrow> kFlagCancellable),
          nd_nameStr := ''job_'' @ to_string (length (im_nodes s))\<rparr>) u"
proof -
  let ?n = "length (im_nodes s)" and ?j = "handle_at (im_anchor s) (length (im_nodes s))"
  let ?nd = "(Node_new (length (im_stops s)))
         \<lparr>nd_fn := (case fn of Plain f \<Rightarrow> IgnoringStop f | Cooperative f \<Rightarrow> TakesStop f),
          nd_flags := (case fn of Plain f \<Rightarrow> 0 | Cooperative f \<Rightarrow> kFlagCancellable),
          nd_nameStr := ''job_'' @ to_string ?n\<rparr>"
  let ?u = "s\<lparr>im_nodes := im_nodes s @ [?nd], im_stops := im_stops s @ [False], im_rootsCached := False\<rparr>"
  have e: "Pipeline_emplace fn s = Inr (?j, ?u)"
    using n by (cases fn) (simp_all add: Pipeline_emplace_def emplacePlain_def emplaceCancellable_def job_handle_def addNode_def
        ensureNodeIndexFitsSuccessorStorage_def Let_def handle_at_def)
  then have bs: "build_step s ?u"
    by (cases fn) (auto simp: Pipeline_emplace_def intro: build_step.plain build_step.cancellable)
  have i: "index ?j = ?n" using n by (simp add: index_def handle_at_def unat_of_nat take_bit_eq_mod)
  have su: "old_succs ?u k = old_succs s k" for k
    using succs_snoc(1) [of ?u s ?nd k] succs_snoc(2) [of ?u s ?nd] by (auto simp: old_succs_def Node_new_def less_Suc_eq)
  have "stage s ?j ?nd ?u"
    unfolding stage_def using graph_ok_step [OF bs ok] bs i su by (auto simp: ours_def handle_at_def fun_eq_iff)
  then show ?thesis using e by blast
qed

definition staged :: "'f Impl \<Rightarrow> Job \<Rightarrow> 'f Node \<Rightarrow> 'f Impl cpp \<Rightarrow> bool" where
  "staged s j nd r \<longleftrightarrow> (\<exists>u. r = Inr u \<and> stage s j nd u)"

lemma staged_set:
  assumes "staged s j nd r" "\<And>u t. job_update j g u = Inr t \<Longrightarrow> build_step u t" "\<And>nd. nd_successors (g nd) = nd_successors nd"
  shows "staged s j (if c then g nd else nd) (set_if c (job_update j g) r)"
  using assms(1) stage_set [OF _ assms(2,3), of s j nd _ c] by (auto simp: staged_def)

lemmas staged_option =
  staged_set [OF _ build_step.name [unfolded Job_name_def], simplified]
  staged_set [OF _ build_step.timeout [unfolded Job_timeout_def], simplified]
  staged_set [OF _ build_step.priority [unfolded Job_priority_def], simplified]
  staged_set [OF _ build_step.core [unfolded Job_core_def], simplified]
  staged_set [OF _ build_step.stack [unfolded Job_stack_def], simplified]
  staged_set [OF _ build_step.optional [of True, unfolded Job_optional_def], simplified]

lemma build_grown:
  assumes ok: "graph_ok s" and n: "length (im_nodes s) \<le> 65535"
  shows "\<exists>t. JobSpec_build spec s = (t, Inr (handle_at (im_anchor s) (length (im_nodes s)))) \<and> grown s [spec] [] t"
proof -
  let ?n = "length (im_nodes s)" and ?j = "handle_at (im_anchor s) (length (im_nodes s))"
  obtain u where e: "Pipeline_emplace (js_fn spec) s = Inr (?j, u)"
    and st: "staged s ?j ((Node_new (length (im_stops s)))
         \<lparr>nd_fn := (case js_fn spec of Plain f \<Rightarrow> IgnoringStop f | Cooperative f \<Rightarrow> TakesStop f),
          nd_flags := (case js_fn spec of Plain f \<Rightarrow> 0 | Cooperative f \<Rightarrow> kFlagCancellable),
          nd_nameStr := ''job_'' @ to_string ?n\<rparr>) (Inr u)"
    using emplace_stage [OF ok n] unfolding staged_def by blast
  note opts = staged_option(6) [OF staged_option(5) [OF staged_option(4) [OF staged_option(3)
    [OF staged_option(2) [OF staged_option(1) [OF st]]]]]]
  have "\<exists>nd. staged s ?j nd (apply_options spec ?j u) \<and> settings nd = asked spec ?n"
    by (rule exI, rule conjI, unfold apply_options_def build_field_defs, simp, rule opts)
       (auto simp: settings_def asked_def Node_new_def word_neq_0_conv)
  then show ?thesis
    using e by (auto simp: JobSpec_build_def staged_def stage_def grown_def)
qed

lemma buildAll_grown:
  assumes "graph_ok s" "length (im_nodes s) + length specs \<le> 65536"
  shows "\<exists>t. buildAll specs s = (t, Inr (map (handle_at (im_anchor s)) [length (im_nodes s)..<length (im_nodes s) + length specs]))
    \<and> grown s specs [] t"
  using assms
proof (induction specs arbitrary: s)
  case Nil
  then show ?case by (simp add: grown_refl)
next
  case (Cons spec specs)
  obtain t where t: "JobSpec_build spec s = (t, Inr (handle_at (im_anchor s) (length (im_nodes s))))" "grown s [spec] [] t"
    using build_grown [OF Cons.prems(1), of spec] Cons.prems(2) by auto
  have len: "length (im_nodes t) = Suc (length (im_nodes s))" and an: "im_anchor t = im_anchor s"
    using grown_length [OF t(2)] t(2) by (simp_all add: grown_def)
  obtain u where u: "buildAll specs t = (u, Inr (map (handle_at (im_anchor t)) [length (im_nodes t)..<length (im_nodes t) + length specs]))"
    "grown t specs [] u"
    using Cons.IH [OF grown_ok [OF t(2) Cons.prems(1)]] Cons.prems(2) len by auto
  show ?case
    using t(1) u(1) grown_trans [OF t(2) u(2)] by (simp add: and_then_def len an upt_rec)
qed

section \<open>The operators implement the reading\<close>

lemma index_handle [simp]: "i < 65536 \<Longrightarrow> index (handle_at a i) = i"
  by (simp add: index_def handle_at_def unat_of_nat take_bit_eq_mod)

text \<open>Jobs on the right are built first, then wired.\<close>

lemma wire_grown:
  assumes g: "grown s specs [] t" and ok: "graph_ok s" and ls: "\<forall>l\<in>set ls. ours s l" and rs: "\<forall>r\<in>set rs. ours t r"
    and room: "fits s specs (List.product (map index ls) (map index rs))"
  shows "\<exists>u. precede_all ls rs t = (u, None) \<and> grown s specs (List.product (map index ls) (map index rs)) u"
proof -
  have "fits t [] (List.product (map index ls) (map index rs))"
    using grown_fits [OF g, of "[]"] room by simp
  then obtain u where "precede_all ls rs t = (u, None)" "grown t [] (List.product (map index ls) (map index rs)) u"
    using precede_all_grown [OF grown_ok [OF g ok]] ls rs grown_ours [OF g] by blast
  then show ?thesis using grown_trans [OF g] by fastforce
qed

lemma new_ours:
  assumes "grown s specs [] t" "length (im_nodes s) + length specs \<le> 65536"
  shows "\<forall>r\<in>set (map (handle_at (im_anchor s)) [length (im_nodes s)..<length (im_nodes s) + length specs]). ours t r"
  using assms grown_length [OF assms(1)] by (auto simp: ours_def grown_def handle_at_def index_def unat_of_nat take_bit_eq_mod)

lemma foldl_add [simp]: "foldl JobGroup_add xs ys = xs @ ys"
  by (induction ys arbitrary: xs) (simp_all add: JobGroup_add_def)

text \<open>Grouping with \<^verbatim>\<open>+\<close> or \<^verbatim>\<open>parallel\<close> keeps the members in the order they are written and adds no edge.\<close>

lemma groups_in_order:
  "parallel jobs = jobs" "JobTuple_group jobs = jobs" "plus_group_group a b = a @ b"
  "plus_group_job (plus_job_job i j) k = parallel [i, j, k]"
  "plus_specs_spec (plus_spec_spec x y) z = [x, y, z]"
  by (simp_all add: parallel_def JobTuple_group_def plus_group_group_def plus_group_job_def plus_job_job_def JobGroup_add_def
      plus_specs_spec_def plus_spec_spec_def)

lemma operand_front: "operand_ok s l \<Longrightarrow> l \<noteq> Pipe \<Longrightarrow> \<exists>j js. front l = j # js \<and> jb_anchor j = Some (im_anchor s)"
  by (cases "front l") (auto simp: operand_ok_def ours_def)

lemma right_built:
  assumes ok: "graph_ok s" and l: "operand_ok s l" and r: "right_ok s r"
    and room: "fits s (specs_of r) (wiring (im_anchor s) (length (im_nodes s)) l r)"
  obtains t u where "grown s (specs_of r) [] t" "\<forall>g\<in>set (goals (im_anchor s) (length (im_nodes s)) r). ours t g"
    "precede_all (front l) (goals (im_anchor s) (length (im_nodes s)) r) t = (u, None)"
    "grown s (specs_of r) (wiring (im_anchor s) (length (im_nodes s)) l r) u"
    "\<And>spec. r = RSpec spec \<Longrightarrow> JobSpec_build spec s = (t, Inr (handle_at (im_anchor s) (length (im_nodes s))))"
    "\<And>specs. r = RSpecs specs \<Longrightarrow> buildAll specs s = (t, Inr (goals (im_anchor s) (length (im_nodes s)) r))"
    "specs_of r = [] \<Longrightarrow> t = s"
proof -
  let ?a = "im_anchor s" and ?n = "length (im_nodes s)"
  have n: "?n + length (specs_of r) \<le> 65536" using room by (simp add: fits_def)
  have "\<exists>t. grown s (specs_of r) [] t \<and> (\<forall>g\<in>set (goals ?a ?n r). ours t g)
      \<and> (\<forall>spec. r = RSpec spec \<longrightarrow> JobSpec_build spec s = (t, Inr (handle_at ?a ?n)))
      \<and> (\<forall>specs. r = RSpecs specs \<longrightarrow> buildAll specs s = (t, Inr (goals ?a ?n r))) \<and> (specs_of r = [] \<longrightarrow> t = s)"
  proof (cases r)
    case (RSpec spec)
    then show ?thesis using build_grown [OF ok, of spec] new_ours [of s "[spec]"] n by fastforce
  next
    case (RSpecs specs)
    then show ?thesis using buildAll_grown [OF ok, of specs] new_ours [of s specs] n r by fastforce
  qed (use r grown_refl in auto)
  then obtain t where t: "grown s (specs_of r) [] t" "\<forall>g\<in>set (goals ?a ?n r). ours t g"
    "\<And>spec. r = RSpec spec \<Longrightarrow> JobSpec_build spec s = (t, Inr (handle_at ?a ?n))"
    "\<And>specs. r = RSpecs specs \<Longrightarrow> buildAll specs s = (t, Inr (goals ?a ?n r))" "specs_of r = [] \<Longrightarrow> t = s"
    by blast
  have "\<forall>l'\<in>set (front l). ours s l'" using l by (simp add: operand_ok_def)
  from wire_grown [OF t(1) ok this t(2)] room that t show thesis unfolding wiring_def by blast
qed

lemmas operator_defs = pipe_spec_def pipe_specs_def job_job_def job_group_def job_spec_def job_specs_def group_job_def
  group_group_def group_spec_def group_specs_def tuple_job_def tuple_spec_def tuple_specs_def chain_job_def chain_spec_def
  chain_specs_def JobTuple_group_def last_layer_def append_layer_def lift_def and_then_def giving_def

lemma shift_grown:
  assumes ok: "graph_ok s" and l: "operand_ok s l" and r: "right_ok s r" and f: "shift l r = Some f"
    and room: "fits s (specs_of r) (wiring (im_anchor s) (length (im_nodes s)) l r)"
  shows "\<exists>t. f s = (t, Inr (value_of (im_anchor s) (length (im_nodes s)) l r))
    \<and> grown s (specs_of r) (wiring (im_anchor s) (length (im_nodes s)) l r) t"
proof -
  let ?a = "im_anchor s" and ?n = "length (im_nodes s)"
  obtain t u where tu: "precede_all (front l) (goals ?a ?n r) t = (u, None)" "grown s (specs_of r) (wiring ?a ?n l r) u"
    "\<And>spec. r = RSpec spec \<Longrightarrow> JobSpec_build spec s = (t, Inr (handle_at ?a ?n))"
    "\<And>specs. r = RSpecs specs \<Longrightarrow> buildAll specs s = (t, Inr (goals ?a ?n r))" "specs_of r = [] \<Longrightarrow> t = s"
    using right_built [OF ok l r room] by metis
  have "f s = (u, Inr (value_of ?a ?n l r))"
  proof (cases "l = Pipe")
    case True
    have "t = u" using tu(1) True by (simp add: precede_all_def)
    then show ?thesis using True f tu by (cases r) (auto simp: operator_defs)
  next
    case False
    show ?thesis
      using f tu False operand_front [OF l False]
      by (cases l; cases r) (auto simp: operator_defs precede_all_simps for_jobs_single in_pipeline_of_def in_pipeline_of_front_def
          simp del: for_jobs.simps)
  qed
  then show ?thesis using tu(2) by blast
qed

lemma value_ok:
  assumes g: "grown s (specs_of r) (wiring (im_anchor s) (length (im_nodes s)) l r) t" and l: "operand_ok s l" and r: "right_ok s r"
    and n: "length (im_nodes s) + length (specs_of r) \<le> 65536" and f: "shift l r \<noteq> None"
  shows "operand_ok t (value_of (im_anchor s) (length (im_nodes s)) l r)"
proof -
  let ?a = "im_anchor s" and ?n = "length (im_nodes s)"
  have old: "\<forall>j\<in>set (front l). ours t j" using l grown_ours [OF g] by (auto simp: operand_ok_def)
  have new: "\<forall>j\<in>set (goals ?a ?n r). ours t j"
  proof (cases "specs_of r = []")
    case True
    then show ?thesis using r grown_ours [OF g] by (cases r) auto
  next
    case False
    then show ?thesis using grown_length [OF g] g n by (cases r) (auto simp: ours_def grown_def handle_at_def index_def unat_of_nat take_bit_eq_mod)
  qed
  have "goals ?a ?n r \<noteq> []" using r by (cases r) auto
  then show ?thesis
    using old new l f by (cases l; cases r) (auto simp: operand_ok_def)
qed

lemma shifts_grown:
  assumes "graph_ok s" "operand_ok s l" "\<forall>r\<in>set rs. right_ok s r"
    "compiles (im_anchor s) (length (im_nodes s)) l rs" "reading (im_anchor s) (length (im_nodes s)) l rs = (specs, es, l')"
    "fits s specs es"
  shows "\<exists>t. shifts l rs s = Some (t, Inr l') \<and> grown s specs es t"
  using assms
proof (induction rs arbitrary: s l specs es)
  case Nil
  then show ?case by (simp add: grown_refl)
next
  case (Cons r rs)
  let ?a = "im_anchor s" and ?n = "length (im_nodes s)"
  obtain specs' es' where rest: "reading ?a (?n + length (specs_of r)) (value_of ?a ?n l r) rs = (specs', es', l')"
    and split: "specs = specs_of r @ specs'" "es = wiring ?a ?n l r @ es'"
    using Cons.prems(5) by (auto split: prod.splits)
  obtain f where f: "shift l r = Some f" using Cons.prems(4) by auto
  have first: "fits s (specs_of r) (wiring ?a ?n l r)" using fitsD Cons.prems(6) split by blast
  obtain t where t: "f s = (t, Inr (value_of ?a ?n l r))" "grown s (specs_of r) (wiring ?a ?n l r) t"
    using shift_grown [OF Cons.prems(1,2) _ f first] Cons.prems(3) by auto
  have at: "im_anchor t = ?a" "length (im_nodes t) = ?n + length (specs_of r)"
    using t(2) grown_length [OF t(2)] by (simp_all add: grown_def)
  have vok: "operand_ok t (value_of ?a ?n l r)"
    using value_ok [OF t(2) Cons.prems(2)] Cons.prems(3) f first by (simp add: fits_def)
  have rok: "right_ok t r'" if "r' \<in> set rs" for r'
    using Cons.prems(3) that grown_ours [OF t(2)] by (cases r') auto
  obtain u where "shifts (value_of ?a ?n l r) rs t = Some (u, Inr l')" "grown t specs' es' u"
    using Cons.IH [OF grown_ok [OF t(2) Cons.prems(1)] vok, of specs' es'] rok rest at Cons.prems(4)
      grown_fits [OF t(2)] Cons.prems(6) split by auto
  then show ?case using f t grown_trans [OF t(2)] split by auto
qed

text \<open>In an expression of descriptors only every edge leads to a younger job, so it cannot close a cycle.\<close>

fun describes :: "'f right \<Rightarrow> bool" where
  "describes (RSpec spec) = True"
| "describes (RSpecs specs) = True"
| "describes _ = False"

lemma reading_forward:
  assumes "\<forall>j\<in>set (front l). index j < n" "list_all describes rs" "reading a n l rs = (specs, es, l')"
    "n + length specs \<le> 65536"
  shows "\<forall>(i, k)\<in>set es. i < k"
  using assms
proof (induction rs arbitrary: n l specs es)
  case Nil
  then show ?case by simp
next
  case (Cons r rs)
  obtain specs' es' where rest: "reading a (n + length (specs_of r)) (value_of a n l r) rs = (specs', es', l')"
    and split: "specs = specs_of r @ specs'" "es = wiring a n l r @ es'"
    using Cons.prems(3) by (auto split: prod.splits)
  have goal: "index g \<in> {n..<n + length (specs_of r)}" if "g \<in> set (goals a n r)" for g
    using that Cons.prems(2,4) split by (cases r) auto
  have "set (front (value_of a n l r)) \<subseteq> set (front l) \<union> set (goals a n r)"
    using Cons.prems(2) by (cases l; cases r) auto
  then have "\<forall>j\<in>set (front (value_of a n l r)). index j < n + length (specs_of r)"
    using goal Cons.prems(1) by fastforce
  then have "\<forall>(i, k)\<in>set es'. i < k"
    using Cons.IH rest Cons.prems(2,4) split by simp
  moreover have "\<forall>(i, k)\<in>set (wiring a n l r). i < k"
    using goal Cons.prems(1) by (fastforce simp: wiring_def)
  ultimately show ?case using split by auto
qed

lemma forward_acyclic: "\<forall>(i, k)\<in>r. i < k \<Longrightarrow> acyclic (r :: (nat \<times> nat) set)"
  by (rule acyclic_subset [of "{(i, k). i < k}"]) (auto intro: wf_acyclic wf)

section \<open>Property\<close>

text \<open>
  C14. An expression \<^verbatim>\<open>lhs >> r1 >> r2 ...\<close> over the handles and descriptors of one pipeline adds exactly what it says: the
  descriptors become jobs in the order they are written, each with the name, function and options its descriptor asks for and the
  defaults elsewhere; every operator adds one edge from each job of its left front to each job on its right, in that order; older jobs
  keep their settings and edges, and the value of the expression is the one that the abstract reading gives. An expression that starts
  with an empty pipeline and has only descriptors always validates.
\<close>

theorem expressions_build_what_they_say:
  assumes "built s" "operand_ok s l" "\<forall>r\<in>set rs. right_ok s r"
    "compiles (im_anchor s) (length (im_nodes s)) l rs" "reading (im_anchor s) (length (im_nodes s)) l rs = (specs, es, l')"
    "fits s specs es"
  shows "\<exists>t. shifts l rs s = Some (t, Inr l') \<and> built t
    \<and> map settings (im_nodes t) = map settings (im_nodes s) @ asked_from (length (im_nodes s)) specs
    \<and> (\<forall>i<length (im_nodes t). succs t i = (if i < length (im_nodes s) then succs s i else []) @ map snd (filter (\<lambda>e. fst e = i) es))
    \<and> (im_nodes s = [] \<and> list_all describes rs \<longrightarrow> validate t = Some (Inr ()))"
proof -
  have ok: "graph_ok s" by (rule built_graph_ok [OF assms(1)])
  obtain t where t: "shifts l rs s = Some (t, Inr l')" "grown s specs es t"
    using shifts_grown [OF ok assms(2-6)] by blast
  have succs: "succs t i = old_succs s i @ targets_of i es" if "i < length (im_nodes t)" for i
    using t(2) that by (simp add: grown_def old_succs_def split: if_splits)
  have "validate t = Some (Inr ())" if e: "im_nodes s = []" "list_all describes rs"
  proof -
    have "\<forall>j\<in>set (front l). index j < 0" using assms(2) e(1) by (auto simp: operand_ok_def ours_def)
    then have "\<forall>(i, k)\<in>set es. i < k"
      using reading_forward [OF _ e(2), of l 0 "im_anchor s" specs es l'] assms(5,6) e(1) by (simp add: fits_def)
    then have "acyclic {(i, j). i < length (im_nodes t) \<and> j \<in> set (succs t i)}"
      using succs e(1) by (intro forward_acyclic) (fastforce simp: old_succs_def targets_of_def)
    then show ?thesis using validate_correct [OF graph_ok_view [OF grown_ok [OF t(2) ok]]] by simp
  qed
  moreover have "built t"
    using t(2) assms(1) unfolding grown_def built_def by (metis reach_steps)
  ultimately show ?thesis
    using t succs by (auto simp: grown_def old_succs_def targets_of_def)
qed

text \<open>The pipeline of the header comment: \<^verbatim>\<open>load >> parse + validate >> commit\<close>.\<close>

definition example_expression :: "nat right list" where
  "example_expression =
     [RSpec (named_job ''load'' (Plain 0)),
      RSpecs (plus_spec_spec (JobSpec_timeout 500 (named_job ''parse'' (Plain 1))) (named_job ''validate'' (Plain 2))),
      RSpec (named_job ''commit'' (Plain 3))]"

theorem expressions_build_what_they_say_witness:
  "\<exists>t. shifts Pipe example_expression (Impl_new 0) = Some (t, Inr (OneJob (handle_at 0 3)))
    \<and> map nd_nameStr (im_nodes t) = [''load'', ''parse'', ''validate'', ''commit'']
    \<and> map (succs t) [0..<4] = [[1, 2], [3], [3], []] \<and> validate t = Some (Inr ())"
proof -
  let ?s = "Impl_new 0 :: nat Impl"
  have s: "built ?s" "im_nodes ?s = []" "im_anchor ?s = 0" by (rule built_new) (simp_all add: Impl_new_def)
  obtain specs where reading: "reading 0 0 Pipe example_expression = (specs, [(0, 1), (0, 2), (1, 3), (2, 3)], OneJob (handle_at 0 3))"
    and specs: "map js_name specs = [''load'', ''parse'', ''validate'', ''commit'']" "length specs = 4"
    by (simp add: example_expression_def plus_spec_spec_def wiring_def named_job_def JobSpec_new_def JobSpec_timeout_def upt_rec numeral_3_eq_3)
  have fits: "fits ?s specs [(0, 1), (0, 2), (1, 3), (2, 3)]"
    by (simp add: fits_def s specs old_succs_def)
  obtain t where t: "shifts Pipe example_expression ?s = Some (t, Inr (OneJob (handle_at 0 3)))"
    and nodes: "map settings (im_nodes t) = asked_from 0 specs"
    and edges: "\<forall>i<length (im_nodes t). succs t i = map snd (filter (\<lambda>e. fst e = i) [(0, 1), (0, 2), (1, 3), (2, 3)])"
    and ok: "validate t = Some (Inr ())"
    using expressions_build_what_they_say [of ?s Pipe example_expression specs "[(0, 1), (0, 2), (1, 3), (2, 3)]" "OneJob (handle_at 0 3)"]
      s reading fits by (auto simp: operand_ok_def example_expression_def plus_spec_spec_def)
  have len: "length (im_nodes t) = 4" using arg_cong [OF nodes, of length] specs by simp
  have "map nd_nameStr (im_nodes t) = map (\<lambda>(f, fl, p, c, st, ti, nm). nm) (map settings (im_nodes t))"
    by (simp add: settings_def)
  also have "\<dots> = [''load'', ''parse'', ''validate'', ''commit'']"
    using specs unfolding nodes by (auto simp: length_Suc_conv numeral_eq_Suc asked_def)
  finally show ?thesis using t ok edges len by (simp add: upt_rec)
qed

end
