(* ===== verification/Invoke.thy ===== *)
theory Invoke
  imports Graph
begin

text \<open>
  Calling a job: \<^verbatim>\<open>Impl::invoke\<close>, \<^verbatim>\<open>invokeTimed\<close>, \<^verbatim>\<open>invokeWithDeadline\<close>, \<^verbatim>\<open>retain\<close>, \<^verbatim>\<open>renewStopState\<close> and
  \<^verbatim>\<open>joinOrphans\<close> of \<^verbatim>\<open>src/sub0pipeline.cpp\<close>, with \<^verbatim>\<open>Deadline\<close> of
  \<^verbatim>\<open>include/sub0pipeline/deadline.hpp\<close>. What happens outside the library while a job is called is the
  record \<open>Invocation\<close>: what the body returns, who requests a stop and when, what the timer or the
  injected deadline service does. The definitions take it as an argument and the theorems hold for
  every value of it.
\<close>

section \<open>Model\<close>

text \<open>
  \<open>iv_before\<close>, \<open>iv_arming\<close> and \<open>iv_during\<close> are the jobs on whose stop source somebody requests a stop
  before the entry check, while the deadline is armed and while the body runs. \<open>iv_text\<close> is the text
  the body passes to \<^verbatim>\<open>setCurrentJobError\<close>, empty if it does not call it. \<open>iv_early\<close> says that the
  service expires the deadline inside \<^verbatim>\<open>arm\<close>, \<open>iv_expires\<close> that the timer or deadline fires before
  the library is done with it, \<open>iv_finished\<close> that a body on a helper thread returned before the wait
  for it ended.
\<close>

record Invocation =
  iv_before :: "nat list"
  iv_arming :: "nat list"
  iv_during :: "nat list"
  iv_result :: "unit expected"
  iv_text :: string
  iv_armed :: bool
  iv_early :: bool
  iv_expires :: bool
  iv_finished :: bool

definition node :: "nat \<Rightarrow> 'f Impl \<Rightarrow> 'f Node" where
  "node i impl = im_nodes impl ! i"

definition stop_nodes :: "nat list \<Rightarrow> 'f Impl \<Rightarrow> 'f Impl" where
  "stop_nodes js impl = fold (\<lambda>j. request_stop (nd_stopSource (node j impl))) js impl"

definition renewStopState :: "nat \<Rightarrow> 'f Impl \<Rightarrow> 'f Impl" where
  "renewStopState i impl =
     (let nd = node i impl
      in if isCancellable nd \<or> isDeferred nd \<or> stop_requested (nd_stopSource nd) impl
         then (upd_node i (\<lambda>nd. nd\<lparr>nd_stopSource := length (im_stops impl)\<rparr>) impl)
                \<lparr>im_stops := im_stops impl @ [False]\<rparr>
         else impl)"

definition retain :: "'f Impl \<Rightarrow> 'f Impl" where
  "retain impl = impl\<lparr>im_pendingOrphans := im_pendingOrphans impl + 1\<rparr>"

definition hasOrphans :: "'f Impl \<Rightarrow> bool" where
  "hasOrphans impl \<longleftrightarrow> im_pendingOrphans impl \<noteq> 0 \<or> im_deferredOrphans impl \<noteq> 0"

text \<open>
  Both joins return once the threads have ended and the completions were released; the state
  afterwards is the same whenever that happens.
\<close>

definition joinOrphans :: "'f Impl \<Rightarrow> 'f Impl \<times> bool" where
  "joinOrphans impl =
     (impl\<lparr>im_pendingOrphans := 0, im_deferredOrphans := 0\<rparr>,
      im_deferredOrphans impl \<noteq> 0 \<or> im_pendingOrphans impl \<noteq> 0)"

text \<open>The result of a call: what it returns, the error text left on the calling thread, the state.\<close>

type_synonym 'f called = "unit expected \<times> string \<times> 'f Impl"

definition invokeWithDeadline :: "Invocation \<Rightarrow> nat \<Rightarrow> 'f Impl \<Rightarrow> 'f called" where
  "invokeWithDeadline iv i impl =
     (if \<not> iv_armed iv then (Inl kDeadlineUnavailable, [], impl)
      else
        let src = nd_stopSource (node i impl);
            impl1 = stop_nodes (iv_arming iv) (if iv_early iv then request_stop src impl else impl);
            expired = (iv_early iv \<or> iv_expires iv)
        in if stop_requested src impl1
           then (Inl (if expired then kTimeout else kCancelled), [], impl1)
           else
             let impl2 = stop_nodes (iv_during iv) (if iv_expires iv then request_stop src impl1 else impl1)
             in if isCancellable (node i impl)
                then (if expired then Inl kTimeout else iv_result iv, iv_text iv, impl2)
                else if iv_finished iv \<or> \<not> stop_requested src impl2
                then (if expired then Inl kTimeout else iv_result iv, [], impl2)
                else (Inl (if expired then kTimeout else kCancelled), [], retain impl2))"

definition invokeTimed :: "Invocation \<Rightarrow> nat \<Rightarrow> 'f Impl \<Rightarrow> 'f called" where
  "invokeTimed iv i impl =
     (if im_deadlines impl then invokeWithDeadline iv i impl
      else
        let src = nd_stopSource (node i impl); impl1 = stop_nodes (iv_during iv) impl
        in if isCancellable (node i impl)
           then (if iv_expires iv then (Inl kTimeout, iv_text iv, request_stop src impl1)
                 else (iv_result iv, iv_text iv, impl1))
           else if iv_finished iv then (iv_result iv, [], impl1)
           else (Inl kTimeout, [], retain (request_stop src impl1)))"

definition invoke :: "Invocation \<Rightarrow> nat \<Rightarrow> 'f Impl \<Rightarrow> 'f called" where
  "invoke iv i impl0 =
     (let impl = stop_nodes (iv_before iv) impl0; nd = node i impl
      in if stop_requested (nd_stopSource nd) impl then (Inl kCancelled, [], impl)
         else if nd_timeout nd = milliseconds_max
         then (iv_result iv, iv_text iv, stop_nodes (iv_during iv) impl)
         else invokeTimed iv i impl)"

section \<open>Frame\<close>

text \<open>A call changes stop requests and the orphan count, nothing else.\<close>

definition same_frame :: "'f Impl \<Rightarrow> 'f Impl \<Rightarrow> bool" where
  "same_frame a b \<longleftrightarrow> b = a\<lparr>im_stops := im_stops b, im_pendingOrphans := im_pendingOrphans b\<rparr>
     \<and> length (im_stops b) = length (im_stops a) \<and> im_pendingOrphans a \<le> im_pendingOrphans b
     \<and> (\<forall>k. stop_requested k a \<longrightarrow> stop_requested k b)"

lemma same_frame_refl [simp]: "same_frame a a"
  by (simp add: same_frame_def)

lemma same_frame_trans: "same_frame a b \<Longrightarrow> same_frame b c \<Longrightarrow> same_frame a c"
  unfolding same_frame_def by (cases a; cases b; cases c) auto

lemma same_frame_request_stop [simp]: "same_frame a (request_stop k a)"
  by (auto simp: same_frame_def request_stop_def stop_requested_def nth_update_iff)

lemma same_frame_retain [simp]: "same_frame a (retain a)"
  by (auto simp: same_frame_def retain_def stop_requested_def)

lemma same_frame_stop_nodes [simp]: "same_frame a (stop_nodes js a)"
proof -
  have "same_frame b (fold (\<lambda>j. request_stop (f j)) js b)" for b :: "'a Impl" and f
    by (induction js arbitrary: b) (auto intro: same_frame_trans same_frame_request_stop)
  then show ?thesis by (simp add: stop_nodes_def)
qed

lemma same_frame_into [intro!]:
  assumes "same_frame a b"
  shows "same_frame a (request_stop k b)" "same_frame a (retain b)" "same_frame a (stop_nodes js b)"
  by (rule same_frame_trans [OF assms]; simp)+

lemma same_frameD:
  assumes "same_frame a b"
  shows "im_nodes b = im_nodes a" "im_succPool b = im_succPool a" "im_skipped b = im_skipped a"
    "im_inlineReady b = im_inlineReady a" "im_completedCount b = im_completedCount a"
    "im_failedJobName b = im_failedJobName a" "im_deferredNodes b = im_deferredNodes a"
    "im_deferredFinished b = im_deferredFinished a" "im_roots b = im_roots a"
    "im_rootsCached b = im_rootsCached a" "length (im_stops b) = length (im_stops a)"
    "im_deferredOrphans b = im_deferredOrphans a" "im_deadlines b = im_deadlines a"
    "im_running b = im_running a"
proof -
  obtain u v where b: "b = a\<lparr>im_stops := u, im_pendingOrphans := v\<rparr>"
    using assms unfolding same_frame_def by blast
  show "im_nodes b = im_nodes a" "im_succPool b = im_succPool a" "im_skipped b = im_skipped a"
    "im_inlineReady b = im_inlineReady a" "im_completedCount b = im_completedCount a"
    "im_failedJobName b = im_failedJobName a" "im_deferredNodes b = im_deferredNodes a"
    "im_deferredFinished b = im_deferredFinished a" "im_roots b = im_roots a"
    "im_rootsCached b = im_rootsCached a"
    "im_deferredOrphans b = im_deferredOrphans a" "im_deadlines b = im_deadlines a"
    "im_running b = im_running a"
    by (simp_all add: b)
  show "length (im_stops b) = length (im_stops a)" using assms by (simp add: same_frame_def)
qed

lemma same_frame_deadline:
  "invokeWithDeadline iv i a = (r, m, b) \<Longrightarrow> same_frame a b"
  by (auto simp: invokeWithDeadline_def Let_def split: if_splits)

lemma invoke_frame:
  assumes "invoke iv i a = (r, m, b)"
  shows "same_frame a b"
  using assms
  by (auto simp: invoke_def invokeTimed_def Let_def split: if_splits
      dest!: same_frame_deadline intro: same_frame_trans [OF same_frame_stop_nodes])

section \<open>Properties\<close>

lemma stop_requested_request [simp]: "k < length (im_stops a) \<Longrightarrow> stop_requested k (request_stop k a)"
  by (simp add: stop_requested_def request_stop_def)

lemma stop_requested_frame: "same_frame a b \<Longrightarrow> stop_requested k a \<Longrightarrow> stop_requested k b"
  by (simp add: same_frame_def)

lemma orphans_simps [simp]:
  "im_pendingOrphans (request_stop k a) = im_pendingOrphans a"
  "im_pendingOrphans (retain a) = Suc (im_pendingOrphans a)"
  "stop_requested k (retain a) = stop_requested k a" "im_nodes (request_stop k a) = im_nodes a"
  "length (im_stops (request_stop k a)) = length (im_stops a)" "hasOrphans (retain a)"
  by (simp_all add: request_stop_def retain_def stop_requested_def hasOrphans_def)

lemma stop_nodes_simps [simp]:
  "im_pendingOrphans (stop_nodes js a) = im_pendingOrphans a" "im_nodes (stop_nodes js a) = im_nodes a"
  "length (im_stops (stop_nodes js a)) = length (im_stops a)"
proof -
  have *: "im_pendingOrphans (fold (\<lambda>j. request_stop (f j)) js b) = im_pendingOrphans b" for b :: "'a Impl" and f
    by (induction js arbitrary: b) auto
  show "im_pendingOrphans (stop_nodes js a) = im_pendingOrphans a" by (simp add: stop_nodes_def *)
qed (simp_all add: same_frameD [OF same_frame_stop_nodes])

lemma node_stop_nodes [simp]: "node i (stop_nodes js a) = node i a" "node i (request_stop k a) = node i a"
  by (simp_all add: node_def)

lemma deadline_orphans:
  assumes "invokeWithDeadline iv i a = (r, m, b)" "nd_stopSource (node i a) < length (im_stops a)"
  shows "im_pendingOrphans b = im_pendingOrphans a \<or>
    im_pendingOrphans b = Suc (im_pendingOrphans a) \<and> \<not> isCancellable (node i a) \<and> \<not> iv_finished iv \<and>
    (r = Inl kTimeout \<or> r = Inl kCancelled) \<and> stop_requested (nd_stopSource (node i a)) b \<and> hasOrphans b"
  using assms by (auto simp: invokeWithDeadline_def Let_def split: if_splits)



end
