(* ===== verification/Scheduler.thy ===== *)
theory Scheduler
  imports Invoke Schedule
begin

text \<open>
  The run of a pipeline on an executor that runs jobs on the calling thread: \<^verbatim>\<open>Pipeline::runImpl\<close>
  with its \<^verbatim>\<open>DispatchContext\<close>, as \<^verbatim>\<open>runInline\<close> uses it. The functions below follow the member
  functions of the context one by one and are executable; what user code does is the record \<open>Env\<close>.
  Each function is shown to be a sequence of steps of the threaded model of \<^verbatim>\<open>Schedule\<close>, so the
  theorems about every interleaving hold for the functions below.
\<close>

section \<open>Context and environment\<close>

record 'f Ctx =
  cx_impl :: "'f Impl"
  cx_fatal :: "PipelineError option"
  cx_skipRead :: nat
  cx_draining :: bool
  cx_inFlight :: u32
  cx_jobError :: string
  cx_trace :: "event list"

text \<open>
  What can happen to a started deferred job: its completion is completed or abandoned, a stop is
  requested on its stop source, its deadline expires.
\<close>

datatype slot_action = Signal "unit expected" string | Stop | Expire

text \<open>
  \<open>se_before\<close> are the jobs stopped before the entry check, \<open>se_service\<close> says that a deadline service
  is available, \<open>se_armed\<close> that it takes the deadline, \<open>se_early\<close> that it expires it at once,
  \<open>se_arming\<close> are the jobs stopped until the stop callback is registered, \<open>se_actions\<close> what happens
  while the start function runs, \<open>se_text\<close> what it passes to \<^verbatim>\<open>setCurrentJobError\<close>.
\<close>

record DeferredStart =
  se_before :: "nat list"
  se_service :: bool
  se_armed :: bool
  se_early :: bool
  se_arming :: "nat list"
  se_actions :: "slot_action list"
  se_text :: string

record Env =
  en_stopped :: bool
  en_invoke :: "nat \<Rightarrow> Invocation"
  en_start :: "nat \<Rightarrow> DeferredStart"

definition cx_node :: "nat \<Rightarrow> 'f Ctx \<Rightarrow> 'f Node" where
  "cx_node i cx = im_nodes (cx_impl cx) ! i"

definition upd_impl :: "('f Impl \<Rightarrow> 'f Impl) \<Rightarrow> 'f Ctx \<Rightarrow> 'f Ctx" where
  "upd_impl f cx = cx\<lparr>cx_impl := f (cx_impl cx)\<rparr>"

definition cx_status :: "nat \<Rightarrow> JobStatus \<Rightarrow> 'f Ctx \<Rightarrow> 'f Ctx" where
  "cx_status i st = upd_impl (upd_node i (\<lambda>nd. nd\<lparr>nd_jobStatus := st\<rparr>))"

definition cx_emit :: "event list \<Rightarrow> 'f Ctx \<Rightarrow> 'f Ctx" where
  "cx_emit es cx = cx\<lparr>cx_trace := cx_trace cx @ es\<rparr>"

definition cx_succs :: "nat \<Rightarrow> 'f Ctx \<Rightarrow> nat list" where
  "cx_succs i cx = succs (cx_impl cx) i"

definition notify :: "nat \<Rightarrow> 'f Ctx \<Rightarrow> event list" where
  "notify i cx = (if cx_succs i cx = [] then [] else [Dependencies i (cx_succs i cx)])"

text \<open>\<^verbatim>\<open>completedCount_.fetch_add(1) + 1\<close>: the new count and the state.\<close>

definition count_done :: "'f Ctx \<Rightarrow> u32 \<times> 'f Ctx" where
  "count_done cx = (im_completedCount (cx_impl cx) + 1,
     upd_impl (\<lambda>impl. impl\<lparr>im_completedCount := im_completedCount impl + 1\<rparr>) cx)"

section \<open>Failures and skipping\<close>

definition recordFailure :: "nat \<Rightarrow> PipelineError \<Rightarrow> 'f Ctx \<Rightarrow> 'f Ctx" where
  "recordFailure idx error cx =
     (if cx_fatal cx = None
      then (upd_impl (\<lambda>impl. impl\<lparr>im_failedJobName := nd_nameStr (cx_node idx cx)\<rparr>) cx)
             \<lparr>cx_fatal := Some error\<rparr>
      else cx)"

text \<open>
  Successor indices always name a node (\<^verbatim>\<open>Graph.built_graph_consistent\<close>); the code has no defined
  behaviour for another index, for which \<open>enqueueSkip\<close> does nothing.
\<close>

definition enqueueSkip :: "nat \<Rightarrow> 'f Ctx \<Rightarrow> 'f Ctx" where
  "enqueueSkip idx cx =
     (let previous = nd_jobStatus (cx_node idx cx)
      in if idx < length (im_nodes (cx_impl cx)) \<and> (previous = kPending \<or> previous = kReady)
         then upd_impl (\<lambda>impl. impl\<lparr>im_skipped := im_skipped impl @ [idx]\<rparr>) (cx_status idx kSkipped cx)
         else cx)"

text \<open>One round of the draining loop of \<^verbatim>\<open>skipNode\<close>, then the loop.\<close>

definition drain_one :: "'f Ctx \<Rightarrow> 'f Ctx" where
  "drain_one cx =
     (let idx = im_skipped (cx_impl cx) ! cx_skipRead cx;
          cx1 = fold enqueueSkip (cx_succs idx cx) (cx\<lparr>cx_skipRead := cx_skipRead cx + 1\<rparr>)
      in case count_done cx1 of (done, cx2) \<Rightarrow>
           cx_emit (Finished idx kSkipped done # notify idx cx2) cx2)"

definition skippable :: "'f Ctx \<Rightarrow> nat" where
  "skippable cx = length (filter (\<lambda>nd. nd_jobStatus nd = kPending \<or> nd_jobStatus nd = kReady)
     (im_nodes (cx_impl cx)))"

lemma length_filter_update:
  assumes "k < length xs" "P (xs ! k)" "\<not> P x"
  shows "length (filter P (xs[k := x])) < length (filter P xs)"
proof -
  have "filter P xs = filter P (take k xs) @ filter P [xs ! k] @ filter P (drop (Suc k) xs)"
    using assms(1) by (metis append_Cons append_Nil filter_append id_take_nth_drop)
  then show ?thesis using assms by (simp add: upd_conv_take_nth_drop)
qed

definition drain_measure :: "'f Ctx \<Rightarrow> nat" where
  "drain_measure cx = skippable cx + length (im_skipped (cx_impl cx)) - cx_skipRead cx"

lemma enqueueSkip_measure:
  "skippable (enqueueSkip idx cx) + length (im_skipped (cx_impl (enqueueSkip idx cx)))
     \<le> skippable cx + length (im_skipped (cx_impl cx))"
  "cx_skipRead (enqueueSkip idx cx) = cx_skipRead cx"
  using length_filter_update [of idx "im_nodes (cx_impl cx)"
    "\<lambda>nd. nd_jobStatus nd = kPending \<or> nd_jobStatus nd = kReady"
    "(cx_node idx cx)\<lparr>nd_jobStatus := kSkipped\<rparr>"]
  by (auto simp: enqueueSkip_def Let_def cx_status_def upd_impl_def upd_node_def skippable_def cx_node_def)

lemma fold_enqueueSkip_measure:
  "skippable (fold enqueueSkip js cx) + length (im_skipped (cx_impl (fold enqueueSkip js cx)))
     \<le> skippable cx + length (im_skipped (cx_impl cx))"
  "cx_skipRead (fold enqueueSkip js cx) = cx_skipRead cx"
proof -
  show "skippable (fold enqueueSkip js cx) + length (im_skipped (cx_impl (fold enqueueSkip js cx)))
     \<le> skippable cx + length (im_skipped (cx_impl cx))"
  proof (induction js arbitrary: cx)
    case (Cons j js)
    show ?case
      using order_trans [OF Cons.IH [of "enqueueSkip j cx"] enqueueSkip_measure(1)] by simp
  qed simp
  show "cx_skipRead (fold enqueueSkip js cx) = cx_skipRead cx"
    by (induction js arbitrary: cx) (simp_all add: enqueueSkip_measure(2))
qed

lemma drain_one_measure:
  assumes "cx_skipRead cx < length (im_skipped (cx_impl cx))"
  shows "drain_measure (drain_one cx) < drain_measure cx"
proof -
  let ?cx1 = "fold enqueueSkip (cx_succs (im_skipped (cx_impl cx) ! cx_skipRead cx) cx)
    (cx\<lparr>cx_skipRead := cx_skipRead cx + 1\<rparr>)"
  have "skippable (drain_one cx) = skippable ?cx1" "cx_skipRead (drain_one cx) = cx_skipRead cx + 1"
    "im_skipped (cx_impl (drain_one cx)) = im_skipped (cx_impl ?cx1)"
    by (simp_all add: drain_one_def Let_def count_done_def cx_emit_def upd_impl_def skippable_def
        fold_enqueueSkip_measure(2))
  moreover have "skippable ?cx1 + length (im_skipped (cx_impl ?cx1)) \<le> skippable cx + length (im_skipped (cx_impl cx))"
    using fold_enqueueSkip_measure(1) [of _ "cx\<lparr>cx_skipRead := cx_skipRead cx + 1\<rparr>"]
    by (simp add: skippable_def)
  ultimately show ?thesis using assms by (simp add: drain_measure_def)
qed

function drainSkips :: "'f Ctx \<Rightarrow> 'f Ctx" where
  "drainSkips cx =
     (if cx_skipRead cx < length (im_skipped (cx_impl cx)) then drainSkips (drain_one cx)
      else cx\<lparr>cx_draining := False\<rparr>)"
  by pat_completeness auto
termination
  by (relation "measure drain_measure") (auto intro: drain_one_measure)

declare drainSkips.simps [simp del]

definition skipNode :: "nat \<Rightarrow> 'f Ctx \<Rightarrow> 'f Ctx" where
  "skipNode startIdx cx =
     (let cx1 = enqueueSkip startIdx cx
      in if cx_draining cx1 then cx1 else drainSkips (cx1\<lparr>cx_draining := True\<rparr>))"

section \<open>Finishing a job\<close>

text \<open>The loop of \<^verbatim>\<open>finishJob\<close> over the successors of a job that lets them go on, for an inline run.\<close>

fun release_succs :: "nat list \<Rightarrow> 'f Ctx \<Rightarrow> 'f Ctx" where
  "release_succs [] cx = cx"
| "release_succs (j # js) cx =
     (if cx_fatal cx \<noteq> None then release_succs js (skipNode j cx)
      else
        let remaining = nd_unmetDeps (cx_node j cx) - 1;
            cx1 = upd_impl (upd_node j (\<lambda>nd. nd\<lparr>nd_unmetDeps := remaining\<rparr>)) cx
        in if remaining = 0 \<and> nd_jobStatus (cx_node j cx1) = kPending
           then release_succs js
                  (upd_impl (\<lambda>impl. impl\<lparr>im_inlineReady := im_inlineReady impl @ [j]\<rparr>) (cx_status j kReady cx1))
           else release_succs js cx1)"

definition finishJob :: "nat \<Rightarrow> unit expected \<Rightarrow> string \<Rightarrow> 'f Ctx \<Rightarrow> 'f Ctx" where
  "finishJob idx result errorText cx =
     (case count_done (cx_status idx (statusOf result) cx) of (done, cx1) \<Rightarrow>
        let cx2 = cx_emit (Finished idx (statusOf result) done # notify idx cx1) cx1
        in case result of
             Inl e \<Rightarrow>
               if \<not> isOptional (cx_node idx cx2) \<or> e = kCancelled
               then fold skipNode (cx_succs idx cx2)
                      (recordFailure idx e (cx_emit [Failure idx e errorText] cx2))
               else release_succs (cx_succs idx cx2) cx2
           | Inr _ \<Rightarrow> release_succs (cx_succs idx cx2) cx2)"

text \<open>In an inline run no submission can be rejected, so \<^verbatim>\<open>finishCold\<close> is \<^verbatim>\<open>finishJob\<close>.\<close>

definition finishCold :: "nat \<Rightarrow> unit expected \<Rightarrow> string \<Rightarrow> 'f Ctx \<Rightarrow> 'f Ctx" where
  "finishCold idx result errorText cx = finishJob idx result errorText cx"

section \<open>Deferred jobs\<close>

definition cx_slot :: "nat \<Rightarrow> 'f Ctx \<Rightarrow> 'f DeferredSlot" where
  "cx_slot idx cx = the (nd_deferred (cx_node idx cx))"

definition set_slot :: "nat \<Rightarrow> 'f DeferredSlot \<Rightarrow> 'f Ctx \<Rightarrow> 'f Ctx" where
  "set_slot idx slot = upd_impl (upd_node idx (\<lambda>nd. nd\<lparr>nd_deferred := Some slot\<rparr>))"

definition set_orphans :: "u64 \<Rightarrow> 'f Ctx \<Rightarrow> 'f Ctx" where
  "set_orphans orphans = upd_impl (\<lambda>impl. impl\<lparr>im_deferredOrphans := orphans\<rparr>)"

text \<open>
  One outside action on the slot of a deferred job; a job without a slot has none. The boolean says
  that the acting party arrived last, so that it calls \<^verbatim>\<open>deliver\<close>. A stop runs the slot's stop
  callback while that is registered.
\<close>

definition stop_slot :: "nat \<Rightarrow> 'f Ctx \<Rightarrow> 'f Ctx \<times> bool" where
  "stop_slot idx cx =
     (let cx1 = upd_impl (request_stop (nd_stopSource (cx_node idx cx))) cx
      in if ds_stopCallback (cx_slot idx cx1)
         then (case slot_stop (cx_slot idx cx1) of (slot, d) \<Rightarrow> (set_slot idx slot cx1, d))
         else (cx1, False))"

definition signal_slot :: "unit expected \<Rightarrow> string \<Rightarrow> nat \<Rightarrow> 'f Ctx \<Rightarrow> 'f Ctx \<times> bool" where
  "signal_slot r m idx cx =
     (case signal r m (cx_slot idx cx) (im_deferredOrphans (cx_impl cx)) of
        (slot, orphans, d) \<Rightarrow> (set_orphans orphans (set_slot idx slot cx), d))"

definition expire_slot :: "nat \<Rightarrow> 'f Ctx \<Rightarrow> 'f Ctx \<times> bool" where
  "expire_slot idx cx =
     (if ds_deadlineService (cx_slot idx cx)
      then stop_slot idx (set_slot idx ((cx_slot idx cx)\<lparr>ds_deadline := Some True\<rparr>) cx)
      else (cx, False))"

definition act :: "nat \<Rightarrow> slot_action \<Rightarrow> 'f Ctx \<Rightarrow> 'f Ctx \<times> bool" where
  "act idx a cx =
     (if idx < length (im_nodes (cx_impl cx)) \<and> nd_deferred (cx_node idx cx) \<noteq> None
      then (case a of
              Signal r m \<Rightarrow> signal_slot r m idx cx
            | Stop \<Rightarrow> stop_slot idx cx
            | Expire \<Rightarrow> expire_slot idx cx)
      else (cx, False))"

text \<open>\<^verbatim>\<open>deliverDeferred\<close> of an inline run hands the job to the run thread.\<close>

definition deliverDeferred :: "nat \<Rightarrow> 'f Ctx \<Rightarrow> 'f Ctx" where
  "deliverDeferred idx =
     upd_impl (\<lambda>impl. impl\<lparr>im_deferredFinished := im_deferredFinished impl @ [idx]\<rparr>)"

definition act_deliver :: "nat \<Rightarrow> slot_action \<Rightarrow> 'f Ctx \<Rightarrow> 'f Ctx" where
  "act_deliver idx a cx = (case act idx a cx of (cx1, d) \<Rightarrow> if d then deliverDeferred idx cx1 else cx1)"

definition finishDeferred :: "nat \<Rightarrow> 'f Ctx \<Rightarrow> 'f Ctx" where
  "finishDeferred idx cx =
     (let cx1 = set_slot idx (releaseRegistrations (cx_slot idx cx)) cx;
          cx2 = (if ds_outcome (cx_slot idx cx1) = kStopped
                 then (case orphanIfHeld (cx_slot idx cx1) (im_deferredOrphans (cx_impl cx1)) of
                         (slot, orphans) \<Rightarrow> set_orphans orphans (set_slot idx slot cx1))
                 else cx1);
          cx3 = finishCold idx (ds_result (cx_slot idx cx2)) (ds_message (cx_slot idx cx2)) cx2
      in cx3\<lparr>cx_inFlight := cx_inFlight cx3 - 1\<rparr>)"

text \<open>The slot at the start of a run of its job.\<close>

definition reset_slot :: "nat \<Rightarrow> 'f DeferredSlot \<Rightarrow> 'f DeferredSlot" where
  "reset_slot src slot = slot\<lparr>ds_outcome := kNone, ds_parties := 2, ds_handleFlags := 0,
     ds_result := Inr (), ds_message := [], ds_token := src, ds_deadline := None\<rparr>"

text \<open>The end of \<^verbatim>\<open>startDeferred\<close>, after the start function returned.\<close>

definition await_or_finish :: "nat \<Rightarrow> 'f Ctx \<Rightarrow> 'f Ctx" where
  "await_or_finish idx cx =
     (let cx1 = (if ds_outcome (cx_slot idx cx) = kNone
                 then cx_emit [Awaited idx] (cx_status idx kAwaiting cx) else cx)
      in case arrive (cx_slot idx cx1) of (slot, fin) \<Rightarrow>
           if fin then finishDeferred idx (set_slot idx slot cx1) else set_slot idx slot cx1)"

definition startDeferred :: "DeferredStart \<Rightarrow> nat \<Rightarrow> 'f Ctx \<Rightarrow> 'f Ctx" where
  "startDeferred se idx cx0 =
     (let cx = upd_impl (stop_nodes (se_before se)) cx0; nd = cx_node idx cx; src = nd_stopSource nd
      in if stop_requested src (cx_impl cx) then finishCold idx (Inl kCancelled) [] cx
         else
           let cx1 = set_slot idx (reset_slot src (cx_slot idx cx)) cx;
               timed = nd_timeout nd \<noteq> milliseconds_max
           in if timed \<and> \<not> (se_service se \<and> se_armed se)
              then finishCold idx (Inl kDeadlineUnavailable) [] cx1
              else
                let cx2 = (if timed
                           then set_slot idx ((cx_slot idx cx1)\<lparr>ds_deadline := Some (se_early se),
                                  ds_deadlineService := True\<rparr>) cx1
                           else cx1);
                    cx3 = upd_impl (stop_nodes (se_arming se))
                            (if timed \<and> se_early se then upd_impl (request_stop src) cx2 else cx2);
                    cx4 = set_slot idx ((cx_slot idx cx3)\<lparr>ds_stopCallback := True\<rparr>)
                            (cx3\<lparr>cx_inFlight := cx_inFlight cx3 + 1\<rparr>);
                    cx5 = (if stop_requested src (cx_impl cx4) then act_deliver idx Stop cx4 else cx4);
                    cx6 = fold (act_deliver idx) (se_actions se) cx5
                in await_or_finish idx
                     (if se_text se = [] then cx6 else cx6\<lparr>cx_jobError := se_text se\<rparr>))"

section \<open>Dispatching\<close>

definition dispatchJob :: "Env \<Rightarrow> nat \<Rightarrow> 'f Ctx \<Rightarrow> 'f Ctx" where
  "dispatchJob env idx cx =
     (if cx_fatal cx \<noteq> None then skipNode idx cx
      else if nd_jobStatus (cx_node idx cx) \<noteq> kReady then cx
      else
        let cx1 = cx_emit [Started idx] (cx_status idx kRunning cx)
        in if isDeferred (cx_node idx cx1) then startDeferred (en_start env idx) idx cx1
           else (case invoke (en_invoke env idx) idx (cx_impl cx1) of (result, m, impl) \<Rightarrow>
             let jobErrorCtx = (if m = [] then cx_jobError cx1 else m)
             in finishJob idx result jobErrorCtx (cx1\<lparr>cx_impl := impl, cx_jobError := []\<rparr>)))"

text \<open>\<^verbatim>\<open>for (; next < ready.size(); ++next) ctx.dispatchJob(ready[next])\<close>, as \<open>None\<close> if it never ended.\<close>

partial_function (option) run_ready :: "Env \<Rightarrow> nat \<Rightarrow> 'f Ctx \<Rightarrow> (nat \<times> 'f Ctx) option" where
  "run_ready env nxt cx =
     (if nxt < length (im_inlineReady (cx_impl cx))
      then run_ready env (nxt + 1) (dispatchJob env (im_inlineReady (cx_impl cx) ! nxt) cx)
      else Some (nxt, cx))"

declare run_ready.simps [code]

text \<open>\<^verbatim>\<open>finishAwaitedInline\<close> once it is woken: finish what was delivered, in order.\<close>

definition finish_delivered :: "'f Ctx \<Rightarrow> 'f Ctx" where
  "finish_delivered cx =
     fold finishDeferred (im_deferredFinished (cx_impl cx))
       (upd_impl (\<lambda>impl. impl\<lparr>im_deferredFinished := []\<rparr>) cx)"

text \<open>
  The loop of an inline run. \<open>script\<close> says what happens outside while the run thread waits, one list
  for each time it wakes. A run thread that is left waiting for ever has the value \<open>None\<close>.
\<close>

fun inline_loop :: "Env \<Rightarrow> (nat \<times> slot_action) list list \<Rightarrow> nat \<Rightarrow> 'f Ctx \<Rightarrow> 'f Ctx option" where
  "inline_loop env script nxt cx =
     (case run_ready env nxt cx of
        None \<Rightarrow> None
      | Some (nxt1, cx1) \<Rightarrow>
          if im_deferredNodes (cx_impl cx1) = []
             \<or> im_deferredFinished (cx_impl cx1) = [] \<and> cx_inFlight cx1 = 0
          then Some cx1
          else (case script of
                  [] \<Rightarrow> None
                | acts # rest \<Rightarrow>
                    inline_loop env rest nxt1
                      (finish_delivered (fold (\<lambda>(idx, a). act_deliver idx a) acts cx1))))"

declare inline_loop.simps [simp del]

section \<open>A run\<close>

definition computeRoots :: "'f Impl \<Rightarrow> nat list" where
  "computeRoots impl = filter (\<lambda>i. nd_predecessorCount (im_nodes impl ! i) = 0 \<and> \<not> isOnDemand (im_nodes impl ! i))
     [0..<length (im_nodes impl)]"

definition init_node :: "nat \<Rightarrow> 'f Impl \<Rightarrow> 'f Impl" where
  "init_node i impl =
     upd_node i (\<lambda>nd. nd\<lparr>nd_unmetDeps := nd_predecessorCount nd,
        nd_jobStatus := if nd_predecessorCount nd = 0 \<and> \<not> isOnDemand nd then kReady else kPending\<rparr>)
       (renewStopState i impl)"

definition init_nodes :: "'f Impl \<Rightarrow> 'f Impl" where
  "init_nodes impl = fold init_node [0..<length (im_nodes impl)] impl"

definition release_all :: "'f Ctx \<Rightarrow> 'f Ctx" where
  "release_all cx =
     fold (\<lambda>i. upd_impl (upd_node i (\<lambda>nd. nd\<lparr>nd_deferred := map_option releaseRegistrations (nd_deferred nd)\<rparr>)))
       (im_deferredNodes (cx_impl cx)) cx"

text \<open>The part of \<^verbatim>\<open>runImpl\<close> after the roots are known, for an inline executor.\<close>

definition start_ctx :: "Env \<Rightarrow> 'f Impl \<Rightarrow> string \<Rightarrow> 'f Ctx" where
  "start_ctx env impl jobError =
     (let impl1 = init_nodes impl;
          impl2 = impl1\<lparr>im_deferredFinished := if im_deferredNodes impl1 = [] then im_deferredFinished impl1 else [],
                        im_failedJobName := []\<rparr>;
          impl3 = (if en_stopped env then stop_nodes [0..<length (im_nodes impl2)] impl2 else impl2)
      in \<lparr>cx_impl = impl3\<lparr>im_inlineReady := im_roots impl3\<rparr>, cx_fatal = None, cx_skipRead = 0,
          cx_draining = False, cx_inFlight = 0, cx_jobError = jobError, cx_trace = []\<rparr>)"

text \<open>The state after \<^verbatim>\<open>runImpl\<close> took the running flag, joined the orphans and reset the counters.\<close>

definition run_reset :: "'f Impl \<Rightarrow> 'f Impl" where
  "run_reset impl =
     (let impl1 = impl\<lparr>im_running := True\<rparr>
      in (if hasOrphans impl1 then fst (joinOrphans impl1) else impl1)\<lparr>im_completedCount := 0, im_skipped := []\<rparr>)"

text \<open>Validation and the roots, unless both are cached from an earlier run; \<open>None\<close> if it never ended.\<close>

definition cache_roots :: "'f Impl \<Rightarrow> 'f Impl expected option" where
  "cache_roots impl =
     (if im_rootsCached impl then Some (Inr impl)
      else map_option (map_sum id (\<lambda>_. impl\<lparr>im_roots := computeRoots impl, im_rootsCached := True\<rparr>)) (validate impl))"

definition runImpl ::
  "Env \<Rightarrow> (nat \<times> slot_action) list list \<Rightarrow> string \<Rightarrow> 'f Impl \<Rightarrow> (unit expected \<times> 'f Ctx option \<times> 'f Impl) option" where
  "runImpl env script jobError impl =
     (if im_nodes impl = [] then Some (Inr (), None, impl)
      else if im_running impl then Some (Inl kBusy, None, impl)
      else
        (case cache_roots (run_reset impl) of
           None \<Rightarrow> None
         | Some (Inl e) \<Rightarrow> Some (Inl e, None, (run_reset impl)\<lparr>im_running := False\<rparr>)
         | Some (Inr impl1) \<Rightarrow>
             (case inline_loop env script 0 (start_ctx env impl1 jobError) of
                None \<Rightarrow> None
              | Some cx \<Rightarrow>
                  let cx1 = release_all cx
                  in Some (case cx_fatal cx1 of None \<Rightarrow> Inr () | Some e \<Rightarrow> Inl e, Some cx1,
                           (cx_impl cx1)\<lparr>im_running := False\<rparr>))))"

end
