(* ===== verification/InlineSim.thy ===== *)
theory InlineSim
  imports Scheduler
begin

text \<open>
  The inline run is a run of the threaded model: every function of \<^verbatim>\<open>Scheduler\<close> corresponds to a
  sequence of steps of \<^verbatim>\<open>Schedule\<close>, with the jobs that wait in the ready list as the tasks the
  executor holds.
\<close>

section \<open>The simulation relation\<close>

definition dag_of :: "'f Impl \<Rightarrow> dag" where
  "dag_of impl =
     (let n = length (im_nodes impl)
      in \<lparr>dg_n = n, dg_succs = (\<lambda>i. if i < n then succs impl i else []),
          dg_preds = (\<lambda>i. if i < n then nd_predecessorCount (im_nodes impl ! i) else 0),
          dg_optional = (\<lambda>i. i < n \<and> isOptional (im_nodes impl ! i)),
          dg_deferred = (\<lambda>i. i < n \<and> isDeferred (im_nodes impl ! i)),
          dg_onDemand = (\<lambda>i. i < n \<and> isOnDemand (im_nodes impl ! i))\<rparr>)"

text \<open>
  What no operation of a run changes: the graph, the names, and the storage behind them. \<open>fixed\<close> holds
  the successor storage, the stop sources, the cached roots and the list of deferred jobs.
\<close>

type_synonym fixed = "u16 list \<times> PoolSuccessors list \<times> nat list \<times> nat \<times> bool \<times> nat list \<times> nat list"

definition fixed :: "'f Impl \<Rightarrow> fixed" where
  "fixed impl = (im_succPool impl, map nd_successors (im_nodes impl), map nd_stopSource (im_nodes impl),
     length (im_stops impl), im_rootsCached impl, im_roots impl, im_deferredNodes impl)"

type_synonym frozen = "dag \<times> string list \<times> fixed"

definition static :: "'f Impl \<Rightarrow> frozen" where
  "static impl = (dag_of impl, map nd_nameStr (im_nodes impl), fixed impl)"

definition sim :: "frozen \<Rightarrow> 'f Ctx \<Rightarrow> sched \<Rightarrow> bool" where
  "sim gn cx s \<longleftrightarrow> static (cx_impl cx) = gn
     \<and> (\<forall>i<dg_n (fst gn). sc_status s i = nd_jobStatus (cx_node i cx) \<and> sc_unmet s i = nd_unmetDeps (cx_node i cx))
     \<and> sc_completed s = im_completedCount (cx_impl cx)
     \<and> map_option snd (sc_fatal s) = cx_fatal cx
     \<and> (\<forall>i e. sc_fatal s = Some (i, e) \<longrightarrow> i < dg_n (fst gn) \<and> im_failedJobName (cx_impl cx) = fst (snd gn) ! i)
     \<and> sc_skipped s = im_skipped (cx_impl cx) \<and> set (im_skipped (cx_impl cx)) \<subseteq> {..<dg_n (fst gn)}
     \<and> sc_skipRead s = cx_skipRead cx
     \<and> sc_draining s = cx_draining cx \<and> sc_locked s = cx_draining cx
     \<and> sc_trace s = cx_trace cx"

abbreviation steps :: "frozen \<Rightarrow> state \<Rightarrow> state \<Rightarrow> bool" where
  "steps gn \<equiv> (step (fst gn))\<^sup>*\<^sup>*"

lemma dag_of_sel [simp]:
  "dg_n (dag_of impl) = length (im_nodes impl)"
  "i < length (im_nodes impl) \<Longrightarrow> dg_succs (dag_of impl) i = succs impl i"
  "i < length (im_nodes impl) \<Longrightarrow> dg_optional (dag_of impl) i = isOptional (im_nodes impl ! i)"
  "i < length (im_nodes impl) \<Longrightarrow> dg_deferred (dag_of impl) i = isDeferred (im_nodes impl ! i)"
  "i < length (im_nodes impl) \<Longrightarrow> dg_onDemand (dag_of impl) i = isOnDemand (im_nodes impl ! i)"
  "i < length (im_nodes impl) \<Longrightarrow> dg_preds (dag_of impl) i = nd_predecessorCount (im_nodes impl ! i)"
  by (simp_all add: dag_of_def Let_def)

lemma static_cong:
  assumes "length (im_nodes b) = length (im_nodes a)" "im_succPool b = im_succPool a"
    "length (im_stops b) = length (im_stops a)" "im_rootsCached b = im_rootsCached a" "im_roots b = im_roots a"
    "im_deferredNodes b = im_deferredNodes a"
    "\<And>i. i < length (im_nodes a) \<Longrightarrow> nd_successors (im_nodes b ! i) = nd_successors (im_nodes a ! i)
       \<and> nd_predecessorCount (im_nodes b ! i) = nd_predecessorCount (im_nodes a ! i)
       \<and> nd_flags (im_nodes b ! i) = nd_flags (im_nodes a ! i)
       \<and> nd_nameStr (im_nodes b ! i) = nd_nameStr (im_nodes a ! i)
       \<and> nd_stopSource (im_nodes b ! i) = nd_stopSource (im_nodes a ! i)"
  shows "static b = static a"
proof -
  have "map nd_nameStr (im_nodes b) = map nd_nameStr (im_nodes a)"
    "map nd_successors (im_nodes b) = map nd_successors (im_nodes a)"
    "map nd_stopSource (im_nodes b) = map nd_stopSource (im_nodes a)"
    by (rule nth_equalityI; use assms in auto)+
  moreover have "dag_of b = dag_of a"
    using assms by (auto simp: dag_of_def Let_def succs_def isOptional_def isDeferred_def isOnDemand_def fun_eq_iff)
  ultimately show ?thesis using assms(2-6) by (simp add: static_def fixed_def)
qed

lemma static_upd_node [simp]:
  assumes "\<And>nd. nd_successors (f nd) = nd_successors nd \<and> nd_predecessorCount (f nd) = nd_predecessorCount nd
       \<and> nd_flags (f nd) = nd_flags nd \<and> nd_nameStr (f nd) = nd_nameStr nd
       \<and> nd_stopSource (f nd) = nd_stopSource nd"
  shows "static (upd_node i f a) = static a"
  by (rule static_cong) (auto simp: upd_node_def nth_update_iff assms)

lemma static_fields [simp]:
  "static (a\<lparr>im_completedCount := c\<rparr>) = static a" "static (a\<lparr>im_failedJobName := m\<rparr>) = static a"
  "static (a\<lparr>im_skipped := q\<rparr>) = static a" "static (a\<lparr>im_inlineReady := q\<rparr>) = static a"
  "static (a\<lparr>im_deferredOrphans := c'\<rparr>) = static a" "static (a\<lparr>im_deferredFinished := q\<rparr>) = static a"
  "static (request_stop k a) = static a" "static (stop_nodes js a) = static a"
  "static (a\<lparr>im_running := b\<rparr>) = static a"
  by (rule static_cong; simp add: request_stop_def same_frameD [OF same_frame_stop_nodes])+

lemma static_length: "static (cx_impl cx) = gn \<Longrightarrow> length (im_nodes (cx_impl cx)) = dg_n (fst gn)"
  by (auto simp: static_def)

section \<open>Atomic operations\<close>

lemma upd_node_sel [simp]:
  "length (im_nodes (upd_node i f a)) = length (im_nodes a)"
  "k < length (im_nodes a) \<Longrightarrow> im_nodes (upd_node i f a) ! k = (if i = k then f (im_nodes a ! i) else im_nodes a ! k)"
  "im_completedCount (upd_node i f a) = im_completedCount a" "im_skipped (upd_node i f a) = im_skipped a"
  "im_failedJobName (upd_node i f a) = im_failedJobName a" "im_inlineReady (upd_node i f a) = im_inlineReady a"
  "im_deferredFinished (upd_node i f a) = im_deferredFinished a"
  "im_deferredOrphans (upd_node i f a) = im_deferredOrphans a" "im_deferredNodes (upd_node i f a) = im_deferredNodes a"
  "im_succPool (upd_node i f a) = im_succPool a" "im_stops (upd_node i f a) = im_stops a"
  by (simp_all add: upd_node_def nth_update_iff)

lemma sim_length: "sim gn cx s \<Longrightarrow> length (im_nodes (cx_impl cx)) = dg_n (fst gn)"
  using static_length by (auto simp: sim_def)

lemma sim_static:
  assumes "sim gn cx s"
  shows "fst gn = dag_of (cx_impl cx)" "fst (snd gn) = map nd_nameStr (im_nodes (cx_impl cx))"
  using assms by (auto simp: sim_def static_def)

lemma sim_status:
  "sim gn cx s \<Longrightarrow> i < dg_n (fst gn) \<Longrightarrow> sim gn (cx_status i st cx) (set_status i st s)"
  using sim_length [of gn cx s]
  by (auto simp: sim_def cx_status_def upd_impl_def cx_node_def set_status_def)

lemma sim_emit: "sim gn cx s \<Longrightarrow> sim gn (cx_emit es cx) (emit es s)"
  by (simp add: sim_def cx_emit_def emit_def cx_node_def)

lemma sim_unmet:
  assumes "sim gn cx s" "j < dg_n (fst gn)"
  shows "sim gn (upd_impl (upd_node j (\<lambda>nd. nd\<lparr>nd_unmetDeps := nd_unmetDeps (cx_node j cx) - 1\<rparr>)) cx) (fetch_sub j s)"
  using assms sim_length [of gn cx s]
  by (auto simp: sim_def upd_impl_def cx_node_def fetch_sub_def)

lemma sim_claim_skip:
  "sim gn cx s \<Longrightarrow> i < dg_n (fst gn) \<Longrightarrow> sim gn (enqueueSkip i cx) (claim_skip i s)"
  using sim_length [of gn cx s]
  by (auto simp: sim_def enqueueSkip_def claim_skip_def Let_def cx_status_def upd_impl_def cx_node_def set_status_def)

lemma sim_record:
  assumes "sim gn cx s" "i < dg_n (fst gn)"
  shows "sim gn (recordFailure i e cx) (record_first i e s)"
proof -
  have "nd_nameStr (cx_node i cx) = fst (snd gn) ! i"
    using assms(2) by (simp add: sim_static [OF assms(1)] cx_node_def)
  then show ?thesis
    using assms by (auto simp: sim_def recordFailure_def record_first_def upd_impl_def cx_node_def)
qed

lemma sim_count:
  "sim gn cx s \<Longrightarrow> sim gn (snd (count_done cx)) (s\<lparr>sc_completed := sc_completed s + 1\<rparr>)"
  by (simp add: sim_def count_done_def upd_impl_def cx_node_def)

lemma fst_count: "sim gn cx s \<Longrightarrow> fst (count_done cx) = sc_completed s + 1"
  by (simp add: sim_def count_done_def)

lemma sim_succs: "sim gn cx s \<Longrightarrow> i < dg_n (fst gn) \<Longrightarrow> cx_succs i cx = dg_succs (fst gn) i"
  using sim_static(1) [of gn cx s] by (simp add: cx_succs_def)

lemma sim_notify: "sim gn cx s \<Longrightarrow> i < dg_n (fst gn) \<Longrightarrow> notify i cx = notifyDependencies (fst gn) i"
  by (simp add: notify_def notifyDependencies_def sim_succs)

lemma sim_node:
  assumes "sim gn cx s" "i < dg_n (fst gn)"
  shows "nd_jobStatus (cx_node i cx) = sc_status s i" "nd_unmetDeps (cx_node i cx) = sc_unmet s i"
    "isOptional (cx_node i cx) = dg_optional (fst gn) i" "isDeferred (cx_node i cx) = dg_deferred (fst gn) i"
proof -
  show "nd_jobStatus (cx_node i cx) = sc_status s i" "nd_unmetDeps (cx_node i cx) = sc_unmet s i"
    using assms by (simp_all add: sim_def)
  show "isOptional (cx_node i cx) = dg_optional (fst gn) i" "isDeferred (cx_node i cx) = dg_deferred (fst gn) i"
    using assms(2) by (simp_all add: sim_static(1) [OF assms(1)] cx_node_def)
qed

lemma sim_fatal: "sim gn cx s \<Longrightarrow> cx_fatal cx = None \<longleftrightarrow> sc_fatal s = None"
  by (auto simp: sim_def)

text \<open>Updates the relation does not see.\<close>

lemma sim_ready [simp]: "sim gn (upd_impl (\<lambda>impl. impl\<lparr>im_inlineReady := f impl\<rparr>) cx) s = sim gn cx s"
  by (simp add: sim_def upd_impl_def cx_node_def)

lemma sim_finished [simp]: "sim gn (upd_impl (\<lambda>impl. impl\<lparr>im_deferredFinished := f impl\<rparr>) cx) s = sim gn cx s"
  by (simp add: sim_def upd_impl_def cx_node_def)

lemma sim_orphans [simp]: "sim gn (set_orphans c cx) s = sim gn cx s"
  by (simp add: sim_def set_orphans_def upd_impl_def cx_node_def)

lemma sim_flight [simp]: "sim gn (cx\<lparr>cx_inFlight := w\<rparr>) s = sim gn cx s" "sim gn (cx\<lparr>cx_jobError := m\<rparr>) s = sim gn cx s"
  by (simp_all add: sim_def cx_node_def)

lemma sim_slot [simp]: "sim gn cx s \<Longrightarrow> sim gn (set_slot i slot cx) s"
  using sim_length [of gn cx s]
  by (auto simp: sim_def set_slot_def upd_impl_def cx_node_def)

lemma sim_frame:
  assumes "sim gn cx s" "same_frame (cx_impl cx) impl"
  shows "sim gn (cx\<lparr>cx_impl := impl\<rparr>) s"
proof -
  have "static impl = static (cx_impl cx)"
    by (rule static_cong) (simp_all add: same_frameD [OF assms(2)])
  then show ?thesis using assms(1) by (simp add: sim_def cx_node_def same_frameD [OF assms(2)])
qed

section \<open>Skipping\<close>

text \<open>The part of the state that skipping and finishing leave alone.\<close>

definition rest :: "'f Ctx \<Rightarrow> nat list \<times> nat list \<times> u64 \<times> u32 \<times> 'f DeferredSlot option list" where
  "rest cx = (im_deferredFinished (cx_impl cx), im_deferredNodes (cx_impl cx), im_deferredOrphans (cx_impl cx),
     cx_inFlight cx, map nd_deferred (im_nodes (cx_impl cx)))"

lemma map_update_same: "(\<And>x. g (f x) = g x) \<Longrightarrow> map g (xs[i := f (xs ! i)]) = map g xs"
  by (cases "i < length xs") (simp_all add: map_update list_update_same_conv list_update_beyond)

lemma rest_simps [simp]:
  "rest (cx_status i st cx) = rest cx" "rest (cx_emit es cx) = rest cx" "rest (snd (count_done cx)) = rest cx"
  "rest (recordFailure i e cx) = rest cx" "rest (enqueueSkip i cx) = rest cx"
  "rest (cx\<lparr>cx_skipRead := r\<rparr>) = rest cx" "rest (cx\<lparr>cx_draining := b\<rparr>) = rest cx"
  "rest (upd_impl (upd_node i (\<lambda>nd. nd\<lparr>nd_unmetDeps := u\<rparr>)) cx) = rest cx"
  "rest (upd_impl (\<lambda>impl. impl\<lparr>im_inlineReady := f impl\<rparr>) cx) = rest cx"
  by (simp_all add: rest_def cx_status_def cx_emit_def count_done_def recordFailure_def enqueueSkip_def
      Let_def upd_impl_def upd_node_def map_update_same)

lemma ready_simps [simp]:
  "im_inlineReady (cx_impl (cx_status i st cx)) = im_inlineReady (cx_impl cx)"
  "im_inlineReady (cx_impl (cx_emit es cx)) = im_inlineReady (cx_impl cx)"
  "im_inlineReady (cx_impl (snd (count_done cx))) = im_inlineReady (cx_impl cx)"
  "im_inlineReady (cx_impl (recordFailure i e cx)) = im_inlineReady (cx_impl cx)"
  "im_inlineReady (cx_impl (enqueueSkip i cx)) = im_inlineReady (cx_impl cx)"
  by (simp_all add: cx_status_def cx_emit_def count_done_def recordFailure_def enqueueSkip_def
      Let_def upd_impl_def upd_node_def)

lemma ready_upd [simp]:
  "im_inlineReady (cx_impl (upd_impl (upd_node i f) cx)) = im_inlineReady (cx_impl cx)"
  "im_inlineReady (cx_impl (upd_impl (\<lambda>impl. impl\<lparr>im_inlineReady := h impl\<rparr>) cx)) = h (cx_impl cx)"
  by (simp_all add: upd_impl_def)

lemma draining_simps [simp]:
  "cx_draining (upd_impl f cx) = cx_draining cx" "cx_draining (cx_status i st cx) = cx_draining cx"
  "cx_draining (cx_emit es cx) = cx_draining cx" "cx_draining (snd (count_done cx)) = cx_draining cx"
  "cx_draining (recordFailure i e cx) = cx_draining cx" "cx_draining (enqueueSkip i cx) = cx_draining cx"
  by (simp_all add: upd_impl_def cx_status_def cx_emit_def count_done_def recordFailure_def enqueueSkip_def Let_def)

lemma fold_enqueueSkip_frame [simp]:
  "rest (fold enqueueSkip js cx) = rest cx"
  "im_inlineReady (cx_impl (fold enqueueSkip js cx)) = im_inlineReady (cx_impl cx)"
  by (induction js arbitrary: cx) simp_all

lemma drain_one_frame [simp]:
  "rest (drain_one cx) = rest cx" "im_inlineReady (cx_impl (drain_one cx)) = im_inlineReady (cx_impl cx)"
  using rest_simps(3) [of "fold enqueueSkip js cx'" for js cx']
  by (simp_all add: drain_one_def Let_def case_prod_beta)

lemma drainSkips_frame [simp]:
  "rest (drainSkips cx) = rest cx" "im_inlineReady (cx_impl (drainSkips cx)) = im_inlineReady (cx_impl cx)"
  by (induction cx rule: drainSkips.induct; subst drainSkips.simps; simp)+

lemma skipNode_frame [simp]:
  "rest (skipNode i cx) = rest cx" "im_inlineReady (cx_impl (skipNode i cx)) = im_inlineReady (cx_impl cx)"
  by (simp_all add: skipNode_def Let_def)

lemma fold_skipNode_frame [simp]:
  "rest (fold skipNode js cx) = rest cx"
  "im_inlineReady (cx_impl (fold skipNode js cx)) = im_inlineReady (cx_impl cx)"
  by (induction js arbitrary: cx) simp_all

lemma step_one: "exec_task (fst gn) s t s' ts \<Longrightarrow> steps gn (s, add_mset t M) (s', mset ts + M)"
  by (rule r_into_rtranclp) (rule step.step)

lemma steps_trans: "steps gn x y \<Longrightarrow> steps gn y z \<Longrightarrow> steps gn x z"
  by (rule rtranclp_trans)

lemma enqueue_sim:
  assumes "sim gn cx s" "set js \<subseteq> {..<dg_n (fst gn)}"
  shows "\<exists>s'. steps gn (s, add_mset (Enqueue i js k) M) (s', add_mset (Enqueue i [] k) M)
    \<and> sim gn (fold enqueueSkip js cx) s'"
  using assms
proof (induction js arbitrary: cx s)
  case (Cons j js)
  then have "sim gn (enqueueSkip j cx) (claim_skip j s)" by (simp add: sim_claim_skip)
  then obtain s' where "steps gn (claim_skip j s, add_mset (Enqueue i js k) M) (s', add_mset (Enqueue i [] k) M)"
    "sim gn (fold enqueueSkip js (enqueueSkip j cx)) s'"
    using Cons.IH Cons.prems(2) by (metis insert_subset list.simps(15))
  then show ?case
    using steps_trans [OF step_one [OF exec_task.enqueue, of gn s i j js k M]] by auto
qed auto

lemma drain_one_sim:
  assumes "sim gn cx s" "dag_ok (fst gn)" "cx_skipRead cx < length (im_skipped (cx_impl cx))" "cx_draining cx"
  shows "\<exists>s'. steps gn (s, add_mset (Drain k) M) (s', add_mset (Drain k) M) \<and> sim gn (drain_one cx) s'"
proof -
  let ?i = "sc_skipped s ! sc_skipRead s"
  let ?s1 = "s\<lparr>sc_skipRead := sc_skipRead s + 1\<rparr>" and ?cx1 = "cx\<lparr>cx_skipRead := cx_skipRead cx + 1\<rparr>"
  have i: "?i < dg_n (fst gn)" "?i = im_skipped (cx_impl cx) ! cx_skipRead cx"
    using assms(1,3) by (auto simp: sim_def nth_lessThan)
  have s1: "sim gn ?cx1 ?s1" using assms(1) by (simp add: sim_def cx_node_def)
  have "steps gn (s, add_mset (Drain k) M) (?s1, add_mset (Enqueue ?i (dg_succs (fst gn) ?i) k) M)"
    using step_one [OF exec_task.drain_next [OF _ refl], of s gn k M] assms(1,3) by (simp add: sim_def)
  also obtain s2 where s2: "steps gn (?s1, add_mset (Enqueue ?i (dg_succs (fst gn) ?i) k) M) (s2, add_mset (Enqueue ?i [] k) M)"
    "sim gn (fold enqueueSkip (dg_succs (fst gn) ?i) ?cx1) s2"
    using enqueue_sim [OF s1] dag_ok_succs [OF assms(2) i(1)] by blast
  let ?cx2 = "fold enqueueSkip (dg_succs (fst gn) ?i) ?cx1"
  let ?d = "sc_completed s2 + 1"
  have drain: "cx_draining (fold enqueueSkip js c) = cx_draining c" for js and c :: "'a Ctx"
    by (induction js arbitrary: c) (simp_all add: enqueueSkip_def Let_def cx_status_def upd_impl_def)
  note s2(1)
  also have "steps gn (s2, add_mset (Enqueue ?i [] k) M)
      (s2\<lparr>sc_completed := ?d, sc_locked := False\<rparr>, add_mset (Report_skip ?i ?d k) M)"
    using step_one [OF exec_task.enqueue_end, of gn s2 ?i k M] by simp
  also have "steps gn \<dots> (emit (Finished ?i kSkipped ?d # notifyDependencies (fst gn) ?i)
      (s2\<lparr>sc_completed := ?d, sc_locked := False\<rparr>), add_mset (Relock k) M)"
    using step_one [OF exec_task.report_skip, of gn _ ?i ?d k M] by simp
  also have "steps gn \<dots> ((emit (Finished ?i kSkipped ?d # notifyDependencies (fst gn) ?i)
      (s2\<lparr>sc_completed := ?d, sc_locked := False\<rparr>))\<lparr>sc_locked := True\<rparr>, add_mset (Drain k) M)"
    using step_one [OF exec_task.relock, of "emit (Finished ?i kSkipped ?d # notifyDependencies (fst gn) ?i)
      (s2\<lparr>sc_completed := ?d, sc_locked := False\<rparr>)" gn k M] by (simp add: emit_def)
  also have "sc_locked s2" using s2(2) assms(4) by (simp add: sim_def drain)
  then have "(emit (Finished ?i kSkipped ?d # notifyDependencies (fst gn) ?i)
      (s2\<lparr>sc_completed := ?d, sc_locked := False\<rparr>))\<lparr>sc_locked := True\<rparr> =
      emit (Finished ?i kSkipped ?d # notifyDependencies (fst gn) ?i) (s2\<lparr>sc_completed := ?d\<rparr>)"
    by (intro sched.equality) (simp_all add: emit_def)
  finally have "steps gn (s, add_mset (Drain k) M) (emit (Finished ?i kSkipped ?d # notifyDependencies (fst gn) ?i)
      (s2\<lparr>sc_completed := ?d\<rparr>), add_mset (Drain k) M)" .
  moreover have "sim gn (drain_one cx) (emit (Finished ?i kSkipped ?d # notifyDependencies (fst gn) ?i) (s2\<lparr>sc_completed := ?d\<rparr>))"
    using sim_emit [OF sim_count [OF s2(2)]] fst_count [OF s2(2)] sim_notify [OF sim_count [OF s2(2)] i(1)]
      sim_succs [OF assms(1) i(1)] i(2)
    by (simp add: drain_one_def Let_def case_prod_beta)
  ultimately show ?thesis by blast
qed

lemma drain_one_draining: "cx_draining cx \<Longrightarrow> cx_draining (drain_one cx)"
proof -
  have "cx_draining (fold enqueueSkip js c) = cx_draining c" for js and c :: "'a Ctx"
    by (induction js arbitrary: c) (simp_all add: enqueueSkip_def Let_def cx_status_def upd_impl_def)
  then show "cx_draining cx \<Longrightarrow> cx_draining (drain_one cx)"
    by (simp add: drain_one_def Let_def count_done_def cx_emit_def upd_impl_def)
qed

lemma drainSkips_sim:
  assumes "sim gn cx s" "dag_ok (fst gn)" "cx_draining cx"
  shows "\<exists>s'. steps gn (s, add_mset (Drain k) M) (s', add_mset k M) \<and> sim gn (drainSkips cx) s'
    \<and> \<not> cx_draining (drainSkips cx)"
  using assms
proof (induction cx arbitrary: s rule: drainSkips.induct)
  case (1 cx)
  show ?case
  proof (cases "cx_skipRead cx < length (im_skipped (cx_impl cx))")
    case True
    obtain s1 where s1: "steps gn (s, add_mset (Drain k) M) (s1, add_mset (Drain k) M)" "sim gn (drain_one cx) s1"
      using drain_one_sim [OF 1(2,3) True 1(4)] by blast
    obtain s' where s': "steps gn (s1, add_mset (Drain k) M) (s', add_mset k M)"
      "sim gn (drainSkips (drain_one cx)) s'" "\<not> cx_draining (drainSkips (drain_one cx))"
      using 1(1) [OF True s1(2) 1(3) drain_one_draining [OF 1(4)]] by blast
    have "drainSkips cx = drainSkips (drain_one cx)" using True by (subst drainSkips.simps) simp
    then show ?thesis using steps_trans [OF s1(1) s'(1)] s'(2,3) by auto
  next
    case False
    then have "drainSkips cx = cx\<lparr>cx_draining := False\<rparr>" by (subst drainSkips.simps) simp
    moreover have "sim gn (cx\<lparr>cx_draining := False\<rparr>) (s\<lparr>sc_draining := False, sc_locked := False\<rparr>)"
      using 1(2) by (simp add: sim_def cx_node_def)
    moreover have "steps gn (s, add_mset (Drain k) M) (s\<lparr>sc_draining := False, sc_locked := False\<rparr>, add_mset k M)"
      using step_one [OF exec_task.drain_end, of s gn k M] 1(2) False by (simp add: sim_def)
    ultimately show ?thesis by auto
  qed
qed

lemma skipNode_sim:
  assumes "sim gn cx s" "dag_ok (fst gn)" "\<not> cx_draining cx" "i < dg_n (fst gn)"
  shows "\<exists>s'. steps gn (s, add_mset (Skip_node i k) M) (s', add_mset k M) \<and> sim gn (skipNode i cx) s'
    \<and> \<not> cx_draining (skipNode i cx)"
proof -
  have free: "\<not> sc_locked s" "\<not> sc_draining s" using assms(1,3) by (auto simp: sim_def)
  let ?s1 = "(claim_skip i s)\<lparr>sc_draining := True, sc_locked := True\<rparr>"
  have "\<not> cx_draining (enqueueSkip i cx)"
    using assms(3) by (simp add: enqueueSkip_def Let_def cx_status_def upd_impl_def)
  then have eq: "skipNode i cx = drainSkips ((enqueueSkip i cx)\<lparr>cx_draining := True\<rparr>)"
    by (simp add: skipNode_def)
  have "sim gn ((enqueueSkip i cx)\<lparr>cx_draining := True\<rparr>) ?s1"
    using sim_claim_skip [OF assms(1,4)] by (simp add: sim_def cx_node_def)
  from drainSkips_sim [OF this assms(2)] obtain s' where
    "steps gn (?s1, add_mset (Drain k) M) (s', add_mset k M)" "sim gn (skipNode i cx) s'"
    "\<not> cx_draining (skipNode i cx)"
    unfolding eq by auto
  moreover have "steps gn (s, add_mset (Skip_node i k) M) (?s1, add_mset (Drain k) M)"
    using step_one [OF exec_task.skip_drain [OF free], of gn i k M] by simp
  ultimately show ?thesis using steps_trans by blast
qed

lemma skip_all_sim:
  assumes "sim gn cx s" "dag_ok (fst gn)" "\<not> cx_draining cx" "set js \<subseteq> {..<dg_n (fst gn)}"
  shows "\<exists>s'. steps gn (s, add_mset (Skip_all js) M) (s', M) \<and> sim gn (fold skipNode js cx) s'
    \<and> \<not> cx_draining (fold skipNode js cx)"
  using assms
proof (induction js arbitrary: cx s)
  case Nil
  then show ?case using step_one [OF exec_task.skip_end, of gn s M] by auto
next
  case (Cons j js)
  obtain s1 where s1: "steps gn (s, add_mset (Skip_node j (Skip_all js)) M) (s1, add_mset (Skip_all js) M)"
    "sim gn (skipNode j cx) s1" "\<not> cx_draining (skipNode j cx)"
    using skipNode_sim [of gn cx s j "Skip_all js" M] Cons.prems by auto
  obtain s' where "steps gn (s1, add_mset (Skip_all js) M) (s', M)"
    "sim gn (fold skipNode js (skipNode j cx)) s'" "\<not> cx_draining (fold skipNode js (skipNode j cx))"
    using Cons.IH [OF s1(2) Cons.prems(2) s1(3)] Cons.prems(4) by auto
  moreover have "steps gn (s, add_mset (Skip_all (j # js)) M) (s, add_mset (Skip_node j (Skip_all js)) M)"
    using step_one [OF exec_task.skip_next, of gn s j js M] by simp
  ultimately show ?case using steps_trans s1(1) by (metis fold_simps(2))
qed

section \<open>Finishing a job\<close>

text \<open>The three ways the loop over the successors treats one of them.\<close>

lemma release_ready_steps:
  assumes "sc_fatal s = None" "sc_unmet s j - 1 = 0" "sc_status s j = kPending"
  shows "steps gn (s, add_mset (Release i (j # js)) M)
    (set_status j kReady (fetch_sub j s), add_mset (Release i js) (add_mset (Dispatch j) M))"
proof -
  let ?s1 = "fetch_sub j s"
  have "steps gn (s, add_mset (Release i (j # js)) M) (s, add_mset (Decrement i j js) M)"
    using step_one [OF exec_task.release_go [OF assms(1)], of gn i j js M] by simp
  also have "steps gn \<dots> (?s1, add_mset (Make_ready i j js) M)"
    using step_one [OF exec_task.decrement_last, of s j gn i js M] assms(2) by simp
  also have "steps gn \<dots> (set_status j kReady ?s1, add_mset (Submit i j js) M)"
    using step_one [OF exec_task.make_ready, of ?s1 j gn i js M] assms(3) by (simp add: fetch_sub_def)
  also have "steps gn \<dots> (set_status j kReady ?s1, add_mset (Release i js) (add_mset (Dispatch j) M))"
    using step_one [OF exec_task.submit_accept, of gn _ i j js M] by (simp add: add_mset_commute)
  finally show ?thesis .
qed

lemma release_wait_steps:
  assumes "sc_fatal s = None" "\<not> (sc_unmet s j - 1 = 0 \<and> sc_status s j = kPending)"
  shows "steps gn (s, add_mset (Release i (j # js)) M) (fetch_sub j s, add_mset (Release i js) M)"
proof -
  have go: "steps gn (s, add_mset (Release i (j # js)) M) (s, add_mset (Decrement i j js) M)"
    using step_one [OF exec_task.release_go [OF assms(1)], of gn i j js M] by simp
  show ?thesis
  proof (cases "sc_unmet s j - 1 = 0")
    case True
    note go
    also have "steps gn (s, add_mset (Decrement i j js) M) (fetch_sub j s, add_mset (Make_ready i j js) M)"
      using step_one [OF exec_task.decrement_last [OF True], of gn i js M] by simp
    also have "steps gn \<dots> (fetch_sub j s, add_mset (Release i js) M)"
      using step_one [OF exec_task.make_ready_lost, of "fetch_sub j s" j gn i js M] True assms(2)
      by (simp add: fetch_sub_def)
    finally show ?thesis .
  next
    case False
    then show ?thesis
      using steps_trans [OF go] step_one [OF exec_task.decrement [OF False], of gn i js M] by simp
  qed
qed

lemma release_skip_steps:
  assumes "sim gn cx s" "dag_ok (fst gn)" "\<not> cx_draining cx" "j < dg_n (fst gn)" "sc_fatal s \<noteq> None"
  shows "\<exists>s'. steps gn (s, add_mset (Release i (j # js)) M) (s', add_mset (Release i js) M)
    \<and> sim gn (skipNode j cx) s' \<and> \<not> cx_draining (skipNode j cx)"
proof -
  have "steps gn (s, add_mset (Release i (j # js)) M) (s, add_mset (Skip_node j (Release i js)) M)"
    using step_one [OF exec_task.release_skip [OF assms(5)], of gn i j js M] by simp
  then show ?thesis using skipNode_sim [OF assms(1-4)] steps_trans by blast
qed

text \<open>The context after one successor was released.\<close>

definition release_one :: "nat \<Rightarrow> 'f Ctx \<Rightarrow> 'f Ctx" where
  "release_one j cx =
     (let cx1 = upd_impl (upd_node j (\<lambda>nd. nd\<lparr>nd_unmetDeps := nd_unmetDeps (cx_node j cx) - 1\<rparr>)) cx
      in if nd_unmetDeps (cx_node j cx) - 1 = 0 \<and> nd_jobStatus (cx_node j cx1) = kPending
         then upd_impl (\<lambda>impl. impl\<lparr>im_inlineReady := im_inlineReady impl @ [j]\<rparr>) (cx_status j kReady cx1)
         else cx1)"

lemma release_succs_one: "cx_fatal cx = None \<Longrightarrow> release_succs (j # js) cx = release_succs js (release_one j cx)"
  by (auto simp only: release_succs.simps release_one_def Let_def split: if_splits)

lemma release_one_sim:
  assumes "sim gn cx s" "\<not> cx_draining cx" "j < dg_n (fst gn)" "sc_fatal s = None"
  shows "\<exists>s' new. steps gn (s, add_mset (Release i (j # js)) M)
      (s', add_mset (Release i js) (mset (map Dispatch new) + M))
    \<and> sim gn (release_one j cx) s' \<and> \<not> cx_draining (release_one j cx)
    \<and> im_inlineReady (cx_impl (release_one j cx)) = im_inlineReady (cx_impl cx) @ new
    \<and> rest (release_one j cx) = rest cx"
proof -
  let ?cx1 = "upd_impl (upd_node j (\<lambda>nd. nd\<lparr>nd_unmetDeps := sc_unmet s j - 1\<rparr>)) cx"
  let ?cx2 = "upd_impl (\<lambda>impl. impl\<lparr>im_inlineReady := im_inlineReady impl @ [j]\<rparr>) (cx_status j kReady ?cx1)"
  have un: "nd_unmetDeps (cx_node j cx) = sc_unmet s j" by (rule sim_node(2) [OF assms(1,3)])
  have s1: "sim gn ?cx1 (fetch_sub j s)" using sim_unmet [OF assms(1,3)] unfolding un .
  have st: "nd_jobStatus (cx_node j ?cx1) = sc_status s j"
    using sim_node(1) [OF s1 assms(3)] by (simp add: fetch_sub_def)
  have eq: "release_one j cx = (if sc_unmet s j - 1 = 0 \<and> sc_status s j = kPending then ?cx2 else ?cx1)"
    unfolding release_one_def Let_def un st ..
  show ?thesis
  proof (cases "sc_unmet s j - 1 = 0 \<and> sc_status s j = kPending")
    case True
    then have "release_one j cx = ?cx2" unfolding eq by simp
    moreover have "mset (map Dispatch [j]) + M = add_mset (Dispatch j) M" by simp
    ultimately show ?thesis
      using release_ready_steps [of s j gn i js M] sim_status [OF s1 assms(3), of kReady] True assms(2,4)
      by (intro exI [of _ "set_status j kReady (fetch_sub j s)"] exI [of _ "[j]"])
        simp
  next
    case False
    then have "release_one j cx = ?cx1" unfolding eq by (rule if_not_P)
    then show ?thesis
      using release_wait_steps [OF assms(4) False] s1 assms(2)
      by (intro exI [of _ "fetch_sub j s"] exI [of _ "[]"])
        simp
  qed
qed

lemma release_sim:
  assumes "sim gn cx s" "dag_ok (fst gn)" "\<not> cx_draining cx" "set js \<subseteq> {..<dg_n (fst gn)}"
  shows "\<exists>s' new. steps gn (s, add_mset (Release i js) M) (s', mset (map Dispatch new) + M)
    \<and> sim gn (release_succs js cx) s' \<and> \<not> cx_draining (release_succs js cx)
    \<and> im_inlineReady (cx_impl (release_succs js cx)) = im_inlineReady (cx_impl cx) @ new
    \<and> rest (release_succs js cx) = rest cx"
  using assms
proof (induction js arbitrary: cx s M)
  case Nil
  then show ?case using step_one [OF exec_task.release_end, of gn s i M] by auto
next
  case (Cons j js)
  then have j: "j < dg_n (fst gn)" and js: "set js \<subseteq> {..<dg_n (fst gn)}" by auto
  have "\<exists>cx1 s1 new. release_succs (j # js) cx = release_succs js cx1
    \<and> steps gn (s, add_mset (Release i (j # js)) M) (s1, add_mset (Release i js) (mset (map Dispatch new) + M))
    \<and> sim gn cx1 s1 \<and> \<not> cx_draining cx1 \<and> im_inlineReady (cx_impl cx1) = im_inlineReady (cx_impl cx) @ new
    \<and> rest cx1 = rest cx"
  proof (cases "sc_fatal s = None")
    case True
    then have "release_succs (j # js) cx = release_succs js (release_one j cx)"
      using release_succs_one sim_fatal [OF Cons.prems(1)] by blast
    then show ?thesis
      using release_one_sim [OF Cons.prems(1,3) j True, of i js M] by blast
  next
    case False
    then have "release_succs (j # js) cx = release_succs js (skipNode j cx)"
      using sim_fatal [OF Cons.prems(1)] by simp
    then show ?thesis
      using release_skip_steps [OF Cons.prems(1-3) j False, of i js M]
      by (intro exI [of _ "skipNode j cx"]) (auto intro!: exI [of _ "[]"])
  qed
  then obtain cx1 s1 new where 1: "release_succs (j # js) cx = release_succs js cx1"
    "steps gn (s, add_mset (Release i (j # js)) M) (s1, add_mset (Release i js) (mset (map Dispatch new) + M))"
    "sim gn cx1 s1" "\<not> cx_draining cx1" "im_inlineReady (cx_impl cx1) = im_inlineReady (cx_impl cx) @ new"
    "rest cx1 = rest cx"
    by blast
  from Cons.IH [OF 1(3) Cons.prems(2) 1(4) js, of "mset (map Dispatch new) + M"]
  obtain s' new' where 2: "steps gn (s1, add_mset (Release i js) (mset (map Dispatch new) + M))
      (s', mset (map Dispatch new') + (mset (map Dispatch new) + M))"
    "sim gn (release_succs js cx1) s'" "\<not> cx_draining (release_succs js cx1)"
    "im_inlineReady (cx_impl (release_succs js cx1)) = im_inlineReady (cx_impl cx1) @ new'"
    "rest (release_succs js cx1) = rest cx1"
    by blast
  have "mset (map Dispatch new') + (mset (map Dispatch new) + M) = mset (map Dispatch (new @ new')) + M"
    by (simp add: ac_simps)
  then show ?case
    using steps_trans [OF 1(2) 2(1)] 2(2-5) 1(5,6) unfolding 1(1) by (metis append_assoc)
qed

text \<open>The context after the finish of a job was stored, counted and reported.\<close>

definition reported :: "nat \<Rightarrow> JobStatus \<Rightarrow> 'f Ctx \<Rightarrow> 'f Ctx" where
  "reported i st cx = (case count_done (cx_status i st cx) of (done, cx1) \<Rightarrow>
     cx_emit (Finished i st done # notify i cx1) cx1)"

lemma finishJob_reported:
  "finishJob i r m cx =
     (let cx2 = reported i (statusOf r) cx
      in if r \<noteq> Inr () \<and> (\<not> isOptional (cx_node i cx2) \<or> r = Inl kCancelled)
         then fold skipNode (cx_succs i cx2)
                (recordFailure i (projl r) (cx_emit [Failure i (projl r) m] cx2))
         else release_succs (cx_succs i cx2) cx2)"
proof -
  obtain d c where cd: "count_done (cx_status i (statusOf r) cx) = (d, c)" by fastforce
  show ?thesis
    unfolding finishJob_def reported_def cd prod.case Let_def by (cases r) auto
qed

lemma reported_frame [simp]:
  "rest (reported i st cx) = rest cx" "im_inlineReady (cx_impl (reported i st cx)) = im_inlineReady (cx_impl cx)"
  "cx_draining (reported i st cx) = cx_draining cx"
  by (simp_all add: reported_def case_prod_beta)

lemma sim_reported:
  assumes "sim gn cx s" "i < dg_n (fst gn)"
  shows "sim gn (reported i st cx) (report_finish (fst gn) i st (set_status i st s))"
proof -
  have sa: "sim gn (cx_status i st cx) (set_status i st s)" by (rule sim_status [OF assms])
  show ?thesis
    using sim_emit [OF sim_count [OF sa]] fst_count [OF sa] sim_notify [OF sim_count [OF sa] assms(2)]
    by (simp add: report_finish_def reported_def case_prod_beta)
qed

lemma finishJob_sim:
  assumes "sim gn cx s" "dag_ok (fst gn)" "\<not> cx_draining cx" "i < dg_n (fst gn)"
  shows "\<exists>s' new. steps gn (s, add_mset (Body i) M) (s', mset (map Dispatch new) + M)
    \<and> sim gn (finishJob i r m cx) s' \<and> \<not> cx_draining (finishJob i r m cx)
    \<and> im_inlineReady (cx_impl (finishJob i r m cx)) = im_inlineReady (cx_impl cx) @ new
    \<and> rest (finishJob i r m cx) = rest cx"
proof -
  let ?sa = "set_status i (statusOf r) s" and ?cx2 = "reported i (statusOf r) cx"
  let ?s2 = "report_finish (fst gn) i (statusOf r) ?sa"
  have s2: "sim gn ?cx2 ?s2" by (rule sim_reported [OF assms(1,4)])
  have d2: "\<not> cx_draining ?cx2" using assms(3) by simp
  have succs: "cx_succs i ?cx2 = dg_succs (fst gn) i" and opt: "isOptional (cx_node i ?cx2) = dg_optional (fst gn) i"
    by (rule sim_succs [OF s2 assms(4)] sim_node(3) [OF s2 assms(4)])+
  have range: "set (dg_succs (fst gn) i) \<subseteq> {..<dg_n (fst gn)}"
    using assms(2,4) by (simp add: dag_ok_def)
  have st: "steps gn (s, add_mset (Body i) M) (?sa, add_mset (Stored i r m) M)"
    using step_one [OF exec_task.body_return, of gn s i M r m] by simp
  show ?thesis
  proof (cases "fatal_result (fst gn) i r")
    case True
    then obtain e where e: "r = Inl e" by (cases r) (auto simp: fatal_result_def)
    let ?cx3 = "recordFailure i e (cx_emit [Failure i e m] ?cx2)" and ?s3 = "record_first i e (emit [Failure i e m] ?s2)"
    have eq: "finishJob i r m cx = fold skipNode (dg_succs (fst gn) i) ?cx3"
      unfolding finishJob_reported Let_def opt succs using True by (simp add: fatal_result_def e)
    have s3: "sim gn ?cx3 ?s3" by (rule sim_record [OF sim_emit [OF s2] assms(4)])
    have d3: "\<not> cx_draining ?cx3" using d2 by simp
    note st
    also have "steps gn (?sa, add_mset (Stored i r m) M) (?s2, add_mset (Record i e m) M)"
      using step_one [OF exec_task.stored_fatal, of gn i e ?sa m M] True by (simp add: e)
    also have "steps gn \<dots> (?s3, add_mset (Skip_all (dg_succs (fst gn) i)) M)"
      using step_one [OF exec_task.record_error, of gn ?s2 i e m M] by simp
    also obtain s' where s': "steps gn (?s3, add_mset (Skip_all (dg_succs (fst gn) i)) M) (s', M)"
      "sim gn (finishJob i r m cx) s'" "\<not> cx_draining (finishJob i r m cx)"
      using skip_all_sim [OF s3 assms(2) d3 range, of M] unfolding eq by blast
    note s'(1)
    finally have "steps gn (s, add_mset (Body i) M) (s', M)" .
    with s'(2,3)
    show ?thesis by (intro exI [of _ s'] exI [of _ "[]"]) (simp add: eq)
  next
    case False
    then have eq: "finishJob i r m cx = release_succs (dg_succs (fst gn) i) ?cx2"
      unfolding finishJob_reported Let_def opt succs by (auto simp: fatal_result_def)
    have "steps gn (?sa, add_mset (Stored i r m) M) (?s2, add_mset (Release i (dg_succs (fst gn) i)) M)"
      using step_one [OF exec_task.stored_pass [OF False], of ?sa m M] by simp
    note to_release = steps_trans [OF st this]
    obtain s' new where "steps gn (?s2, add_mset (Release i (dg_succs (fst gn) i)) M) (s', mset (map Dispatch new) + M)"
      "sim gn (finishJob i r m cx) s'" "\<not> cx_draining (finishJob i r m cx)"
      "im_inlineReady (cx_impl (finishJob i r m cx)) = im_inlineReady (cx_impl cx) @ new"
      "rest (finishJob i r m cx) = rest cx"
      using release_sim [OF s2 assms(2) d2 range, of i M] unfolding eq reported_frame by blast
    then show ?thesis using steps_trans [OF to_release] by (intro exI conjI)
  qed
qed

section \<open>Deferred jobs in flight\<close>

text \<open>
  \<open>A\<close> lists the deferred jobs in flight, \<open>F\<close> those of them that were delivered to the run thread. A slot
  waits for its outcome, with one party left to arrive, exactly while its job is in flight and not
  delivered, so no job is delivered twice.
\<close>

definition slots_of :: "'f Ctx \<Rightarrow> 'f DeferredSlot option list" where
  "slots_of cx = map nd_deferred (im_nodes (cx_impl cx))"

definition open_slot :: "'f DeferredSlot \<Rightarrow> bool" where
  "open_slot sl \<longleftrightarrow> ds_parties sl = 1 \<and> ds_outcome sl = kNone"

definition slots_ok :: "nat list \<Rightarrow> nat list \<Rightarrow> 'f DeferredSlot option list \<Rightarrow> u32 \<Rightarrow> bool" where
  "slots_ok A F slots w \<longleftrightarrow> distinct A \<and> distinct F \<and> set F \<subseteq> set A \<and> set A \<subseteq> {..<length slots}
     \<and> w = word_of_nat (length A)
     \<and> (\<forall>i<length slots. \<forall>sl. slots ! i = Some sl \<longrightarrow> (open_slot sl \<longleftrightarrow> i \<in> set A \<and> i \<notin> set F))
     \<and> (\<forall>i\<in>set A. slots ! i \<noteq> None)"

lemma rest_slots: "rest cx' = rest cx \<Longrightarrow> slots_of cx' = slots_of cx \<and> cx_inFlight cx' = cx_inFlight cx
    \<and> im_deferredFinished (cx_impl cx') = im_deferredFinished (cx_impl cx)
    \<and> im_deferredNodes (cx_impl cx') = im_deferredNodes (cx_impl cx)"
  by (simp add: rest_def slots_of_def)

lemma slots_of_set_slot: "slots_of (set_slot i sl cx) = (slots_of cx)[i := Some sl]"
  by (simp add: slots_of_def set_slot_def upd_impl_def upd_node_def map_update)

lemma cx_slot_slots: "i < length (slots_of cx) \<Longrightarrow> cx_slot i cx = the (slots_of cx ! i)"
  by (simp add: cx_slot_def slots_of_def cx_node_def)

lemma slots_of_same [simp]:
  "slots_of (set_orphans c cx) = slots_of cx" "slots_of (upd_impl (request_stop k) cx) = slots_of cx"
  "slots_of (upd_impl (stop_nodes js) cx) = slots_of cx" "slots_of (deliverDeferred i cx) = slots_of cx"
  "slots_of (cx\<lparr>cx_inFlight := w\<rparr>) = slots_of cx" "slots_of (cx\<lparr>cx_jobError := m\<rparr>) = slots_of cx"
  by (simp_all add: slots_of_def set_orphans_def upd_impl_def deliverDeferred_def)

lemma slots_ok_update:
  assumes "slots_ok A F slots w" "i < length slots" "open_slot sl \<longleftrightarrow> i \<in> set A \<and> i \<notin> set F"
  shows "slots_ok A F (slots[i := Some sl]) w"
  using assms by (auto simp: slots_ok_def nth_list_update)

lemma slots_ok_deliver:
  assumes "slots_ok A F slots w" "i < length slots" "i \<in> set A" "i \<notin> set F" "\<not> open_slot sl"
  shows "slots_ok A (F @ [i]) (slots[i := Some sl]) w"
  using assms by (auto simp: slots_ok_def nth_list_update)

lemma signal_open:
  "signal r m sl c = (sl', c', d) \<Longrightarrow> (d \<longleftrightarrow> open_slot sl) \<and> \<not> open_slot sl'"
  by (auto simp: signal_def releaseLate_def arrive_def signal_write_def open_slot_def Let_def split: if_splits)

lemma slot_stop_open: "slot_stop sl = (sl', d) \<Longrightarrow> (d \<longleftrightarrow> open_slot sl) \<and> \<not> open_slot sl'"
  by (auto simp: slot_stop_def arrive_def stop_write_def open_slot_def split: if_splits)

text \<open>What an action on a slot leaves alone.\<close>

definition outer :: "'f Ctx \<Rightarrow> bool \<times> u32 \<times> nat list \<times> nat list \<times> nat list" where
  "outer cx = (cx_draining cx, cx_inFlight cx, im_inlineReady (cx_impl cx), im_deferredNodes (cx_impl cx),
     im_deferredFinished (cx_impl cx))"

lemma outer_simps [simp]:
  "outer (set_slot i sl cx) = outer cx" "outer (set_orphans c cx) = outer cx"
  "outer (upd_impl (request_stop k) cx) = outer cx" "outer (upd_impl (stop_nodes js) cx) = outer cx"
  "outer (cx\<lparr>cx_jobError := m\<rparr>) = outer cx"
  by (simp_all add: outer_def set_slot_def set_orphans_def upd_impl_def request_stop_def
      same_frameD [OF same_frame_stop_nodes])

lemma sim_request_stop [simp]: "sim gn cx s \<Longrightarrow> sim gn (upd_impl (request_stop k) cx) s"
  using sim_frame [of gn cx s "request_stop k (cx_impl cx)"] by (simp add: upd_impl_def)

lemma sim_stop_nodes [simp]: "sim gn cx s \<Longrightarrow> sim gn (upd_impl (stop_nodes js) cx) s"
  using sim_frame [of gn cx s "stop_nodes js (cx_impl cx)"] by (simp add: upd_impl_def)

lemma length_slots [simp]: "length (slots_of cx) = length (im_nodes (cx_impl cx))"
  by (simp add: slots_of_def)

text \<open>An action either leaves the slot open or closed as it was and delivers nothing, or delivers an open slot.\<close>

lemma act_effect:
  assumes "act i a cx = (cx', d)" "sim gn cx s"
  shows "sim gn cx' s \<and> outer cx' = outer cx \<and>
    (slots_of cx' = slots_of cx \<and> \<not> d \<or>
     (\<exists>sl sl'. i < length (slots_of cx) \<and> slots_of cx ! i = Some sl \<and> slots_of cx' = (slots_of cx)[i := Some sl']
        \<and> (d \<and> open_slot sl \<and> \<not> open_slot sl' \<or> \<not> d \<and> (open_slot sl' \<longleftrightarrow> open_slot sl))))"
proof (cases "i < length (slots_of cx) \<and> slots_of cx ! i \<noteq> None")
  case False
  then show ?thesis using assms by (auto simp: act_def slots_of_def cx_node_def)
next
  case True
  then obtain sl where sl: "i < length (slots_of cx)" "slots_of cx ! i = Some sl" by auto
  then have slot: "cx_slot i cx = sl" by (simp add: cx_slot_slots)
  have stop: "sim gn c' s \<and> outer c' = outer c \<and>
     (slots_of c' = slots_of c \<and> \<not> d \<or>
      (\<exists>sl'. slots_of c' = (slots_of c)[i := Some sl'] \<and> (d \<longleftrightarrow> open_slot sl0) \<and> \<not> open_slot sl'))"
    if c: "stop_slot i c = (c', d)" "sim gn c s" "i < length (slots_of c)" "slots_of c ! i = Some sl0" for c c' sl0
  proof -
    have "cx_slot i (upd_impl (request_stop (nd_stopSource (cx_node i c))) c) = sl0"
      using c(3,4) by (simp add: cx_slot_slots)
    then show ?thesis
      using c slot_stop_open [of sl0]
      by (auto simp: stop_slot_def Let_def slots_of_set_slot split: if_splits prod.splits)
  qed
  show ?thesis
  proof (cases a)
    case (Signal r m)
    then have "signal_slot r m i cx = (cx', d)" using assms(1) sl by (simp add: act_def slots_of_def cx_node_def)
    then show ?thesis
      using assms(2) sl slot signal_open [of r m sl "im_deferredOrphans (cx_impl cx)"]
      by (auto simp: signal_slot_def slots_of_set_slot split: prod.splits)
  next
    case Stop
    then have "stop_slot i cx = (cx', d)" using assms(1) sl by (simp add: act_def slots_of_def cx_node_def)
    from stop [OF this assms(2) sl] show ?thesis using sl by auto
  next
    case Expire
    let ?c = "set_slot i (sl\<lparr>ds_deadline := Some True\<rparr>) cx"
    have eq: "expire_slot i cx = (cx', d)" using assms(1) sl Expire by (simp add: act_def slots_of_def cx_node_def)
    show ?thesis
    proof (cases "ds_deadlineService sl")
      case True
      then have "stop_slot i ?c = (cx', d)" using eq by (simp add: expire_slot_def slot)
      moreover have "open_slot (sl\<lparr>ds_deadline := Some True\<rparr>) \<longleftrightarrow> open_slot sl" by (simp add: open_slot_def)
      ultimately show ?thesis
        using stop [of ?c cx' "sl\<lparr>ds_deadline := Some True\<rparr>"] assms(2) sl
        by (auto simp: slots_of_set_slot)
    next
      case False
      then show ?thesis using eq assms(2) by (simp add: expire_slot_def slot)
    qed
  qed
qed

lemma deliver_simps [simp]:
  "sim gn (deliverDeferred i cx) s = sim gn cx s"
  "im_deferredFinished (cx_impl (deliverDeferred i cx)) = im_deferredFinished (cx_impl cx) @ [i]"
  "cx_draining (deliverDeferred i cx) = cx_draining cx" "cx_inFlight (deliverDeferred i cx) = cx_inFlight cx"
  "im_inlineReady (cx_impl (deliverDeferred i cx)) = im_inlineReady (cx_impl cx)"
  "im_deferredNodes (cx_impl (deliverDeferred i cx)) = im_deferredNodes (cx_impl cx)"
  by (simp_all add: deliverDeferred_def) (simp_all add: upd_impl_def)

text \<open>Actions while the run thread waits.\<close>

definition flight_ok :: "nat list \<Rightarrow> 'f Ctx \<Rightarrow> bool" where
  "flight_ok A cx \<longleftrightarrow> slots_ok A (im_deferredFinished (cx_impl cx)) (slots_of cx) (cx_inFlight cx)"

lemma act_deliver_ok:
  assumes "sim gn cx s" "flight_ok A cx"
  shows "sim gn (act_deliver i a cx) s \<and> flight_ok A (act_deliver i a cx)
    \<and> cx_draining (act_deliver i a cx) = cx_draining cx
    \<and> im_inlineReady (cx_impl (act_deliver i a cx)) = im_inlineReady (cx_impl cx)
    \<and> im_deferredNodes (cx_impl (act_deliver i a cx)) = im_deferredNodes (cx_impl cx)"
proof -
  obtain cx' d where act: "act i a cx = (cx', d)" by fastforce
  note E = act_effect [OF act assms(1)]
  have o: "im_deferredFinished (cx_impl cx') = im_deferredFinished (cx_impl cx)" "cx_inFlight cx' = cx_inFlight cx"
    "cx_draining cx' = cx_draining cx" "im_inlineReady (cx_impl cx') = im_inlineReady (cx_impl cx)"
    "im_deferredNodes (cx_impl cx') = im_deferredNodes (cx_impl cx)"
    using E by (auto simp: outer_def)
  have ok: "slots_ok A (im_deferredFinished (cx_impl cx)) (slots_of cx) (cx_inFlight cx)"
    using assms(2) by (simp add: flight_ok_def)
  have "flight_ok A (if d then deliverDeferred i cx' else cx')"
  proof (cases "slots_of cx' = slots_of cx \<and> \<not> d")
    case True
    then show ?thesis using ok o by (simp add: flight_ok_def)
  next
    case False
    then obtain sl sl' where S: "i < length (slots_of cx)" "slots_of cx ! i = Some sl"
      "slots_of cx' = (slots_of cx)[i := Some sl']"
      "d \<and> open_slot sl \<and> \<not> open_slot sl' \<or> \<not> d \<and> (open_slot sl' \<longleftrightarrow> open_slot sl)"
      using E by auto
    then have "open_slot sl \<longleftrightarrow> i \<in> set A \<and> i \<notin> set (im_deferredFinished (cx_impl cx))"
      using ok by (simp add: slots_ok_def)
    then show ?thesis
      using S ok o slots_ok_deliver [OF ok S(1), of sl'] slots_ok_update [OF ok S(1), of sl']
      by (auto simp: flight_ok_def)
  qed
  then show ?thesis using E o by (auto simp: act_deliver_def act)
qed

lemma acts_ok:
  assumes "sim gn cx s" "flight_ok A cx"
  shows "sim gn (fold (\<lambda>(i, a). act_deliver i a) acts cx) s
    \<and> flight_ok A (fold (\<lambda>(i, a). act_deliver i a) acts cx)
    \<and> cx_draining (fold (\<lambda>(i, a). act_deliver i a) acts cx) = cx_draining cx
    \<and> im_inlineReady (cx_impl (fold (\<lambda>(i, a). act_deliver i a) acts cx)) = im_inlineReady (cx_impl cx)
    \<and> im_deferredNodes (cx_impl (fold (\<lambda>(i, a). act_deliver i a) acts cx)) = im_deferredNodes (cx_impl cx)"
  using assms
proof (induction acts arbitrary: cx)
  case (Cons x acts)
  obtain i a where x: "x = (i, a)" by fastforce
  show ?case
    using act_deliver_ok [OF Cons.prems, of i a] Cons.IH [of "act_deliver i a cx"] by (simp add: x)
qed simp

lemma slots_ok_finish:
  assumes "slots_ok A (i # F) slots w"
  shows "slots_ok (remove1 i A) F slots (w - 1)"
proof -
  have i: "i \<in> set A" "i \<notin> set F" "distinct A" "w = word_of_nat (length A)"
    using assms by (auto simp: slots_ok_def)
  then have "length A = Suc (length (remove1 i A))" by (simp add: length_remove1) (metis Suc_pred length_pos_if_in_set)
  then have "w - 1 = word_of_nat (length (remove1 i A))" using i(4) by simp
  then show ?thesis
    using assms i by (auto simp: slots_ok_def set_remove1_eq)
qed

text \<open>The slot work of \<^verbatim>\<open>finishDeferred\<close> before the finish: registrations released, orphan counted.\<close>

definition settle :: "nat \<Rightarrow> 'f Ctx \<Rightarrow> 'f Ctx" where
  "settle i cx =
     (let cx1 = set_slot i (releaseRegistrations (cx_slot i cx)) cx
      in if ds_outcome (cx_slot i cx1) = kStopped
         then (case orphanIfHeld (cx_slot i cx1) (im_deferredOrphans (cx_impl cx1)) of
                 (slot, orphans) \<Rightarrow> set_orphans orphans (set_slot i slot cx1))
         else cx1)"

lemma finishDeferred_settle:
  "finishDeferred i cx =
     (let cx3 = finishJob i (ds_result (cx_slot i (settle i cx))) (ds_message (cx_slot i (settle i cx))) (settle i cx)
      in cx3\<lparr>cx_inFlight := cx_inFlight cx3 - 1\<rparr>)"
  by (simp add: finishDeferred_def settle_def finishCold_def Let_def)

lemma settle_effect:
  assumes "sim gn cx s" "i < length (slots_of cx)"
  shows "sim gn (settle i cx) s \<and> outer (settle i cx) = outer cx \<and>
    (\<exists>sl. slots_of (settle i cx) = (slots_of cx)[i := Some sl] \<and> (open_slot sl \<longleftrightarrow> open_slot (cx_slot i cx)))"
proof -
  let ?cx1 = "set_slot i (releaseRegistrations (cx_slot i cx)) cx"
  have 1: "cx_slot i ?cx1 = releaseRegistrations (cx_slot i cx)"
    using assms(2) by (simp add: cx_slot_slots slots_of_set_slot)
  have 2: "open_slot (releaseRegistrations sl) = open_slot sl" for sl :: "'a DeferredSlot"
    by (simp add: open_slot_def releaseRegistrations_def)
  have 3: "orphanIfHeld sl c = (sl', c') \<Longrightarrow> open_slot sl' = open_slot sl" for sl sl' :: "'a DeferredSlot" and c c'
    by (auto simp: orphanIfHeld_def open_slot_def split: if_splits)
  show ?thesis
    using assms 1 2 3
    by (auto simp: settle_def Let_def slots_of_set_slot split: prod.splits)
qed

lemma finishDeferred_sim:
  assumes "sim gn cx s" "dag_ok (fst gn)" "\<not> cx_draining cx" "i < dg_n (fst gn)"
    "slots_ok A (i # F) (slots_of cx) (cx_inFlight cx)"
  shows "\<exists>s' new. steps gn (s, add_mset (Body i) M) (s', mset (map Dispatch new) + M)
    \<and> sim gn (finishDeferred i cx) s' \<and> \<not> cx_draining (finishDeferred i cx)
    \<and> im_inlineReady (cx_impl (finishDeferred i cx)) = im_inlineReady (cx_impl cx) @ new
    \<and> slots_ok (remove1 i A) F (slots_of (finishDeferred i cx)) (cx_inFlight (finishDeferred i cx))
    \<and> im_deferredFinished (cx_impl (finishDeferred i cx)) = im_deferredFinished (cx_impl cx)
    \<and> im_deferredNodes (cx_impl (finishDeferred i cx)) = im_deferredNodes (cx_impl cx)"
proof -
  let ?c = "settle i cx"
  let ?f = "finishJob i (ds_result (cx_slot i ?c)) (ds_message (cx_slot i ?c)) ?c"
  have i: "i < length (slots_of cx)" using assms(4) sim_length [OF assms(1)] by simp
  from settle_effect [OF assms(1) i] obtain sl where c: "sim gn ?c s" "outer ?c = outer cx"
    "slots_of ?c = (slots_of cx)[i := Some sl]" "open_slot sl \<longleftrightarrow> open_slot (cx_slot i cx)"
    by blast
  have "i \<in> set A" using assms(5) by (auto simp: slots_ok_def)
  then obtain sl0 where "slots_of cx ! i = Some sl0" using assms(5) by (auto simp: slots_ok_def)
  then have "\<not> open_slot (cx_slot i cx)"
    using assms(5) i by (auto simp: slots_ok_def cx_slot_slots)
  then have ok: "slots_ok A (i # F) (slots_of ?c) (cx_inFlight ?c)"
    using c slots_ok_update [OF assms(5) i, of sl] by (simp add: outer_def)
  have "\<not> cx_draining ?c" using c(2) assms(3) by (simp add: outer_def)
  from finishJob_sim [OF c(1) assms(2) this assms(4), of M "ds_result (cx_slot i ?c)" "ds_message (cx_slot i ?c)"]
  obtain s' new where f: "steps gn (s, add_mset (Body i) M) (s', mset (map Dispatch new) + M)"
    "sim gn ?f s'" "\<not> cx_draining ?f" "im_inlineReady (cx_impl ?f) = im_inlineReady (cx_impl ?c) @ new"
    "rest ?f = rest ?c"
    by blast
  have eq: "finishDeferred i cx = ?f\<lparr>cx_inFlight := cx_inFlight ?f - 1\<rparr>"
    by (simp add: finishDeferred_settle Let_def)
  show ?thesis
    using f slots_ok_finish [OF ok] rest_slots [OF f(5)] c(2) unfolding eq
    by (intro exI [of _ s'] exI [of _ new]) (simp add: outer_def)
qed

text \<open>The run thread finishes what was delivered to it.\<close>

lemma finish_list_sim:
  assumes "sim gn cx s" "dag_ok (fst gn)" "\<not> cx_draining cx" "set A \<subseteq> {..<dg_n (fst gn)}"
    "slots_ok A F (slots_of cx) (cx_inFlight cx)"
  shows "\<exists>s' new A'. steps gn (s, mset (map Body A) + M) (s', mset (map Dispatch new) + mset (map Body A') + M)
    \<and> sim gn (fold finishDeferred F cx) s' \<and> \<not> cx_draining (fold finishDeferred F cx)
    \<and> im_inlineReady (cx_impl (fold finishDeferred F cx)) = im_inlineReady (cx_impl cx) @ new
    \<and> slots_ok A' [] (slots_of (fold finishDeferred F cx)) (cx_inFlight (fold finishDeferred F cx))
    \<and> set A' \<subseteq> set A
    \<and> im_deferredFinished (cx_impl (fold finishDeferred F cx)) = im_deferredFinished (cx_impl cx)
    \<and> im_deferredNodes (cx_impl (fold finishDeferred F cx)) = im_deferredNodes (cx_impl cx)"
  using assms
proof (induction F arbitrary: cx s A M)
  case Nil
  then show ?case by (intro exI [of _ s] exI [of _ "[]"] exI [of _ A]) simp
next
  case (Cons i F)
  have i: "i \<in> set A" "i < dg_n (fst gn)" using Cons.prems(4,5) by (auto simp: slots_ok_def)
  let ?A1 = "remove1 i A"
  have M: "mset (map Body A) + M = add_mset (Body i) (mset (map Body ?A1) + M)"
    using i(1) by (simp add: mset_remove1 flip: image_mset_add_mset)
  from finishDeferred_sim [OF Cons.prems(1-3) i(2) Cons.prems(5), of "mset (map Body ?A1) + M"]
  obtain s1 new1 where 1: "steps gn (s, mset (map Body A) + M) (s1, mset (map Body ?A1) + (mset (map Dispatch new1) + M))"
    "sim gn (finishDeferred i cx) s1" "\<not> cx_draining (finishDeferred i cx)"
    "im_inlineReady (cx_impl (finishDeferred i cx)) = im_inlineReady (cx_impl cx) @ new1"
    "slots_ok ?A1 F (slots_of (finishDeferred i cx)) (cx_inFlight (finishDeferred i cx))"
    "im_deferredFinished (cx_impl (finishDeferred i cx)) = im_deferredFinished (cx_impl cx)"
    "im_deferredNodes (cx_impl (finishDeferred i cx)) = im_deferredNodes (cx_impl cx)"
    unfolding M by (auto simp: ac_simps)
  have "set ?A1 \<subseteq> {..<dg_n (fst gn)}" using Cons.prems(4) set_remove1_subset by fastforce
  from Cons.IH [OF 1(2) Cons.prems(2) 1(3) this 1(5), of "mset (map Dispatch new1) + M"]
  obtain s' new A' where 2: "steps gn (s1, mset (map Body ?A1) + (mset (map Dispatch new1) + M))
      (s', mset (map Dispatch new) + mset (map Body A') + (mset (map Dispatch new1) + M))"
    "sim gn (fold finishDeferred (i # F) cx) s'" "\<not> cx_draining (fold finishDeferred (i # F) cx)"
    "im_inlineReady (cx_impl (fold finishDeferred (i # F) cx)) = im_inlineReady (cx_impl cx) @ new1 @ new"
    "slots_ok A' [] (slots_of (fold finishDeferred (i # F) cx)) (cx_inFlight (fold finishDeferred (i # F) cx))"
    "set A' \<subseteq> set ?A1"
    "im_deferredFinished (cx_impl (fold finishDeferred (i # F) cx)) = im_deferredFinished (cx_impl cx)"
    "im_deferredNodes (cx_impl (fold finishDeferred (i # F) cx)) = im_deferredNodes (cx_impl cx)"
    using 1(4,6,7) by auto
  have "mset (map Dispatch new) + mset (map Body A') + (mset (map Dispatch new1) + M) =
      mset (map Dispatch (new1 @ new)) + mset (map Body A') + M"
    by (simp add: ac_simps)
  then have "steps gn (s, mset (map Body A) + M) (s', mset (map Dispatch (new1 @ new)) + mset (map Body A') + M)"
    using steps_trans [OF 1(1) 2(1)] by (simp only:)
  moreover have "set A' \<subseteq> set A" using 2(6) set_remove1_subset by fastforce
  ultimately show ?case using 2(2-5,7,8) by blast
qed

subsection \<open>Starting a deferred job\<close>

text \<open>While the start function runs, its slot has two parties to come, or one and an outcome.\<close>

definition starting :: "'f DeferredSlot \<Rightarrow> bool" where
  "starting sl \<longleftrightarrow> ds_parties sl = 2 \<and> ds_outcome sl = kNone \<or> ds_parties sl = 1 \<and> ds_outcome sl \<noteq> kNone"

lemma starting_closed: "starting sl \<Longrightarrow> \<not> open_slot sl"
  by (auto simp: starting_def open_slot_def)

lemma starting_signal: "signal r m sl c = (sl', c', d) \<Longrightarrow> starting sl \<Longrightarrow> starting sl'"
  by (auto simp: signal_def releaseLate_def arrive_def signal_write_def starting_def Let_def split: if_splits)

lemma starting_stop: "slot_stop sl = (sl', d) \<Longrightarrow> starting sl \<Longrightarrow> starting sl'"
  by (auto simp: slot_stop_def arrive_def stop_write_def starting_def split: if_splits)

definition starting_ok :: "frozen \<Rightarrow> sched \<Rightarrow> nat \<Rightarrow> 'f Ctx \<Rightarrow> 'f Ctx \<Rightarrow> bool" where
  "starting_ok gn s i cx0 cx \<longleftrightarrow> sim gn cx s \<and> outer cx = outer cx0 \<and>
     (\<exists>sl. starting sl \<and> slots_of cx = (slots_of cx0)[i := Some sl])"

lemma starting_stop_slot:
  assumes "starting_ok gn s i cx0 cx" "i < length (slots_of cx0)"
  shows "starting_ok gn s i cx0 (fst (stop_slot i cx)) \<and> \<not> snd (stop_slot i cx)"
proof -
  from assms(1) obtain sl where sl: "starting sl" "slots_of cx = (slots_of cx0)[i := Some sl]" "sim gn cx s"
    "outer cx = outer cx0"
    by (auto simp: starting_ok_def)
  have "cx_slot i (upd_impl (request_stop k) cx) = sl" for k
    using sl(2) assms(2) by (simp add: cx_slot_slots)
  then show ?thesis
    using sl starting_stop [of sl] slot_stop_open [of sl] starting_closed [of sl]
    by (auto simp: stop_slot_def Let_def starting_ok_def slots_of_set_slot split: prod.splits)
qed

lemma starting_act:
  assumes "starting_ok gn s i cx0 cx" "i < length (slots_of cx0)"
  shows "starting_ok gn s i cx0 (act_deliver i a cx)"
proof -
  from assms(1) obtain sl where sl: "starting sl" "slots_of cx = (slots_of cx0)[i := Some sl]" "sim gn cx s"
    "outer cx = outer cx0"
    by (auto simp: starting_ok_def)
  have slot: "cx_slot i cx = sl" using sl(2) assms(2) by (simp add: cx_slot_slots)
  have len: "length (im_nodes (cx_impl cx)) = length (im_nodes (cx_impl cx0))"
    using sl(2) by (metis length_list_update length_slots)
  have "nd_deferred (cx_node i cx) = slots_of cx ! i"
    using assms(2) len by (simp add: slots_of_def cx_node_def)
  then have guard: "i < length (im_nodes (cx_impl cx)) \<and> nd_deferred (cx_node i cx) \<noteq> None"
    using sl(2) assms(2) len by simp
  show ?thesis
  proof (cases a)
    case (Signal r m)
    obtain sl' c' d where sig: "signal r m sl (im_deferredOrphans (cx_impl cx)) = (sl', c', d)"
      by (metis prod.exhaust)
    have "starting sl'" "\<not> d"
      using starting_signal [OF sig sl(1)] signal_open [OF sig] starting_closed [OF sl(1)] by auto
    then show ?thesis
      using guard sl slot sig Signal
      by (auto simp: act_deliver_def act_def signal_slot_def starting_ok_def slots_of_set_slot)
  next
    case Stop
    then show ?thesis
      using guard starting_stop_slot [OF assms] by (simp add: act_deliver_def act_def case_prod_beta)
  next
    case Expire
    have "starting (sl\<lparr>ds_deadline := Some True\<rparr>)" using sl(1) by (simp add: starting_def)
    then have "starting_ok gn s i cx0 (set_slot i (sl\<lparr>ds_deadline := Some True\<rparr>) cx)"
      using sl by (auto simp: starting_ok_def slots_of_set_slot)
    then show ?thesis
      using guard starting_stop_slot [OF _ assms(2)] slot assms(1) Expire
      by (simp add: act_deliver_def act_def expire_slot_def case_prod_beta)
  qed
qed

lemma starting_acts:
  assumes "starting_ok gn s i cx0 cx" "i < length (slots_of cx0)"
  shows "starting_ok gn s i cx0 (fold (act_deliver i) as cx)"
  using assms(1) by (induction as arbitrary: cx) (auto intro: starting_act assms(2))

lemma slots_ok_start:
  assumes "slots_ok A F slots w" "i < length slots" "i \<notin> set A" "open_slot sl"
  shows "slots_ok (i # A) F (slots[i := Some sl]) (w + 1)"
  using assms by (auto simp: slots_ok_def nth_list_update)

lemma slots_ok_start_closed:
  assumes "slots_ok A F slots w" "i < length slots" "i \<notin> set A" "\<not> open_slot sl"
  shows "slots_ok (i # A) (i # F) (slots[i := Some sl]) (w + 1)"
  using assms by (auto simp: slots_ok_def nth_list_update)

text \<open>What starting a deferred job leads to: it ended, or it is in flight.\<close>

definition started_to :: "frozen \<Rightarrow> nat \<Rightarrow> nat list \<Rightarrow> 'f Ctx \<Rightarrow> sched \<Rightarrow> task multiset \<Rightarrow> 'f Ctx \<Rightarrow> bool" where
  "started_to gn i A cx s M cx' \<longleftrightarrow> (\<exists>s' new A'.
     steps gn (s, add_mset (Body i) M) (s', mset (map Dispatch new) + (if A' = A then {#} else {#Body i#}) + M)
     \<and> (A' = A \<or> A' = i # A \<and> sc_status s' i = kAwaiting)
     \<and> sim gn cx' s' \<and> \<not> cx_draining cx'
     \<and> im_inlineReady (cx_impl cx') = im_inlineReady (cx_impl cx) @ new
     \<and> flight_ok A' cx'
     \<and> im_deferredNodes (cx_impl cx') = im_deferredNodes (cx_impl cx))"

lemma await_or_finish_sim:
  assumes "sim gn cx s" "dag_ok (fst gn)" "\<not> cx_draining cx" "i < dg_n (fst gn)" "dg_deferred (fst gn) i"
    "sc_status s i = kRunning" "flight_ok A cx" "i \<notin> set A"
    "starting_ok gn s i (cx\<lparr>cx_inFlight := cx_inFlight cx + 1\<rparr>) c"
  shows "started_to gn i A cx s M (await_or_finish i c)"
proof -
  have i: "i < length (slots_of cx)" using assms(4) sim_length [OF assms(1)] by simp
  from assms(9) obtain sl where sl: "starting sl" "slots_of c = (slots_of cx)[i := Some sl]" "sim gn c s"
    and "outer c = outer (cx\<lparr>cx_inFlight := cx_inFlight cx + 1\<rparr>)"
    by (auto simp: starting_ok_def)
  then have o: "im_deferredFinished (cx_impl c) = im_deferredFinished (cx_impl cx)" "cx_inFlight c = cx_inFlight cx + 1"
    "\<not> cx_draining c" "im_inlineReady (cx_impl c) = im_inlineReady (cx_impl cx)"
    "im_deferredNodes (cx_impl c) = im_deferredNodes (cx_impl cx)"
    using assms(3) by (auto simp: outer_def)
  have slot: "cx_slot i c = sl" using sl(2) i by (metis cx_slot_slots length_list_update nth_list_update_eq option.sel)
  have ok: "slots_ok A (im_deferredFinished (cx_impl cx)) (slots_of cx) (cx_inFlight cx)"
    using assms(7) by (simp add: flight_ok_def)
  let ?sl = "sl\<lparr>ds_parties := ds_parties sl - 1\<rparr>"
  show ?thesis
  proof (cases "ds_outcome sl = kNone")
    case True
    then have p: "ds_parties sl = 2" using sl(1) by (auto simp: starting_def)
    let ?c1 = "cx_emit [Awaited i] (cx_status i kAwaiting c)"
    have slots1: "slots_of ?c1 = slots_of c" using rest_slots [of ?c1 c] by simp
    then have slot1: "cx_slot i ?c1 = sl" using slot sl(2) i by (simp add: cx_slot_slots)
    have eq: "await_or_finish i c = set_slot i ?sl ?c1"
      using True p by (simp add: await_or_finish_def slot slot1 Let_def arrive_def)
    let ?s1 = "emit [Awaited i] (set_status i kAwaiting s)"
    have "steps gn (s, add_mset (Body i) M) (?s1, add_mset (Body i) M)"
      using step_one [OF exec_task.await, of gn i s M] assms(5,6) by simp
    moreover have "sim gn (set_slot i ?sl ?c1) ?s1"
      by (rule sim_slot) (rule sim_emit [OF sim_status [OF sl(3) assms(4)]])
    moreover have "open_slot ?sl" using True p by (simp add: open_slot_def)
    then have "flight_ok (i # A) (set_slot i ?sl ?c1)"
      using slots_ok_start [OF ok i assms(8), of ?sl] o sl(2) slots1 rest_slots [of ?c1 c]
      by (simp add: flight_ok_def slots_of_set_slot) (simp add: set_slot_def upd_impl_def)
    ultimately show ?thesis
      unfolding started_to_def eq
      by (intro exI [of _ ?s1] exI [of _ "[]"] exI [of _ "i # A"])
        (use o in \<open>simp add: set_slot_def upd_impl_def cx_emit_def cx_status_def emit_def set_status_def\<close>)
  next
    case False
    then have p: "ds_parties sl = 1" using sl(1) by (auto simp: starting_def)
    have eq: "await_or_finish i c = finishDeferred i (set_slot i ?sl c)"
      using False p by (simp add: await_or_finish_def slot Let_def arrive_def)
    have closed: "\<not> open_slot ?sl" using False by (simp add: open_slot_def)
    let ?c1 = "set_slot i ?sl c"
    have o1: "outer ?c1 = outer c" by simp
    have ok1: "slots_ok (i # A) (i # im_deferredFinished (cx_impl cx)) (slots_of ?c1) (cx_inFlight ?c1)"
      using slots_ok_start_closed [OF ok i assms(8) closed] o(2) sl(2) o1 by (simp add: slots_of_set_slot outer_def)
    have d1: "\<not> cx_draining ?c1" using o1 o(3) by (simp add: outer_def)
    from finishDeferred_sim [OF sim_slot [OF sl(3)] assms(2) d1 assms(4) ok1, of M]
    obtain s' new where f: "steps gn (s, add_mset (Body i) M) (s', mset (map Dispatch new) + M)"
      "sim gn (finishDeferred i ?c1) s'" "\<not> cx_draining (finishDeferred i ?c1)"
      "im_inlineReady (cx_impl (finishDeferred i ?c1)) = im_inlineReady (cx_impl ?c1) @ new"
      "slots_ok A (im_deferredFinished (cx_impl cx)) (slots_of (finishDeferred i ?c1)) (cx_inFlight (finishDeferred i ?c1))"
      "im_deferredFinished (cx_impl (finishDeferred i ?c1)) = im_deferredFinished (cx_impl ?c1)"
      "im_deferredNodes (cx_impl (finishDeferred i ?c1)) = im_deferredNodes (cx_impl ?c1)"
      by auto
    show ?thesis
      unfolding started_to_def eq
      by (rule exI [of _ s'], rule exI [of _ new], rule exI [of _ A])
        (use f o o1 in \<open>simp add: flight_ok_def outer_def\<close>)
  qed
qed

lemma starting_ok_slot:
  "starting_ok gn s i cx0 cx \<Longrightarrow> i < length (slots_of cx0) \<Longrightarrow> starting (cx_slot i cx)"
  unfolding starting_ok_def
  by (metis cx_slot_slots length_list_update nth_list_update_eq option.sel)

lemma starting_ok_set:
  "starting_ok gn s i cx0 cx \<Longrightarrow> starting sl \<Longrightarrow> starting_ok gn s i cx0 (set_slot i sl cx)"
  by (auto simp: starting_ok_def slots_of_set_slot)

lemma starting_ok_stops [simp]:
  "starting_ok gn s i cx0 cx \<Longrightarrow> starting_ok gn s i cx0 (upd_impl (request_stop k) cx)"
  "starting_ok gn s i cx0 cx \<Longrightarrow> starting_ok gn s i cx0 (upd_impl (stop_nodes js) cx)"
  "starting_ok gn s i cx0 cx \<Longrightarrow> starting_ok gn s i cx0 (cx\<lparr>cx_jobError := m\<rparr>)"
  by (auto simp: starting_ok_def)

lemma starting_ok_flight:
  "starting_ok gn s i cx0 cx \<Longrightarrow>
   starting_ok gn s i (cx0\<lparr>cx_inFlight := cx_inFlight cx0 + 1\<rparr>) (cx\<lparr>cx_inFlight := cx_inFlight cx + 1\<rparr>)"
  by (auto simp: starting_ok_def outer_def)

lemma starting_fields [simp]:
  "starting (reset_slot src sl)" "starting (sl\<lparr>ds_deadline := d, ds_deadlineService := b\<rparr>) = starting sl"
  "starting (sl\<lparr>ds_stopCallback := b\<rparr>) = starting sl"
  by (simp_all add: starting_def reset_slot_def)

lemma flight_ok_closed:
  assumes "flight_ok A cx" "i < length (slots_of cx)" "i \<notin> set A" "\<not> open_slot sl"
  shows "flight_ok A (set_slot i sl cx)"
  using assms slots_ok_update [of A _ "slots_of cx" "cx_inFlight cx" i sl]
  by (simp add: flight_ok_def slots_of_set_slot) (simp add: set_slot_def upd_impl_def)

lemma finishCold_started:
  assumes "sim gn cx s" "dag_ok (fst gn)" "\<not> cx_draining cx" "i < dg_n (fst gn)" "flight_ok A cx"
    "im_inlineReady (cx_impl cx) = im_inlineReady (cx_impl cx0)" "im_deferredNodes (cx_impl cx) = im_deferredNodes (cx_impl cx0)"
  shows "started_to gn i A cx0 s M (finishCold i r m cx)"
proof -
  from finishJob_sim [OF assms(1-4), of M r m] obtain s' new where
    "steps gn (s, add_mset (Body i) M) (s', mset (map Dispatch new) + M)" "sim gn (finishJob i r m cx) s'"
    "\<not> cx_draining (finishJob i r m cx)"
    "im_inlineReady (cx_impl (finishJob i r m cx)) = im_inlineReady (cx_impl cx) @ new"
    "rest (finishJob i r m cx) = rest cx"
    by blast
  then show ?thesis
    unfolding started_to_def finishCold_def
    by (intro exI [of _ s'] exI [of _ new] exI [of _ A])
      (use assms(5-7) rest_slots [of "finishJob i r m cx" cx] in \<open>simp add: flight_ok_def\<close>)
qed

lemma startDeferred_sim:
  assumes "sim gn cx0 s" "dag_ok (fst gn)" "\<not> cx_draining cx0" "i < dg_n (fst gn)" "dg_deferred (fst gn) i"
    "sc_status s i = kRunning" "flight_ok A cx0" "i \<notin> set A"
  shows "started_to gn i A cx0 s M (startDeferred se i cx0)"
proof -
  define cx where "cx = upd_impl (stop_nodes (se_before se)) cx0"
  have c: "sim gn cx s" "outer cx = outer cx0" "slots_of cx = slots_of cx0"
    using assms(1) by (simp_all add: cx_def)
  then have o: "\<not> cx_draining cx" "flight_ok A cx" "im_inlineReady (cx_impl cx) = im_inlineReady (cx_impl cx0)"
    "im_deferredNodes (cx_impl cx) = im_deferredNodes (cx_impl cx0)"
    using assms(3,7) by (auto simp: outer_def flight_ok_def)
  have i: "i < length (slots_of cx)" using assms(4) sim_length [OF c(1)] by simp
  define src where "src = nd_stopSource (cx_node i cx)"
  define timed where "timed \<longleftrightarrow> nd_timeout (cx_node i cx) \<noteq> milliseconds_max"
  define cx1 where "cx1 = set_slot i (reset_slot src (cx_slot i cx)) cx"
  define cx2 where "cx2 = (if timed then set_slot i ((cx_slot i cx1)\<lparr>ds_deadline := Some (se_early se),
    ds_deadlineService := True\<rparr>) cx1 else cx1)"
  define cx3 where "cx3 = upd_impl (stop_nodes (se_arming se))
    (if timed \<and> se_early se then upd_impl (request_stop src) cx2 else cx2)"
  define cx4 where "cx4 = set_slot i ((cx_slot i cx3)\<lparr>ds_stopCallback := True\<rparr>) (cx3\<lparr>cx_inFlight := cx_inFlight cx3 + 1\<rparr>)"
  define cx5 where "cx5 = (if stop_requested src (cx_impl cx4) then act_deliver i Stop cx4 else cx4)"
  define cx6 where "cx6 = fold (act_deliver i) (se_actions se) cx5"
  define cx7 where "cx7 = (if se_text se = [] then cx6 else cx6\<lparr>cx_jobError := se_text se\<rparr>)"
  note defs = src_def timed_def cx1_def cx2_def cx3_def cx4_def cx5_def cx6_def cx7_def
  have eq: "startDeferred se i cx0 =
    (if stop_requested src (cx_impl cx) then finishCold i (Inl kCancelled) [] cx
     else if timed \<and> \<not> (se_service se \<and> se_armed se) then finishCold i (Inl kDeadlineUnavailable) [] cx1
     else await_or_finish i cx7)"
    unfolding startDeferred_def Let_def cx_def [symmetric] defs ..
  have 1: "starting_ok gn s i cx cx1"
    unfolding starting_ok_def cx1_def slots_of_set_slot
    by (intro conjI exI [of _ "reset_slot src (cx_slot i cx)"]) (use c(1) in simp_all)
  have 2: "starting_ok gn s i cx cx2"
    using 1 starting_ok_slot [OF 1 i] by (simp add: cx2_def starting_ok_set)
  have 3: "starting_ok gn s i cx cx3" using 2 by (simp add: cx3_def)
  let ?cx = "cx\<lparr>cx_inFlight := cx_inFlight cx + 1\<rparr>"
  have i': "i < length (slots_of ?cx)" using i by simp
  have 4: "starting_ok gn s i ?cx cx4"
    using starting_ok_slot [OF 3 i] starting_ok_set [OF starting_ok_flight [OF 3]] by (simp add: cx4_def)
  have 5: "starting_ok gn s i ?cx cx5" using 4 starting_act [OF 4 i'] by (simp add: cx5_def)
  have 6: "starting_ok gn s i ?cx cx6" using starting_acts [OF 5 i'] by (simp add: cx6_def)
  have 7: "starting_ok gn s i ?cx cx7" using 6 by (simp add: cx7_def)
  have await: "started_to gn i A cx0 s M (await_or_finish i cx7)"
    using await_or_finish_sim [OF c(1) assms(2) o(1) assms(4-6) o(2) assms(8) 7, of M] o(3,4)
    by (simp add: started_to_def)
  have cancel: "started_to gn i A cx0 s M (finishCold i (Inl kCancelled) [] cx)"
    by (rule finishCold_started [OF c(1) assms(2) o(1) assms(4) o(2-4)])
  have "sim gn cx1 s" "outer cx1 = outer cx" "flight_ok A cx1"
    using c(1) flight_ok_closed [OF o(2) i assms(8) starting_closed] by (simp_all add: cx1_def)
  then have "started_to gn i A cx0 s M (finishCold i (Inl kDeadlineUnavailable) [] cx1)"
    using o by (intro finishCold_started [OF _ assms(2) _ assms(4)]) (auto simp: outer_def)
  then show ?thesis unfolding eq using await cancel by simp
qed

section \<open>The loops\<close>

definition run_steps :: "frozen \<Rightarrow> state \<Rightarrow> state \<Rightarrow> bool" where
  "run_steps gn = (step (fst gn))\<^sup>+\<^sup>+"

lemma run_stepsI: "step (fst gn) x y \<Longrightarrow> steps gn y z \<Longrightarrow> run_steps gn x z"
  unfolding run_steps_def by (rule rtranclp_into_tranclp2)

lemma first_step: "exec_task (fst gn) s t s' ts \<Longrightarrow> steps gn (s', mset ts + M) z \<Longrightarrow> run_steps gn (s, add_mset t M) z"
  by (rule run_stepsI [OF step.step])

text \<open>What dispatching one job leads to; \<open>B\<close> holds the job's own task if it is now in flight.\<close>

definition dispatched_to :: "frozen \<Rightarrow> nat \<Rightarrow> nat list \<Rightarrow> 'f Ctx \<Rightarrow> sched \<Rightarrow> task multiset \<Rightarrow> 'f Ctx \<Rightarrow> bool" where
  "dispatched_to gn i A cx s M cx' \<longleftrightarrow> (\<exists>s' new A'.
     run_steps gn (s, add_mset (Dispatch i) M) (s', mset (map Dispatch new) + (if A' = A then {#} else {#Body i#}) + M)
     \<and> (A' = A \<or> A' = i # A \<and> dg_deferred (fst gn) i)
     \<and> sim gn cx' s' \<and> \<not> cx_draining cx'
     \<and> im_inlineReady (cx_impl cx') = im_inlineReady (cx_impl cx) @ new
     \<and> flight_ok A' cx'
     \<and> im_deferredNodes (cx_impl cx') = im_deferredNodes (cx_impl cx))"

lemma dispatched_same:
  assumes "run_steps gn (s, add_mset (Dispatch i) M) (s', M)" "sim gn cx' s'" "\<not> cx_draining cx'"
    "im_inlineReady (cx_impl cx') = im_inlineReady (cx_impl cx)" "flight_ok A cx" "rest cx' = rest cx"
  shows "dispatched_to gn i A cx s M cx'"
  unfolding dispatched_to_def
  by (intro exI [of _ s'] exI [of _ "[]"] exI [of _ A])
    (use assms rest_slots [OF assms(6)] in \<open>simp add: flight_ok_def\<close>)

lemma dispatched_started:
  assumes "step (fst gn) (s, add_mset (Dispatch i) M) (s, add_mset (Claim i) M)"
    "steps gn (s, add_mset (Claim i) M) (s1, add_mset (Body i) M)" "dg_deferred (fst gn) i"
    "started_to gn i A cx1 s1 M cx'" "im_inlineReady (cx_impl cx1) = im_inlineReady (cx_impl cx)"
    "im_deferredNodes (cx_impl cx1) = im_deferredNodes (cx_impl cx)"
  shows "dispatched_to gn i A cx s M cx'"
  using assms(4) run_stepsI [OF assms(1) steps_trans [OF assms(2)]] assms(3,5,6)
  unfolding started_to_def dispatched_to_def by metis

lemma dispatch_invoked:
  assumes "step (fst gn) (s, add_mset (Dispatch i) M) (s, add_mset (Claim i) M)"
    "steps gn (s, add_mset (Claim i) M) (s1, add_mset (Body i) M)"
    "sim gn cx1 s1" "dag_ok (fst gn)" "\<not> cx_draining cx1" "i < dg_n (fst gn)" "flight_ok A cx1"
    "im_inlineReady (cx_impl cx1) = im_inlineReady (cx_impl cx)"
    "im_deferredNodes (cx_impl cx1) = im_deferredNodes (cx_impl cx)"
  shows "dispatched_to gn i A cx s M (finishJob i r m cx1)"
proof -
  from finishJob_sim [OF assms(3-6), of M r m] obtain s' new where
    f: "steps gn (s1, add_mset (Body i) M) (s', mset (map Dispatch new) + M)" "sim gn (finishJob i r m cx1) s'"
    "\<not> cx_draining (finishJob i r m cx1)"
    "im_inlineReady (cx_impl (finishJob i r m cx1)) = im_inlineReady (cx_impl cx1) @ new"
    "rest (finishJob i r m cx1) = rest cx1"
    by blast
  have "run_steps gn (s, add_mset (Dispatch i) M) (s', mset (map Dispatch new) + M)"
    by (rule run_stepsI [OF assms(1) steps_trans [OF assms(2) f(1)]])
  then show ?thesis
    unfolding dispatched_to_def
    by (intro exI [of _ s'] exI [of _ new] exI [of _ A])
      (use f(2-5) assms(7-9) rest_slots [OF f(5)] in \<open>simp add: flight_ok_def\<close>)
qed

lemma frame_rest:
  assumes "same_frame (cx_impl cx) impl"
  shows "rest (cx\<lparr>cx_impl := impl, cx_jobError := m\<rparr>) = rest cx"
    "im_inlineReady impl = im_inlineReady (cx_impl cx)"
  using same_frameD [OF assms] by (simp_all add: rest_def)

lemma dispatchJob_sim:
  assumes "sim gn cx s" "dag_ok (fst gn)" "\<not> cx_draining cx" "i < dg_n (fst gn)" "flight_ok A cx"
    "sc_status s i = kReady \<Longrightarrow> i \<notin> set A"
  shows "dispatched_to gn i A cx s M (dispatchJob env i cx)"
proof (cases "sc_fatal s = None")
  case False
  then have eq: "dispatchJob env i cx = skipNode i cx"
    using sim_fatal [OF assms(1)] by (simp add: dispatchJob_def)
  obtain s' where s': "steps gn (s, add_mset (Skip_node i (Skip_all [])) M) (s', add_mset (Skip_all []) M)"
    "sim gn (skipNode i cx) s'" "\<not> cx_draining (skipNode i cx)"
    using skipNode_sim [OF assms(1-4)] by blast
  have "steps gn (s', add_mset (Skip_all []) M) (s', M)"
    using step_one [OF exec_task.skip_end, of gn s' M] by simp
  then have "run_steps gn (s, add_mset (Dispatch i) M) (s', M)"
    using s'(1) by (intro first_step [OF exec_task.dispatch_skip [OF False]]) (simp add: rtranclp_trans)
  then show ?thesis unfolding eq by (rule dispatched_same) (use s' assms(5) in simp_all)
next
  case True
  have go: "step (fst gn) (s, add_mset (Dispatch i) M) (s, add_mset (Claim i) M)"
    using step.step [OF exec_task.dispatch_go [OF True], of "fst gn" i M] by simp
  have c: "cx_fatal cx = None" using True sim_fatal [OF assms(1)] by simp
  have st: "nd_jobStatus (cx_node i cx) = sc_status s i" by (rule sim_node(1) [OF assms(1,4)])
  show ?thesis
  proof (cases "sc_status s i = kReady")
    case False
    then have "dispatchJob env i cx = cx" by (simp add: dispatchJob_def c st)
    moreover have "run_steps gn (s, add_mset (Dispatch i) M) (s, M)"
      using run_stepsI [OF go] step_one [OF exec_task.claim_lost [OF False], of gn M] by simp
    ultimately show ?thesis using dispatched_same [of gn s i M s cx cx A] assms(1,3,5) by simp
  next
    case ready: True
    let ?cx1 = "cx_emit [Started i] (cx_status i kRunning cx)" and ?s1 = "emit [Started i] (set_status i kRunning s)"
    have s1: "sim gn ?cx1 ?s1" by (rule sim_emit [OF sim_status [OF assms(1,4)]])
    have cl: "steps gn (s, add_mset (Claim i) M) (?s1, add_mset (Body i) M)"
      using step_one [OF exec_task.claim [OF ready], of gn M] by simp
    have r1: "rest ?cx1 = rest cx" by simp
    have f1: "flight_ok A ?cx1" "im_deferredNodes (cx_impl ?cx1) = im_deferredNodes (cx_impl cx)"
      using assms(5) rest_slots [OF r1] by (simp_all add: flight_ok_def)
    show ?thesis
    proof (cases "dg_deferred (fst gn) i")
      case True
      have "dispatchJob env i cx = startDeferred (en_start env i) i ?cx1"
        using c st ready sim_node(4) [OF s1 assms(4)] True by (simp add: dispatchJob_def)
      moreover have "started_to gn i A ?cx1 ?s1 M (startDeferred (en_start env i) i ?cx1)"
        by (rule startDeferred_sim [OF s1 assms(2) _ assms(4) True _ f1(1) assms(6) [OF ready]])
          (use assms(3) in \<open>simp_all add: emit_def set_status_def\<close>)
      ultimately show ?thesis using dispatched_started [OF go cl True, of A ?cx1] f1(2) by simp
    next
      case False
      obtain r m impl where inv: "invoke (en_invoke env i) i (cx_impl ?cx1) = (r, m, impl)" by (metis prod.exhaust)
      note fr = invoke_frame [OF inv]
      let ?cx2 = "?cx1\<lparr>cx_impl := impl, cx_jobError := []\<rparr>"
      have "dispatchJob env i cx = finishJob i r (if m = [] then cx_jobError ?cx1 else m) ?cx2"
        using c st ready sim_node(4) [OF s1 assms(4)] False inv by (simp add: dispatchJob_def Let_def)
      moreover have "sim gn ?cx2 ?s1" using sim_frame [OF s1 fr] by simp
      moreover have "flight_ok A ?cx2" "im_deferredNodes impl = im_deferredNodes (cx_impl cx)"
        using f1 rest_slots [OF frame_rest(1) [OF fr, of "[]"]] by (simp_all add: flight_ok_def)
      ultimately show ?thesis
        using dispatch_invoked [OF go cl _ assms(2) _ assms(4), of ?cx2 A cx] assms(3) frame_rest(2) [OF fr]
        by (simp add: cx_emit_def cx_status_def upd_impl_def)
    qed
  qed
qed

text \<open>The invariant at the head of the loops of an inline run.\<close>

definition loop_inv :: "frozen \<Rightarrow> nat \<Rightarrow> nat list \<Rightarrow> 'f Ctx \<Rightarrow> sched \<Rightarrow> bool" where
  "loop_inv gn nxt A cx s \<longleftrightarrow> sim gn cx s \<and> \<not> cx_draining cx \<and> flight_ok A cx
     \<and> nxt \<le> length (im_inlineReady (cx_impl cx))
     \<and> (\<forall>i\<in>set A. dg_deferred (fst gn) i)
     \<and> (\<forall>i<dg_n (fst gn). dg_deferred (fst gn) i \<longrightarrow> i \<in> set (im_deferredNodes (cx_impl cx)))
     \<and> reach (start (fst gn)) (step (fst gn))
         (s, mset (map Dispatch (drop nxt (im_inlineReady (cx_impl cx)))) + mset (map Body A))"

definition loop_work :: "frozen \<Rightarrow> nat \<Rightarrow> nat list \<Rightarrow> 'f Ctx \<Rightarrow> sched \<Rightarrow> nat" where
  "loop_work gn nxt A cx s = work_left (fst gn)
     (s, mset (map Dispatch (drop nxt (im_inlineReady (cx_impl cx)))) + mset (map Body A))"

lemma step_work: "sched_inv g x \<Longrightarrow> step g x y \<Longrightarrow> work_left g y < work_left g x"
proof -
  assume inv: "sched_inv g x" and "step g x y"
  from this(2) show ?thesis
  proof cases
    case (step s t s' ts M)
    then show ?thesis using step_uses_work [OF step(3)] sched_invD(2,7) [OF inv] by simp
  qed
qed

lemma run_steps_reach:
  assumes "run_steps gn x y" "dag_ok (fst gn)" "reach (start (fst gn)) (step (fst gn)) x"
  shows "reach (start (fst gn)) (step (fst gn)) y \<and> work_left (fst gn) y < work_left (fst gn) x"
  using assms(1) unfolding run_steps_def
proof (induction rule: tranclp_induct)
  case (base y)
  then show ?case
    using step_work [OF reach_sched_inv [OF assms(2,3)]] reach.reach_step [OF assms(3)] by blast
next
  case (step y z)
  then show ?case
    using step_work [OF reach_sched_inv [OF assms(2)]] reach.reach_step by (meson less_trans)
qed

lemma steps_reach:
  assumes "steps gn x y" "reach (start (fst gn)) (step (fst gn)) x"
  shows "reach (start (fst gn)) (step (fst gn)) y"
  using assms by (induction rule: rtranclp_induct) (auto intro: reach.reach_step)

lemma loop_tasks:
  assumes "dag_ok (fst gn)" "loop_inv gn nxt A cx s"
  shows "nxt \<le> k \<Longrightarrow> k < length (im_inlineReady (cx_impl cx)) \<Longrightarrow> im_inlineReady (cx_impl cx) ! k < dg_n (fst gn)"
    "i \<in> set A \<Longrightarrow> i < dg_n (fst gn) \<and> sc_status s i \<noteq> kReady"
proof -
  let ?M = "mset (map Dispatch (drop nxt (im_inlineReady (cx_impl cx)))) + mset (map Body A)"
  have inv: "sched_inv (fst gn) (s, ?M)"
    using assms by (auto simp: loop_inv_def intro: reach_sched_inv)
  have r: "t \<in># ?M \<Longrightarrow> in_range (dg_n (fst gn)) t" for t
    using sched_invD(2) [OF inv] by (auto simp: inv_range_def)
  show "im_inlineReady (cx_impl cx) ! k < dg_n (fst gn)" if "nxt \<le> k" "k < length (im_inlineReady (cx_impl cx))"
  proof -
    have "im_inlineReady (cx_impl cx) ! k \<in> set (drop nxt (im_inlineReady (cx_impl cx)))"
      using that by (auto simp: in_set_conv_nth intro!: exI [of _ "k - nxt"])
    then show ?thesis using r [of "Dispatch (im_inlineReady (cx_impl cx) ! k)"] by auto
  qed
  assume i: "i \<in> set A"
  have "total (body i) (mset (map Body A)) > 0"
    using i by (auto simp: total_pos intro!: bexI [of _ "Body i"])
  then have "of_bool (sc_status s i = kRunning \<or> sc_status s i = kAwaiting) > (0::nat)"
    using sched_invD(7) [OF inv, of i] by (simp add: inv_body_def)
  then show "i < dg_n (fst gn) \<and> sc_status s i \<noteq> kReady"
    using r [of "Body i"] i by (auto simp: of_bool_def split: if_splits)
qed

lemma loop_dispatch:
  assumes "dag_ok (fst gn)" "loop_inv gn nxt A cx s" "nxt < length (im_inlineReady (cx_impl cx))"
  shows "\<exists>A' s'. loop_inv gn (nxt + 1) A' (dispatchJob env (im_inlineReady (cx_impl cx) ! nxt) cx) s'
    \<and> im_deferredNodes (cx_impl (dispatchJob env (im_inlineReady (cx_impl cx) ! nxt) cx)) = im_deferredNodes (cx_impl cx)
    \<and> loop_work gn (nxt + 1) A' (dispatchJob env (im_inlineReady (cx_impl cx) ! nxt) cx) s' < loop_work gn nxt A cx s"
proof -
  let ?i = "im_inlineReady (cx_impl cx) ! nxt"
  let ?cx = "dispatchJob env ?i cx"
  let ?R = "mset (map Dispatch (drop (nxt + 1) (im_inlineReady (cx_impl cx))))" and ?B = "mset (map Body A)"
  have L: "sim gn cx s" "\<not> cx_draining cx" "flight_ok A cx" "\<forall>i\<in>set A. dg_deferred (fst gn) i"
    "\<forall>i<dg_n (fst gn). dg_deferred (fst gn) i \<longrightarrow> i \<in> set (im_deferredNodes (cx_impl cx))"
    using assms(2) by (simp_all add: loop_inv_def)
  have M: "mset (map Dispatch (drop nxt (im_inlineReady (cx_impl cx)))) + ?B = add_mset (Dispatch ?i) (?R + ?B)"
    using assms(3) by (simp flip: Cons_nth_drop_Suc)
  then have reach: "reach (start (fst gn)) (step (fst gn)) (s, add_mset (Dispatch ?i) (?R + ?B))"
    using assms(2) by (simp add: loop_inv_def)
  have "dispatched_to gn ?i A cx s (?R + ?B) ?cx"
    using dispatchJob_sim [OF L(1) assms(1) L(2) _ L(3)] loop_tasks [OF assms(1,2)] assms(3) by blast
  then obtain s' new A' where D:
    "run_steps gn (s, add_mset (Dispatch ?i) (?R + ?B))
      (s', mset (map Dispatch new) + (if A' = A then {#} else {#Body ?i#}) + (?R + ?B))"
    "A' = A \<or> A' = ?i # A \<and> dg_deferred (fst gn) ?i" "sim gn ?cx s'" "\<not> cx_draining ?cx"
    "im_inlineReady (cx_impl ?cx) = im_inlineReady (cx_impl cx) @ new" "flight_ok A' ?cx"
    "im_deferredNodes (cx_impl ?cx) = im_deferredNodes (cx_impl cx)"
    unfolding dispatched_to_def by blast
  have E: "mset (map Dispatch new) + (if A' = A then {#} else {#Body ?i#}) + (?R + ?B) =
      mset (map Dispatch (drop (nxt + 1) (im_inlineReady (cx_impl ?cx)))) + mset (map Body A')"
    using assms(3) D(2) by (auto simp: D(5))
  note R = run_steps_reach [OF D(1) [unfolded E] assms(1) reach]
  have "loop_inv gn (nxt + 1) A' ?cx s'"
    unfolding loop_inv_def D(7) using R D(2-4,6) L(4,5) assms(3) D(5) by (intro conjI) auto
  moreover have "loop_work gn (nxt + 1) A' ?cx s' < loop_work gn nxt A cx s"
    unfolding loop_work_def M using R by blast
  ultimately show ?thesis using D(7) by blast
qed

lemma run_ready_returns:
  assumes "dag_ok (fst gn)" "loop_inv gn nxt A cx s"
  shows "\<exists>nxt' cx' A' s'. run_ready env nxt cx = Some (nxt', cx') \<and> loop_inv gn nxt' A' cx' s'
    \<and> nxt' = length (im_inlineReady (cx_impl cx')) \<and> im_deferredNodes (cx_impl cx') = im_deferredNodes (cx_impl cx)"
  using assms(2)
proof (induction "loop_work gn nxt A cx s" arbitrary: nxt A cx s rule: less_induct)
  case less
  show ?case
  proof (cases "nxt < length (im_inlineReady (cx_impl cx))")
    case True
    let ?cx = "dispatchJob env (im_inlineReady (cx_impl cx) ! nxt) cx"
    from loop_dispatch [OF assms(1) less.prems True] obtain A' s' where
      D: "loop_inv gn (nxt + 1) A' ?cx s'" "im_deferredNodes (cx_impl ?cx) = im_deferredNodes (cx_impl cx)"
      "loop_work gn (nxt + 1) A' ?cx s' < loop_work gn nxt A cx s"
      by blast
    have "run_ready env nxt cx = run_ready env (nxt + 1) ?cx" by (subst run_ready.simps) (simp add: True)
    then show ?thesis using less.hyps [OF D(3,1)] D(2) by simp
  next
    case False
    then show ?thesis using less.prems by (subst run_ready.simps) (auto simp: loop_inv_def)
  qed
qed

lemma finish_delivered_loop:
  assumes "dag_ok (fst gn)" "loop_inv gn nxt A cx s" "nxt = length (im_inlineReady (cx_impl cx))"
  shows "\<exists>A' s'. loop_inv gn nxt A' (finish_delivered cx) s' \<and> set A' \<subseteq> set A"
proof -
  let ?F = "im_deferredFinished (cx_impl cx)"
  let ?c = "upd_impl (\<lambda>impl. impl\<lparr>im_deferredFinished := []\<rparr>) cx"
  have L: "sim gn cx s" "\<not> cx_draining cx" "flight_ok A cx" "\<forall>i\<in>set A. dg_deferred (fst gn) i"
    "\<forall>i<dg_n (fst gn). dg_deferred (fst gn) i \<longrightarrow> i \<in> set (im_deferredNodes (cx_impl cx))"
    and R: "reach (start (fst gn)) (step (fst gn)) (s, mset (map Body A) + {#})"
    using assms(2,3) by (simp_all add: loop_inv_def)
  have c: "sim gn ?c s" "\<not> cx_draining ?c" "slots_ok A ?F (slots_of ?c) (cx_inFlight ?c)"
    "im_inlineReady (cx_impl ?c) = im_inlineReady (cx_impl cx)"
    "im_deferredFinished (cx_impl ?c) = []" "im_deferredNodes (cx_impl ?c) = im_deferredNodes (cx_impl cx)"
    using L(1-3) by (simp_all add: flight_ok_def slots_of_def) (simp_all add: upd_impl_def)
  have "set A \<subseteq> {..<dg_n (fst gn)}" using loop_tasks(2) [OF assms(1,2)] by auto
  from finish_list_sim [OF c(1) assms(1) c(2) this c(3), of "{#}"]
  obtain s' new A' where S: "steps gn (s, mset (map Body A) + {#}) (s', mset (map Dispatch new) + mset (map Body A') + {#})"
    "sim gn (finish_delivered cx) s'" "\<not> cx_draining (finish_delivered cx)"
    "im_inlineReady (cx_impl (finish_delivered cx)) = im_inlineReady (cx_impl cx) @ new"
    "slots_ok A' [] (slots_of (finish_delivered cx)) (cx_inFlight (finish_delivered cx))"
    "set A' \<subseteq> set A" "im_deferredFinished (cx_impl (finish_delivered cx)) = []"
    "im_deferredNodes (cx_impl (finish_delivered cx)) = im_deferredNodes (cx_impl cx)"
    unfolding finish_delivered_def c(4-6) by blast
  have "mset (map Dispatch (drop nxt (im_inlineReady (cx_impl (finish_delivered cx)))))
      + mset (map Body A') = mset (map Dispatch new) + mset (map Body A') + {#}"
    by (simp add: S(4) assms(3))
  then have "loop_inv gn nxt A' (finish_delivered cx) s'"
    unfolding loop_inv_def flight_ok_def S(7,8)
    using steps_reach [OF S(1) R] S(2-6) L(4,5) assms(3) by (intro conjI) auto
  then show ?thesis using S(6) by blast
qed

text \<open>At a stop of the loop nothing is in flight.\<close>

lemma loop_end:
  assumes "dag_ok (fst gn)" "loop_inv gn nxt A cx s" "nxt = length (im_inlineReady (cx_impl cx))"
    "im_deferredNodes (cx_impl cx) = [] \<or> cx_inFlight cx = 0"
  shows "reach (start (fst gn)) (step (fst gn)) (s, {#}) \<and> sim gn cx s \<and> flight_ok [] cx"
proof -
  have L: "flight_ok A cx" "\<forall>i\<in>set A. dg_deferred (fst gn) i" "sim gn cx s"
    "\<forall>i<dg_n (fst gn). dg_deferred (fst gn) i \<longrightarrow> i \<in> set (im_deferredNodes (cx_impl cx))"
    and R: "reach (start (fst gn)) (step (fst gn)) (s, mset (map Body A))"
    using assms(2,3) by (simp_all add: loop_inv_def)
  have "A = []"
    using assms(4)
  proof
    assume "im_deferredNodes (cx_impl cx) = []"
    then show ?thesis using L(2,4) loop_tasks(2) [OF assms(1,2)] by (cases A) auto
  next
    assume "cx_inFlight cx = 0"
    moreover have "card (set A) \<le> card {..<dg_n (fst gn)}"
      using loop_tasks(2) [OF assms(1,2)] by (intro card_mono) auto
    then have "length A \<le> 65536"
      using L(1) assms(1) by (simp add: flight_ok_def slots_ok_def dag_ok_def distinct_card)
    ultimately have "length A = 0"
      using L(1) by (simp add: flight_ok_def slots_ok_def word_unat_eq_iff unat_of_nat)
    then show ?thesis by simp
  qed
  then show ?thesis using R L(1,3) by simp
qed

lemma inline_loop_sim:
  assumes "dag_ok (fst gn)" "loop_inv gn nxt A cx s" "inline_loop env script nxt cx = Some cx'"
  shows "\<exists>s'. reach (start (fst gn)) (step (fst gn)) (s', {#}) \<and> sim gn cx' s' \<and> flight_ok [] cx'"
  using assms(2,3)
proof (induction script arbitrary: nxt A cx s)
  case Nil
  from run_ready_returns [OF assms(1) Nil.prems(1)] obtain n1 cx1 A1 s1 where
    r: "run_ready env nxt cx = Some (n1, cx1)" "loop_inv gn n1 A1 cx1 s1" "n1 = length (im_inlineReady (cx_impl cx1))"
    by blast
  have "cx1 = cx'" "im_deferredNodes (cx_impl cx1) = [] \<or> cx_inFlight cx1 = 0"
    using Nil.prems(2) r(1) by (subst (asm) inline_loop.simps, auto split: if_splits)+
  then show ?case using loop_end [OF assms(1) r(2,3)] by blast
next
  case (Cons acts rest_script)
  from run_ready_returns [OF assms(1) Cons.prems(1)] obtain n1 cx1 A1 s1 where
    r: "run_ready env nxt cx = Some (n1, cx1)" "loop_inv gn n1 A1 cx1 s1" "n1 = length (im_inlineReady (cx_impl cx1))"
    by blast
  let ?cx2 = "fold (\<lambda>(i, a). act_deliver i a) acts cx1"
  show ?case
  proof (cases "im_deferredNodes (cx_impl cx1) = [] \<or> im_deferredFinished (cx_impl cx1) = [] \<and> cx_inFlight cx1 = 0")
    case True
    then have "cx1 = cx'" using Cons.prems(2) r(1) by (subst (asm) inline_loop.simps) auto
    then show ?thesis using loop_end [OF assms(1) r(2,3)] True by blast
  next
    case False
    then have eq: "inline_loop env rest_script n1 (finish_delivered ?cx2) = Some cx'"
      using Cons.prems(2) r(1) by (subst (asm) inline_loop.simps) (auto split: if_splits)
    have a: "sim gn ?cx2 s1 \<and> flight_ok A1 ?cx2 \<and> cx_draining ?cx2 = cx_draining cx1
      \<and> im_inlineReady (cx_impl ?cx2) = im_inlineReady (cx_impl cx1)
      \<and> im_deferredNodes (cx_impl ?cx2) = im_deferredNodes (cx_impl cx1)"
      using r(2) by (intro acts_ok) (simp_all add: loop_inv_def)
    then have "loop_inv gn n1 A1 ?cx2 s1" using r(2) by (simp add: loop_inv_def)
    then obtain A' s' where "loop_inv gn n1 A' (finish_delivered ?cx2) s'"
      using finish_delivered_loop [OF assms(1)] a r(3) by metis
    then show ?thesis using Cons.IH eq by blast
  qed
qed

lemma inline_loop_returns:
  assumes "dag_ok (fst gn)" "loop_inv gn nxt A cx s" "im_deferredNodes (cx_impl cx) = []"
  shows "\<exists>cx'. inline_loop env script nxt cx = Some cx'"
proof -
  from run_ready_returns [OF assms(1,2)] obtain n1 cx1 A1 s1 where
    "run_ready env nxt cx = Some (n1, cx1)" "im_deferredNodes (cx_impl cx1) = im_deferredNodes (cx_impl cx)"
    by blast
  then show ?thesis using assms(3) by (subst inline_loop.simps) auto
qed

end
