(* ===== verification/Lifecycle.thy ===== *)
theory Lifecycle
  imports InlineSim
begin

text \<open>
  The life of a pipeline on the calling thread: built with the builder API, run, edited, run again.
  \<open>runnable\<close> is what every run relies on; building and running both keep it. A run of
  \<^verbatim>\<open>Scheduler.runImpl\<close> is shown to be a finished run of the threaded model, from which its
  guarantees follow.
\<close>

section \<open>What a run relies on\<close>

definition deferred_ok :: "'f Impl \<Rightarrow> bool" where
  "deferred_ok impl \<longleftrightarrow> im_deferredFinished impl = [] \<and> (\<forall>i<length (im_nodes impl).
     (isDeferred (im_nodes impl ! i) \<longrightarrow> i \<in> set (im_deferredNodes impl)) \<and>
     (\<forall>sl. nd_deferred (im_nodes impl ! i) = Some sl \<longrightarrow> \<not> open_slot sl))"

definition roots_ok :: "'f Impl \<Rightarrow> bool" where
  "roots_ok impl \<longleftrightarrow> (im_rootsCached impl \<longrightarrow> im_roots impl = computeRoots impl \<and> acyclic (edges (dag_of impl)))"

definition runnable :: "'f Impl \<Rightarrow> bool" where
  "runnable impl \<longleftrightarrow> graph_ok impl \<and> deferred_ok impl \<and> roots_ok impl"

lemma flag_bits:
  "(f OR kFlagOptional) AND kFlagDeferred = f AND kFlagDeferred"
  "(f AND NOT kFlagOptional) AND kFlagDeferred = f AND kFlagDeferred"
  "(f OR kFlagOptional) AND kFlagOnDemand = f AND kFlagOnDemand"
  "(f AND NOT kFlagOptional) AND kFlagOnDemand = f AND kFlagOnDemand"
  by (simp_all add: kFlagOptional_def kFlagDeferred_def kFlagOnDemand_def and.assoc bit.conj_disj_distrib2)

text \<open>Edits of a node that keep its place in the graph, its kind and its slot.\<close>

definition mild :: "('f Node \<Rightarrow> 'f Node) \<Rightarrow> bool" where
  "mild g \<longleftrightarrow> (\<forall>nd. nd_successors (g nd) = nd_successors nd \<and> nd_predecessorCount (g nd) = nd_predecessorCount nd
     \<and> isDeferred (g nd) = isDeferred nd \<and> isOnDemand (g nd) = isOnDemand nd \<and> nd_deferred (g nd) = nd_deferred nd)"

lemma computeRoots_cong:
  assumes "length (im_nodes b) = length (im_nodes a)"
    "\<And>i. i < length (im_nodes a) \<Longrightarrow> nd_predecessorCount (im_nodes b ! i) = nd_predecessorCount (im_nodes a ! i)
       \<and> isOnDemand (im_nodes b ! i) = isOnDemand (im_nodes a ! i)"
  shows "computeRoots b = computeRoots a"
  unfolding computeRoots_def using assms by (intro filter_cong) auto

lemma edges_cong:
  assumes "length (im_nodes b) = length (im_nodes a)" "im_succPool b = im_succPool a"
    "\<And>i. i < length (im_nodes a) \<Longrightarrow> nd_successors (im_nodes b ! i) = nd_successors (im_nodes a ! i)"
  shows "edges (dag_of b) = edges (dag_of a)"
  using assms by (auto simp: edges_def succs_def)

lemma roots_ok_frame:
  assumes "roots_ok a" "length (im_nodes b) = length (im_nodes a)" "im_succPool b = im_succPool a"
    "im_roots b = im_roots a" "im_rootsCached b \<longrightarrow> im_rootsCached a"
    "\<And>i. i < length (im_nodes a) \<Longrightarrow> nd_successors (im_nodes b ! i) = nd_successors (im_nodes a ! i)
       \<and> nd_predecessorCount (im_nodes b ! i) = nd_predecessorCount (im_nodes a ! i)
       \<and> isOnDemand (im_nodes b ! i) = isOnDemand (im_nodes a ! i)"
  shows "roots_ok b"
  using assms computeRoots_cong [of b a] edges_cong [of b a] by (auto simp: roots_ok_def)

lemma deferred_ok_frame:
  assumes "deferred_ok a" "length (im_nodes b) = length (im_nodes a)"
    "set (im_deferredNodes a) \<subseteq> set (im_deferredNodes b)" "im_deferredFinished b = im_deferredFinished a"
    "\<And>i. i < length (im_nodes a) \<Longrightarrow> isDeferred (im_nodes b ! i) = isDeferred (im_nodes a ! i)
       \<and> nd_deferred (im_nodes b ! i) = nd_deferred (im_nodes a ! i)"
  shows "deferred_ok b"
  using assms by (auto simp: deferred_ok_def)

definition aux_ok :: "'f Impl \<Rightarrow> bool" where
  "aux_ok impl \<longleftrightarrow> deferred_ok impl \<and> roots_ok impl"

lemma aux_upd_node:
  assumes "aux_ok a" "mild g"
  shows "aux_ok (upd_node i g a)"
proof -
  have "deferred_ok (upd_node i g a)"
    by (rule deferred_ok_frame [of a]) (use assms in \<open>simp_all add: aux_ok_def mild_def\<close>)
  moreover have "roots_ok (upd_node i g a)"
    by (rule roots_ok_frame [of a]) (use assms in \<open>simp_all add: aux_ok_def mild_def\<close>, simp_all add: upd_node_def)
  ultimately show ?thesis by (simp add: aux_ok_def)
qed

lemma aux_job_update: "job_update j g a = Inr b \<Longrightarrow> mild g \<Longrightarrow> aux_ok a \<Longrightarrow> aux_ok b"
  by (auto simp: job_update_def aux_upd_node split: if_splits)

lemma aux_uncached:
  assumes "deferred_ok b" "\<not> im_rootsCached b"
  shows "aux_ok b"
  using assms by (simp add: aux_ok_def roots_ok_def)

lemma aux_addNode:
  assumes "addNode fn pre fl a = Inr (i, b)" "aux_ok a" "fl AND kFlagDeferred = 0"
  shows "aux_ok b"
proof (rule aux_uncached)
  obtain nd where b: "im_nodes b = im_nodes a @ [nd]" "nd_deferred nd = None" "nd_flags nd = fl"
    "im_deferredNodes b = im_deferredNodes a" "im_deferredFinished b = im_deferredFinished a" "\<not> im_rootsCached b"
    using assms(1) by (auto simp: addNode_def Let_def Node_new_def split: option.splits)
  then show "\<not> im_rootsCached b" by simp
  show "deferred_ok b"
    using b assms(2,3) by (auto simp: deferred_ok_def aux_ok_def nth_append isDeferred_def)
qed

lemma aux_edge:
  assumes "aux_ok a" "from < length (im_nodes a)" "to < length (im_nodes a)"
  shows "aux_ok (fst (add_edge from to a))"
proof (rule aux_uncached)
  show "\<not> im_rootsCached (fst (add_edge from to a))"
    by (auto simp: add_edge_def Let_def upd_node_def split: sum.splits prod.splits)
  show "deferred_ok (fst (add_edge from to a))"
    by (rule deferred_ok_frame [of a])
       (use assms in \<open>auto simp: aux_ok_def add_edge_def Let_def upd_node_def nth_update_iff isDeferred_def
          split: sum.splits prod.splits\<close>)
qed

lemma aux_succeed: "Job_succeed j o' a = (b, e) \<Longrightarrow> aux_ok a \<Longrightarrow> aux_ok b"
  using aux_edge [of a "unat (jb_idx o')" "unat (jb_idx j)"] by (auto simp: Job_succeed_def split: if_splits)

lemma aux_precede: "Job_precede j o' a = (b, e) \<Longrightarrow> aux_ok a \<Longrightarrow> aux_ok b"
  using aux_edge [of a "unat (jb_idx j)" "unat (jb_idx o')"] by (auto simp: Job_precede_def split: if_splits)

lemma aux_for_jobs:
  assumes "\<And>j a b e. g j a = (b, e) \<Longrightarrow> aux_ok a \<Longrightarrow> aux_ok b"
  shows "for_jobs g js a = (b, e) \<Longrightarrow> aux_ok a \<Longrightarrow> aux_ok b"
  by (induction js arbitrary: a) (auto split: prod.splits option.splits dest: assms)

lemma aux_handle:
  assumes "job_handle r = Inr (j, b)" "\<And>i b. r = Inr (i, b) \<Longrightarrow> aux_ok b"
  shows "aux_ok b"
  using assms by (cases r) (auto simp: job_handle_def)

lemma aux_emplace:
  "job_handle (addNode fn pre fl a) = Inr (j, b) \<Longrightarrow> aux_ok a \<Longrightarrow> fl AND kFlagDeferred = 0 \<Longrightarrow> aux_ok b"
  by (erule aux_handle) (rule aux_addNode)

lemma aux_deferred:
  assumes "emplaceDeferred fn a = Inr (j, b)" "aux_ok a"
  shows "aux_ok b"
proof (rule aux_uncached)
  let ?n = "length (im_nodes a)"
  obtain nd where b: "im_nodes b = im_nodes a @ [nd]" "nd_deferred nd = Some (DeferredSlot_new fn)"
    "im_deferredNodes b = im_deferredNodes a @ [?n]" "im_deferredFinished b = im_deferredFinished a" "\<not> im_rootsCached b"
    using assms(1) by (auto simp: emplaceDeferred_def job_handle_def addNode_def Let_def upd_node_def
        split: option.splits sum.splits)
  then show "\<not> im_rootsCached b" by simp
  show "deferred_ok b"
    using b assms(2)
    by (auto simp: deferred_ok_def aux_ok_def nth_append open_slot_def DeferredSlot_new_def less_Suc_eq)
qed

lemma aux_cancel: "Job_cancel j a = Inr b \<Longrightarrow> aux_ok a \<Longrightarrow> aux_ok b"
  unfolding aux_ok_def
  by (auto simp: Job_cancel_def request_stop_def split: if_splits
      intro: deferred_ok_frame [of a] roots_ok_frame [of a])

lemma mild_fields:
  "mild (\<lambda>nd. nd\<lparr>nd_nameStr := n\<rparr>)" "mild (\<lambda>nd. nd\<lparr>nd_timeout := d\<rparr>)" "mild (\<lambda>nd. nd\<lparr>nd_stackBytes := b\<rparr>)"
  "mild (\<lambda>nd. nd\<lparr>nd_coreAffinity := c\<rparr>)" "mild (\<lambda>nd. nd\<lparr>nd_priority := p\<rparr>)" "mild (\<lambda>nd. nd\<lparr>nd_statusText := x\<rparr>)"
  "mild (\<lambda>nd. nd\<lparr>nd_flags := if opt then nd_flags nd OR kFlagOptional else nd_flags nd AND NOT kFlagOptional\<rparr>)"
  by (auto simp: mild_def isDeferred_def isOnDemand_def flag_bits)

lemma aux_step: "build_step a b \<Longrightarrow> aux_ok a \<Longrightarrow> aux_ok b"
proof (induction rule: build_step.induct)
  case (deferred fn s j t)
  then show ?case by (rule aux_deferred)
next
  case (cancel j s t)
  then show ?case by (rule aux_cancel)
qed (auto simp: build_group_defs build_field_defs emplacePlain_def emplaceCancellable_def
    addOnDemand_def addOnDemandCancellable_def kFlagOnDemand_def kFlagCancellable_def kFlagDeferred_def
    intro: aux_job_update mild_fields aux_succeed aux_precede
    dest!: aux_emplace elim!: aux_for_jobs [rotated 1])

lemma runnable_build: "build_step a b \<Longrightarrow> runnable a \<Longrightarrow> runnable b"
  using aux_step graph_ok_step by (auto simp: runnable_def aux_ok_def)

lemma runnable_new: "runnable (Impl_new a)"
  using graph_ok_new by (simp add: runnable_def deferred_ok_def roots_ok_def Impl_new_def)

section \<open>The start of a run\<close>

lemma renew_sel [simp]:
  "length (im_nodes (renewStopState i a)) = length (im_nodes a)"
  "im_succPool (renewStopState i a) = im_succPool a" "im_rootsCached (renewStopState i a) = im_rootsCached a"
  "im_roots (renewStopState i a) = im_roots a" "im_deferredNodes (renewStopState i a) = im_deferredNodes a"
  "im_completedCount (renewStopState i a) = im_completedCount a" "im_skipped (renewStopState i a) = im_skipped a"
  "im_deferredFinished (renewStopState i a) = im_deferredFinished a"
  "k < length (im_nodes a) \<Longrightarrow>
     im_nodes (renewStopState i a) ! k = (im_nodes a ! k)\<lparr>nd_stopSource := nd_stopSource (im_nodes (renewStopState i a) ! k)\<rparr>"
  by (auto simp: renewStopState_def Let_def upd_node_def nth_update_iff)

text \<open>What initialising the nodes does to each node, and what it leaves alone.\<close>

definition node_init :: "'f Node \<Rightarrow> 'f Node" where
  "node_init nd = nd\<lparr>nd_unmetDeps := nd_predecessorCount nd,
     nd_jobStatus := if nd_predecessorCount nd = 0 \<and> \<not> isOnDemand nd then kReady else kPending\<rparr>"

definition init_frame :: "nat set \<Rightarrow> 'f Impl \<Rightarrow> 'f Impl \<Rightarrow> bool" where
  "init_frame K a b \<longleftrightarrow> length (im_nodes b) = length (im_nodes a) \<and> im_succPool b = im_succPool a
     \<and> im_rootsCached b = im_rootsCached a \<and> im_roots b = im_roots a \<and> im_deferredNodes b = im_deferredNodes a
     \<and> im_completedCount b = im_completedCount a \<and> im_skipped b = im_skipped a
     \<and> im_deferredFinished b = im_deferredFinished a
     \<and> length (im_stops a) \<le> length (im_stops b)
     \<and> (\<forall>k<length (im_nodes a). im_nodes b ! k =
          (if k \<in> K then node_init (im_nodes a ! k) else im_nodes a ! k)\<lparr>nd_stopSource := nd_stopSource (im_nodes b ! k)\<rparr>
        \<and> (nd_stopSource (im_nodes a ! k) < length (im_stops a) \<longrightarrow> nd_stopSource (im_nodes b ! k) < length (im_stops b)))"

lemma isOnDemand_stop [simp]: "isOnDemand (nd\<lparr>nd_stopSource := k\<rparr>) = isOnDemand nd"
  by (simp add: isOnDemand_def)

lemma init_node_nth:
  assumes "k < length (im_nodes b)"
  shows "im_nodes (init_node i b) ! k =
    (if i = k then node_init (im_nodes b ! k) else im_nodes b ! k)\<lparr>nd_stopSource := nd_stopSource (im_nodes (init_node i b) ! k)\<rparr>"
    "nd_stopSource (im_nodes b ! k) < length (im_stops b) \<Longrightarrow>
      nd_stopSource (im_nodes (init_node i b) ! k) < length (im_stops (init_node i b))"
    "length (im_stops b) \<le> length (im_stops (init_node i b))"
  using assms
  by (auto simp: init_node_def renewStopState_def Let_def upd_node_def nth_update_iff node_init_def)

lemma init_node_sel [simp]:
  "length (im_nodes (init_node i b)) = length (im_nodes b)" "im_succPool (init_node i b) = im_succPool b"
  "im_rootsCached (init_node i b) = im_rootsCached b" "im_roots (init_node i b) = im_roots b"
  "im_deferredNodes (init_node i b) = im_deferredNodes b" "im_completedCount (init_node i b) = im_completedCount b"
  "im_skipped (init_node i b) = im_skipped b" "im_deferredFinished (init_node i b) = im_deferredFinished b"
  by (simp_all add: init_node_def) (simp_all add: upd_node_def)

lemma node_init_stop: "node_init (nd\<lparr>nd_stopSource := q\<rparr>) = (node_init nd)\<lparr>nd_stopSource := q\<rparr>"
  by (simp add: node_init_def)

lemma init_node_frame:
  assumes "init_frame K a b" "i < length (im_nodes a)" "i \<notin> K"
  shows "init_frame (insert i K) a (init_node i b)"
proof -
  have len: "length (im_nodes b) = length (im_nodes a)" using assms(1) by (simp add: init_frame_def)
  have "im_nodes (init_node i b) ! k = (if k \<in> insert i K then node_init (im_nodes a ! k) else im_nodes a ! k)
      \<lparr>nd_stopSource := nd_stopSource (im_nodes (init_node i b) ! k)\<rparr>"
    and "nd_stopSource (im_nodes a ! k) < length (im_stops a) \<longrightarrow>
      nd_stopSource (im_nodes (init_node i b) ! k) < length (im_stops (init_node i b))"
    if k: "k < length (im_nodes a)" for k
  proof -
    have b: "im_nodes b ! k = (if k \<in> K then node_init (im_nodes a ! k) else im_nodes a ! k)
        \<lparr>nd_stopSource := nd_stopSource (im_nodes b ! k)\<rparr>"
      "nd_stopSource (im_nodes a ! k) < length (im_stops a) \<longrightarrow> nd_stopSource (im_nodes b ! k) < length (im_stops b)"
      using assms(1) k unfolding init_frame_def by blast+
    show "im_nodes (init_node i b) ! k = (if k \<in> insert i K then node_init (im_nodes a ! k) else im_nodes a ! k)
        \<lparr>nd_stopSource := nd_stopSource (im_nodes (init_node i b) ! k)\<rparr>"
    proof -
      obtain q where q: "im_nodes b ! k = (if k \<in> K then node_init (im_nodes a ! k) else im_nodes a ! k)\<lparr>nd_stopSource := q\<rparr>"
        using b(1) by blast
      obtain p where p: "im_nodes (init_node i b) ! k =
          (if i = k then node_init (im_nodes b ! k) else im_nodes b ! k)\<lparr>nd_stopSource := p\<rparr>"
        using init_node_nth(1) [of k b i] k len by metis
      have "im_nodes (init_node i b) ! k =
          (if k \<in> insert i K then node_init (im_nodes a ! k) else im_nodes a ! k)\<lparr>nd_stopSource := p\<rparr>"
        unfolding p q using assms(3) by (auto simp: node_init_stop)
      then show ?thesis by simp
    qed
    show "nd_stopSource (im_nodes a ! k) < length (im_stops a) \<longrightarrow>
      nd_stopSource (im_nodes (init_node i b) ! k) < length (im_stops (init_node i b))"
      using b(2) init_node_nth(2) [of k b i] k len by auto
  qed
  moreover have "length (im_stops a) \<le> length (im_stops (init_node i b))"
    using assms(1) init_node_nth(3) [of i b i] assms(2) len by (simp add: init_frame_def)
  ultimately show ?thesis
    using assms(1) unfolding init_frame_def by simp
qed

lemma init_nodes_frame: "init_frame {..<length (im_nodes a)} a (init_nodes a)"
proof -
  have "init_frame {..<m} a (fold init_node [0..<m] a)" if "m \<le> length (im_nodes a)" for m
    using that
  proof (induction m)
    case (Suc m)
    then show ?case using init_node_frame [of "{..<m}" a _ m] by (simp add: lessThan_Suc)
  qed (simp add: init_frame_def)
  then show ?thesis by (simp add: init_nodes_def)
qed

lemma init_nodes_nth:
  assumes "k < length (im_nodes a)"
  shows "im_nodes (init_nodes a) ! k =
    (node_init (im_nodes a ! k))\<lparr>nd_stopSource := nd_stopSource (im_nodes (init_nodes a) ! k)\<rparr>"
proof -
  have "\<forall>k<length (im_nodes a). im_nodes (init_nodes a) ! k =
      (if k \<in> {..<length (im_nodes a)} then node_init (im_nodes a ! k) else im_nodes a ! k)
        \<lparr>nd_stopSource := nd_stopSource (im_nodes (init_nodes a) ! k)\<rparr>"
    using init_nodes_frame [of a] unfolding init_frame_def by blast
  from this [rule_format, OF assms] show ?thesis using assms by (simp only: lessThan_iff if_True)
qed

lemma init_fields:
  assumes "k < length (im_nodes a)"
  shows "nd_unmetDeps (im_nodes (init_nodes a) ! k) = nd_predecessorCount (im_nodes a ! k)"
    "nd_jobStatus (im_nodes (init_nodes a) ! k) =
       (if nd_predecessorCount (im_nodes a ! k) = 0 \<and> \<not> isOnDemand (im_nodes a ! k) then kReady else kPending)"
    "nd_successors (im_nodes (init_nodes a) ! k) = nd_successors (im_nodes a ! k)"
    "nd_predecessorCount (im_nodes (init_nodes a) ! k) = nd_predecessorCount (im_nodes a ! k)"
    "nd_flags (im_nodes (init_nodes a) ! k) = nd_flags (im_nodes a ! k)"
    "nd_nameStr (im_nodes (init_nodes a) ! k) = nd_nameStr (im_nodes a ! k)"
    "nd_deferred (im_nodes (init_nodes a) ! k) = nd_deferred (im_nodes a ! k)"
proof -
  obtain q where "im_nodes (init_nodes a) ! k = (node_init (im_nodes a ! k))\<lparr>nd_stopSource := q\<rparr>"
    using init_nodes_nth [OF assms] by blast
  then show "nd_unmetDeps (im_nodes (init_nodes a) ! k) = nd_predecessorCount (im_nodes a ! k)"
    "nd_jobStatus (im_nodes (init_nodes a) ! k) =
       (if nd_predecessorCount (im_nodes a ! k) = 0 \<and> \<not> isOnDemand (im_nodes a ! k) then kReady else kPending)"
    "nd_successors (im_nodes (init_nodes a) ! k) = nd_successors (im_nodes a ! k)"
    "nd_predecessorCount (im_nodes (init_nodes a) ! k) = nd_predecessorCount (im_nodes a ! k)"
    "nd_flags (im_nodes (init_nodes a) ! k) = nd_flags (im_nodes a ! k)"
    "nd_nameStr (im_nodes (init_nodes a) ! k) = nd_nameStr (im_nodes a ! k)"
    "nd_deferred (im_nodes (init_nodes a) ! k) = nd_deferred (im_nodes a ! k)"
    by (simp_all add: node_init_def)
qed

lemma init_sel [simp]:
  "length (im_nodes (init_nodes a)) = length (im_nodes a)" "im_succPool (init_nodes a) = im_succPool a"
  "im_rootsCached (init_nodes a) = im_rootsCached a" "im_roots (init_nodes a) = im_roots a"
  "im_deferredNodes (init_nodes a) = im_deferredNodes a" "im_completedCount (init_nodes a) = im_completedCount a"
  "im_skipped (init_nodes a) = im_skipped a" "im_deferredFinished (init_nodes a) = im_deferredFinished a"
  using init_nodes_frame [of a] by (simp_all add: init_frame_def)

lemma dag_of_cong:
  assumes "length (im_nodes b) = length (im_nodes a)" "im_succPool b = im_succPool a"
    "\<And>i. i < length (im_nodes a) \<Longrightarrow> nd_successors (im_nodes b ! i) = nd_successors (im_nodes a ! i)
       \<and> nd_predecessorCount (im_nodes b ! i) = nd_predecessorCount (im_nodes a ! i)
       \<and> nd_flags (im_nodes b ! i) = nd_flags (im_nodes a ! i)"
  shows "dag_of b = dag_of a"
  using assms by (auto simp: dag_of_def Let_def succs_def isOptional_def isDeferred_def isOnDemand_def fun_eq_iff)

text \<open>The context a run starts with, seen from the threaded model: every root is submitted.\<close>

lemma reach_roots: "reach (start g) (step g) (initial g, mset (map Dispatch (roots g)))"
proof -
  have go: "reach (start g) (step g) (initial g, mset (map Dispatch ds) + {#Root_loop rs#}) \<Longrightarrow>
      reach (start g) (step g) (initial g, mset (map Dispatch (ds @ rs)))" for ds rs
  proof (induction rs arbitrary: ds)
    case Nil
    then have "reach (start g) (step g) (initial g, {#Root_loop []#} + mset (map Dispatch ds))" by (simp only: add.commute)
    from advance [OF this exec_task.root_end] show ?case by simp
  next
    case (Cons r rs)
    then have "reach (start g) (step g) (initial g, {#Root_loop (r # rs)#} + mset (map Dispatch ds))"
      by (simp only: add.commute)
    then have "reach (start g) (step g) (initial g, mset (map Dispatch (ds @ [r])) + {#Root_loop rs#})"
      by (rule advance [OF _ exec_task.root_accept]) (simp_all add: initial_def)
    from Cons.IH [OF this] show ?case by simp
  qed
  have "reach (start g) (step g) (initial g, mset (map Dispatch []) + {#Root_loop (roots g)#})"
    by (rule reach.reach_init) (simp add: start_def)
  from go [OF this] show ?thesis by simp
qed


lemma edges_dag_of: "edges (dag_of impl) = edge_rel (length (im_nodes impl)) (succs impl)"
  by (auto simp: edges_def)

lemma roots_dag_of: "roots (dag_of impl) = computeRoots impl"
  unfolding roots_def computeRoots_def by (intro filter_cong) auto

lemma dag_ok_dag_of:
  assumes "graph_ok impl" "acyclic (edges (dag_of impl))"
  shows "dag_ok (dag_of impl)"
  using assms graph_ok_size [OF assms(1)] unfolding dag_ok_def
  by (auto simp: graph_ok_def indeg_def)

text \<open>A state is runnable if it has the graph of a runnable one and no deferred job is in flight.\<close>

lemma map_eq_nth: "map f xs = map f ys \<Longrightarrow> i < length xs \<Longrightarrow> f (xs ! i) = f (ys ! i)"
  by (metis length_map nth_map)

lemma static_eqD:
  fixes a b :: "'f Impl"
  assumes "static b = static a"
  shows "length (im_nodes b) = length (im_nodes a)" "im_succPool b = im_succPool a"
    "length (im_stops b) = length (im_stops a)" "im_rootsCached b = im_rootsCached a" "im_roots b = im_roots a"
    "im_deferredNodes b = im_deferredNodes a" "dag_of b = dag_of a"
    "i < length (im_nodes a) \<Longrightarrow> nd_successors (im_nodes b ! i) = nd_successors (im_nodes a ! i)"
    "i < length (im_nodes a) \<Longrightarrow> nd_stopSource (im_nodes b ! i) = nd_stopSource (im_nodes a ! i)"
    "i < length (im_nodes a) \<Longrightarrow> nd_nameStr (im_nodes b ! i) = nd_nameStr (im_nodes a ! i)"
proof -
  show len: "length (im_nodes b) = length (im_nodes a)"
    using assms by (auto simp: static_def dest: arg_cong [where f = dg_n])
  show "im_succPool b = im_succPool a" "length (im_stops b) = length (im_stops a)"
    "im_rootsCached b = im_rootsCached a" "im_roots b = im_roots a" "im_deferredNodes b = im_deferredNodes a"
    "dag_of b = dag_of a"
    using assms by (simp_all add: static_def fixed_def)
  show "nd_successors (im_nodes b ! i) = nd_successors (im_nodes a ! i)"
    "nd_stopSource (im_nodes b ! i) = nd_stopSource (im_nodes a ! i)"
    "nd_nameStr (im_nodes b ! i) = nd_nameStr (im_nodes a ! i)" if "i < length (im_nodes a)"
    using assms that len map_eq_nth [of nd_successors "im_nodes b" "im_nodes a" i]
      map_eq_nth [of nd_stopSource "im_nodes b" "im_nodes a" i] map_eq_nth [of nd_nameStr "im_nodes b" "im_nodes a" i]
    by (simp_all add: static_def fixed_def)
qed

lemma dag_of_eqD:
  assumes "dag_of b = dag_of a" "i < length (im_nodes a)"
  shows "nd_predecessorCount (im_nodes b ! i) = nd_predecessorCount (im_nodes a ! i)"
    "isDeferred (im_nodes b ! i) = isDeferred (im_nodes a ! i)"
    "isOnDemand (im_nodes b ! i) = isOnDemand (im_nodes a ! i)"
proof -
  have "length (im_nodes b) = length (im_nodes a)" using assms(1) by (auto dest: arg_cong [where f = dg_n])
  then have i: "i < length (im_nodes b)" using assms(2) by simp
  show "nd_predecessorCount (im_nodes b ! i) = nd_predecessorCount (im_nodes a ! i)"
    "isDeferred (im_nodes b ! i) = isDeferred (im_nodes a ! i)"
    "isOnDemand (im_nodes b ! i) = isOnDemand (im_nodes a ! i)"
    using dag_of_sel(4-6) [OF i] dag_of_sel(4-6) [OF assms(2)] assms(1) by simp_all
qed

lemma runnable_static:
  fixes a b :: "'f Impl"
  assumes "runnable a" "static b = static a" "im_deferredFinished b = []"
    "\<And>i sl. i < length (im_nodes b) \<Longrightarrow> nd_deferred (im_nodes b ! i) = Some sl \<Longrightarrow> \<not> open_slot sl"
  shows "runnable b"
proof -
  note S = static_eqD [OF assms(2)] and D = dag_of_eqD [OF static_eqD(7) [OF assms(2)]]
  have "graph_ok b"
    by (rule graph_ok_frame [of a]) (use assms(1) S D in \<open>simp_all add: runnable_def\<close>)
  moreover have "deferred_ok b"
    using assms(1,3,4) S(1,6) D by (auto simp: runnable_def deferred_ok_def)
  moreover have "roots_ok b"
    by (rule roots_ok_frame [of a]) (use assms(1) S D in \<open>simp_all add: runnable_def\<close>)
  ultimately show ?thesis by (simp add: runnable_def)
qed


lemma graph_ok_init:
  assumes "graph_ok a"
  shows "graph_ok (init_nodes a)"
proof -
  let ?b = "init_nodes a"
  have n: "map nd_successors (im_nodes ?b) = map nd_successors (im_nodes a)"
    by (rule nth_equalityI) (simp_all add: init_fields)
  then have "graph_arena ?b = graph_arena a" by (simp add: graph_arena_def)
  moreover have s: "succs ?b i = succs a i" if "i < length (im_nodes a)" for i
    using that
    by (simp add: succs_def init_fields)
  moreover have "indeg (length (im_nodes a)) (succs ?b) j = indeg (length (im_nodes a)) (succs a) j" for j
    unfolding indeg_def by (intro sum.cong) (simp_all add: s)
  moreover have "nd_stopSource (im_nodes ?b ! k) < length (im_stops ?b)" if k: "k < length (im_nodes a)" for k
  proof -
    have "nd_stopSource (im_nodes a ! k) < length (im_stops a)" using assms k by (simp add: graph_ok_def)
    then show ?thesis using init_nodes_frame [of a] k unfolding init_frame_def by blast
  qed
  then have "\<forall>nd\<in>set (im_nodes ?b). nd_stopSource nd < length (im_stops ?b)"
    by (auto simp: in_set_conv_nth)
  ultimately show ?thesis using assms by (simp add: graph_ok_def init_fields)
qed

lemma runnable_init:
  assumes "runnable a"
  shows "runnable (init_nodes a)"
proof -
  have d: "deferred_ok (init_nodes a)" if "im_deferredFinished (init_nodes a) = []"
    using assms that by (simp add: runnable_def deferred_ok_def init_fields isDeferred_def)
  have "roots_ok (init_nodes a)"
    by (rule roots_ok_frame [of a]) (use assms in \<open>simp_all add: runnable_def init_fields isOnDemand_def\<close>)
  then show ?thesis using graph_ok_init [of a] d assms by (simp add: runnable_def deferred_ok_def)
qed


text \<open>The state in which the loop of a run starts.\<close>

lemma start_ctx_sel:
  fixes impl :: "'f Impl" and env and je
  defines "b \<equiv> cx_impl (start_ctx env impl je)"
  shows "static b = static (init_nodes impl)" "im_inlineReady b = im_roots impl" "im_skipped b = im_skipped impl"
    "im_completedCount b = im_completedCount impl" "im_nodes b = im_nodes (init_nodes impl)"
    "im_deferredFinished b = (if im_deferredNodes impl = [] then im_deferredFinished impl else [])"
proof -
  let ?a = "(init_nodes impl)\<lparr>im_deferredFinished := if im_deferredNodes impl = [] then im_deferredFinished impl else [],
      im_failedJobName := []\<rparr>"
  let ?c = "if en_stopped env then stop_nodes [0..<length (im_nodes impl)] ?a else ?a"
  have b: "b = ?c\<lparr>im_inlineReady := im_roots ?c\<rparr>" by (simp add: b_def start_ctx_def Let_def)
  have c: "same_frame ?a ?c" by simp
  have "static b = static ?a" using b by simp
  then show "static b = static (init_nodes impl)" by simp
  show "im_inlineReady b = im_roots impl" "im_skipped b = im_skipped impl"
    "im_completedCount b = im_completedCount impl" "im_nodes b = im_nodes (init_nodes impl)"
    "im_deferredFinished b = (if im_deferredNodes impl = [] then im_deferredFinished impl else [])"
    using same_frameD [OF c] by (simp_all add: b)
qed

lemma start_ctx_inv:
  fixes impl :: "'f Impl" and env and je
  assumes "runnable impl" "im_rootsCached impl" "im_completedCount impl = 0" "im_skipped impl = []"
  defines "cx \<equiv> start_ctx env impl je"
  shows "loop_inv (static (cx_impl cx)) 0 [] cx (initial (dag_of impl))" "dag_ok (dag_of impl)"
    "fst (static (cx_impl cx)) = dag_of impl" "runnable (cx_impl cx)"
proof -
  note S = start_ctx_sel [of env impl je, folded cx_def]
  have d: "dag_of (init_nodes impl) = dag_of impl"
    by (rule dag_of_cong) (simp_all add: init_fields)
  then show g: "fst (static (cx_impl cx)) = dag_of impl" by (simp add: S(1)) (simp add: static_def)
  have roots: "im_roots impl = roots (dag_of impl)" and ac: "acyclic (edges (dag_of impl))"
    using assms(1,2) by (auto simp: runnable_def roots_ok_def roots_dag_of)
  then show "dag_ok (dag_of impl)" using dag_ok_dag_of [of impl] assms(1) by (simp add: runnable_def)
  have ok: "\<And>i sl. i < length (im_nodes impl) \<Longrightarrow> nd_deferred (im_nodes impl ! i) = Some sl \<Longrightarrow> \<not> open_slot sl"
    "im_deferredFinished impl = []"
    "\<And>i. i < length (im_nodes impl) \<Longrightarrow> isDeferred (im_nodes impl ! i) \<Longrightarrow> i \<in> set (im_deferredNodes impl)"
    using assms(1) by (auto simp: runnable_def deferred_ok_def)
  show "runnable (cx_impl cx)"
    by (rule runnable_static [OF runnable_init [OF assms(1)] S(1)]) (use ok in \<open>auto simp: S(5,6) init_fields\<close>)
  have "sim (static (cx_impl cx)) cx (initial (dag_of impl))"
    unfolding sim_def g using assms(3,4)
    by (auto simp: S(3-5) cx_node_def init_fields initial_def) (simp_all add: cx_def start_ctx_def Let_def)
  moreover have "flight_ok [] cx"
    using ok by (auto simp: flight_ok_def slots_ok_def slots_of_def S(5,6) init_fields)
       (simp_all add: cx_def start_ctx_def Let_def)
  moreover have "im_deferredNodes (cx_impl cx) = im_deferredNodes impl"
    using static_eqD(6) [OF S(1)] by simp
  moreover have "\<not> cx_draining cx" by (simp add: cx_def start_ctx_def Let_def)
  ultimately show "loop_inv (static (cx_impl cx)) 0 [] cx (initial (dag_of impl))"
    using ok(3) reach_roots [of "dag_of impl"] unfolding loop_inv_def g by (simp add: S(2) roots)
qed


section \<open>The end of a run\<close>

definition release_slot :: "nat \<Rightarrow> 'f Ctx \<Rightarrow> 'f Ctx" where
  "release_slot i = upd_impl (upd_node i (\<lambda>nd. nd\<lparr>nd_deferred := map_option releaseRegistrations (nd_deferred nd)\<rparr>))"

definition all_closed :: "'f Ctx \<Rightarrow> bool" where
  "all_closed cx \<longleftrightarrow> (\<forall>nd\<in>set (im_nodes (cx_impl cx)). \<forall>sl. nd_deferred nd = Some sl \<longrightarrow> \<not> open_slot sl)"

lemma release_slot_frame:
  "static (cx_impl (release_slot i cx)) = static (cx_impl cx)"
  "im_deferredFinished (cx_impl (release_slot i cx)) = im_deferredFinished (cx_impl cx)"
  "cx_fatal (release_slot i cx) = cx_fatal cx"
  by (simp_all add: release_slot_def upd_impl_def)

lemma release_slot_sim: "sim gn cx s \<Longrightarrow> sim gn (release_slot i cx) s"
  using sim_length [of gn cx s] by (auto simp: sim_def release_slot_def upd_impl_def cx_node_def)

lemma release_slot_closed: "all_closed cx \<Longrightarrow> all_closed (release_slot i cx)"
  by (auto simp: all_closed_def release_slot_def upd_impl_def upd_node_def open_slot_def releaseRegistrations_def
      all_set_conv_all_nth nth_update_iff)

lemma release_all_fold: "release_all cx = fold release_slot (im_deferredNodes (cx_impl cx)) cx"
  by (simp add: release_all_def release_slot_def [abs_def])

lemma release_all_frame:
  "static (cx_impl (release_all cx)) = static (cx_impl cx)"
  "im_deferredFinished (cx_impl (release_all cx)) = im_deferredFinished (cx_impl cx)"
  "cx_fatal (release_all cx) = cx_fatal cx"
  "sim gn cx s \<Longrightarrow> sim gn (release_all cx) s" "all_closed cx \<Longrightarrow> all_closed (release_all cx)"
proof -
  have "static (cx_impl (fold release_slot js cx)) = static (cx_impl cx)
    \<and> im_deferredFinished (cx_impl (fold release_slot js cx)) = im_deferredFinished (cx_impl cx)
    \<and> cx_fatal (fold release_slot js cx) = cx_fatal cx" for js
    by (induction js arbitrary: cx) (simp_all add: release_slot_frame)
  then show "static (cx_impl (release_all cx)) = static (cx_impl cx)"
    "im_deferredFinished (cx_impl (release_all cx)) = im_deferredFinished (cx_impl cx)"
    "cx_fatal (release_all cx) = cx_fatal cx"
    by (simp_all add: release_all_fold)
  have "sim gn cx s \<longrightarrow> sim gn (fold release_slot js cx) s" "all_closed cx \<longrightarrow> all_closed (fold release_slot js cx)" for js
    by (induction js arbitrary: cx) (simp_all add: release_slot_sim release_slot_closed)
  then show "sim gn cx s \<Longrightarrow> sim gn (release_all cx) s" "all_closed cx \<Longrightarrow> all_closed (release_all cx)"
    by (simp_all add: release_all_fold)
qed


lemma run_reset_sel [simp]:
  "im_nodes (run_reset a) = im_nodes a" "im_succPool (run_reset a) = im_succPool a"
  "im_stops (run_reset a) = im_stops a" "im_rootsCached (run_reset a) = im_rootsCached a"
  "im_roots (run_reset a) = im_roots a" "im_deferredNodes (run_reset a) = im_deferredNodes a"
  "im_deferredFinished (run_reset a) = im_deferredFinished a" "im_completedCount (run_reset a) = 0"
  "im_skipped (run_reset a) = []"
  by (simp_all add: run_reset_def Let_def joinOrphans_def)

lemma run_reset_static [simp]: "static (run_reset a) = static a"
  by (rule static_cong) simp_all

lemma runnable_reset: "runnable a \<Longrightarrow> runnable (run_reset a)"
  by (rule runnable_static [of a]) (auto simp: runnable_def deferred_ok_def)

lemma dag_of_static: "static b = static a \<Longrightarrow> dag_of b = dag_of a"
  by (simp add: static_def)

lemma cache_roots_cases:
  assumes "runnable a"
  shows "if acyclic (edges (dag_of a))
    then \<exists>b. cache_roots a = Some (Inr b) \<and> runnable b \<and> im_rootsCached b \<and> dag_of b = dag_of a
      \<and> im_nodes b = im_nodes a \<and> im_completedCount b = im_completedCount a \<and> im_skipped b = im_skipped a
      \<and> im_deferredNodes b = im_deferredNodes a
    else cache_roots a = Some (Inl kCyclicDependency)"
proof -
  let ?b = "a\<lparr>im_roots := computeRoots a, im_rootsCached := True\<rparr>"
  have v: "validate a = Some (if acyclic (edges (dag_of a)) then Inr () else Inl kCyclicDependency)"
    using validate_correct [OF graph_ok_view, of a] assms by (simp add: runnable_def edges_dag_of)
  have d: "dag_of ?b = dag_of a" by (rule dag_of_cong) simp_all
  have "runnable ?b" if "acyclic (edges (dag_of a))"
  proof -
    have "graph_ok ?b" by (rule graph_ok_frame [of a]) (use assms in \<open>simp_all add: runnable_def\<close>)
    moreover have "computeRoots ?b = computeRoots a" by (rule computeRoots_cong) simp_all
    ultimately show ?thesis using assms that d by (simp add: runnable_def roots_ok_def deferred_ok_def)
  qed
  moreover have "acyclic (edges (dag_of a))" if "im_rootsCached a"
    using assms that by (simp add: runnable_def roots_ok_def)
  ultimately show ?thesis using v d assms by (auto simp: cache_roots_def)
qed

text \<open>A run that gets past validation: the finished run of the threaded model behind it.\<close>

lemma runImpl_sim:
  fixes impl :: "'f Impl"
  assumes "runnable impl" "runImpl env script je impl = Some (res, Some cx, impl')"
  shows "\<exists>s. reach (start (dag_of impl)) (step (dag_of impl)) (s, {#}) \<and> dag_ok (dag_of impl)
    \<and> (\<forall>i<length (im_nodes impl). nd_jobStatus (im_nodes impl' ! i) = sc_status s i)
    \<and> cx_trace cx = sc_trace s \<and> im_completedCount impl' = sc_completed s \<and> res = run_result s
    \<and> (\<forall>i e. sc_fatal s = Some (i, e) \<longrightarrow> i < length (im_nodes impl) \<and> im_failedJobName impl' = nd_nameStr (im_nodes impl ! i))"
    "runnable impl'" "\<not> im_running impl'" "static impl' = static (cx_impl cx)"
proof -
  have ne: "im_nodes impl \<noteq> []" "\<not> im_running impl" using assms(2) by (auto simp: runImpl_def split: if_splits)
  have d: "dag_of (run_reset impl) = dag_of impl" by (rule dag_of_static) simp
  obtain a cx0 where a: "cache_roots (run_reset impl) = Some (Inr a)"
    and loop: "inline_loop env script 0 (start_ctx env a je) = Some cx0"
    and out: "cx = release_all cx0" "impl' = (cx_impl cx)\<lparr>im_running := False\<rparr>"
      "res = (case cx_fatal cx of None \<Rightarrow> Inr () | Some e \<Rightarrow> Inl e)"
    using assms(2) ne by (auto simp: runImpl_def Let_def split: option.splits sum.splits)
  note C = cache_roots_cases [OF runnable_reset [OF assms(1)], unfolded a d]
  have R: "runnable a" "im_rootsCached a" "dag_of a = dag_of impl" "im_nodes a = im_nodes impl"
    "im_completedCount a = 0" "im_skipped a = []"
    using C by (auto split: if_splits)
  let ?cx = "start_ctx env a je" and ?gn = "static (cx_impl (start_ctx env a je))"
  note B = start_ctx_inv(1,3,4) [OF R(1,2,5,6), of env je, unfolded R(3)] and D = start_ctx_inv(2) [OF R(1,2,5,6), unfolded R(3)]
  have ok: "dag_ok (fst ?gn)" unfolding B(2) by (rule D)
  from inline_loop_sim [OF ok B(1) loop] obtain s where
    s: "reach (start (dag_of impl)) (step (dag_of impl)) (s, {#})" "sim ?gn cx0 s" "flight_ok [] cx0"
    unfolding B(2) by blast
  have sim: "sim ?gn cx s" using s(2) out(1) by (simp add: release_all_frame)
  show st: "static impl' = static (cx_impl cx)" by (simp add: out(2))
  then have "static impl' = ?gn" using sim by (simp add: sim_def)
  moreover have "all_closed cx"
    unfolding out(1) by (rule release_all_frame)
      (use s(3) in \<open>auto simp: flight_ok_def slots_ok_def slots_of_def all_closed_def all_set_conv_all_nth\<close>)
  moreover have "im_deferredFinished impl' = []"
    using s(3) by (simp add: out(1,2) release_all_frame flight_ok_def slots_ok_def)
  ultimately show "runnable impl'"
    by (intro runnable_static [OF B(3)]) (auto simp: all_closed_def out(2))
  show "\<not> im_running impl'" by (simp add: out(2))
  have nm: "fst (snd ?gn) ! i = nd_nameStr (im_nodes impl ! i)" if "i < length (im_nodes impl)" for i
    using that start_ctx_sel(1) [of env a je] by (simp add: static_def R(4) init_fields)
  have "res = run_result s"
    using sim by (auto simp: sim_def out(3) run_result_def split: option.splits)
  then show "\<exists>s. reach (start (dag_of impl)) (step (dag_of impl)) (s, {#}) \<and> dag_ok (dag_of impl)
    \<and> (\<forall>i<length (im_nodes impl). nd_jobStatus (im_nodes impl' ! i) = sc_status s i)
    \<and> cx_trace cx = sc_trace s \<and> im_completedCount impl' = sc_completed s \<and> res = run_result s
    \<and> (\<forall>i e. sc_fatal s = Some (i, e) \<longrightarrow> i < length (im_nodes impl) \<and> im_failedJobName impl' = nd_nameStr (im_nodes impl ! i))"
    using s(1) D sim nm unfolding sim_def B(2)
    by (intro exI [of _ s]) (auto simp: out(2) cx_node_def)
qed


lemma runImpl_returns:
  assumes "runnable impl" "im_deferredNodes impl = []" "im_nodes impl \<noteq> []" "\<not> im_running impl"
    "acyclic (edges (dag_of impl))"
  shows "\<exists>res cx impl'. runImpl env script je impl = Some (res, Some cx, impl')"
proof -
  have d: "dag_of (run_reset impl) = dag_of impl" by (rule dag_of_static) simp
  obtain a where a: "cache_roots (run_reset impl) = Some (Inr a)" "runnable a" "im_rootsCached a"
    "im_completedCount a = 0" "im_skipped a = []" "im_deferredNodes a = []"
    using cache_roots_cases [OF runnable_reset [OF assms(1)], unfolded d] assms(2,5) by auto
  note B = start_ctx_inv(1,3) [OF a(2-5), of env je] and D = start_ctx_inv(2) [OF a(2-5)]
  have "im_deferredNodes (cx_impl (start_ctx env a je)) = []"
    using static_eqD(6) [OF start_ctx_sel(1) [of env a je]] a(6) by simp
  then obtain cx where "inline_loop env script 0 (start_ctx env a je) = Some cx"
    using inline_loop_returns [OF _ B(1)] D unfolding B(2) by blast
  then show ?thesis using assms(3,4) a(1) by (simp add: runImpl_def Let_def)
qed

lemma runImpl_rejects:
  assumes "runnable impl" "im_nodes impl \<noteq> []" "\<not> im_running impl" "\<not> acyclic (edges (dag_of impl))"
  shows "runImpl env script je impl = Some (Inl kCyclicDependency, None, (run_reset impl)\<lparr>im_running := False\<rparr>)"
proof -
  have d: "dag_of (run_reset impl) = dag_of impl" by (rule dag_of_static) simp
  have "cache_roots (run_reset impl) = Some (Inl kCyclicDependency)"
    using cache_roots_cases [OF runnable_reset [OF assms(1)], unfolded d] assms(4) by simp
  then show ?thesis using assms(2,3) by (simp add: runImpl_def)
qed

section \<open>A pipeline's life\<close>

inductive life_step :: "'f Impl \<Rightarrow> 'f Impl \<Rightarrow> bool" where
  life_build: "build_step a b \<Longrightarrow> life_step a b"
| life_run: "runImpl env script je a = Some (res, c, b) \<Longrightarrow> life_step a b"

definition lived :: "'f Impl \<Rightarrow> bool" where
  "lived = reach (\<lambda>s. \<exists>a. s = Impl_new a) life_step"

lemma add_edge_running [simp]: "im_running (fst (add_edge i j a)) = im_running a"
  by (auto simp: add_edge_def Let_def upd_node_def split: sum.splits prod.splits)

lemma job_update_running: "job_update j g a = Inr b \<Longrightarrow> im_running b = im_running a"
  by (auto simp: job_update_def upd_node_def split: if_splits)

lemma edge_ops_running:
  "Job_succeed j o' a = (b, e) \<Longrightarrow> im_running b = im_running a"
  "Job_precede j o' a = (b, e) \<Longrightarrow> im_running b = im_running a"
  by (auto simp: Job_succeed_def Job_precede_def split: if_splits dest!: arg_cong [where f = fst])

lemma for_jobs_running:
  assumes "\<And>j a b e. g j a = (b, e) \<Longrightarrow> im_running b = im_running a"
  shows "for_jobs g js a = (b, e) \<Longrightarrow> im_running b = im_running a"
  by (induction js arbitrary: a) (auto split: prod.splits option.splits dest: assms)

lemma emplace_running: "job_handle (addNode fn pre fl a) = Inr (j, b) \<Longrightarrow> im_running b = im_running a"
  by (auto simp: job_handle_def addNode_def Let_def split: option.splits)

lemma build_step_running: "build_step a b \<Longrightarrow> im_running b = im_running a"
proof (induction rule: build_step.induct)
  case (deferred fn s j t)
  then show ?case
    by (auto simp: emplaceDeferred_def job_handle_def addNode_def Let_def upd_node_def split: option.splits sum.splits)
next
  case (cancel j s t)
  then show ?case by (auto simp: Job_cancel_def request_stop_def split: if_splits)
qed (auto simp: build_group_defs build_field_defs emplacePlain_def emplaceCancellable_def
    addOnDemand_def addOnDemandCancellable_def
    dest: job_update_running emplace_running edge_ops_running elim!: for_jobs_running [rotated 1])

definition resting :: "'f Impl \<Rightarrow> bool" where
  "resting impl \<longleftrightarrow> runnable impl \<and> \<not> im_running impl"

lemma runImpl_resting:
  assumes "resting impl" "runImpl env script je impl = Some (res, c, impl')"
  shows "resting impl'"
proof (cases c)
  case None
  have r: "runnable ((run_reset impl)\<lparr>im_running := False\<rparr>)"
    by (rule runnable_static [of impl]) (use assms(1) in \<open>auto simp: resting_def runnable_def deferred_ok_def\<close>)
  show ?thesis
    using assms None r
    by (auto simp: resting_def runImpl_def Let_def split: if_splits option.splits sum.splits)
next
  case (Some cx)
  then show ?thesis using runImpl_sim(2,3) assms unfolding resting_def by blast
qed

interpretation life: inductive_invariant "\<lambda>s. \<exists>a. s = Impl_new a" life_step resting
proof
  fix s :: "'f Impl"
  assume "\<exists>a. s = Impl_new a"
  then show "resting s" by (auto simp: resting_def runnable_new) (simp add: Impl_new_def)
next
  fix s t :: "'f Impl"
  assume "resting s" "life_step s t"
  from this(2) show "resting t"
  proof cases
    case life_build
    then show ?thesis using \<open>resting s\<close> runnable_build build_step_running by (auto simp: resting_def)
  next
    case life_run
    then show ?thesis using runImpl_resting \<open>resting s\<close> by blast
  qed
qed

lemma lived_resting: "lived impl \<Longrightarrow> resting impl"
  unfolding lived_def by (rule life.reach_inv)

lemma lived_built: "built impl \<Longrightarrow> lived impl"
  unfolding built_def lived_def
  by (induction rule: reach.induct) (auto intro: reach.intros life_step.intros)


section \<open>A small run\<close>

text \<open>Jobs that return a fixed result at once.\<close>

definition returns :: "unit expected \<Rightarrow> Invocation" where
  "returns r = \<lparr>iv_before = [], iv_arming = [], iv_during = [], iv_result = r, iv_text = [],
     iv_armed = False, iv_early = False, iv_expires = False, iv_finished = True\<rparr>"

definition plain_env :: "(nat \<Rightarrow> unit expected) \<Rightarrow> Env" where
  "plain_env f = \<lparr>en_stopped = False, en_invoke = (\<lambda>i. returns (f i)),
     en_start = (\<lambda>_. \<lparr>se_before = [], se_service = False, se_armed = False, se_early = False,
       se_arming = [], se_actions = [], se_text = []\<rparr>)\<rparr>"

lemma example_chain_eq:
  "example_chain =
     \<lparr>im_anchor = 0,
      im_nodes =
        [(Node_new 0)\<lparr>nd_nameStr := ''job_0'', nd_fn := IgnoringStop 0,
           nd_successors := \<lparr>ps_size = 1, ps_poolIdx = 0, ps_inline = [1, 0, 0, 0]\<rparr>\<rparr>,
         (Node_new 1)\<lparr>nd_nameStr := ''job_1'', nd_fn := IgnoringStop 1, nd_predecessorCount := 1\<rparr>],
      im_roots = [], im_skipped = [], im_inlineReady = [], im_succPool = [], im_running = False,
      im_rootsCached = False, im_deadlines = False, im_armedExecutor = False, im_armedObserver = False,
      im_failedJobName = [], im_completedCount = 0, im_pendingOrphans = 0, im_deferredNodes = [],
      im_deferredFinished = [], im_deferredOrphans = 0, im_stops = [False, False]\<rparr>"
proof -
  have "to_string 0 = ''0''" "to_string (Suc 0) = ''1''" by code_simp+
  then show ?thesis by (simp add: example_defs) (simp add: numeral_eq_Suc)
qed

lemma example_chain_success:
  "map_option (\<lambda>(res, c, impl). (res, map_option cx_trace c, map nd_jobStatus (im_nodes impl)))
     (runImpl (plain_env (\<lambda>_. Inr ())) [] [] example_chain) =
   Some (Inr (), Some [Started 0, Finished 0 kDone 1, Dependencies 0 [1], Started 1, Finished 1 kDone 2],
     [kDone, kDone])"
  unfolding example_chain_eq by code_simp

lemma example_chain_failure:
  "map_option (\<lambda>(res, c, impl). (res, map_option cx_trace c, map nd_jobStatus (im_nodes impl), im_failedJobName impl))
     (runImpl (plain_env (\<lambda>_. Inl kJobFailed)) [] [] example_chain) =
   Some (Inl kJobFailed, Some [Started 0, Finished 0 kFailed 1, Dependencies 0 [1], Failure 0 kJobFailed [],
     Finished 1 kSkipped 2], [kFailed, kSkipped], ''job_0'')"
  unfolding example_chain_eq by code_simp


section \<open>Properties\<close>

text \<open>
  C11. A run on the calling thread is a run of the threaded model: for every pipeline that was built,
  edited and run any number of times before, and for all behaviour of the jobs, of stop requests, of
  deadlines and of deferred completions, the job states, the observer calls, the completed count,
  the name of the first failure and the result it ends with are those of a finished threaded run of
  the same graph.
\<close>

theorem inline_run_is_a_threaded_run:
  assumes "lived impl" "runImpl env script je impl = Some (res, Some cx, impl')"
  shows "\<exists>s. reach (start (dag_of impl)) (step (dag_of impl)) (s, {#})
    \<and> (\<forall>i<length (im_nodes impl). nd_jobStatus (im_nodes impl' ! i) = sc_status s i)
    \<and> cx_trace cx = sc_trace s \<and> im_completedCount impl' = sc_completed s \<and> res = run_result s
    \<and> (\<forall>i e. sc_fatal s = Some (i, e) \<longrightarrow> im_failedJobName impl' = nd_nameStr (im_nodes impl ! i))"
  using runImpl_sim(1) [OF _ assms(2)] lived_resting [OF assms(1)] unfolding resting_def by blast

theorem inline_run_is_a_threaded_run_witness:
  "\<exists>s. reach (start (dag_of example_chain)) (step (dag_of example_chain)) (s, {#})
    \<and> run_result s = Inr () \<and> sc_status s 1 = kDone"
proof -
  obtain cx impl' where r: "runImpl (plain_env (\<lambda>_. Inr ())) [] [] example_chain = Some (Inr (), Some cx, impl')"
    "map nd_jobStatus (im_nodes impl') = [kDone, kDone]"
    using example_chain_success by auto
  then have "nd_jobStatus (im_nodes impl' ! 1) = kDone" by (cases "im_nodes impl'"; cases "tl (im_nodes impl')") auto
  then show ?thesis
    using inline_run_is_a_threaded_run [OF lived_built [OF built_example_chain] r(1)] example_chain_shape(1)
    by auto
qed



text \<open>
  C13. A run of a pipeline with required, scheduled jobs only that returns success has run every job to
  completion exactly once, each after all the jobs it depends on had finished.
\<close>

theorem successful_run_runs_every_job:
  assumes "lived impl" "runImpl env script je impl = Some (Inr (), Some cx, impl')"
    "\<forall>i<length (im_nodes impl). \<not> isOptional (im_nodes impl ! i) \<and> \<not> isOnDemand (im_nodes impl ! i)"
    "j < length (im_nodes impl)"
  shows "nd_jobStatus (im_nodes impl' ! j) = kDone \<and>
    (\<exists>pre post. cx_trace cx = pre @ Started j # post \<and> Started j \<notin> set pre \<and> Started j \<notin> set post
      \<and> (\<forall>i<length (im_nodes impl). j \<in> set (succs impl i) \<longrightarrow> (\<exists>d. Finished i kDone d \<in> set pre)))"
proof -
  let ?g = "dag_of impl"
  obtain s where s: "reach (start ?g) (step ?g) (s, {#})" "dag_ok ?g"
    "nd_jobStatus (im_nodes impl' ! j) = sc_status s j" "cx_trace cx = sc_trace s" "run_result s = Inr ()"
    using runImpl_sim(1) [OF _ assms(2)] lived_resting [OF assms(1)] assms(4) unfolding resting_def by metis
  note inv = reach_sched_inv [OF s(2,1)]
  have n: "i < dg_n ?g \<Longrightarrow> \<not> dg_optional ?g i \<and> \<not> dg_onDemand ?g i" for i using assms(3) by simp
  have "sc_fatal s = None" using s(5) by (auto simp: run_result_def split: option.splits)
  then have pass: "terminal (sc_status s i) \<Longrightarrow> pass ?g i (sc_status s i)" for i
    using sched_invD(11) [OF inv, of i] by (auto simp: inv_fatal_def)
  have "terminal (sc_status s j)"
    using end_not_pending [OF inv, of j] pending_behind_on_demand [OF inv, of j] n assms(4) by auto
  then have j: "sc_status s j = kDone"
    using pass [of j] n [of j] assms(4) by (auto simp: pass_def)
  then have c: "count_list (sc_trace s) (Started j) = 1"
    using sched_invD(12) [OF inv, of j] reach_ran [OF s(2,1), of j] count_list_0_iff [of "sc_trace s" "Started j"]
    by (simp add: inv_start_def inv_ran_def)
  then obtain pre post where t: "sc_trace s = pre @ Started j # post"
    by (metis count_notin split_list zero_neq_one)
  then have "Started j \<notin> set pre" "Started j \<notin> set post" using c by (simp_all add: count_list_0_iff)
  moreover have "\<exists>d. Finished i kDone d \<in> set pre" if "i < length (im_nodes impl)" "j \<in> set (succs impl i)" for i
  proof -
    have "ordered ?g (pre @ Started j # post)"
      using sched_invD(6) [OF inv] t by (simp add: inv_order_def)
    then have "passed ?g pre i" using that unfolding ordered_def by (metis dag_of_sel(1,2))
    then show ?thesis using n [of i] that(1) by (auto simp: passed_def pass_def)
  qed
  ultimately show ?thesis using j t s(3,4) by auto
qed

theorem successful_run_runs_every_job_witness:
  "\<exists>cx impl'. runImpl (plain_env (\<lambda>_. Inr ())) [] [] example_chain = Some (Inr (), Some cx, impl')
    \<and> nd_jobStatus (im_nodes impl' ! 1) = kDone"
proof -
  obtain cx impl' where r: "runImpl (plain_env (\<lambda>_. Inr ())) [] [] example_chain = Some (Inr (), Some cx, impl')"
    using example_chain_success by auto
  have "\<forall>i<length (im_nodes example_chain). \<not> isOptional (im_nodes example_chain ! i) \<and> \<not> isOnDemand (im_nodes example_chain ! i)"
    by (auto simp: example_chain_eq isOptional_def isOnDemand_def Node_new_def less_Suc_eq)
  then show ?thesis
    using successful_run_runs_every_job [OF lived_built [OF built_example_chain] r, of 1] r example_chain_shape(1)
    by auto
qed

text \<open>
  A run that fails after validation reports a job that really ended with that error: the name in
  \<^verbatim>\<open>firstFailureName()\<close> is its name, and if it is a required job or was cancelled, every job that
  depends on it, directly or not, was skipped and never started.
\<close>

theorem failed_run_skips_dependents:
  assumes "lived impl" "runImpl env script je impl = Some (Inl e, Some cx, impl')"
  shows "\<exists>i<length (im_nodes impl). nd_jobStatus (im_nodes impl' ! i) = statusOf (Inl e)
    \<and> im_failedJobName impl' = nd_nameStr (im_nodes impl ! i)
    \<and> (\<forall>j. (i, j) \<in> {(i, j). i < length (im_nodes impl) \<and> j \<in> set (succs impl i)}\<^sup>+ \<longrightarrow>
         \<not> isOptional (im_nodes impl ! i) \<or> e = kCancelled \<longrightarrow>
         nd_jobStatus (im_nodes impl' ! j) = kSkipped \<and> Started j \<notin> set (cx_trace cx))"
proof -
  let ?g = "dag_of impl"
  obtain s where s: "reach (start ?g) (step ?g) (s, {#})" "dag_ok ?g"
    "\<forall>i<length (im_nodes impl). nd_jobStatus (im_nodes impl' ! i) = sc_status s i"
    "cx_trace cx = sc_trace s" "Inl e = run_result s"
    "\<forall>i e. sc_fatal s = Some (i, e) \<longrightarrow> i < length (im_nodes impl) \<and> im_failedJobName impl' = nd_nameStr (im_nodes impl ! i)"
    using runImpl_sim(1) [OF _ assms(2)] lived_resting [OF assms(1)] unfolding resting_def by blast
  note inv = reach_sched_inv [OF s(2,1)]
  obtain i where f: "sc_fatal s = Some (i, e)"
    using s(5) by (auto simp: run_result_def split: option.splits)
  have i: "i < dg_n ?g" "sc_status s i = statusOf (Inl e)"
    using sched_invD(11) [OF inv, of i] f by (auto simp: inv_fatal_def)
  have "sc_status s j = kSkipped \<and> Started j \<notin> set (sc_trace s) \<and> j < dg_n ?g"
    if "(i, j) \<in> (edges ?g)\<^sup>+" "\<not> isOptional (im_nodes impl ! i) \<or> e = kCancelled" for j
  proof -
    have "\<not> pass ?g i (sc_status s i)" using that(2) i by (auto simp: pass_def)
    then have "sc_status s j = kSkipped" using end_skips_descendants [OF inv that(1)] i by simp
    moreover have "j < dg_n ?g" using that(1) edges_range [OF s(2)] by (auto elim: tranclE)
    ultimately show ?thesis using sched_invD(12) [OF inv, of j] by (auto simp: inv_start_def)
  qed
  then have "\<forall>j. (i, j) \<in> (edges ?g)\<^sup>+ \<longrightarrow> \<not> isOptional (im_nodes impl ! i) \<or> e = kCancelled \<longrightarrow>
      nd_jobStatus (im_nodes impl' ! j) = kSkipped \<and> Started j \<notin> set (cx_trace cx)"
    using s(3) unfolding s(4) dag_of_sel(1) by metis
  moreover have "i < length (im_nodes impl)" "im_failedJobName impl' = nd_nameStr (im_nodes impl ! i)"
    using s(6) f by blast+
  moreover have "nd_jobStatus (im_nodes impl' ! i) = statusOf (Inl e)" using s(3) i by simp
  ultimately show ?thesis unfolding edges_dag_of by blast
qed

theorem failed_run_skips_dependents_witness:
  "\<exists>cx impl'. runImpl (plain_env (\<lambda>_. Inl kJobFailed)) [] [] example_chain = Some (Inl kJobFailed, Some cx, impl')
    \<and> (\<exists>i<2. im_failedJobName impl' = nd_nameStr (im_nodes example_chain ! i))"
proof -
  obtain cx impl' where r: "runImpl (plain_env (\<lambda>_. Inl kJobFailed)) [] [] example_chain = Some (Inl kJobFailed, Some cx, impl')"
    using example_chain_failure by auto
  show ?thesis
    using failed_run_skips_dependents [OF lived_built [OF built_example_chain] r] r example_chain_shape(1) by auto
qed

end
