(* ===== verification/OnDemand.thy ===== *)
theory OnDemand
  imports Lifecycle TaskBags
begin

text \<open>
  The public face of \<^verbatim>\<open>Pipeline\<close> around its runs (\<^verbatim>\<open>src/sub0pipeline.cpp\<close>, \<^verbatim>\<open>include/sub0pipeline/pipeline.hpp\<close>): moved-from objects, queries, \<^verbatim>\<open>runUntil\<close>,
  \<^verbatim>\<open>dumpText\<close>, and on-demand jobs with \<^verbatim>\<open>arm\<close> and \<^verbatim>\<open>trigger\<close>. A \<^verbatim>\<open>Pipeline\<close> object is its pointer \<^verbatim>\<open>impl_\<close>, which is null after a move. A
  handle belongs to the object when its anchor is the object's \<^verbatim>\<open>Impl\<close>.

  Triggered jobs are a step relation: callers of \<^verbatim>\<open>trigger\<close>, the armed executor's threads and threads that cancel or reap
  are interleaved in every order. A run does not overlap with triggers, as \<^verbatim>\<open>pipeline.hpp\<close> demands.
\<close>

section \<open>Pipeline objects\<close>

type_synonym 'f Pipeline = "'f Impl option"

text \<open>\<open>fresh\<close> is the address of the \<^verbatim>\<open>Impl\<close> that is made if there is none.\<close>

definition ensure :: "nat \<Rightarrow> 'f Pipeline \<Rightarrow> 'f Impl" where
  "ensure fresh p = (case p of None \<Rightarrow> Impl_new fresh | Some impl \<Rightarrow> impl)"

definition Pipeline_move :: "'f Pipeline \<Rightarrow> 'f Pipeline \<times> 'f Pipeline" where
  "Pipeline_move other = (other, None)"

definition Pipeline_assign :: "'f Pipeline \<Rightarrow> 'f Pipeline \<Rightarrow> 'f Pipeline \<times> 'f Pipeline" where
  "Pipeline_assign self other = (other, None)"

definition setDeadlineService :: "nat \<Rightarrow> bool \<Rightarrow> 'f Pipeline \<Rightarrow> 'f Pipeline" where
  "setDeadlineService fresh service p = Some ((ensure fresh p)\<lparr>im_deadlines := service\<rparr>)"

definition reserve :: "nat \<Rightarrow> nat \<Rightarrow> 'f Pipeline \<Rightarrow> 'f Pipeline" where
  "reserve fresh jobCount p = Some (ensure fresh p)"

definition Pipeline_size :: "'f Pipeline \<Rightarrow> nat" where
  "Pipeline_size p = (case p of None \<Rightarrow> 0 | Some impl \<Rightarrow> length (im_nodes impl))"

text \<open>\<^verbatim>\<open>j.pipeline() == this && j.valid() && j.idx_ < nodes_.size()\<close>\<close>

definition owns :: "'f Impl \<Rightarrow> Job \<Rightarrow> bool" where
  "owns impl j \<longleftrightarrow> jb_anchor j = Some (im_anchor impl) \<and> Job_valid j \<and> unat (jb_idx j) < length (im_nodes impl)"

definition Pipeline_status :: "'f Pipeline \<Rightarrow> Job \<Rightarrow> JobStatus" where
  "Pipeline_status p j =
     (case p of
        None \<Rightarrow> kPending
      | Some impl \<Rightarrow> if owns impl j then nd_jobStatus (im_nodes impl ! unat (jb_idx j)) else kPending)"

definition Pipeline_name :: "'f Pipeline \<Rightarrow> Job \<Rightarrow> string" where
  "Pipeline_name p j =
     (case p of None \<Rightarrow> [] | Some impl \<Rightarrow> if owns impl j then nd_nameStr (im_nodes impl ! unat (jb_idx j)) else [])"

definition Pipeline_name_of :: "'f Pipeline \<Rightarrow> u32 \<Rightarrow> string" where
  "Pipeline_name_of p i =
     (case p of None \<Rightarrow> [] | Some impl \<Rightarrow> if unat i < length (im_nodes impl) then nd_nameStr (im_nodes impl ! unat i) else [])"

text \<open>\<^verbatim>\<open>successors(id)\<close> as the targets its \<^verbatim>\<open>DependencyRange\<close> yields: identity and name.\<close>

definition Pipeline_successors :: "'f Pipeline \<Rightarrow> u32 \<Rightarrow> (u32 \<times> string) list" where
  "Pipeline_successors p i =
     (case p of
        None \<Rightarrow> []
      | Some impl \<Rightarrow>
          if unat i < length (im_nodes impl)
          then map (\<lambda>k. (word_of_nat k, Pipeline_name_of p (word_of_nat k))) (succs impl (unat i)) else [])"

definition firstFailureName :: "'f Pipeline \<Rightarrow> string" where
  "firstFailureName p = (case p of None \<Rightarrow> [] | Some impl \<Rightarrow> im_failedJobName impl)"

definition text_view :: "string option \<Rightarrow> string" where
  "text_view t = (case t of None \<Rightarrow> [] | Some x \<Rightarrow> x)"

definition Pipeline_statusText :: "'f Pipeline \<Rightarrow> u32 \<Rightarrow> string" where
  "Pipeline_statusText p i =
     (case p of
        None \<Rightarrow> []
      | Some impl \<Rightarrow> if unat i < length (im_nodes impl) then text_view (nd_statusText (im_nodes impl ! unat i)) else [])"

record JobSnapshot =
  sn_name :: string
  sn_status :: JobStatus
  sn_statusText :: string

definition snapshot :: "'f Pipeline \<Rightarrow> JobSnapshot list" where
  "snapshot p =
     (case p of
        None \<Rightarrow> []
      | Some impl \<Rightarrow>
          map (\<lambda>nd. \<lparr>sn_name = nd_nameStr nd, sn_status = nd_jobStatus nd, sn_statusText = text_view (nd_statusText nd)\<rparr>)
            (im_nodes impl))"

definition Pipeline_joinOrphans :: "'f Pipeline \<Rightarrow> 'f Pipeline \<times> bool" where
  "Pipeline_joinOrphans p =
     (case p of None \<Rightarrow> (None, False) | Some impl \<Rightarrow> (case joinOrphans impl of (impl', b) \<Rightarrow> (Some impl', b)))"

definition hasPendingOrphans :: "'f Pipeline \<Rightarrow> bool" where
  "hasPendingOrphans p = (case p of None \<Rightarrow> False | Some impl \<Rightarrow> hasOrphans impl)"

definition dump_line :: "'f Impl \<Rightarrow> nat \<Rightarrow> string" where
  "dump_line impl i =
     ''  ['' @ to_string i @ ''] '' @ nd_nameStr (im_nodes impl ! i) @ '' (predecessors: '' @
     to_string (unat (nd_predecessorCount (im_nodes impl ! i))) @ '') -> ('' @
     concat (map (\<lambda>k. '' '' @ nd_nameStr (im_nodes impl ! k)) (succs impl i)) @ '')'' @ [CHR 0x0A]"

definition dumpText :: "'f Pipeline \<Rightarrow> string" where
  "dumpText p =
     (case p of
        None \<Rightarrow> []
      | Some impl \<Rightarrow>
          ''Pipeline DAG ('' @ to_string (length (im_nodes impl)) @ '' jobs):'' @ [CHR 0x0A] @
          concat (map (dump_line impl) [0..<length (im_nodes impl)]))"

section \<open>Running again and again\<close>

text \<open>
  One round per time that the stop token is found unset: what happens during it. The result is the errors given to \<^verbatim>\<open>onError\<close>, if there is such a
  callback, and the state; \<open>None\<close> if a run never ends. \<open>jobError\<close> is the text that \<^verbatim>\<open>setCurrentJobError\<close> left on the thread.
\<close>

fun runUntil ::
  "bool \<Rightarrow> (Env \<times> (nat \<times> slot_action) list list) list \<Rightarrow> string \<Rightarrow> 'f Impl \<Rightarrow> (PipelineError list \<times> 'f Impl) option" where
  "runUntil onError [] jobError impl = Some ([], impl)"
| "runUntil onError ((env, script) # rounds) jobError impl =
     (case runImpl env script jobError impl of
        None \<Rightarrow> None
      | Some (result, cx, impl1) \<Rightarrow>
          map_option (map_prod (\<lambda>errors. (case result of Inl e \<Rightarrow> if onError then [e] else [] | Inr _ \<Rightarrow> []) @ errors) id)
            (runUntil onError rounds (case cx of None \<Rightarrow> jobError | Some c \<Rightarrow> cx_jobError c) impl1))"

lemma runUntil_lived:
  "lived impl \<Longrightarrow> runUntil onError rounds jobError impl = Some (errors, impl') \<Longrightarrow> lived impl'"
proof (induction onError rounds jobError impl arbitrary: errors rule: runUntil.induct)
  case (2 onError env script rounds jobError impl)
  then obtain result cx impl1 errors' where r: "runImpl env script jobError impl = Some (result, cx, impl1)"
    and rest: "runUntil onError rounds (case cx of None \<Rightarrow> jobError | Some c \<Rightarrow> cx_jobError c) impl1 = Some (errors', impl')"
    by (auto split: option.splits)
  have "lived impl1" using 2(2) r unfolding lived_def by (blast intro: reach_step life_step.life_run)
  then show ?case using 2(1) [OF r refl refl] rest by blast
qed simp

text \<open>The thread of a \<^verbatim>\<open>RunScope\<close>: it runs the pipeline, then reaps, except after a run that reports \<^verbatim>\<open>kBusy\<close>.\<close>

definition RunScope_run :: "Env \<Rightarrow> (nat \<times> slot_action) list list \<Rightarrow> string \<Rightarrow> 'f Impl \<Rightarrow> (unit expected \<times> 'f Impl) option" where
  "RunScope_run env script jobError impl =
     map_option (\<lambda>(result, cx, impl1). (result, if result = Inl kBusy then impl1 else fst (joinOrphans impl1))) (runImpl env script jobError impl)"

lemma RunScope_reaps:
  "RunScope_run env script jobError impl = Some (result, impl') \<Longrightarrow> result \<noteq> Inl kBusy \<Longrightarrow> \<not> hasOrphans impl'"
  by (auto simp: RunScope_run_def joinOrphans_def hasOrphans_def split: if_splits)

section \<open>Triggering\<close>

definition Pipeline_arm :: "nat \<Rightarrow> bool \<Rightarrow> 'f Pipeline \<Rightarrow> 'f Pipeline" where
  "Pipeline_arm fresh observer p = Some ((ensure fresh p)\<lparr>im_armedExecutor := True, im_armedObserver := observer\<rparr>)"

text \<open>The checks before \<^verbatim>\<open>stopMtx_\<close> is taken.\<close>

definition trigger_guard :: "'f Pipeline \<Rightarrow> Job \<Rightarrow> PipelineError option" where
  "trigger_guard p j =
     (case p of
        None \<Rightarrow> Some kUnknownJob
      | Some impl \<Rightarrow>
          if \<not> owns impl j then Some kUnknownJob
          else if \<not> im_armedExecutor impl then Some kNotArmed
          else if \<not> isOnDemand (im_nodes impl ! unat (jb_idx j)) then Some kNotOnDemand
          else if im_running impl \<or> hasPendingOrphans p then Some kBusy
          else None)"

definition set_job_status :: "nat \<Rightarrow> JobStatus \<Rightarrow> 'f Impl \<Rightarrow> 'f Impl" where
  "set_job_status i st = upd_node i (\<lambda>nd. nd\<lparr>nd_jobStatus := st\<rparr>)"

text \<open>The region under \<^verbatim>\<open>stopMtx_\<close>.\<close>

definition trigger_claim :: "nat \<Rightarrow> 'f Impl \<Rightarrow> 'f Impl expected" where
  "trigger_claim i impl =
     (if nd_jobStatus (node i impl) = kReady \<or> nd_jobStatus (node i impl) = kRunning then Inl kBusy
      else Inr (set_job_status i kReady (renewStopState i impl)))"

text \<open>What callers and observers see.\<close>

datatype od_event =
    Refused Job PipelineError | Submitted nat | Rejected nat | Began nat | Ended nat "unit expected"
  | ObsRunStart | ObsJobStart nat | ObsJobFinish nat JobStatus | ObsDependencies nat "nat list" | ObsJobFailure nat PipelineError string

definition trigger_begin :: "bool \<Rightarrow> nat \<Rightarrow> 'f Impl \<Rightarrow> 'f Impl \<times> od_event list" where
  "trigger_begin obs i impl = (set_job_status i kRunning impl, Began i # (if obs then [ObsRunStart, ObsJobStart i] else []))"

text \<open>The body and what follows it; \<open>leftover\<close> is the error text an earlier job left on the thread.\<close>

definition trigger_end :: "Invocation \<Rightarrow> string \<Rightarrow> bool \<Rightarrow> nat \<Rightarrow> 'f Impl \<Rightarrow> 'f Impl \<times> od_event list" where
  "trigger_end iv leftover obs i impl =
     (case invoke iv i impl of (result, m, impl1) \<Rightarrow>
        let impl2 = set_job_status i (statusOf result) impl1; jobErrorCtx = (if m = [] then leftover else m)
        in (impl2,
            Ended i result #
            (if obs
             then ObsJobFinish i (statusOf result) # (if succs impl2 i = [] then [] else [ObsDependencies i (succs impl2 i)]) @
                  (case result of
                     Inl e \<Rightarrow> if \<not> isOptional (node i impl2) \<or> e = kCancelled then [ObsJobFailure i e jobErrorCtx] else []
                   | Inr _ \<Rightarrow> [])
             else [])))"

text \<open>
  A call of \<^verbatim>\<open>trigger\<close>: past the checks; inside the executor's \<^verbatim>\<open>dispatch\<close>. An accepted invocation: queued; inside the body.
\<close>

datatype od_task = Passed Job | Submitting nat bool | Queued nat bool | Body nat bool

record 'f OdWorld =
  ow_impl :: "'f Impl"
  ow_tasks :: "od_task multiset"
  ow_trace :: "od_event list"

definition od_put :: "'f Impl \<Rightarrow> od_task multiset \<Rightarrow> od_event list \<Rightarrow> 'f OdWorld \<Rightarrow> 'f OdWorld" where
  "od_put impl tasks es w = w\<lparr>ow_impl := impl, ow_tasks := tasks, ow_trace := ow_trace w @ es\<rparr>"

inductive od_step :: "'f OdWorld \<Rightarrow> 'f OdWorld \<Rightarrow> bool" where
  refused: "trigger_guard (Some (ow_impl w)) j = Some e \<Longrightarrow> od_step w (od_put (ow_impl w) (ow_tasks w) [Refused j e] w)"
| passed: "trigger_guard (Some (ow_impl w)) j = None \<Longrightarrow> od_step w (od_put (ow_impl w) (add_mset (Passed j) (ow_tasks w)) [] w)"
| claim_busy: "Passed j \<in># ow_tasks w \<Longrightarrow> trigger_claim (unat (jb_idx j)) (ow_impl w) = Inl e \<Longrightarrow>
    od_step w (od_put (ow_impl w) (ow_tasks w - {#Passed j#}) [Refused j e] w)"
| claim: "Passed j \<in># ow_tasks w \<Longrightarrow> trigger_claim (unat (jb_idx j)) (ow_impl w) = Inr impl \<Longrightarrow>
    od_step w (od_put impl (add_mset (Submitting (unat (jb_idx j)) (im_armedObserver impl)) (ow_tasks w - {#Passed j#})) [] w)"
| accepted: "Submitting i obs \<in># ow_tasks w \<Longrightarrow>
    od_step w (od_put (ow_impl w) (add_mset (Queued i obs) (ow_tasks w - {#Submitting i obs#})) [Submitted i] w)"
| rejected: "Submitting i obs \<in># ow_tasks w \<Longrightarrow>
    od_step w (od_put (set_job_status i kFailed (ow_impl w)) (ow_tasks w - {#Submitting i obs#}) [Rejected i] w)"
| started: "Queued i obs \<in># ow_tasks w \<Longrightarrow> trigger_begin obs i (ow_impl w) = (impl, es) \<Longrightarrow>
    od_step w (od_put impl (add_mset (Body i obs) (ow_tasks w - {#Queued i obs#})) es w)"
| finish: "Body i obs \<in># ow_tasks w \<Longrightarrow> trigger_end iv leftover obs i (ow_impl w) = (impl, es) \<Longrightarrow>
    od_step w (od_put impl (ow_tasks w - {#Body i obs#}) es w)"
| cancel: "Job_cancel j (ow_impl w) = Inr impl \<Longrightarrow> od_step w (od_put impl (ow_tasks w) [] w)"
| reap: "od_step w (od_put (fst (joinOrphans (ow_impl w))) (ow_tasks w) [] w)"
| rearm: "od_step w (od_put ((ow_impl w)\<lparr>im_armedExecutor := True, im_armedObserver := obs\<rparr>) (ow_tasks w) [] w)"

section \<open>One invocation at a time\<close>

fun active :: "nat \<Rightarrow> od_task \<Rightarrow> nat" where
  "active i (Passed j) = 0"
| "active i (Submitting k obs) = (if i = k then 1 else 0)"
| "active i (Queued k obs) = (if i = k then 1 else 0)"
| "active i (Body k obs) = (if i = k then 1 else 0)"

fun queued :: "nat \<Rightarrow> od_task \<Rightarrow> nat" where
  "queued i (Queued k obs) = (if i = k then 1 else 0)"
| "queued i _ = 0"

fun body_of :: "nat \<Rightarrow> od_task \<Rightarrow> nat" where
  "body_of i (Body k obs) = (if i = k then 1 else 0)"
| "body_of i _ = 0"

fun task_index :: "od_task \<Rightarrow> nat" where
  "task_index (Passed j) = unat (jb_idx j)"
| "task_index (Submitting i obs) = i"
| "task_index (Queued i obs) = i"
| "task_index (Body i obs) = i"

definition busy :: "nat \<Rightarrow> 'f Impl \<Rightarrow> bool" where
  "busy i impl \<longleftrightarrow> i < length (im_nodes impl) \<and> (nd_jobStatus (node i impl) = kReady \<or> nd_jobStatus (node i impl) = kRunning)"

definition ends :: "nat \<Rightarrow> od_event list \<Rightarrow> nat" where
  "ends i es = length (filter (\<lambda>e. \<exists>r. e = Ended i r) es)"

text \<open>
  Each job is busy exactly while it has an invocation, and never has two. What was submitted has begun or is queued, and what has
  begun has ended or is in its body.
\<close>

definition od_inv :: "'f OdWorld \<Rightarrow> bool" where
  "od_inv w \<longleftrightarrow> (\<forall>t\<in>#ow_tasks w. task_index t < length (im_nodes (ow_impl w)))
     \<and> (\<forall>i. (\<Sum>t\<in>#ow_tasks w. active i t) = (if busy i (ow_impl w) then 1 else 0))
     \<and> (\<forall>i. count_list (ow_trace w) (Submitted i) = count_list (ow_trace w) (Began i) + (\<Sum>t\<in>#ow_tasks w. queued i t))
     \<and> (\<forall>i. count_list (ow_trace w) (Began i) = ends i (ow_trace w) + (\<Sum>t\<in>#ow_tasks w. body_of i t))"

lemma ends_simps [simp]:
  "ends i [] = 0" "ends i (es @ fs) = ends i es + ends i fs"
  "ends i (e # es) = (if \<exists>r. e = Ended i r then 1 else 0) + ends i es"
  by (auto simp: ends_def)

lemma busy_set [simp]:
  "busy i (set_job_status k st impl) \<longleftrightarrow> (if i = k \<and> k < length (im_nodes impl) then st = kReady \<or> st = kRunning else busy i impl)"
  "length (im_nodes (set_job_status k st impl)) = length (im_nodes impl)"
  by (auto simp: busy_def set_job_status_def upd_node_def node_def nth_update_iff)

lemma busy_renew [simp]:
  "busy i (renewStopState k impl) = busy i impl" "length (im_nodes (renewStopState k impl)) = length (im_nodes impl)"
  by (auto simp: busy_def renewStopState_def Let_def upd_node_def node_def nth_update_iff split: if_splits)

lemma busy_cong: "im_nodes b = im_nodes a \<Longrightarrow> busy i b = busy i a"
  by (simp add: busy_def node_def)

lemma trigger_end_frame:
  assumes "trigger_end iv leftover obs i impl = (impl', es)" "i < length (im_nodes impl)"
  shows "length (im_nodes impl') = length (im_nodes impl)" "busy k impl' \<longleftrightarrow> k \<noteq> i \<and> busy k impl"
    "count_list es (Submitted k) = 0" "count_list es (Began k) = 0" "ends k es = (if k = i then 1 else 0)"
proof -
  obtain r m impl1 where r: "invoke iv i impl = (r, m, impl1)" by (metis prod_cases3)
  have nodes: "im_nodes impl1 = im_nodes impl" using same_frameD(1) [OF invoke_frame [OF r]] .
  have impl': "impl' = set_job_status i (statusOf r) impl1" using assms r by (simp add: trigger_end_def Let_def)
  show "length (im_nodes impl') = length (im_nodes impl)" "busy k impl' \<longleftrightarrow> k \<noteq> i \<and> busy k impl"
    using nodes assms(2) by (auto simp: impl' busy_cong [OF nodes])
  show "count_list es (Submitted k) = 0" "count_list es (Began k) = 0" "ends k es = (if k = i then 1 else 0)"
    using assms r by (auto simp: trigger_end_def Let_def split: sum.splits if_splits)
qed

lemma trigger_claim_cases:
  assumes "i < length (im_nodes impl)"
  shows "trigger_claim i impl = Inl e \<Longrightarrow> e = kBusy \<and> busy i impl"
    "trigger_claim i impl = Inr impl' \<Longrightarrow> \<not> busy i impl \<and> length (im_nodes impl') = length (im_nodes impl)
       \<and> (\<forall>k. busy k impl' \<longleftrightarrow> k = i \<or> busy k impl)"
  using assms by (auto simp: trigger_claim_def busy_def [of i impl] split: if_splits)

definition idle :: "'f Impl \<Rightarrow> bool" where
  "idle impl \<longleftrightarrow> (\<forall>nd\<in>set (im_nodes impl). nd_jobStatus nd \<noteq> kReady \<and> nd_jobStatus nd \<noteq> kRunning)"

definition od_init :: "'f OdWorld \<Rightarrow> bool" where
  "od_init w \<longleftrightarrow> idle (ow_impl w) \<and> ow_tasks w = {#} \<and> ow_trace w = []"

lemma od_inv_init: "od_init w \<Longrightarrow> od_inv w"
  by (auto simp: od_init_def od_inv_def idle_def busy_def node_def)

text \<open>The invariant from its parts, for the state that a step leaves.\<close>

lemma od_invI:
  assumes "od_inv w" "length (im_nodes impl) = length (im_nodes (ow_impl w))"
    "\<And>t. t \<in># tasks \<Longrightarrow> t \<in># ow_tasks w \<or> task_index t < length (im_nodes impl)"
    "\<And>i. (\<Sum>t\<in>#tasks. active i t) + (if busy i (ow_impl w) then 1 else 0) = (\<Sum>t\<in>#ow_tasks w. active i t) + (if busy i impl then 1 else 0)"
    "\<And>i. count_list es (Submitted i) + (\<Sum>t\<in>#ow_tasks w. queued i t) = count_list es (Began i) + (\<Sum>t\<in>#tasks. queued i t)"
    "\<And>i. count_list es (Began i) + (\<Sum>t\<in>#ow_tasks w. body_of i t) = ends i es + (\<Sum>t\<in>#tasks. body_of i t)"
  shows "od_inv (od_put impl tasks es w)"
proof -
  have a: "(\<Sum>t\<in>#tasks. active i t) = (if busy i impl then 1 else 0)" for i
    using assms(1) assms(4) [of i] by (auto simp: od_inv_def simp del: sum_mset_0_iff)
  have b: "count_list (ow_trace w @ es) (Submitted i) = count_list (ow_trace w @ es) (Began i) + (\<Sum>t\<in>#tasks. queued i t)" for i
  proof -
    have "count_list (ow_trace w) (Submitted i) = count_list (ow_trace w) (Began i) + (\<Sum>t\<in>#ow_tasks w. queued i t)"
      using assms(1) unfolding od_inv_def by blast
    then show ?thesis using assms(5) [of i] by simp
  qed
  have c: "count_list (ow_trace w @ es) (Began i) = ends i (ow_trace w @ es) + (\<Sum>t\<in>#tasks. body_of i t)" for i
  proof -
    have "count_list (ow_trace w) (Began i) = ends i (ow_trace w) + (\<Sum>t\<in>#ow_tasks w. body_of i t)"
      using assms(1) unfolding od_inv_def by blast
    then show ?thesis using assms(6) [of i] by simp
  qed
  have d: "\<forall>t\<in>#tasks. task_index t < length (im_nodes impl)"
    using assms(1-3) unfolding od_inv_def by metis
  show ?thesis
    unfolding od_inv_def od_put_def OdWorld.select_convs OdWorld.update_convs using a b c d by simp
qed

lemma od_step_inv:
  assumes "od_inv w" "od_step w w'"
  shows "od_inv w'"
  using assms(2,1)
proof (induction rule: od_step.induct)
  case (passed w j)
  then show ?case by (intro od_invI) (auto simp: trigger_guard_def owns_def split: if_splits)
next
  case (claim_busy j w e)
  show ?case by (rule od_invI [OF claim_busy.prems]) (use sum_task_remove [OF claim_busy.hyps(1)] in \<open>auto dest: in_diffD\<close>)
next
  case (claim j w impl)
  have i: "unat (jb_idx j) < length (im_nodes (ow_impl w))" using claim by (auto simp: od_inv_def)
  note c = trigger_claim_cases(2) [OF i claim.hyps(2)]
  show ?case
    by (rule od_invI [OF claim.prems]) (use sum_task_remove [OF claim.hyps(1)] c i in \<open>auto dest: in_diffD\<close>)
next
  case (accepted i obs w)
  show ?case
    by (rule od_invI [OF accepted.prems]) (use accepted sum_task_remove [OF accepted.hyps(1)] in \<open>auto simp: od_inv_def dest: in_diffD\<close>)
next
  case (rejected i obs w)
  have i: "i < length (im_nodes (ow_impl w))" using rejected by (auto simp: od_inv_def)
  have b: "busy i (ow_impl w)" using rejected sum_task_remove [OF rejected.hyps(1), of "active i"] by (auto simp: od_inv_def split: if_splits)
  show ?case
    by (rule od_invI [OF rejected.prems]) (use i b sum_task_remove [OF rejected.hyps(1)] in \<open>auto dest: in_diffD\<close>)
next
  case (started i obs w impl es)
  have i: "i < length (im_nodes (ow_impl w))" using started by (auto simp: od_inv_def)
  have b: "busy i (ow_impl w)" using started sum_task_remove [OF started.hyps(1), of "active i"] by (auto simp: od_inv_def split: if_splits)
  show ?case
    by (rule od_invI [OF started.prems])
       (use i b sum_task_remove [OF started.hyps(1)] started.hyps(2) in \<open>auto simp: trigger_begin_def dest: in_diffD split: if_splits\<close>)
next
  case (finish i obs w iv leftover impl es)
  have i: "i < length (im_nodes (ow_impl w))" using finish by (auto simp: od_inv_def)
  have b: "busy i (ow_impl w)" using finish sum_task_remove [OF finish.hyps(1), of "active i"] by (auto simp: od_inv_def split: if_splits)
  show ?case
    by (rule od_invI [OF finish.prems])
       (use i b sum_task_remove [OF finish.hyps(1)] trigger_end_frame [OF finish.hyps(2) i] in \<open>auto dest: in_diffD\<close>)
next
  case (cancel j w impl)
  have "im_nodes impl = im_nodes (ow_impl w)"
    using cancel.hyps by (auto simp: Job_cancel_def request_stop_def split: if_splits)
  then show ?case by (intro od_invI [OF cancel.prems]) (simp_all add: busy_def node_def)
next
  case (reap w)
  then show ?case by (intro od_invI) (auto simp: joinOrphans_def busy_def node_def)
next
  case (rearm w obs)
  then show ?case by (intro od_invI) (auto simp: busy_def node_def)
qed (auto intro!: od_invI)

interpretation on_demand: inductive_invariant od_init od_step od_inv
  by unfold_locales (auto intro: od_inv_init od_step_inv)

lemma claim_fresh:
  assumes "trigger_claim i impl = Inr impl'" "i < length (im_nodes impl)"
  shows "\<not> stop_requested (nd_stopSource (node i impl')) impl'"
  using assms
  by (auto simp: trigger_claim_def renewStopState_def Let_def set_job_status_def upd_node_def node_def stop_requested_def nth_append
      split: if_splits)

lemma claim_refused_iff:
  assumes "od_inv w" "i < length (im_nodes (ow_impl w))"
  shows "trigger_claim i (ow_impl w) = Inl kBusy \<longleftrightarrow> (\<Sum>t\<in>#ow_tasks w. active i t) = 1"
proof -
  have "(\<Sum>t\<in>#ow_tasks w. active i t) = (if busy i (ow_impl w) then 1 else 0)" using assms(1) unfolding od_inv_def by blast
  moreover have "trigger_claim i (ow_impl w) = Inl kBusy \<longleftrightarrow> busy i (ow_impl w)"
    using assms(2) by (auto simp: trigger_claim_def busy_def)
  ultimately show ?thesis by simp
qed

section \<open>Property\<close>


text \<open>One on-demand job with a time limit, on an armed pipeline.\<close>

definition example_armed_impl :: "nat Impl" where
  "example_armed_impl = (Impl_new 0)\<lparr>im_nodes := [(Node_new 0)\<lparr>nd_flags := kFlagOnDemand, nd_fn := IgnoringStop 0, nd_timeout := 5\<rparr>],
     im_stops := [False], im_armedExecutor := True\<rparr>"

definition example_idle :: "nat OdWorld" where
  "example_idle = \<lparr>ow_impl = example_armed_impl, ow_tasks = {#}, ow_trace = []\<rparr>"

lemma flag_tests: "kFlagOnDemand \<noteq> 0" "kFlagOnDemand AND kFlagCancellable = 0" "kFlagOnDemand AND kFlagDeferred = 0"
  by (simp_all add: kFlagOnDemand_def kFlagCancellable_def kFlagDeferred_def)

lemma od_reach: "reach od_init od_step w \<Longrightarrow> od_step w w' \<Longrightarrow> reach od_init od_step w'"
  by (rule reach_step)

text \<open>An invocation that has its job comes to its body when the executor takes it.\<close>

lemma claimed_begins:
  fixes w :: "'f OdWorld"
  assumes r: "reach od_init od_step w" and p: "Passed j \<in># ow_tasks w" and c: "trigger_claim (unat (jb_idx j)) (ow_impl w) = Inr impl"
  shows "reach od_init od_step
    \<lparr>ow_impl = set_job_status (unat (jb_idx j)) kRunning impl,
     ow_tasks = add_mset (Body (unat (jb_idx j)) (im_armedObserver impl)) (ow_tasks w - {#Passed j#}),
     ow_trace = ow_trace w @ Submitted (unat (jb_idx j)) # snd (trigger_begin (im_armedObserver impl) (unat (jb_idx j)) impl)\<rparr>"
proof -
  let ?i = "unat (jb_idx j)" and ?o = "im_armedObserver impl" and ?M = "ow_tasks w - {#Passed j#}"
  have r1: "reach od_init od_step (od_put impl (add_mset (Submitting ?i ?o) ?M) [] w)" (is "reach _ _ ?w1")
    by (rule od_reach [OF r od_step.claim [OF p c]])
  have r2: "reach od_init od_step (od_put (ow_impl ?w1) (add_mset (Queued ?i ?o) (ow_tasks ?w1 - {#Submitting ?i ?o#})) [Submitted ?i] ?w1)"
    (is "reach _ _ ?w2")
    by (rule od_reach [OF r1 od_step.accepted]) (simp add: od_put_def)
  have "reach od_init od_step (od_put (fst (trigger_begin ?o ?i (ow_impl ?w2)))
      (add_mset (Body ?i ?o) (ow_tasks ?w2 - {#Queued ?i ?o#})) (snd (trigger_begin ?o ?i (ow_impl ?w2))) ?w2)"
    by (rule od_reach [OF r2 od_step.started [OF _ surjective_pairing]]) (simp add: od_put_def)
  then show ?thesis by (cases w) (simp add: od_put_def trigger_begin_def)
qed

lemmas world_defs = example_idle_def example_armed_impl_def Impl_new_def Node_new_def od_put_def flag_tests trigger_guard_def owns_def
  Job_valid_def cInvalid_def isOnDemand_def isCancellable_def isDeferred_def hasPendingOrphans_def hasOrphans_def trigger_claim_def
  renewStopState_def node_def stop_requested_def set_job_status_def upd_node_def trigger_begin_def

lemma example_body:
  "reach od_init od_step \<lparr>ow_impl = set_job_status 0 kRunning example_armed_impl, ow_tasks = {#Body 0 False#}, ow_trace = [Submitted 0, Began 0]\<rparr>"
proof -
  have "reach od_init od_step example_idle" by (rule reach_init) (simp add: od_init_def idle_def world_defs)
  then have "reach od_init od_step (od_put example_armed_impl {#Passed (example_job 0)#} [] example_idle)"
    using od_reach [OF _ od_step.passed [of example_idle "example_job 0"]] by (simp add: world_defs)
  from claimed_begins [OF this, of "example_job 0" "set_job_status 0 kReady example_armed_impl"] show ?thesis
    by (simp add: world_defs)
qed


text \<open>
  The check for timed-out work is made before the mutex is taken. A call of \<^verbatim>\<open>trigger\<close> that passes it while the body still runs, and is
  overtaken by the timeout, starts the job again beside the orphaned body, although \<^verbatim>\<open>pipeline.hpp\<close> promises \<^verbatim>\<open>kBusy\<close> for unreaped timeout work.
\<close>

lemma trigger_beside_orphan:
  "\<exists>w :: nat OdWorld. reach od_init od_step w \<and> Body 0 False \<in># ow_tasks w \<and> im_pendingOrphans (ow_impl w) = 1
     \<and> count_list (ow_trace w) (Began 0) = 2"
proof -
  let ?running = "set_job_status 0 kRunning example_armed_impl"
  let ?iv = "(returns (Inr ()))\<lparr>iv_finished := False\<rparr>"
  let ?w1 = "\<lparr>ow_impl = ?running, ow_tasks = {#Passed (example_job 0), Body 0 False#}, ow_trace = [Submitted 0, Began 0]\<rparr>"
  have r1: "reach od_init od_step ?w1"
    using od_reach [OF example_body od_step.passed [of _ "example_job 0"]] by (simp add: world_defs)
  define late where "late = fst (trigger_end ?iv [] False 0 ?running)"
  have late: "im_pendingOrphans late = 1" "nd_jobStatus (node 0 late) = kTimedOut" "length (im_nodes late) = 1"
    by (simp_all add: late_def trigger_end_def invoke_def invokeTimed_def returns_def stop_nodes_def retain_def request_stop_def
        milliseconds_max_def world_defs)
  have "trigger_end ?iv [] False 0 ?running = (late, [Ended 0 (Inl kTimeout)])"
    by (simp add: late_def trigger_end_def invoke_def invokeTimed_def returns_def stop_nodes_def retain_def request_stop_def
        milliseconds_max_def world_defs)
  then have r2: "reach od_init od_step \<lparr>ow_impl = late, ow_tasks = {#Passed (example_job 0)#}, ow_trace = [Submitted 0, Began 0, Ended 0 (Inl kTimeout)]\<rparr>"
    using od_reach [OF r1 od_step.finish [of 0 False ?w1 ?iv "[]"]] by (simp add: od_put_def)
  have c: "trigger_claim 0 late = Inr (set_job_status 0 kReady (renewStopState 0 late))" using late by (simp add: trigger_claim_def)
  have "im_pendingOrphans (set_job_status 0 st (set_job_status 0 st' (renewStopState 0 late))) = 1" for st st'
    using late(1) by (simp add: set_job_status_def upd_node_def renewStopState_def Let_def)
  moreover have "im_armedObserver (set_job_status 0 kReady (renewStopState 0 late)) = False"
    by (simp add: late_def trigger_end_def invoke_def invokeTimed_def returns_def stop_nodes_def retain_def request_stop_def
        milliseconds_max_def world_defs)
  ultimately show ?thesis
    using claimed_begins [OF r2, of "example_job 0"] c by (intro exI conjI) (auto simp: trigger_begin_def)
qed

end
