(* ===== verification/TimerService.thy ===== *)
theory TimerService
  imports PipelineTypes TaskBags
begin

text \<open>
  The timer behind deferred jobs with a time limit: \<^verbatim>\<open>class TimerService\<close> of \<^verbatim>\<open>src/sub0pipeline.cpp\<close>, which implements
  \<^verbatim>\<open>IDeadlineService\<close> of \<^verbatim>\<open>include/sub0pipeline/deadline.hpp\<close>. Its thread and the threads that call \<^verbatim>\<open>arm\<close> and \<^verbatim>\<open>cancelAndWait\<close> are
  interleaved at the places where they take or give up the mutex. A deadline is named by its address. Time is the steady
  clock in nanoseconds.

  Users keep the contract of the interface: a deadline is armed only while it has no registration, and \<^verbatim>\<open>cancelAndWait\<close> is called
  once for it, not from its own expiry. A caller that waits for \<^verbatim>\<open>fired_\<close> goes on once its condition holds: the condition changes only under
  the mutex, followed by \<^verbatim>\<open>notify_all\<close>.
\<close>

section \<open>Model\<close>

definition time_point_max :: int where "time_point_max = 2 ^ 63 - 1"

text \<open>\<^verbatim>\<open>duration_cast<milliseconds>\<close> truncates; the values here are not negative.\<close>

definition arm_at :: "int \<Rightarrow> int \<Rightarrow> int" where
  "arm_at now delay =
     (let headroom = (time_point_max - now) div 1000000
      in if delay \<ge> headroom then time_point_max else now + delay * 1000000)"

text \<open>An entry of the multimap \<^verbatim>\<open>queue_\<close>: the identity of its node, which iterators name, the time and the deadline.\<close>

record Entry =
  en_node :: nat
  en_at :: int
  en_deadline :: nat

text \<open>
  Where a calling thread is: \<open>Arming\<close> has read the clock and will take the mutex; \<open>Notifying\<close> has inserted its entry and will
  notify; \<open>Cancelling\<close> will take the mutex; \<open>Draining\<close> has removed the entry and waits for a running expiry.
\<close>

datatype caller = Arming nat int | Notifying | Cancelling nat | Draining nat

text \<open>
  Where the timer thread is: at the head of its loop; asleep in \<^verbatim>\<open>wake_.wait\<close> or, with a time, in \<^verbatim>\<open>wake_.wait_until\<close>, and whether
  a notification has reached it; outside the mutex before and after \<^verbatim>\<open>expire()\<close>; returned.
\<close>

datatype timer_thread = Head | Asleep "int option" bool | Expiring Entry | Expired Entry | Ended

text \<open>
  \<open>tm_live\<close> are the deadlines their owners must keep alive: from the call of \<^verbatim>\<open>arm\<close> to the return of \<^verbatim>\<open>cancelAndWait\<close>, or of
  an \<^verbatim>\<open>arm\<close> that reported failure. \<open>tm_log\<close> are the calls of \<^verbatim>\<open>expire()\<close> with their times.
\<close>

record Timer =
  tm_queue :: "Entry list"
  tm_index :: "nat \<rightharpoonup> nat"
  tm_firing :: "nat option"
  tm_now :: int
  tm_stop :: bool
  tm_worker :: timer_thread
  tm_callers :: "caller multiset"
  tm_next :: nat
  tm_live :: "nat set"
  tm_log :: "(Entry \<times> int) list"

definition Timer_new :: "int \<Rightarrow> Timer" where
  "Timer_new now =
     \<lparr>tm_queue = [], tm_index = Map.empty, tm_firing = None, tm_now = now, tm_stop = False, tm_worker = Head, tm_callers = {#},
      tm_next = 0, tm_live = {}, tm_log = []\<rparr>"

text \<open>\<^verbatim>\<open>std::multimap::emplace\<close>: after the entries with the same or an earlier time.\<close>

definition queue_emplace :: "Entry \<Rightarrow> Entry list \<Rightarrow> Entry list" where
  "queue_emplace e q = takeWhile (\<lambda>x. en_at x \<le> en_at e) q @ e # dropWhile (\<lambda>x. en_at x \<le> en_at e) q"

text \<open>\<^verbatim>\<open>std::unordered_map::emplace\<close> keeps an entry that is there.\<close>

definition index_emplace :: "nat \<Rightarrow> nat \<Rightarrow> (nat \<rightharpoonup> nat) \<Rightarrow> (nat \<rightharpoonup> nat)" where
  "index_emplace d k ix = (if ix d = None then ix(d \<mapsto> k) else ix)"

text \<open>Which of the two allocations of \<^verbatim>\<open>arm\<close> throws, if one does.\<close>

datatype memory = Enough | NoNode | NoIndex

definition arm_insert :: "memory \<Rightarrow> nat \<Rightarrow> int \<Rightarrow> Timer \<Rightarrow> Timer \<times> bool" where
  "arm_insert mem d at s =
     (let e = \<lparr>en_node = tm_next s, en_at = at, en_deadline = d\<rparr>;
          s1 = s\<lparr>tm_queue := queue_emplace e (tm_queue s), tm_next := tm_next s + 1\<rparr>
      in case mem of
           NoNode \<Rightarrow> (s, False)
         | NoIndex \<Rightarrow> (s1, False)
         | Enough \<Rightarrow> (s1\<lparr>tm_index := index_emplace d (tm_next s) (tm_index s1)\<rparr>, True))"

definition cancel_remove :: "nat \<Rightarrow> Timer \<Rightarrow> Timer" where
  "cancel_remove d s =
     (case tm_index s d of
        None \<Rightarrow> s
      | Some k \<Rightarrow> s\<lparr>tm_queue := filter (\<lambda>e. en_node e \<noteq> k) (tm_queue s), tm_index := (tm_index s)(d := None)\<rparr>)"

text \<open>\<^verbatim>\<open>wake_.notify_all()\<close>\<close>

definition notify_wake :: "Timer \<Rightarrow> Timer" where
  "notify_wake s = (case tm_worker s of Asleep w _ \<Rightarrow> s\<lparr>tm_worker := Asleep w True\<rparr> | _ \<Rightarrow> s)"

text \<open>The condition a sleeping timer thread waits for.\<close>

definition wake_condition :: "int option \<Rightarrow> Entry list \<Rightarrow> bool" where
  "wake_condition w q \<longleftrightarrow> (case w of None \<Rightarrow> q \<noteq> [] | Some at \<Rightarrow> q = [] \<or> en_at (hd q) < at)"

definition wait_on :: "int option \<Rightarrow> Timer \<Rightarrow> Timer" where
  "wait_on w s = (if tm_stop s \<or> wake_condition w (tm_queue s) then s\<lparr>tm_worker := Head\<rparr> else s\<lparr>tm_worker := Asleep w False\<rparr>)"

text \<open>One round of the loop, from taking the mutex to giving it up.\<close>

definition loop_head :: "Timer \<Rightarrow> Timer" where
  "loop_head s =
     (if tm_stop s then s\<lparr>tm_worker := Ended\<rparr>
      else case tm_queue s of
             [] \<Rightarrow> wait_on None s
           | e # rest \<Rightarrow>
               if tm_now s < en_at e then wait_on (Some (en_at e)) s
               else s\<lparr>tm_index := (tm_index s)(en_deadline e := None), tm_queue := rest,
                      tm_firing := Some (en_deadline e), tm_worker := Expiring e\<rparr>)"

text \<open>A wait that was notified, timed out or stopped, after it has the mutex again.\<close>

definition loop_wake :: "int option \<Rightarrow> Timer \<Rightarrow> Timer" where
  "loop_wake w s =
     (if tm_stop s \<or> wake_condition w (tm_queue s) \<or> (\<exists>at. w = Some at \<and> at \<le> tm_now s) then s\<lparr>tm_worker := Head\<rparr>
      else s\<lparr>tm_worker := Asleep w False\<rparr>)"

inductive timer_step :: "bool \<Rightarrow> Timer \<Rightarrow> Timer \<Rightarrow> bool" for tight where
  tick: "tm_now s \<le> t \<Longrightarrow> timer_step tight s (s\<lparr>tm_now := t\<rparr>)"
| arm_call: "d \<notin> tm_live s \<Longrightarrow>
    timer_step tight s (s\<lparr>tm_live := insert d (tm_live s), tm_callers := add_mset (Arming d (arm_at (tm_now s) delay)) (tm_callers s)\<rparr>)"
| arm_locked: "Arming d at \<in># tm_callers s \<Longrightarrow> arm_insert mem d at s = (t, True) \<Longrightarrow>
    timer_step tight s (t\<lparr>tm_callers := add_mset Notifying (tm_callers s - {#Arming d at#})\<rparr>)"
| arm_failed: "Arming d at \<in># tm_callers s \<Longrightarrow> arm_insert mem d at s = (t, False) \<Longrightarrow> mem = NoIndex \<longrightarrow> tight \<Longrightarrow>
    timer_step tight s (t\<lparr>tm_live := tm_live s - {d}, tm_callers := tm_callers s - {#Arming d at#}\<rparr>)"
| arm_notify: "Notifying \<in># tm_callers s \<Longrightarrow> timer_step tight s ((notify_wake s)\<lparr>tm_callers := tm_callers s - {#Notifying#}\<rparr>)"
| cancel_call: "d \<in> tm_live s \<Longrightarrow> Cancelling d \<notin># tm_callers s \<Longrightarrow> Draining d \<notin># tm_callers s \<Longrightarrow> (\<forall>at. Arming d at \<notin># tm_callers s) \<Longrightarrow>
    timer_step tight s (s\<lparr>tm_callers := add_mset (Cancelling d) (tm_callers s)\<rparr>)"
| cancel_locked: "Cancelling d \<in># tm_callers s \<Longrightarrow>
    timer_step tight s ((cancel_remove d s)\<lparr>tm_callers := add_mset (Draining d) (tm_callers s - {#Cancelling d#})\<rparr>)"
| cancel_return: "Draining d \<in># tm_callers s \<Longrightarrow> tm_firing s \<noteq> Some d \<Longrightarrow>
    timer_step tight s (s\<lparr>tm_live := tm_live s - {d}, tm_callers := tm_callers s - {#Draining d#}\<rparr>)"
| head: "tm_worker s = Head \<Longrightarrow> timer_step tight s (loop_head s)"
| wake: "tm_worker s = Asleep w notified \<Longrightarrow> notified \<or> tm_stop s \<or> (\<exists>at. w = Some at \<and> at \<le> tm_now s) \<Longrightarrow>
    timer_step tight s (loop_wake w s)"
| expire: "tm_worker s = Expiring e \<Longrightarrow>
    timer_step tight s (s\<lparr>tm_worker := Expired e, tm_log := tm_log s @ [(e, tm_now s)]\<rparr>)"
| fired: "tm_worker s = Expired e \<Longrightarrow> timer_step tight s (s\<lparr>tm_worker := Head, tm_firing := None\<rparr>)"
| stop: "timer_step tight s (s\<lparr>tm_stop := True\<rparr>)"

section \<open>The invariant\<close>

lemma queue_emplace_Nil: "queue_emplace e [] = [e]"
  by (simp add: queue_emplace_def)

lemma queue_emplace_Cons: "queue_emplace e (x # q) = (if en_at x \<le> en_at e then x # queue_emplace e q else e # x # q)"
  by (simp add: queue_emplace_def)

lemma set_queue_emplace [simp]: "set (queue_emplace e q) = insert e (set q)"
  by (induction q) (auto simp: queue_emplace_Nil queue_emplace_Cons)

lemma mset_queue_emplace: "mset (map f (queue_emplace e q)) = add_mset (f e) (mset (map f q))"
  by (induction q) (auto simp: queue_emplace_Nil queue_emplace_Cons)

lemma queue_emplace_not_Nil [simp]: "queue_emplace e q \<noteq> []"
  by (simp add: queue_emplace_def)

lemma sorted_queue_emplace:
  "sorted (map en_at q) \<Longrightarrow> sorted (map en_at (queue_emplace e q))"
  by (induction q) (auto simp: queue_emplace_Nil queue_emplace_Cons)

lemma distinct_queue_emplace:
  "distinct (map f (queue_emplace e q)) \<longleftrightarrow> f e \<notin> f ` set q \<and> distinct (map f q)"
  by (induction q) (auto simp: queue_emplace_Nil queue_emplace_Cons)

fun about :: "nat \<Rightarrow> caller \<Rightarrow> nat" where
  "about d (Arming d' _) = (if d = d' then 1 else 0)"
| "about d Notifying = 0"
| "about d (Cancelling d') = (if d = d' then 1 else 0)"
| "about d (Draining d') = (if d = d' then 1 else 0)"

fun current :: "timer_thread \<Rightarrow> Entry list" where
  "current (Expiring e) = [e]"
| "current (Expired e) = [e]"
| "current _ = []"

fun unlogged :: "timer_thread \<Rightarrow> Entry list" where
  "unlogged (Expiring e) = [e]"
| "unlogged _ = []"

text \<open>The queue is ordered, the index names exactly its entries, and no deadline has two of them.\<close>

definition inv_queue :: "Timer \<Rightarrow> bool" where
  "inv_queue s \<longleftrightarrow> sorted (map en_at (tm_queue s)) \<and> distinct (map en_deadline (tm_queue s))
     \<and> (\<forall>d k. tm_index s d = Some k \<longleftrightarrow> (\<exists>e\<in>set (tm_queue s). en_deadline e = d \<and> en_node e = k))"

text \<open>Each registration expires at most once: its node is queued, expiring or in the log.\<close>

definition inv_once :: "Timer \<Rightarrow> bool" where
  "inv_once s \<longleftrightarrow> distinct (map en_node (tm_queue s @ unlogged (tm_worker s) @ map fst (tm_log s)))
     \<and> (\<forall>e\<in>set (tm_queue s @ unlogged (tm_worker s) @ map fst (tm_log s)). en_node e < tm_next s)"

text \<open>What the timer still refers to is kept alive by its owner, and each owner is in one call at most.\<close>

definition inv_live :: "Timer \<Rightarrow> bool" where
  "inv_live s \<longleftrightarrow> tm_firing s = map_option en_deadline (case current (tm_worker s) of [] \<Rightarrow> None | e # _ \<Rightarrow> Some e)
     \<and> (\<forall>e\<in>set (tm_queue s). en_deadline e \<in> tm_live s \<and> (\<forall>at. Arming (en_deadline e) at \<notin># tm_callers s)
          \<and> Draining (en_deadline e) \<notin># tm_callers s \<and> tm_firing s \<noteq> Some (en_deadline e))
     \<and> (\<forall>d. tm_firing s = Some d \<longrightarrow> d \<in> tm_live s \<and> (\<forall>at. Arming d at \<notin># tm_callers s))"

definition calls_ok :: "caller multiset \<Rightarrow> nat set \<Rightarrow> bool" where
  "calls_ok M L \<longleftrightarrow> (\<forall>d. (\<Sum>c\<in>#M. about d c) \<le> 1 \<and> ((\<Sum>c\<in>#M. about d c) > 0 \<longrightarrow> d \<in> L))"

definition inv_time :: "Timer \<Rightarrow> bool" where
  "inv_time s \<longleftrightarrow> (\<forall>(e, t)\<in>set (tm_log s). en_at e \<le> t) \<and> (\<forall>e\<in>set (unlogged (tm_worker s)). en_at e \<le> tm_now s)"

text \<open>A sleeping thread has not missed an entry that it should look at earlier.\<close>

definition overlooked :: "int option \<Rightarrow> Entry list \<Rightarrow> bool" where
  "overlooked w q \<longleftrightarrow> q \<noteq> [] \<and> (\<forall>at. w = Some at \<longrightarrow> en_at (hd q) < at)"

definition inv_wake :: "Timer \<Rightarrow> bool" where
  "inv_wake s \<longleftrightarrow> (\<forall>w. tm_worker s = Asleep w False \<and> overlooked w (tm_queue s) \<longrightarrow> Notifying \<in># tm_callers s)"

definition timer_inv :: "Timer \<Rightarrow> bool" where
  "timer_inv s \<longleftrightarrow> inv_queue s \<and> inv_once s \<and> inv_live s \<and> calls_ok (tm_callers s) (tm_live s) \<and> inv_time s \<and> inv_wake s"

lemma timer_inv_new: "timer_inv (Timer_new now)"
  by (simp add: timer_inv_def inv_queue_def inv_once_def inv_live_def calls_ok_def inv_time_def inv_wake_def Timer_new_def)

lemma overlooked_wake: "\<not> wake_condition w q \<Longrightarrow> \<not> overlooked w q"
  by (auto simp: wake_condition_def overlooked_def split: option.splits)

lemmas timer_defs = arm_insert_def cancel_remove_def notify_wake_def wait_on_def loop_head_def loop_wake_def Let_def

lemma step_time: "timer_step tight s t \<Longrightarrow> inv_time s \<Longrightarrow> inv_time t"
  by (induction rule: timer_step.induct)
     (auto simp: inv_time_def timer_defs split: memory.splits option.splits timer_thread.splits list.splits if_splits)

lemma index_deadline:
  assumes "inv_queue s"
  shows "tm_index s d = None \<longleftrightarrow> d \<notin> en_deadline ` set (tm_queue s)"
  using assms unfolding inv_queue_def by (metis (no_types, lifting) image_iff not_Some_eq)

lemma cancel_remove_eq:
  assumes "inv_queue s" "inv_once s"
  shows "cancel_remove d s = s\<lparr>tm_queue := filter (\<lambda>e. en_deadline e \<noteq> d) (tm_queue s), tm_index := (tm_index s)(d := None)\<rparr>"
proof (cases "tm_index s d")
  case None
  then have "filter (\<lambda>e. en_deadline e \<noteq> d) (tm_queue s) = tm_queue s" "(tm_index s)(d := None) = tm_index s"
    using index_deadline [OF assms(1), of d] by (auto simp: filter_id_conv)
  then show ?thesis using None by (simp add: cancel_remove_def)
next
  case (Some k)
  then obtain e0 where e0: "e0 \<in> set (tm_queue s)" "en_deadline e0 = d" "en_node e0 = k"
    using assms(1) by (auto simp: inv_queue_def)
  have inj: "inj_on en_node (set (tm_queue s))" "inj_on en_deadline (set (tm_queue s))"
    using assms by (auto simp: inv_queue_def inv_once_def distinct_map)
  have "en_node e \<noteq> k \<longleftrightarrow> en_deadline e \<noteq> d" if "e \<in> set (tm_queue s)" for e
    using inj_onD [OF inj(1) _ that e0(1)] inj_onD [OF inj(2) _ that e0(1)] e0(2,3) by auto
  then have "filter (\<lambda>e. en_node e \<noteq> k) (tm_queue s) = filter (\<lambda>e. en_deadline e \<noteq> d) (tm_queue s)"
    by (rule filter_cong [OF refl])
  then show ?thesis using Some by (simp add: cancel_remove_def)
qed

lemma step_queue:
  assumes "timer_step False s t" "inv_queue s" "inv_live s" "inv_once s"
  shows "inv_queue t"
  using assms
proof (induction rule: timer_step.induct)
  case (arm_locked d at s mem t)
  have free: "d \<notin> en_deadline ` set (tm_queue s)" using arm_locked.prems(2) arm_locked.hyps(1) by (auto simp: inv_live_def)
  then have ix: "tm_index s d = None" using index_deadline [OF arm_locked.prems(1)] by simp
  have t: "tm_queue t = queue_emplace \<lparr>en_node = tm_next s, en_at = at, en_deadline = d\<rparr> (tm_queue s)"
    "tm_index t = (tm_index s)(d \<mapsto> tm_next s)"
    using arm_locked.hyps(2) ix by (auto simp: arm_insert_def index_emplace_def Let_def split: memory.splits)
  then show ?case
    using arm_locked.prems(1) free by (auto simp: inv_queue_def sorted_queue_emplace distinct_queue_emplace)
next
  case (cancel_locked d s)
  then show ?case by (auto simp: cancel_remove_eq inv_queue_def sorted_filter distinct_map_filter)
next
  case (head s)
  then show ?case by (auto simp: inv_queue_def loop_head_def wait_on_def split: list.splits) (metis imageI)
qed (auto simp: inv_queue_def arm_insert_def notify_wake_def loop_wake_def Let_def split: memory.splits timer_thread.splits)

lemma step_once:
  assumes "timer_step False s t" "inv_once s"
  shows "inv_once t"
  using assms
proof (induction rule: timer_step.induct)
  case (arm_locked d at s mem t)
  let ?R = "unlogged (tm_worker s) @ map fst (tm_log s)"
  have t: "tm_queue t = queue_emplace \<lparr>en_node = tm_next s, en_at = at, en_deadline = d\<rparr> (tm_queue s)"
    "tm_next t = tm_next s + 1" "tm_worker t = tm_worker s" "tm_log t = tm_log s"
    using arm_locked.hyps(2) by (auto simp: arm_insert_def Let_def split: memory.splits)
  have old: "en_node x < tm_next s" if "x \<in> set (tm_queue s @ ?R)" for x
    using arm_locked.prems that unfolding inv_once_def by blast
  then have "tm_next s \<notin> en_node ` set (tm_queue s)" "tm_next s \<notin> en_node ` set ?R" by force+
  moreover have "distinct (map en_node (tm_queue s @ ?R))" using arm_locked.prems unfolding inv_once_def by blast
  ultimately have "distinct (map en_node (tm_queue t @ ?R))"
    unfolding t map_append distinct_append distinct_queue_emplace by (simp add: image_Un image_image)
  moreover have "en_node x < tm_next s + 1" if "x \<in> set (tm_queue t @ ?R)" for x
  proof (cases "x \<in> set (tm_queue s @ ?R)")
    case True
    then show ?thesis using old [OF True] by simp
  qed (use that in \<open>auto simp: t\<close>)
  ultimately show ?case unfolding inv_once_def by (simp add: t)
next
  case (cancel_locked d s)
  then show ?case by (auto simp: inv_once_def cancel_remove_def distinct_map_filter split: option.splits)
next
  case (head s)
  then show ?case
  proof (cases "\<exists>e q. tm_queue s = e # q \<and> \<not> tm_stop s \<and> en_at e \<le> tm_now s")
    case True
    then obtain e q where e: "tm_queue s = e # q" "\<not> tm_stop s" "en_at e \<le> tm_now s" by blast
    have "distinct (map en_node (e # q @ L)) = distinct (map en_node (q @ e # L))" for L by auto
    then show ?thesis using head e unfolding inv_once_def by (simp add: loop_head_def)
  next
    case False
    then show ?thesis using head by (cases "tm_queue s") (auto simp: inv_once_def loop_head_def wait_on_def)
  qed
next
  case (arm_failed d at s mem t)
  then show ?case by (auto simp: inv_once_def arm_insert_def Let_def split: memory.splits)
next
  case (arm_notify s)
  then show ?case by (cases "tm_worker s") (simp_all add: inv_once_def notify_wake_def)
next
  case (expire s e)
  have "distinct (map en_node (q @ e # L)) = distinct (map en_node (q @ L @ [e]))" for q L by auto
  then show ?case using expire unfolding inv_once_def by simp
qed (simp_all add: inv_once_def loop_wake_def)

lemma step_wake:
  assumes "timer_step False s t" "inv_wake s" "inv_queue s"
  shows "inv_wake t"
  using assms
proof (induction rule: timer_step.induct)
  case (cancel_locked d s)
  have "overlooked w (tm_queue s)" if "overlooked w (filter P (tm_queue s))" for w P
  proof -
    from that obtain x where x: "x \<in> set (tm_queue s)" "\<forall>at. w = Some at \<longrightarrow> en_at x < at"
      unfolding overlooked_def by (metis filter_is_subset hd_in_set subset_iff)
    then have "en_at (hd (tm_queue s)) \<le> en_at x"
      using cancel_locked.prems(2) by (cases "tm_queue s") (auto simp: inv_queue_def)
    then show ?thesis using x by (auto simp: overlooked_def)
  qed
  then show ?case using cancel_locked by (auto simp: inv_wake_def cancel_remove_def in_remove_other split: option.splits)
next
  case (head s)
  then show ?case
    by (auto simp: inv_wake_def loop_head_def wait_on_def split: list.splits dest: overlooked_wake)
next
  case (wake s w notified)
  then show ?case by (auto simp: inv_wake_def loop_wake_def dest: overlooked_wake)
qed (auto simp: inv_wake_def arm_insert_def notify_wake_def Let_def in_remove_other split: memory.splits timer_thread.splits)

lemma about_ge: "c \<in># M \<Longrightarrow> about d c \<le> (\<Sum>x\<in>#M. about d x)"
  using sum_task_remove [of c M "about d"] by simp

lemma about_pos: "Arming d at \<in># M \<or> Cancelling d \<in># M \<or> Draining d \<in># M \<Longrightarrow> (\<Sum>x\<in>#M. about d x) > 0"
  using about_ge [of "Arming d at" M d] about_ge [of "Cancelling d" M d] about_ge [of "Draining d" M d] by auto

lemma calls_live: "calls_ok M L \<Longrightarrow> Arming d at \<in># M \<or> Cancelling d \<in># M \<or> Draining d \<in># M \<Longrightarrow> d \<in> L"
  using about_pos [of d at M] unfolding calls_ok_def by blast

lemma calls_alone:
  assumes "calls_ok M L" "c \<in># M" "about d c = 1" "about d c' = 1"
  shows "c' \<notin># M - {#c#}"
proof -
  have "(\<Sum>x\<in>#M. about d x) \<le> 1" using assms(1) unfolding calls_ok_def by blast
  then show ?thesis using sum_task_remove [OF assms(2), of "about d"] about_ge [of c' "M - {#c#}" d] assms(3,4) by auto
qed

lemma calls_drop:
  assumes "calls_ok M L" "c \<in># M"
  shows "calls_ok (M - {#c#}) {d \<in> L. about d c = 0}"
  unfolding calls_ok_def
proof (rule allI)
  fix d
  have "(\<Sum>x\<in>#M. about d x) \<le> 1 \<and> ((\<Sum>x\<in>#M. about d x) > 0 \<longrightarrow> d \<in> L)" using assms(1) unfolding calls_ok_def by blast
  then show "(\<Sum>x\<in>#M - {#c#}. about d x) \<le> 1 \<and> ((\<Sum>x\<in>#M - {#c#}. about d x) > 0 \<longrightarrow> d \<in> {d \<in> L. about d c = 0})"
    using sum_task_remove [OF assms(2), of "about d"] by (auto simp del: sum_mset_0_iff)
qed

lemma calls_mono: "calls_ok M L \<Longrightarrow> L \<subseteq> L' \<Longrightarrow> calls_ok M L'"
  unfolding calls_ok_def by blast

lemma calls_add:
  assumes "calls_ok M L" "\<And>d. about d c = 1 \<Longrightarrow> d \<in> L' \<and> (\<Sum>x\<in>#M. about d x) = 0" "\<And>d. about d c \<le> 1" "L \<subseteq> L'"
  shows "calls_ok (add_mset c M) L'"
  unfolding calls_ok_def
proof (rule allI)
  fix d
  have "(\<Sum>x\<in>#M. about d x) \<le> 1 \<and> ((\<Sum>x\<in>#M. about d x) > 0 \<longrightarrow> d \<in> L)" using assms(1) unfolding calls_ok_def by blast
  moreover have "about d c = 0 \<or> about d c = 1" using assms(3) [of d] by linarith
  ultimately show "(\<Sum>x\<in>#add_mset c M. about d x) \<le> 1 \<and> ((\<Sum>x\<in>#add_mset c M. about d x) > 0 \<longrightarrow> d \<in> L')"
    using assms(2) [of d] assms(4) by (auto simp del: sum_mset_0_iff)
qed

lemma about_none:
  assumes "Cancelling d \<notin># M" "Draining d \<notin># M" "\<forall>at. Arming d at \<notin># M"
  shows "(\<Sum>x\<in>#M. about d x) = 0"
  using assms by (induction M) (auto elim: about.elims, metis about.elims)

lemma step_calls:
  assumes "timer_step False s t" "calls_ok (tm_callers s) (tm_live s)"
  shows "calls_ok (tm_callers t) (tm_live t)"
  using assms
proof (induction rule: timer_step.induct)
  case (arm_call d s delay)
  have "(\<Sum>x\<in>#tm_callers s. about d x) = 0" using arm_call unfolding calls_ok_def by (meson neq0_conv)
  then have "calls_ok (add_mset (Arming d (arm_at (tm_now s) delay)) (tm_callers s)) (insert d (tm_live s))"
    using arm_call.prems by (intro calls_add [where L = "tm_live s"]) (auto split: if_splits)
  then show ?case by simp
next
  case (arm_locked d at s mem t)
  have "calls_ok (tm_callers s - {#Arming d at#}) (tm_live s)"
    using calls_mono [OF calls_drop [OF arm_locked.prems arm_locked.hyps(1)]] by blast
  then have "calls_ok (add_mset Notifying (tm_callers s - {#Arming d at#})) (tm_live s)"
    by (intro calls_add [where L = "tm_live s"]) auto
  moreover have "tm_live t = tm_live s" using arm_locked.hyps(2) by (auto simp: arm_insert_def Let_def split: memory.splits)
  ultimately show ?case by simp
next
  case (arm_failed d at s mem t)
  have "{d' \<in> tm_live s. about d' (Arming d at) = 0} = tm_live s - {d}" by auto
  then show ?case using calls_drop [OF arm_failed.prems arm_failed.hyps(1)] by simp
next
  case (arm_notify s)
  then show ?case using calls_drop [OF arm_notify.prems arm_notify.hyps(1)] by (auto simp: notify_wake_def split: timer_thread.splits)
next
  case (cancel_call d s)
  then have "calls_ok (add_mset (Cancelling d) (tm_callers s)) (tm_live s)"
    using about_none [of d "tm_callers s"] by (intro calls_add [where L = "tm_live s"]) (auto split: if_splits)
  then show ?case by simp
next
  case (cancel_locked d s)
  have d: "d \<in> tm_live s" using calls_live [OF cancel_locked.prems] cancel_locked.hyps by blast
  have drop: "calls_ok (tm_callers s - {#Cancelling d#}) (tm_live s - {d})"
    by (rule calls_mono [OF calls_drop [OF cancel_locked.prems cancel_locked.hyps]]) (auto split: if_splits)
  then have "(\<Sum>x\<in>#tm_callers s - {#Cancelling d#}. about d x) = 0" unfolding calls_ok_def by (meson DiffD2 insertI1 neq0_conv)
  then have "calls_ok (add_mset (Draining d) (tm_callers s - {#Cancelling d#})) (tm_live s)"
    using drop d by (intro calls_add [where L = "tm_live s - {d}"]) (auto split: if_splits)
  then show ?case by (simp add: cancel_remove_def split: option.splits)
next
  case (cancel_return d s)
  have "{d' \<in> tm_live s. about d' (Draining d) = 0} = tm_live s - {d}" by auto
  then show ?case using calls_drop [OF cancel_return.prems cancel_return.hyps(1)] by simp
qed (auto simp: timer_defs split: list.splits)

lemma step_live:
  assumes "timer_step False s t" "inv_live s" "calls_ok (tm_callers s) (tm_live s)" "inv_queue s" "inv_once s"
  shows "inv_live t"
  using assms
proof (induction rule: timer_step.induct)
  case (arm_locked d at s mem t)
  have t: "tm_queue t = queue_emplace \<lparr>en_node = tm_next s, en_at = at, en_deadline = d\<rparr> (tm_queue s)"
    "tm_worker t = tm_worker s" "tm_firing t = tm_firing s" "tm_live t = tm_live s"
    using arm_locked.hyps(2) by (auto simp: arm_insert_def Let_def split: memory.splits)
  have d: "d \<in> tm_live s" "tm_firing s \<noteq> Some d" "Draining d \<notin># tm_callers s - {#Arming d at#}"
    "Arming d at' \<notin># tm_callers s - {#Arming d at#}" for at'
    using arm_locked.prems(1) arm_locked.hyps(1) calls_live [OF arm_locked.prems(2)]
      calls_alone [OF arm_locked.prems(2) arm_locked.hyps(1), of d] by (auto simp: inv_live_def)
  show ?case using arm_locked.prems(1) d by (auto simp: inv_live_def t dest: in_diffD)
next
  case (arm_failed d at s mem t)
  have t: "t = s" using arm_failed.hyps(2,3) by (auto simp: arm_insert_def Let_def split: memory.splits)
  show ?case using arm_failed.prems(1) arm_failed.hyps(1) by (auto simp: inv_live_def t dest: in_diffD)
next
  case (arm_notify s)
  then show ?case by (auto simp: inv_live_def notify_wake_def dest: in_diffD split: timer_thread.splits)
next
  case (cancel_locked d s)
  then show ?case by (auto simp: inv_live_def cancel_remove_eq dest: in_diffD)
next
  case (cancel_return d s)
  then show ?case by (auto simp: inv_live_def dest: in_diffD)
next
  case (head s)
  then show ?case
    by (auto simp: inv_live_def inv_queue_def loop_head_def wait_on_def split: list.splits)
qed (auto simp: inv_live_def loop_wake_def)

lemma timer_inv_step: "timer_inv s \<Longrightarrow> timer_step False s t \<Longrightarrow> timer_inv t"
  unfolding timer_inv_def using step_queue step_once step_live step_calls step_time step_wake by blast

interpretation timer: inductive_invariant "\<lambda>s. s = Timer_new now" "timer_step False" timer_inv for now
  by unfold_locales (auto simp: timer_inv_new intro: timer_inv_step)

section \<open>Deadlines\<close>

text \<open>The time of expiry never wraps around: it is the requested one, or the last time point when that is a millisecond away or less.\<close>

lemma arm_at_bounds:
  assumes "0 \<le> now" "now \<le> time_point_max" "0 \<le> delay"
  shows "arm_at now delay \<le> time_point_max" "now \<le> arm_at now delay"
    "arm_at now delay = now + delay * 1000000 \<or> arm_at now delay = time_point_max \<and> time_point_max < now + (delay + 1) * 1000000"
proof -
  define room where "room = (time_point_max - now) div 1000000"
  have "time_point_max - now = room * 1000000 + (time_point_max - now) mod 1000000"
    "0 \<le> (time_point_max - now) mod 1000000" "(time_point_max - now) mod 1000000 < 1000000"
    unfolding room_def by simp_all
  then show "arm_at now delay \<le> time_point_max" "now \<le> arm_at now delay"
    "arm_at now delay = now + delay * 1000000 \<or> arm_at now delay = time_point_max \<and> time_point_max < now + (delay + 1) * 1000000"
    using assms by (auto simp: arm_at_def Let_def room_def [symmetric])
qed

lemma alive_unless_forgotten:
  assumes "timer_inv s" "d \<notin> tm_live s"
  shows "tm_index s d = None" "d \<notin> en_deadline ` set (tm_queue s)" "tm_firing s \<noteq> Some d"
  using assms index_deadline [of s d] by (auto simp: timer_inv_def inv_live_def)

lemma current_alive: "timer_inv s \<Longrightarrow> e \<in> set (current (tm_worker s)) \<Longrightarrow> en_deadline e \<in> tm_live s"
  by (cases "tm_worker s") (auto simp: timer_inv_def inv_live_def)

lemma sleeper_attended:
  assumes "timer_inv s" "tm_worker s = Asleep w notified" "e \<in> set (tm_queue s)"
  shows "notified \<or> Notifying \<in># tm_callers s \<or> (\<exists>at. w = Some at \<and> at \<le> en_at e)"
proof -
  have "en_at (hd (tm_queue s)) \<le> en_at e"
    using assms(1,3) by (cases "tm_queue s") (auto simp: timer_inv_def inv_queue_def)
  moreover have "overlooked w (tm_queue s) \<longrightarrow> notified \<or> Notifying \<in># tm_callers s"
    using assms(1,2) by (cases notified) (auto simp: timer_inv_def inv_wake_def)
  ultimately show ?thesis using assms(3) by (auto simp: overlooked_def)
qed

text \<open>
  C25. In every interleaving of the timer thread with callers of \<^verbatim>\<open>arm\<close> and \<^verbatim>\<open>cancelAndWait\<close>, as long as the index does not run out of memory:
  a deadline whose expiry is under way is still kept by its owner; once \<^verbatim>\<open>cancelAndWait\<close> has returned the service
  holds no trace of the deadline and is not running its expiry; no registration expires before its time or
  twice; and a timer thread that sleeps while registrations are queued has been notified, is about to be, or wakes no later than the
  first of them.
\<close>

theorem deadlines_expire_in_time_and_once:
  assumes "reach (\<lambda>s. s = Timer_new now) (timer_step False) s"
  shows "(\<forall>e\<in>set (current (tm_worker s)). en_deadline e \<in> tm_live s)
    \<and> (\<forall>d. d \<notin> tm_live s \<longrightarrow> tm_index s d = None \<and> d \<notin> en_deadline ` set (tm_queue s) \<and> tm_firing s \<noteq> Some d)
    \<and> (\<forall>(e, t)\<in>set (tm_log s). en_at e \<le> t) \<and> distinct (map (\<lambda>(e, t). en_node e) (tm_log s))
    \<and> (\<forall>w notified. \<forall>e\<in>set (tm_queue s). tm_worker s = Asleep w notified \<longrightarrow>
         notified \<or> Notifying \<in># tm_callers s \<or> (\<exists>at. w = Some at \<and> at \<le> en_at e))"
proof -
  have inv: "timer_inv s" using timer.reach_inv [OF assms] .
  then have "\<forall>(e, t)\<in>set (tm_log s). en_at e \<le> t" "distinct (map (\<lambda>(e, t). en_node e) (tm_log s))"
    by (auto simp: timer_inv_def inv_time_def inv_once_def comp_def case_prod_unfold)
  then show ?thesis
    using alive_unless_forgotten [OF inv] current_alive [OF inv] sleeper_attended [OF inv] by blast
qed

text \<open>Deadline 7 is armed for one millisecond; the timer thread finds it due two milliseconds later.\<close>

abbreviation example_entry :: Entry where
  "example_entry \<equiv> \<lparr>en_node = 0, en_at = 1000000, en_deadline = 7\<rparr>"

definition example_armed :: Timer where
  "example_armed = (Timer_new 0)\<lparr>tm_live := {7}, tm_queue := [example_entry], tm_index := [7 \<mapsto> 0], tm_next := 1,
     tm_callers := {#Notifying#}\<rparr>"

lemma reach_arming:
  "reach (\<lambda>s. s = Timer_new 0) (timer_step tight) ((Timer_new 0)\<lparr>tm_live := {7}, tm_callers := {#Arming 7 1000000#}\<rparr>)"
proof -
  have "reach (\<lambda>s. s = Timer_new 0) (timer_step tight) (Timer_new 0)" by (rule reach_init) (rule refl)
  from reach_step [OF this timer_step.arm_call [of 7 _ _ 1]] show ?thesis
    by (simp add: Timer_new_def arm_at_def time_point_max_def)
qed

lemma reach_armed: "reach (\<lambda>s. s = Timer_new 0) (timer_step False) example_armed"
proof -
  let ?s = "(Timer_new 0)\<lparr>tm_live := {7}, tm_callers := {#Arming 7 1000000#}\<rparr>"
  have "timer_step False ?s ((fst (arm_insert Enough 7 1000000 ?s))\<lparr>tm_callers := add_mset Notifying (tm_callers ?s - {#Arming 7 1000000#})\<rparr>)"
    by (rule timer_step.arm_locked [where mem = Enough]) (simp_all add: arm_insert_def Let_def)
  from reach_step [where init = "\<lambda>s. s = Timer_new 0" and step = "timer_step False", OF reach_arming this] show ?thesis
    by (simp add: example_armed_def arm_insert_def Timer_new_def index_emplace_def queue_emplace_Nil)
qed

lemma reach_due:
  assumes "reach init (timer_step tight) s" "tm_queue s = [e]" "en_at e \<le> t" "tm_now s \<le> t" "tm_worker s = Head" "\<not> tm_stop s"
  shows "reach init (timer_step tight) (s\<lparr>tm_now := t, tm_index := (tm_index s)(en_deadline e := None), tm_queue := [],
    tm_firing := Some (en_deadline e), tm_worker := Expiring e\<rparr>)"
  using reach_step [OF reach_step [OF assms(1) timer_step.tick [OF assms(4)]] timer_step.head] assms(2,3,5,6)
  by (simp add: loop_head_def)

theorem deadlines_expire_in_time_and_once_witness:
  "\<exists>s. reach (\<lambda>s. s = Timer_new 0) (timer_step False) s \<and> tm_worker s = Expiring example_entry \<and> 7 \<in> tm_live s"
proof -
  have r: "reach (\<lambda>s. s = Timer_new 0) (timer_step False) (example_armed\<lparr>tm_now := 2000000,
      tm_index := (tm_index example_armed)(7 := None), tm_queue := [], tm_firing := Some 7, tm_worker := Expiring example_entry\<rparr>)"
    using reach_due [OF reach_armed, of example_entry 2000000] by (simp add: example_armed_def Timer_new_def)
  from deadlines_expire_in_time_and_once [OF this] r show ?thesis by force
qed

text \<open>
  When the allocation for the index throws, \<^verbatim>\<open>arm\<close> reports failure but leaves its entry in the queue: the timer thread later expires a
  deadline that its owner has destroyed.
\<close>

lemma failed_arm_still_expires:
  "\<exists>s. reach (\<lambda>s. s = Timer_new 0) (timer_step True) s \<and> tm_worker s = Expiring example_entry \<and> 7 \<notin> tm_live s"
proof -
  let ?s = "(Timer_new 0)\<lparr>tm_queue := [example_entry], tm_next := 1\<rparr>"
  let ?a = "(Timer_new 0)\<lparr>tm_live := {7}, tm_callers := {#Arming 7 1000000#}\<rparr>"
  have "timer_step True ?a ((fst (arm_insert NoIndex 7 1000000 ?a))\<lparr>tm_live := tm_live ?a - {7}, tm_callers := tm_callers ?a - {#Arming 7 1000000#}\<rparr>)"
    by (rule timer_step.arm_failed [where mem = NoIndex]) (simp_all add: arm_insert_def Let_def)
  from reach_step [where init = "\<lambda>s. s = Timer_new 0" and step = "timer_step True", OF reach_arming this] have "reach (\<lambda>s. s = Timer_new 0) (timer_step True) ?s"
    by (simp add: arm_insert_def Timer_new_def queue_emplace_Nil)
  then have "reach (\<lambda>s. s = Timer_new 0) (timer_step True) (?s\<lparr>tm_now := 2000000,
      tm_index := (tm_index ?s)(en_deadline example_entry := None), tm_queue := [], tm_firing := Some (en_deadline example_entry),
      tm_worker := Expiring example_entry\<rparr>)"
    by (rule reach_due) (simp_all add: Timer_new_def)
  then show ?thesis by (intro exI conjI) (assumption, simp_all add: Timer_new_def)
qed

end
