(* ===== verification/Executors.thy ===== *)
theory Executors
  imports PipelineTypes TaskBags
begin

text \<open>
  The other bundled executors: \<^verbatim>\<open>DesktopExecutor\<close> (\<^verbatim>\<open>platform/desktop/desktop_executor.cpp\<close>), one thread per job;
  \<^verbatim>\<open>FreeRtosExecutor\<close> (\<^verbatim>\<open>platform/esp32p4/freertos_executor.cpp\<close>), one task per job; \<^verbatim>\<open>ScopedExecutor\<close> (\<^verbatim>\<open>executor/scoped_executor.hpp\<close>), which
  waits for its own share of a parent's work; and \<^verbatim>\<open>SequentialExecutor\<close>. The first three count jobs in flight and let \<^verbatim>\<open>waitAll\<close> go when the count
  is zero. What a count of zero then means is proved once, in the locale \<open>counting_executor\<close>.

  Steps are the regions under a mutex and the atomic operations; threads that run jobs, callers of \<^verbatim>\<open>dispatch\<close> and callers of \<^verbatim>\<open>waitAll\<close>
  are interleaved in every order. Jobs are numbers.
\<close>

section \<open>Jobs in flight\<close>

text \<open>
  Where the thread that has a job is: calling \<^verbatim>\<open>fn\<close>, calling \<^verbatim>\<open>onComplete\<close>, about to publish that it has finished, and, for a FreeRTOS
  task, between the semaphore and the counter.
\<close>

datatype phase = InFn | InOnComplete | Publishing | Leaving

record Ledger =
  lg_tasks :: "(nat \<times> phase) multiset"
  lg_accepted :: "nat multiset"
  lg_ran :: "nat multiset"
  lg_completed :: "nat multiset"
  lg_closed :: "nat multiset"

definition Ledger_new :: Ledger where
  "Ledger_new = \<lparr>lg_tasks = {#}, lg_accepted = {#}, lg_ran = {#}, lg_completed = {#}, lg_closed = {#}\<rparr>"

definition accept :: "nat \<Rightarrow> Ledger \<Rightarrow> Ledger" where
  "accept j l = l\<lparr>lg_tasks := add_mset (j, InFn) (lg_tasks l), lg_accepted := add_mset j (lg_accepted l)\<rparr>"

definition move :: "nat \<Rightarrow> phase \<Rightarrow> phase \<Rightarrow> Ledger \<Rightarrow> Ledger" where
  "move j p q l = l\<lparr>lg_tasks := add_mset (j, q) (lg_tasks l - {#(j, p)#})\<rparr>"

definition call_fn :: "nat \<Rightarrow> Ledger \<Rightarrow> Ledger" where
  "call_fn j l = (move j InFn InOnComplete l)\<lparr>lg_ran := add_mset j (lg_ran l)\<rparr>"

definition call_onComplete :: "nat \<Rightarrow> Ledger \<Rightarrow> Ledger" where
  "call_onComplete j l = (move j InOnComplete Publishing l)\<lparr>lg_completed := add_mset j (lg_completed l)\<rparr>"

definition close :: "nat \<Rightarrow> phase \<Rightarrow> Ledger \<Rightarrow> Ledger" where
  "close j p l = l\<lparr>lg_tasks := lg_tasks l - {#(j, p)#}, lg_closed := add_mset j (lg_closed l)\<rparr>"

section \<open>The desktop executor\<close>

text \<open>
  A caller of \<^verbatim>\<open>waitAll\<close>: at the condition of its loop, waiting for \<^verbatim>\<open>idle_\<close>, joining threads outside the mutex. The \<open>n\<close>-th
  accepted job runs on thread \<open>n\<close>; \<open>dk_thread\<close> says which threads run a job, \<open>dk_exited\<close> which have published and returned.
\<close>

datatype waiter = AtCheck | AwaitingIdle | Joining "nat list"

record Desktop =
  dk_ledger :: Ledger
  dk_threads :: "nat list"
  dk_inFlight :: u32
  dk_waiters :: "waiter multiset"
  dk_started :: nat
  dk_thread :: "nat \<rightharpoonup> nat"
  dk_joined :: "nat list"

definition Desktop_new :: Desktop where
  "Desktop_new = \<lparr>dk_ledger = Ledger_new, dk_threads = [], dk_inFlight = 0, dk_waiters = {#}, dk_started = 0,
     dk_thread = Map.empty, dk_joined = []\<rparr>"

definition desktop_dispatch :: "nat \<Rightarrow> Desktop \<Rightarrow> Desktop" where
  "desktop_dispatch j s =
     s\<lparr>dk_threads := dk_threads s @ [dk_started s], dk_ledger := accept j (dk_ledger s), dk_inFlight := dk_inFlight s + 1,
       dk_thread := (dk_thread s)(dk_started s \<mapsto> j), dk_started := dk_started s + 1\<rparr>"

definition desktop_publish :: "nat \<Rightarrow> nat \<Rightarrow> Desktop \<Rightarrow> Desktop" where
  "desktop_publish t j s =
     s\<lparr>dk_ledger := close j Publishing (dk_ledger s), dk_inFlight := dk_inFlight s - 1, dk_thread := (dk_thread s)(t := None)\<rparr>"

definition swap_waiter :: "waiter \<Rightarrow> waiter \<Rightarrow> Desktop \<Rightarrow> Desktop" where
  "swap_waiter a b s = s\<lparr>dk_waiters := add_mset b (dk_waiters s - {#a#})\<rparr>"

text \<open>The condition of the loop of \<^verbatim>\<open>waitAll\<close>; a caller that finds it false returns.\<close>

definition desktop_busy :: "Desktop \<Rightarrow> bool" where
  "desktop_busy s \<longleftrightarrow> dk_inFlight s \<noteq> 0 \<or> dk_threads s \<noteq> []"

inductive desktop_step :: "Desktop \<Rightarrow> Desktop \<Rightarrow> bool" where
  dispatch: "desktop_step s (desktop_dispatch j s)"
| dispatch_throws: "desktop_step s s"
| fn: "(j, InFn) \<in># lg_tasks (dk_ledger s) \<Longrightarrow> desktop_step s (s\<lparr>dk_ledger := call_fn j (dk_ledger s)\<rparr>)"
| onComplete: "(j, InOnComplete) \<in># lg_tasks (dk_ledger s) \<Longrightarrow> desktop_step s (s\<lparr>dk_ledger := call_onComplete j (dk_ledger s)\<rparr>)"
| publish: "(j, Publishing) \<in># lg_tasks (dk_ledger s) \<Longrightarrow> dk_thread s t = Some j \<Longrightarrow> desktop_step s (desktop_publish t j s)"
| wait_call: "desktop_step s (s\<lparr>dk_waiters := add_mset AtCheck (dk_waiters s)\<rparr>)"
| wait_return: "AtCheck \<in># dk_waiters s \<Longrightarrow> \<not> desktop_busy s \<Longrightarrow> desktop_step s (s\<lparr>dk_waiters := dk_waiters s - {#AtCheck#}\<rparr>)"
| wait_loop: "AtCheck \<in># dk_waiters s \<Longrightarrow> desktop_busy s \<Longrightarrow> desktop_step s (swap_waiter AtCheck AwaitingIdle s)"
| wait_idle: "AwaitingIdle \<in># dk_waiters s \<Longrightarrow> dk_inFlight s = 0 \<Longrightarrow>
    desktop_step s ((swap_waiter AwaitingIdle (Joining (dk_threads s)) s)\<lparr>dk_threads := []\<rparr>)"
| join: "Joining (t # ts) \<in># dk_waiters s \<Longrightarrow> dk_thread s t = None \<Longrightarrow>
    desktop_step s ((swap_waiter (Joining (t # ts)) (Joining ts) s)\<lparr>dk_joined := dk_joined s @ [t]\<rparr>)"
| relock: "Joining [] \<in># dk_waiters s \<Longrightarrow> desktop_step s (swap_waiter (Joining []) AtCheck s)"

section \<open>The FreeRTOS executor\<close>

text \<open>What \<^verbatim>\<open>dispatch\<close> asks of \<^verbatim>\<open>xTaskCreatePinnedToCore\<close>; \<open>None\<close> is \<^verbatim>\<open>tskNO_AFFINITY\<close>.\<close>

record TaskParams =
  tp_name :: string
  tp_stack :: u32
  tp_priority :: u8
  tp_core :: "int option"

definition clamp_priority :: "u8 \<Rightarrow> u8" where
  "clamp_priority p = (if p < 1 then 1 else if 24 < p then 24 else p)"

definition task_params :: "string \<Rightarrow> int \<Rightarrow> u8 \<Rightarrow> u32 \<Rightarrow> TaskParams" where
  "task_params name coreAffinity priority stackBytes =
     \<lparr>tp_name = take 15 name, tp_stack = stackBytes, tp_priority = clamp_priority priority,
      tp_core = if 0 \<le> coreAffinity \<and> coreAffinity \<le> 1 then Some coreAffinity else None\<rparr>"

text \<open>
  \<^verbatim>\<open>dispatch\<close> never rejects a job: without memory for its context, or when the task cannot be created, the calling thread runs it, through the
  same phases. \<open>fr_created\<close> records the tasks that were created.
\<close>

datatype fr_waiter = FrCheck | FrTake

record FreeRtos =
  fr_ledger :: Ledger
  fr_inFlight :: u32
  fr_sem :: nat
  fr_waiters :: "fr_waiter multiset"
  fr_created :: "TaskParams list"

definition FreeRtos_new :: FreeRtos where
  "FreeRtos_new = \<lparr>fr_ledger = Ledger_new, fr_inFlight = 0, fr_sem = 0, fr_waiters = {#}, fr_created = []\<rparr>"

definition freertos_dispatch :: "TaskParams option \<Rightarrow> nat \<Rightarrow> FreeRtos \<Rightarrow> FreeRtos" where
  "freertos_dispatch task j s =
     s\<lparr>fr_ledger := accept j (fr_ledger s), fr_inFlight := fr_inFlight s + 1,
       fr_created := (case task of None \<Rightarrow> fr_created s | Some p \<Rightarrow> fr_created s @ [p])\<rparr>"

text \<open>\<^verbatim>\<open>xSemaphoreGive\<close> on a counting semaphore with the maximum \<^verbatim>\<open>0x7FFFFFFF\<close>; giving a full one fails, which the code ignores.\<close>

definition sem_give :: "nat \<Rightarrow> nat" where
  "sem_give n = (if n < 0x7FFFFFFF then n + 1 else n)"

inductive freertos_step :: "FreeRtos \<Rightarrow> FreeRtos \<Rightarrow> bool" where
  dispatch: "task = None \<or> task = Some (task_params name core priority stack) \<Longrightarrow> freertos_step s (freertos_dispatch task j s)"
| fn: "(j, InFn) \<in># lg_tasks (fr_ledger s) \<Longrightarrow> freertos_step s (s\<lparr>fr_ledger := call_fn j (fr_ledger s)\<rparr>)"
| onComplete: "(j, InOnComplete) \<in># lg_tasks (fr_ledger s) \<Longrightarrow> freertos_step s (s\<lparr>fr_ledger := call_onComplete j (fr_ledger s)\<rparr>)"
| give: "(j, Publishing) \<in># lg_tasks (fr_ledger s) \<Longrightarrow>
    freertos_step s (s\<lparr>fr_ledger := move j Publishing Leaving (fr_ledger s), fr_sem := sem_give (fr_sem s)\<rparr>)"
| leave: "(j, Leaving) \<in># lg_tasks (fr_ledger s) \<Longrightarrow>
    freertos_step s (s\<lparr>fr_ledger := close j Leaving (fr_ledger s), fr_inFlight := fr_inFlight s - 1\<rparr>)"
| wait_call: "freertos_step s (s\<lparr>fr_waiters := add_mset FrCheck (fr_waiters s)\<rparr>)"
| wait_return: "FrCheck \<in># fr_waiters s \<Longrightarrow> fr_inFlight s = 0 \<Longrightarrow> freertos_step s (s\<lparr>fr_waiters := fr_waiters s - {#FrCheck#}\<rparr>)"
| wait_loop: "FrCheck \<in># fr_waiters s \<Longrightarrow> fr_inFlight s \<noteq> 0 \<Longrightarrow>
    freertos_step s (s\<lparr>fr_waiters := add_mset FrTake (fr_waiters s - {#FrCheck#})\<rparr>)"
| take: "FrTake \<in># fr_waiters s \<Longrightarrow>
    freertos_step s (s\<lparr>fr_sem := fr_sem s - 1, fr_waiters := add_mset FrCheck (fr_waiters s - {#FrTake#})\<rparr>)"

section \<open>The scoped executor\<close>

text \<open>
  The parent takes or refuses each job it is given; a job it took it runs as the interface \<^verbatim>\<open>IExecutor\<close> says: \<^verbatim>\<open>fn\<close> once, then
  \<^verbatim>\<open>onComplete\<close>, on whatever thread and whenever it likes. \<open>sc_entering\<close> are the calls of \<^verbatim>\<open>dispatch\<close> that have counted their job and are inside
  the parent.
\<close>

record Scoped =
  sc_ledger :: Ledger
  sc_inFlight :: u32
  sc_entering :: "nat multiset"
  sc_waiters :: nat

definition Scoped_new :: Scoped where
  "Scoped_new = \<lparr>sc_ledger = Ledger_new, sc_inFlight = 0, sc_entering = {#}, sc_waiters = 0\<rparr>"

definition finishDispatch :: "Scoped \<Rightarrow> Scoped" where
  "finishDispatch s = s\<lparr>sc_inFlight := sc_inFlight s - 1\<rparr>"

inductive scoped_step :: "Scoped \<Rightarrow> Scoped \<Rightarrow> bool" where
  dispatch: "scoped_step s (s\<lparr>sc_inFlight := sc_inFlight s + 1, sc_entering := add_mset j (sc_entering s)\<rparr>)"
| accepted: "j \<in># sc_entering s \<Longrightarrow> scoped_step s (s\<lparr>sc_entering := sc_entering s - {#j#}, sc_ledger := accept j (sc_ledger s)\<rparr>)"
| refused: "j \<in># sc_entering s \<Longrightarrow> scoped_step s (finishDispatch (s\<lparr>sc_entering := sc_entering s - {#j#}\<rparr>))"
| fn: "(j, InFn) \<in># lg_tasks (sc_ledger s) \<Longrightarrow> scoped_step s (s\<lparr>sc_ledger := call_fn j (sc_ledger s)\<rparr>)"
| onComplete: "(j, InOnComplete) \<in># lg_tasks (sc_ledger s) \<Longrightarrow> scoped_step s (s\<lparr>sc_ledger := call_onComplete j (sc_ledger s)\<rparr>)"
| finish: "(j, Publishing) \<in># lg_tasks (sc_ledger s) \<Longrightarrow> scoped_step s (finishDispatch (s\<lparr>sc_ledger := close j Publishing (sc_ledger s)\<rparr>))"
| wait_call: "scoped_step s (s\<lparr>sc_waiters := sc_waiters s + 1\<rparr>)"
| wait_return: "sc_waiters s > 0 \<Longrightarrow> sc_inFlight s = 0 \<Longrightarrow> scoped_step s (s\<lparr>sc_waiters := sc_waiters s - 1\<rparr>)"

section \<open>The sequential executor\<close>

text \<open>The jobs are functions on the state of the program; \<^verbatim>\<open>onComplete\<close> may be empty.\<close>

definition sequential_dispatch :: "('s \<Rightarrow> 's) \<Rightarrow> ('s \<Rightarrow> 's) option \<Rightarrow> 's \<Rightarrow> 's" where
  "sequential_dispatch fn onComplete s = (case onComplete of None \<Rightarrow> fn s | Some oc \<Rightarrow> oc (fn s))"

section \<open>What a count of zero means\<close>

definition ledger_ok :: "Ledger \<Rightarrow> bool" where
  "ledger_ok l \<longleftrightarrow> lg_accepted l = lg_closed l + image_mset fst (lg_tasks l)
     \<and> lg_ran l = lg_closed l + image_mset fst (filter_mset (\<lambda>t. snd t \<noteq> InFn) (lg_tasks l))
     \<and> lg_completed l = lg_closed l + image_mset fst (filter_mset (\<lambda>t. snd t \<in> {Publishing, Leaving}) (lg_tasks l))"

lemma ledger_new [simp]: "ledger_ok Ledger_new"
  by (simp add: ledger_ok_def Ledger_new_def)

lemma ledger_accept [simp]: "ledger_ok l \<Longrightarrow> ledger_ok (accept j l)"
  by (simp add: ledger_ok_def accept_def)

text \<open>A task that is there is the rest of the multiset and itself.\<close>

lemma ledger_task:
  assumes "(j, p) \<in># lg_tasks l"
  obtains M where "lg_tasks l = add_mset (j, p) M"
  using assms by (metis insert_DiffM)

lemma ledger_calls [simp]:
  "ledger_ok l \<Longrightarrow> (j, InFn) \<in># lg_tasks l \<Longrightarrow> ledger_ok (call_fn j l)"
  "ledger_ok l \<Longrightarrow> (j, InOnComplete) \<in># lg_tasks l \<Longrightarrow> ledger_ok (call_onComplete j l)"
  "ledger_ok l \<Longrightarrow> (j, Publishing) \<in># lg_tasks l \<Longrightarrow> ledger_ok (move j Publishing Leaving l)"
  "ledger_ok l \<Longrightarrow> (j, p) \<in># lg_tasks l \<Longrightarrow> p \<in> {Publishing, Leaving} \<Longrightarrow> ledger_ok (close j p l)"
  by (auto elim!: ledger_task simp: ledger_ok_def call_fn_def call_onComplete_def move_def close_def)

lemma ledger_size [simp]:
  "size (lg_tasks (accept j l)) = Suc (size (lg_tasks l))"
  "(j, InFn) \<in># lg_tasks l \<Longrightarrow> size (lg_tasks (call_fn j l)) = size (lg_tasks l)"
  "(j, InOnComplete) \<in># lg_tasks l \<Longrightarrow> size (lg_tasks (call_onComplete j l)) = size (lg_tasks l)"
  "(j, p) \<in># lg_tasks l \<Longrightarrow> size (lg_tasks (move j p q l)) = size (lg_tasks l)"
  by (auto elim!: ledger_task simp: accept_def call_fn_def call_onComplete_def move_def)

lemma ledger_close_size: "(j, p) \<in># lg_tasks l \<Longrightarrow> size (lg_tasks l) = Suc (size (lg_tasks (close j p l)))"
  by (auto elim!: ledger_task simp: close_def)

text \<open>
  The contract: an executor that keeps its ledger and counts what it has in flight. \<open>pending\<close> are jobs that are counted but not
  accepted yet.
\<close>

locale counting_executor =
  fixes init :: "'s \<Rightarrow> bool"
    and step :: "'s \<Rightarrow> 's \<Rightarrow> bool"
    and ledger :: "'s \<Rightarrow> Ledger"
    and pending :: "'s \<Rightarrow> nat"
    and counter :: "'s \<Rightarrow> u32"
  assumes init_counts: "init s \<Longrightarrow> ledger_ok (ledger s) \<and> counter s = of_nat (size (lg_tasks (ledger s)) + pending s)"
    and step_counts: "ledger_ok (ledger s) \<Longrightarrow> counter s = of_nat (size (lg_tasks (ledger s)) + pending s) \<Longrightarrow> step s t \<Longrightarrow>
      ledger_ok (ledger t) \<and> counter t = of_nat (size (lg_tasks (ledger t)) + pending t)"
begin

lemma counts:
  "reach init step s \<Longrightarrow> ledger_ok (ledger s) \<and> counter s = of_nat (size (lg_tasks (ledger s)) + pending s)"
  by (induction rule: reach.induct) (use init_counts step_counts in blast)+

lemma exact:
  assumes "reach init step s" "size (lg_tasks (ledger s)) + pending s < 2 ^ 32"
  shows "unat (counter s) = size (lg_tasks (ledger s)) + pending s"
  using counts [OF assms(1)] assms(2) by (simp add: unat_of_nat take_bit_eq_mod del: of_nat_add)

lemma idle_means_done:
  assumes "reach init step s" "size (lg_tasks (ledger s)) + pending s < 2 ^ 32" "counter s = 0"
  shows "lg_tasks (ledger s) = {#}" "pending s = 0" "lg_ran (ledger s) = lg_accepted (ledger s)"
    "lg_completed (ledger s) = lg_accepted (ledger s)"
proof -
  show "lg_tasks (ledger s) = {#}" "pending s = 0" using exact [OF assms(1,2)] assms(3) by simp_all
  then show "lg_ran (ledger s) = lg_accepted (ledger s)" "lg_completed (ledger s) = lg_accepted (ledger s)"
    using counts [OF assms(1)] by (simp_all add: ledger_ok_def)
qed

lemma calls_in_order:
  "reach init step s \<Longrightarrow> lg_completed (ledger s) \<subseteq># lg_ran (ledger s) \<and> lg_ran (ledger s) \<subseteq># lg_accepted (ledger s)"
  using counts [of s] by (auto simp: ledger_ok_def intro!: image_mset_subseteq_mono filter_mset_mono_strong)

end

lemmas executor_defs = desktop_dispatch_def desktop_publish_def swap_waiter_def freertos_dispatch_def finishDispatch_def

interpretation desktop: counting_executor "\<lambda>s. s = Desktop_new" desktop_step dk_ledger "\<lambda>s. 0" dk_inFlight
proof unfold_locales
  fix s t
  assume s: "ledger_ok (dk_ledger s)" "dk_inFlight s = of_nat (size (lg_tasks (dk_ledger s)) + 0)" and st: "desktop_step s t"
  from st s show "ledger_ok (dk_ledger t) \<and> dk_inFlight t = of_nat (size (lg_tasks (dk_ledger t)) + 0)"
    by (induction rule: desktop_step.induct) (auto simp: executor_defs ledger_close_size)
qed (simp add: Desktop_new_def Ledger_new_def ledger_new [unfolded Ledger_new_def])

interpretation freertos: counting_executor "\<lambda>s. s = FreeRtos_new" freertos_step fr_ledger "\<lambda>s. 0" fr_inFlight
proof unfold_locales
  fix s t
  assume s: "ledger_ok (fr_ledger s)" "fr_inFlight s = of_nat (size (lg_tasks (fr_ledger s)) + 0)" and st: "freertos_step s t"
  from st s show "ledger_ok (fr_ledger t) \<and> fr_inFlight t = of_nat (size (lg_tasks (fr_ledger t)) + 0)"
    by (induction rule: freertos_step.induct) (auto simp: executor_defs ledger_close_size)
qed (simp add: FreeRtos_new_def Ledger_new_def ledger_new [unfolded Ledger_new_def])

interpretation scoped: counting_executor "\<lambda>s. s = Scoped_new" scoped_step sc_ledger "\<lambda>s. size (sc_entering s)" sc_inFlight
proof unfold_locales
  fix s t
  assume s: "ledger_ok (sc_ledger s)" "sc_inFlight s = of_nat (size (lg_tasks (sc_ledger s)) + size (sc_entering s))" and st: "scoped_step s t"
  from st s show "ledger_ok (sc_ledger t) \<and> sc_inFlight t = of_nat (size (lg_tasks (sc_ledger t)) + size (sc_entering t))"
    by (induction rule: scoped_step.induct)
       (auto simp: executor_defs ledger_close_size size_Diff_singleton_if dest!: multi_member_split)
qed (simp add: Scoped_new_def Ledger_new_def ledger_new [unfolded Ledger_new_def])

section \<open>Threads and task parameters\<close>

text \<open>Every thread the desktop executor has started is waiting to be joined, being joined or joined.\<close>

fun joining :: "waiter \<Rightarrow> nat multiset" where
  "joining (Joining ts) = mset ts"
| "joining _ = {#}"

definition threads_ok :: "Desktop \<Rightarrow> bool" where
  "threads_ok s \<longleftrightarrow> mset (dk_threads s) + (\<Sum>w\<in>#dk_waiters s. joining w) + mset (dk_joined s) = mset [0..<dk_started s]"

lemma threads_ok_step: "threads_ok s \<Longrightarrow> desktop_step s t \<Longrightarrow> threads_ok t"
  by (erule desktop_step.cases)
     (auto simp: threads_ok_def executor_defs desktop_busy_def dest!: multi_member_split)

interpretation desktop_threads: inductive_invariant "\<lambda>s. s = Desktop_new" desktop_step threads_ok
  by unfold_locales (simp add: threads_ok_def Desktop_new_def, rule threads_ok_step)

definition params_ok :: "TaskParams \<Rightarrow> bool" where
  "params_ok p \<longleftrightarrow> 1 \<le> tp_priority p \<and> tp_priority p \<le> 24 \<and> length (tp_name p) \<le> 15 \<and> tp_core p \<in> {None, Some 0, Some 1}"

lemma task_params_ok: "params_ok (task_params name core priority stack)"
  by (auto simp: params_ok_def task_params_def clamp_priority_def not_less word_le_nat_alt Suc_le_eq unat_gt_0)

interpretation freertos_tasks: inductive_invariant "\<lambda>s. s = FreeRtos_new" freertos_step "\<lambda>s. list_all params_ok (fr_created s)"
proof unfold_locales
  fix s t
  assume "list_all params_ok (fr_created s)" "freertos_step s t"
  then show "list_all params_ok (fr_created t)"
    by (elim freertos_step.cases) (auto simp: freertos_dispatch_def task_params_ok)
qed (simp add: FreeRtos_new_def)

section \<open>Property\<close>


text \<open>One job on a thread of its own, up to the return of \<^verbatim>\<open>waitAll\<close>.\<close>

definition example_waited :: Desktop where
  "example_waited = \<lparr>dk_ledger = \<lparr>lg_tasks = {#}, lg_accepted = {#5#}, lg_ran = {#5#}, lg_completed = {#5#}, lg_closed = {#5#}\<rparr>,
     dk_threads = [], dk_inFlight = 0, dk_waiters = {#AtCheck#}, dk_started = 1, dk_thread = Map.empty, dk_joined = [0]\<rparr>"

lemma reach_waited: "reach (\<lambda>s. s = Desktop_new) desktop_step example_waited"
proof -
  let ?R = "reach (\<lambda>s. s = Desktop_new) desktop_step"
  note defs = executor_defs Desktop_new_def Ledger_new_def accept_def call_fn_def call_onComplete_def move_def close_def
  have r0: "?R Desktop_new" by (rule reach_init) (rule refl)
  have r1: "?R (desktop_dispatch 5 Desktop_new)" by (rule reach_step [OF r0 desktop_step.dispatch])
  have r2: "?R ((desktop_dispatch 5 Desktop_new)\<lparr>dk_ledger := call_fn 5 (dk_ledger (desktop_dispatch 5 Desktop_new))\<rparr>)" (is "reach _ _ ?s2")
    by (rule reach_step [OF r1 desktop_step.fn]) (simp add: defs)
  have r3: "?R (?s2\<lparr>dk_ledger := call_onComplete 5 (dk_ledger ?s2)\<rparr>)" (is "reach _ _ ?s3")
    by (rule reach_step [OF r2 desktop_step.onComplete]) (simp add: defs)
  have r4: "?R (desktop_publish 0 5 ?s3)" (is "reach _ _ ?s4")
    by (rule reach_step [OF r3 desktop_step.publish]) (simp_all add: defs)
  have r5: "?R (?s4\<lparr>dk_waiters := add_mset AtCheck (dk_waiters ?s4)\<rparr>)" (is "reach _ _ ?s5")
    by (rule reach_step [OF r4 desktop_step.wait_call])
  have r6: "?R (swap_waiter AtCheck AwaitingIdle ?s5)" (is "reach _ _ ?s6")
    by (rule reach_step [OF r5 desktop_step.wait_loop]) (simp_all add: defs desktop_busy_def)
  have r7: "?R ((swap_waiter AwaitingIdle (Joining (dk_threads ?s6)) ?s6)\<lparr>dk_threads := []\<rparr>)" (is "reach _ _ ?s7")
    by (rule reach_step [OF r6 desktop_step.wait_idle]) (simp_all add: defs)
  have r8: "?R ((swap_waiter (Joining [0]) (Joining []) ?s7)\<lparr>dk_joined := dk_joined ?s7 @ [0]\<rparr>)" (is "reach _ _ ?s8")
    by (rule reach_step [OF r7 desktop_step.join]) (simp_all add: defs)
  have "?R (swap_waiter (Joining []) AtCheck ?s8)"
    by (rule reach_step [OF r8 desktop_step.relock]) (simp add: defs)
  then show ?thesis by (simp add: defs example_waited_def)
qed


end
