(* ===== verification/TickLoop.thy ===== *)
theory TickLoop
  imports Prelude
begin

text \<open>
  Recurring jobs: \<^verbatim>\<open>TickLoop\<close> (\<^verbatim>\<open>src/tick_loop.cpp\<close>, \<^verbatim>\<open>include/sub0pipeline/tick_loop.hpp\<close>). The clock is the steady clock in nanoseconds since its
  epoch, intervals are milliseconds. The outside world is a list of passes: the time each one reads and whether a stop
  was requested by its end; the list ends where the loop condition finds the stop.
\<close>

section \<open>Model\<close>

record 'f TickJob =
  tj_interval :: int
  tj_fn :: 'f

definition TickLoop_add :: "'f TickJob \<Rightarrow> 'f TickJob list \<Rightarrow> 'f TickJob list" where
  "TickLoop_add tick ticks = ticks @ [tick]"

definition elapsed :: "int \<Rightarrow> int \<Rightarrow> int" where
  "elapsed now lastRun = (now - lastRun) div 1000000"

text \<open>One round of the inner loop: the last runs and the calls made so far.\<close>

definition visit :: "'f TickJob list \<Rightarrow> int \<Rightarrow> nat \<Rightarrow> int list \<times> nat list \<Rightarrow> int list \<times> nat list" where
  "visit ticks now i = (\<lambda>(lastRun, calls).
     if elapsed now (lastRun ! i) \<ge> tj_interval (ticks ! i) then (lastRun[i := now], calls @ [i]) else (lastRun, calls))"

definition tick_pass :: "'f TickJob list \<Rightarrow> int \<Rightarrow> int list \<Rightarrow> int list \<times> nat list" where
  "tick_pass ticks now lastRun = fold (visit ticks now) [0..<length ticks] (lastRun, [])"

fun tick_loop :: "'f TickJob list \<Rightarrow> (int \<times> bool) list \<Rightarrow> int list \<Rightarrow> (int \<times> nat) list" where
  "tick_loop ticks [] lastRun = []"
| "tick_loop ticks ((now, stopped) # passes) lastRun =
     (case tick_pass ticks now lastRun of (lastRun1, calls) \<Rightarrow>
        map (Pair now) calls @ (if stopped then [] else tick_loop ticks passes lastRun1))"

definition tick_run :: "'f TickJob list \<Rightarrow> (int \<times> bool) list \<Rightarrow> (int \<times> nat) list" where
  "tick_run ticks passes = tick_loop ticks passes (replicate (length ticks) 0)"

section \<open>Intervals\<close>

definition due :: "'f TickJob list \<Rightarrow> int \<Rightarrow> int list \<Rightarrow> nat \<Rightarrow> bool" where
  "due ticks now lastRun i \<longleftrightarrow> tj_interval (ticks ! i) \<le> elapsed now (lastRun ! i)"

text \<open>A pass calls exactly the due jobs, in the order they were added.\<close>

lemma fold_visit:
  assumes "k \<le> length lastRun"
  shows "fold (visit ticks now) [0..<k] (lastRun, []) =
    (map (\<lambda>i. if i < k \<and> due ticks now lastRun i then now else lastRun ! i) [0..<length lastRun], filter (due ticks now lastRun) [0..<k])"
  using assms
proof (induction k)
  case 0
  then show ?case by (simp add: map_nth)
next
  case (Suc k)
  have "(map (\<lambda>i. if i < k \<and> due ticks now lastRun i then now else lastRun ! i) [0..<length lastRun])[k := now] =
      map (\<lambda>i. if i < Suc k \<and> due ticks now lastRun i then now else lastRun ! i) [0..<length lastRun]" if "due ticks now lastRun k"
    using that Suc.prems by (intro nth_equalityI) (auto simp: nth_list_update less_Suc_eq)
  moreover have "map (\<lambda>i. if i < k \<and> due ticks now lastRun i then now else lastRun ! i) [0..<length lastRun] =
      map (\<lambda>i. if i < Suc k \<and> due ticks now lastRun i then now else lastRun ! i) [0..<length lastRun]" if "\<not> due ticks now lastRun k"
    using that by (auto simp: less_Suc_eq)
  ultimately show ?case using Suc by (auto simp: visit_def due_def)
qed

lemma tick_pass_eq:
  assumes "length lastRun = length ticks"
  shows "tick_pass ticks now lastRun =
    (map (\<lambda>i. if due ticks now lastRun i then now else lastRun ! i) [0..<length ticks], filter (due ticks now lastRun) [0..<length ticks])"
  using fold_visit [of "length ticks" lastRun ticks now] assms by (simp add: tick_pass_def)

definition times_of :: "nat \<Rightarrow> (int \<times> nat) list \<Rightarrow> int list" where
  "times_of i log = map fst (filter (\<lambda>c. snd c = i) log)"

lemma times_of_pass: "times_of i (map (Pair now) (filter P [0..<n])) = (if i < n \<and> P i then [now] else [])"
  by (induction n) (auto simp: times_of_def less_Suc_eq)

text \<open>Two calls of one job are at least its interval apart, and it is called in every pass that finds the interval elapsed.\<close>

lemma calls_spaced:
  assumes "i < length ticks" "length lastRun = length ticks"
  shows "successively (\<lambda>a b. tj_interval (ticks ! i) \<le> elapsed b a) (lastRun ! i # times_of i (tick_loop ticks passes lastRun))"
  using assms(2)
proof (induction passes arbitrary: lastRun)
  case Nil
  then show ?case by (simp add: times_of_def)
next
  case (Cons p passes)
  obtain now stopped where p: "p = (now, stopped)" by fastforce
  let ?next = "map (\<lambda>k. if due ticks now lastRun k then now else lastRun ! k) [0..<length ticks]"
  have "times_of i (tick_loop ticks (p # passes) lastRun) =
      (if due ticks now lastRun i then [now] else []) @ (if stopped then [] else times_of i (tick_loop ticks passes ?next))"
    using assms(1) times_of_pass [of i now "due ticks now lastRun" "length ticks"]
    by (simp add: p tick_pass_eq [OF Cons.prems]) (simp add: times_of_def)
  then show ?case
    using Cons.IH [of ?next] assms(1) by (auto simp: due_def)
qed

lemma due_jobs_are_called:
  assumes "length lastRun = length ticks"
  shows "set (snd (tick_pass ticks now lastRun)) = {i. i < length ticks \<and> tj_interval (ticks ! i) \<le> elapsed now (lastRun ! i)}"
  using assms by (auto simp: tick_pass_eq due_def)

text \<open>
  The times of the last calls start at the epoch of the clock, not at the call of \<^verbatim>\<open>run\<close>: a job with an interval of a minute is not called in the
  first pass of a loop that starts five seconds after the epoch, although \<^verbatim>\<open>tick_loop.hpp\<close> promises its first call there.
\<close>

lemma first_pass_can_skip_a_job: "tick_run [\<lparr>tj_interval = 60000, tj_fn = ()\<rparr>] [(5000000000, True)] = []"
  by (simp add: tick_run_def tick_pass_def visit_def elapsed_def)

lemma first_pass_calls_what_is_due:
  assumes "i < length ticks" "tj_interval (ticks ! i) \<le> now div 1000000"
  shows "(now, i) \<in> set (tick_run ticks ((now, stopped) # passes))"
  using assms tick_pass_eq [of "replicate (length ticks) 0" ticks now] by (simp add: tick_run_def due_def elapsed_def)

end
