(* ===== verification/Spec2Isabelle.thy ===== *)
theory Spec2Isabelle
  imports Registry ChannelProperties Remote PriorityPool Transports Dsl OnDemand TimerService Executors TickLoop
begin

text \<open>
  \<^bold>\<open>Sub0Pipeline: a model of the library and the theorems that make it correct\<close>

  The program. Sub0Pipeline runs graphs of jobs. A \<^verbatim>\<open>Pipeline\<close> owns the jobs and their dependency edges;
  \<^verbatim>\<open>run()\<close> validates the graph, hands jobs without open dependencies to an \<^verbatim>\<open>IExecutor\<close> and releases the
  successors of each job that ends; a failure skips everything behind it. Jobs can have time limits, be
  cancelled, be optional, be triggered on demand, or be \<^emph>\<open>deferred\<close>, which means that they are completed later through a
  \<^verbatim>\<open>Completion\<close> handle. On top of that \<^verbatim>\<open>sub0pipeline::remote\<close> sends sub-graphs to a worker process: a
  \<^verbatim>\<open>RemoteChannel\<close> encodes a request, a \<^verbatim>\<open>WorkerHost\<close> decodes it, runs it as a pipeline of its own and
  answers; large payloads travel by a negotiated strategy (chunks on the connection, a store, or shared memory) over an
  \<^verbatim>\<open>ITransport\<close> that carries frames.

  \<^bold>\<open>How the code is represented.\<close> Structs are records with the field names of the source behind a short prefix, enums
  are datatypes, \<^verbatim>\<open>std::expected\<close> and thrown errors are sums, fixed-width integers are words so that wrap-around is
  the code's own. An operation is a function from the old state to the new one. Code outside the repository
  and user code never get a made-up definition: callables are opaque values of a type parameter; what bodies return, what timers
  do and when stops arrive are arguments (\<open>Invocation\<close>, \<open>Env\<close>, lists of answers); the shared-memory system calls and the payload store
  are tables of functions. Concurrency is a step relation over small atomic steps (one locked region, one
  atomic access), and theorems speak about all interleavings.

  \<^bold>\<open>The theories.\<close>

  \<^item> \<open>Prelude\<close>, \<open>PipelineTypes\<close>: integer types, vectors, reachability, the locale \<open>inductive_invariant\<close> that every
    step relation below interprets; the error codes and job statuses of \<^verbatim>\<open>error.hpp\<close> and \<^verbatim>\<open>job.hpp\<close>.

  \<^item> \<open>PoolSuccessors\<close>: \<^verbatim>\<open>struct PoolSuccessors\<close> of \<^verbatim>\<open>src/sub0pipeline.cpp\<close>, the 12-byte successor list with its flag
    bits and the shared arena. The locale \<open>append_family\<close> states what a family of append-only lists promises; the arena
    interprets it, so pushing refines appending to lists, and the arena stays below four entries per edge.

  \<^item> \<open>Deferred\<close>, \<open>Graph\<close>: deferred slots and completions; nodes, handles, every builder method and Kahn's algorithm of
    \<^verbatim>\<open>validate\<close>. \<open>build_step\<close> has one rule per public builder call. Shown: consistency of counts and edges after any
    calls, termination of \<^verbatim>\<open>validate\<close> and that it reports exactly the cyclic graphs.

  \<^item> \<open>Schedule\<close>: one run on any executor, as a multiset of tasks that are interleaved step by step (\<^verbatim>\<open>DispatchContext\<close> of
    \<^verbatim>\<open>runImpl\<close>). Shown: dependency order, single start, termination of every run with no stuck thread, complete
    accounting, containment of failures, meaning of the result.

  \<^item> \<open>Invoke\<close>, \<open>Scheduler\<close>, \<open>InlineSim\<close>, \<open>Lifecycle\<close>: calling a job with its time limit and cancellation; the functions of the inline
    run, one per member function; the simulation that makes an inline run a run of \<open>Schedule\<close>; pipelines that are
    built, run, edited and run again. \<^verbatim>\<open>run_ready\<close> is a partial function in the option monad and \<open>inline_loop\<close>
    consumes a list of rounds of outside events; that both return is a theorem, not an assumption.

  \<^item> \<open>Bytes\<close>, \<open>Wire\<close>, \<open>Framing\<close>: little-endian integers, every encoder and decoder of \<^verbatim>\<open>wire.cpp\<close>, \<^verbatim>\<open>FrameReader\<close> and
    \<^verbatim>\<open>sendParts\<close>. The locale \<open>codec\<close> (and \<open>two_codecs\<close> for pairs) states one round-trip law, interpreted for every field
    type, from which the frame round trips are put together.

  \<^item> \<open>Registry\<close>: \<^verbatim>\<open>JobRegistry\<close> and the fingerprint; locale \<open>kind_table\<close>.

  \<^item> \<open>Strategy\<close>, \<open>StreamStrategy\<close>, \<open>SharedMemory\<close>, \<open>RegionAllocator\<close>, \<open>RegionPayloads\<close>: the payload strategies as tables of
    operations. The locales \<open>payload_carrier\<close> and \<open>framed_carrier\<close> state what a strategy promises its users and are
    interpreted by the stream strategy. The allocator's invariant is that free and used blocks tile the region.

  \<^item> \<open>Channel\<close>, \<open>ChannelInv\<close>, \<open>ChannelProperties\<close>, \<open>WorkerRun\<close>, \<open>WorkerHost\<close>, \<open>Handshake\<close>, \<open>Remote\<close>: the two ends of a connection as step relations
    over their threads, the negotiation between them (locale \<open>named_strategies\<close>), and a request and its reply followed from one end to
    the other.

  \<^item> \<open>PriorityPool\<close>: \<^verbatim>\<open>BasicPriorityExecutor\<close>, with the waits and notifications of its condition variables as steps.

  \<^item> \<open>Transports\<close>: the loopback and the pipe transport; locale \<open>frame_queue\<close>, interpreted by both.

  \<^item> \<open>Dsl\<close>: the composition operators of \<^verbatim>\<open>dsl.hpp\<close> and \<^verbatim>\<open>job_group.hpp\<close>, one definition per overload over the builder calls
    of \<open>Graph\<close>. Shown: an expression adds exactly the jobs and edges of its abstract reading (\<open>reading\<close>, \<open>wiring\<close>), and one that
    only describes new jobs is acyclic.

  \<^item> \<open>OnDemand\<close>: moved-from pipelines, the queries of \<^verbatim>\<open>Pipeline\<close>, \<^verbatim>\<open>runUntil\<close>, the thread of \<^verbatim>\<open>RunScope\<close>, and \<^verbatim>\<open>arm\<close> with concurrent calls of
    \<^verbatim>\<open>trigger\<close> as a step relation. Shown: one invocation of a job at a time, each submission begun and ended once.

  \<^item> \<open>TimerService\<close>: the timer thread behind deferred jobs with a time limit and the callers of \<^verbatim>\<open>arm\<close> and \<^verbatim>\<open>cancelAndWait\<close>. Shown:
    no early, double or late expiry, nothing left of a cancelled deadline, no lost wake-up.

  \<^item> \<open>Executors\<close>: \<^verbatim>\<open>DesktopExecutor\<close>, \<^verbatim>\<open>FreeRtosExecutor\<close>, \<^verbatim>\<open>ScopedExecutor\<close> and \<^verbatim>\<open>SequentialExecutor\<close>. The locale
    \<open>counting_executor\<close> says what counting jobs in flight gives, and the first three interpret it: when \<^verbatim>\<open>waitAll\<close> finds nothing in
    flight, every accepted job has run and been completed.

  \<^item> \<open>TickLoop\<close>: the passes of \<^verbatim>\<open>TickLoop::run\<close> over the clock readings they take. Shown: calls of one job are at least its interval apart,
    and a job that is due is called in the pass. \<open>TaskBags\<close> holds lemmas on multisets of threads that the step relations share.

  \<^bold>\<open>Bounds and fuel.\<close> No theorem depends on a fuel value. Loops that the code bounds are structural recursions or have a
  \<open>termination\<close> proof; loops that wait for the outside world consume a list of its answers, and the statements quantify over
  that list. Sizes are those of the code: 65,536 jobs, 32,767 successors of one job, 64-byte handles, 32-bit frame lengths.

  \<^bold>\<open>Not modelled.\<close> Memory ordering is taken as sequentially consistent; destructors that only free memory,
  logging and \<^verbatim>\<open>SIGPIPE\<close> handling have no counterpart. The mapping of shared regions
  (\<^verbatim>\<open>shared_region.cpp\<close>) and the processes behind \<^verbatim>\<open>PipeTransport\<close> are operating-system calls. How the threads of a threaded run hand on
  the completions of deferred jobs is abstracted to the steps of \<open>Schedule\<close>; only the inline run follows that code function by function.
  \<^verbatim>\<open>concurrency()\<close> of the executors reports a property of the machine, \<^verbatim>\<open>default_executor.hpp\<close> chooses a type, and example
  programs only use the library; they are not modelled.
\<close>

end
